(* ===== verification/Prelude.thy ===== *)
theory Prelude
  imports Main "HOL-Library.Word"
begin

text \<open>
  The shared base of the development: machine-integer types, the outcome of a
  kernel routine, the combinators the models of the C functions are written
  with, their weakest preconditions, and generic lemmas on tables and lists.

  A C function that reads or changes kernel state is modelled as a function
  from the state to an \<open>outcome\<close>:
  \<^item> \<open>Ret x s\<close>: it returned \<open>x\<close>, leaving the state \<open>s\<close>;
  \<^item> \<open>Panic m\<close>: it called \<open>panic(m)\<close>, which never returns;
  \<^item> \<open>Switch s\<close>: it gave up the processor in \<open>sched\<close> with the state \<open>s\<close> (the
    rest of the function runs only when the scheduler picks the process again);
  \<^item> \<open>Wild m\<close>: it read or wrote memory it does not own (an array index out of
    range, a null pointer), which C leaves undefined.
\<close>

type_synonym uchar = "8 word"
type_synonym ushort = "16 word"
type_synonym uint = "32 word"
type_synonym bytes = "uchar list"

datatype ('a, 's) outcome = Ret 'a 's | Panic string | Switch 's | Wild string

type_synonym ('s, 'a) kop = "'s \<Rightarrow> ('a, 's) outcome"

named_theorems kops "evaluation rules of the combinators"

subsection \<open>Combinators\<close>

definition ret :: "'a \<Rightarrow> ('s, 'a) kop" where
  "ret x = (\<lambda>s. Ret x s)"

definition bnd :: "('s, 'a) kop \<Rightarrow> ('a \<Rightarrow> ('s, 'b) kop) \<Rightarrow> ('s, 'b) kop" where
  "bnd m f = (\<lambda>s. case m s of Ret x t \<Rightarrow> f x t | Panic e \<Rightarrow> Panic e
                | Switch t \<Rightarrow> Switch t | Wild e \<Rightarrow> Wild e)"

definition gets :: "('s \<Rightarrow> 'a) \<Rightarrow> ('s, 'a) kop" where
  "gets f = (\<lambda>s. Ret (f s) s)"

definition mods :: "('s \<Rightarrow> 's) \<Rightarrow> ('s, unit) kop" where
  "mods f = (\<lambda>s. Ret () (f s))"

definition panic :: "string \<Rightarrow> ('s, 'a) kop" where
  "panic e = (\<lambda>_. Panic e)"

definition wild :: "string \<Rightarrow> ('s, 'a) kop" where
  "wild e = (\<lambda>_. Wild e)"

definition switch :: "('s, 'a) kop" where
  "switch = (\<lambda>s. Switch s)"

text \<open>Statements in sequence, a guarded statement, and a \<open>for\<close> loop over a range.\<close>

primrec seqs :: "('s, unit) kop list \<Rightarrow> ('s, unit) kop" where
  "seqs [] = ret ()"
| "seqs (m # ms) = bnd m (\<lambda>_. seqs ms)"

definition whenk :: "bool \<Rightarrow> ('s, unit) kop \<Rightarrow> ('s, unit) kop" where
  "whenk b m = (if b then m else ret ())"

primrec for_each :: "'i list \<Rightarrow> ('i \<Rightarrow> ('s, unit) kop) \<Rightarrow> ('s, unit) kop" where
  "for_each [] f = ret ()"
| "for_each (i # is) f = bnd (f i) (\<lambda>_. for_each is f)"

lemma ret_apply [kops]: "ret x s = Ret x s"
  by (simp add: ret_def)

lemma bnd_apply [kops]:
  "bnd m f s = (case m s of Ret x t \<Rightarrow> f x t | Panic e \<Rightarrow> Panic e
              | Switch t \<Rightarrow> Switch t | Wild e \<Rightarrow> Wild e)"
  by (simp add: bnd_def)

lemma gets_apply [simp, kops]: "gets f s = Ret (f s) s"
  by (simp add: gets_def)

lemma mods_apply [simp, kops]: "mods f s = Ret () (f s)"
  by (simp add: mods_def)

lemma panic_apply [simp, kops]: "panic e s = Panic e"
  by (simp add: panic_def)

lemma wild_apply [simp, kops]: "wild e s = Wild e"
  by (simp add: wild_def)

lemma switch_apply [kops]: "switch s = Switch s"
  by (simp add: switch_def)

lemma whenk_apply [kops]: "whenk b m s = (if b then m s else Ret () s)"
  by (simp add: whenk_def ret_apply)

text \<open>The monad laws.\<close>

lemma bnd_ret_left [simp]: "bnd (ret x) f = f x"
  by (rule ext) (simp add: bnd_apply ret_apply)

lemma bnd_ret_right [simp]: "bnd m ret = m"
  by (rule ext) (simp add: bnd_apply ret_apply split: outcome.split)

lemma bnd_assoc: "bnd (bnd m f) g = bnd m (\<lambda>x. bnd (f x) g)"
  by (rule ext) (simp add: bnd_apply split: outcome.split)

lemma seqs_append: "seqs (xs @ ys) = bnd (seqs xs) (\<lambda>_. seqs ys)"
  by (induction xs) (simp_all add: bnd_assoc)

lemma for_each_append: "for_each (xs @ ys) f = bnd (for_each xs f) (\<lambda>_. for_each ys f)"
  by (induction xs) (simp_all add: bnd_assoc)

lemma bnd_RetE:
  assumes "bnd m f s = Ret y t"
  obtains x u where "m s = Ret x u" "f x u = Ret y t"
  using assms by (auto simp: bnd_apply split: outcome.splits)

lemma bnd_Ret_iff: "bnd m f s = Ret y t \<longleftrightarrow> (\<exists>x u. m s = Ret x u \<and> f x u = Ret y t)"
  by (auto simp: bnd_apply split: outcome.splits)

subsection \<open>Weakest preconditions\<close>

text \<open>
  \<open>ok m s Q\<close>: from \<open>s\<close>, the routine returns, and its result and final state
  satisfy \<open>Q\<close> (total correctness). \<open>upon m s Q\<close>: if it returns, they do.
\<close>

definition ok :: "('s, 'a) kop \<Rightarrow> 's \<Rightarrow> ('a \<Rightarrow> 's \<Rightarrow> bool) \<Rightarrow> bool" where
  "ok m s Q = (case m s of Ret x t \<Rightarrow> Q x t | _ \<Rightarrow> False)"

definition upon :: "('s, 'a) kop \<Rightarrow> 's \<Rightarrow> ('a \<Rightarrow> 's \<Rightarrow> bool) \<Rightarrow> bool" where
  "upon m s Q = (case m s of Ret x t \<Rightarrow> Q x t | _ \<Rightarrow> True)"

named_theorems wp "weakest preconditions of the combinators"

lemma ok_iff: "ok m s Q \<longleftrightarrow> (\<exists>x t. m s = Ret x t \<and> Q x t)"
  by (auto simp: ok_def split: outcome.splits)

lemma upon_iff: "upon m s Q \<longleftrightarrow> (\<forall>x t. m s = Ret x t \<longrightarrow> Q x t)"
  by (auto simp: upon_def split: outcome.splits)

lemma okI: "m s = Ret x t \<Longrightarrow> Q x t \<Longrightarrow> ok m s Q"
  by (simp add: ok_def)

lemma okE:
  assumes "ok m s Q"
  obtains x t where "m s = Ret x t" "Q x t"
  using assms by (auto simp: ok_iff)

lemma ok_mono: "ok m s Q \<Longrightarrow> (\<And>x t. Q x t \<Longrightarrow> R x t) \<Longrightarrow> ok m s R"
  by (auto simp: ok_iff)

lemma upon_mono: "upon m s Q \<Longrightarrow> (\<And>x t. Q x t \<Longrightarrow> R x t) \<Longrightarrow> upon m s R"
  by (auto simp: upon_iff)

lemma uponD: "upon m s Q \<Longrightarrow> m s = Ret x t \<Longrightarrow> Q x t"
  by (simp add: upon_iff)

lemma upon_True [simp]: "upon m s (\<lambda>_ _. True)"
  by (simp add: upon_iff)

lemma ok_upon: "ok m s Q \<Longrightarrow> upon m s Q"
  by (auto simp: ok_iff upon_iff)

lemma ok_ret [simp, wp]: "ok (ret x) s Q = Q x s"
  and ok_gets [simp, wp]: "ok (gets f) s Q = Q (f s) s"
  and ok_mods [simp, wp]: "ok (mods g) s Q' = Q' () (g s)"
  and ok_panic [simp, wp]: "ok (panic e) s Q = False"
  and ok_wild [simp, wp]: "ok (wild e) s Q = False"
  and ok_switch [simp, wp]: "ok switch s Q = False"
  by (simp_all add: ok_def ret_apply switch_apply)

lemma ok_bnd [simp, wp]: "ok (bnd m f) s Q = ok m s (\<lambda>x t. ok (f x) t Q)"
  by (auto simp: ok_def bnd_apply split: outcome.split)

lemma ok_bndI: "ok m s P \<Longrightarrow> (\<And>x t. P x t \<Longrightarrow> ok (f x) t Q) \<Longrightarrow> ok (bnd m f) s Q"
  by (auto intro: ok_mono)

lemma ok_whenk [wp]: "ok (whenk b m) s Q = (if b then ok m s Q else Q () s)"
  by (simp add: whenk_def)

lemma upon_ret [simp, wp]: "upon (ret x) s Q = Q x s"
  and upon_gets [simp, wp]: "upon (gets f) s Q = Q (f s) s"
  and upon_mods [simp, wp]: "upon (mods g) s Q' = Q' () (g s)"
  and upon_panic [simp, wp]: "upon (panic e) s Q = True"
  and upon_wild [simp, wp]: "upon (wild e) s Q = True"
  and upon_switch [simp, wp]: "upon switch s Q = True"
  by (simp_all add: upon_def ret_apply switch_apply)

lemma upon_bnd [simp, wp]: "upon (bnd m f) s Q = upon m s (\<lambda>x t. upon (f x) t Q)"
  by (auto simp: upon_def bnd_apply split: outcome.split)

lemma upon_whenk [wp]: "upon (whenk b m) s Q = (if b then upon m s Q else Q () s)"
  by (simp add: whenk_def)

text \<open>An invariant of the body is an invariant of the loop.\<close>

lemma upon_for_each:
  assumes "\<And>i t. i \<in> set is \<Longrightarrow> P t \<Longrightarrow> upon (f i) t (\<lambda>_. P)" and "P s"
  shows "upon (for_each is f) s (\<lambda>_. P)"
  using assms
proof (induction "is" arbitrary: s)
  case Nil
  then show ?case by simp
next
  case (Cons i "is")
  from Cons.prems have "upon (f i) s (\<lambda>_. P)" by simp
  then show ?case
    using Cons.IH Cons.prems(1) by (auto elim!: upon_mono)
qed

lemma ok_for_each:
  assumes "\<And>k t. k < length is \<Longrightarrow> P k t \<Longrightarrow> ok (f (is ! k)) t (\<lambda>_. P (Suc k))"
    and "P 0 s"
  shows "ok (for_each is f) s (\<lambda>_. P (length is))"
  using assms
proof (induction "is" arbitrary: s P)
  case Nil
  then show ?case by simp
next
  case (Cons i "is")
  have "ok (f i) s (\<lambda>_. P (Suc 0))"
    using Cons.prems(1) [of 0 s] Cons.prems(2) by simp
  moreover have "ok (for_each is f) t (\<lambda>_. P (Suc (length is)))" if "P (Suc 0) t" for t
  proof (rule Cons.IH [of "\<lambda>k. P (Suc k)", OF _ that])
    fix k u assume "k < length is" "P (Suc k) u"
    then show "ok (f (is ! k)) u (\<lambda>_. P (Suc (Suc k)))"
      using Cons.prems(1) [of "Suc k" u] by simp
  qed
  ultimately show ?case by (auto elim!: ok_mono)
qed

subsection \<open>Searching a table\<close>

text \<open>
  The kernel's tables are arrays scanned from index 0; the scan stops at the
  first entry that satisfies a condition.
\<close>

definition scan :: "nat \<Rightarrow> (nat \<Rightarrow> bool) \<Rightarrow> nat option" where
  "scan n P = List.find P [0..<n]"

lemma scan_Some_iff: "scan n P = Some i \<longleftrightarrow> i < n \<and> P i \<and> (\<forall>j < i. \<not> P j)"
proof
  assume "scan n P = Some i"
  then show "i < n \<and> P i \<and> (\<forall>j < i. \<not> P j)"
    by (auto simp: scan_def find_Some_iff)
next
  assume "i < n \<and> P i \<and> (\<forall>j < i. \<not> P j)"
  then show "scan n P = Some i"
    unfolding scan_def find_Some_iff by (intro exI [of _ i]) auto
qed

lemma scan_None_iff: "scan n P = None \<longleftrightarrow> (\<forall>i < n. \<not> P i)"
  by (auto simp: scan_def find_None_iff)

lemma scan_SomeD: "scan n P = Some i \<Longrightarrow> i < n \<and> P i"
  by (simp add: scan_Some_iff)

lemma scan_cong: "(\<And>i. i < n \<Longrightarrow> P i = Q i) \<Longrightarrow> scan n P = scan n Q"
  unfolding scan_def by (rule find_cong) auto

lemma scan_eqI: "i < n \<Longrightarrow> P i \<Longrightarrow> (\<And>j. j < i \<Longrightarrow> \<not> P j) \<Longrightarrow> scan n P = Some i"
  by (simp add: scan_Some_iff)

lemma scan_exI: "i < n \<Longrightarrow> P i \<Longrightarrow> \<exists>k. scan n P = Some k"
  by (metis not_None_eq scan_None_iff)

subsection \<open>Lists\<close>

lemma nth_replicate_If: "i < n \<Longrightarrow> replicate n x ! i = x"
  by simp

lemma take_drop_update:
  "length ys = m \<Longrightarrow> n + m \<le> length xs \<Longrightarrow>
   length (take n xs @ ys @ drop (n + m) xs) = length xs"
  by simp

lemma sint_of_nat_small: "k < 2 ^ 31 \<Longrightarrow> sint (of_nat k :: uint) = int k"
  by (simp add: signed_of_nat signed_take_bit_int_eq_self)

end
