(* ===== verification/Params.thy ===== *)
theory Params
  imports Prelude
begin

unbundle bit_operations_syntax

text \<open>
  The compile-time parameters of the kernel (param.h, memlayout.h), the page
  and address macros of mmu.h, and the facts about address arithmetic that the
  memory-management theories use.
\<close>

subsection \<open>param.h, memlayout.h\<close>

definition NPROC :: nat where "NPROC = 64"
definition KSTACKSIZE :: uint where "KSTACKSIZE = 4096"
definition NOFILE :: nat where "NOFILE = 16"
definition NFILE :: nat where "NFILE = 100"
definition NINODE :: nat where "NINODE = 50"
definition NDEV :: nat where "NDEV = 10"
definition ROOTDEV :: uint where "ROOTDEV = 1"
definition MAXARG :: nat where "MAXARG = 32"
definition MAXOPBLOCKS :: nat where "MAXOPBLOCKS = 10"
definition LOGSIZE :: nat where "LOGSIZE = MAXOPBLOCKS * 3"
definition NBUF :: nat where "NBUF = MAXOPBLOCKS * 3"
definition FSSIZE :: nat where "FSSIZE = 1000"
definition QUANTA :: int where "QUANTA = 5"

definition EXTMEM :: uint where "EXTMEM = 0x100000"
definition PHYSTOP :: uint where "PHYSTOP = 0xE000000"
definition DEVSPACE :: uint where "DEVSPACE = 0xFE000000"
definition KERNBASE :: uint where "KERNBASE = 0x80000000"
definition KERNLINK :: uint where "KERNLINK = KERNBASE + EXTMEM"

definition V2P :: "uint \<Rightarrow> uint" where "V2P a = a - KERNBASE"
definition P2V :: "uint \<Rightarrow> uint" where "P2V a = a + KERNBASE"

lemmas param_defs = NPROC_def KSTACKSIZE_def NOFILE_def NFILE_def NINODE_def NDEV_def
  ROOTDEV_def MAXARG_def MAXOPBLOCKS_def LOGSIZE_def NBUF_def FSSIZE_def QUANTA_def

lemmas layout_defs = EXTMEM_def PHYSTOP_def DEVSPACE_def KERNBASE_def KERNLINK_def
  V2P_def P2V_def

lemma P2V_V2P [simp]: "P2V (V2P a) = a" and V2P_P2V [simp]: "V2P (P2V a) = a"
  by (simp_all add: P2V_def V2P_def)

subsection \<open>mmu.h: pages and page-table entries\<close>

definition NPDENTRIES :: nat where "NPDENTRIES = 1024"
definition NPTENTRIES :: nat where "NPTENTRIES = 1024"
definition PGSIZE :: uint where "PGSIZE = 4096"
definition PTXSHIFT :: nat where "PTXSHIFT = 12"
definition PDXSHIFT :: nat where "PDXSHIFT = 22"

definition PDX :: "uint \<Rightarrow> uint" where "PDX va = drop_bit PDXSHIFT va AND 0x3FF"
definition PTX :: "uint \<Rightarrow> uint" where "PTX va = drop_bit PTXSHIFT va AND 0x3FF"

definition PGADDR :: "uint \<Rightarrow> uint \<Rightarrow> uint \<Rightarrow> uint" where
  "PGADDR d t off = push_bit PDXSHIFT d OR push_bit PTXSHIFT t OR off"

definition PGROUNDUP :: "uint \<Rightarrow> uint" where
  "PGROUNDUP sz = (sz + PGSIZE - 1) AND NOT (PGSIZE - 1)"

definition PGROUNDDOWN :: "uint \<Rightarrow> uint" where
  "PGROUNDDOWN a = a AND NOT (PGSIZE - 1)"

definition PTE_P :: uint where "PTE_P = 1"
definition PTE_W :: uint where "PTE_W = 2"
definition PTE_U :: uint where "PTE_U = 4"
definition PTE_PS :: uint where "PTE_PS = 0x80"

definition PTE_ADDR :: "uint \<Rightarrow> uint" where "PTE_ADDR pte = pte AND NOT 0xFFF"
definition PTE_FLAGS :: "uint \<Rightarrow> uint" where "PTE_FLAGS pte = pte AND 0xFFF"

definition FL_IF :: uint where "FL_IF = 0x200"
definition SEG_KCODE :: nat where "SEG_KCODE = 1"
definition SEG_UCODE :: nat where "SEG_UCODE = 3"
definition SEG_UDATA :: nat where "SEG_UDATA = 4"
definition DPL_USER :: "16 word" where "DPL_USER = 3"

lemmas mmu_defs = PGSIZE_def PTXSHIFT_def PDXSHIFT_def PDX_def PTX_def PGADDR_def
  PGROUNDUP_def PGROUNDDOWN_def PTE_P_def PTE_W_def PTE_U_def PTE_ADDR_def PTE_FLAGS_def

text \<open>The masks of the macros, as \<^const>\<open>mask\<close>, and masking as arithmetic.\<close>

lemma mask_numerals: "(0xFFF :: uint) = mask 12" "(0x3FF :: uint) = mask 10"
  by (simp_all add: mask_eq_exp_minus_1)

lemma and_mask12: "(a :: uint) AND 0xFFF = a mod 4096"
  by (simp add: mask_numerals(1) take_bit_eq_mask [symmetric] take_bit_eq_mod)

lemma and_not_mask12: "(a :: uint) AND NOT 0xFFF = a - a mod 4096"
proof -
  have "a AND NOT (mask 12) = push_bit 12 (drop_bit 12 a)"
    by (rule bit_word_eqI) (auto simp: bit_simps)
  also have "\<dots> = a - take_bit 12 a"
    by (metis add_diff_cancel_right' bits_ident)
  finally show ?thesis
    by (simp add: mask_numerals(1) take_bit_eq_mod del: minus_exp_eq_not_mask)
qed

lemma PGROUNDDOWN_eq: "PGROUNDDOWN a = a - a mod PGSIZE"
  using and_not_mask12 [of a] by (simp add: PGROUNDDOWN_def PGSIZE_def)

lemma unat_mod_PGSIZE: "unat (a mod PGSIZE) = unat a mod 4096"
  by (simp add: PGSIZE_def unat_mod)

lemma unat_PGROUNDDOWN: "unat (PGROUNDDOWN a) = unat a - unat a mod 4096"
proof -
  have "a mod PGSIZE \<le> a"
    by (simp add: word_le_nat_alt unat_mod_PGSIZE)
  then show ?thesis
    by (simp add: PGROUNDDOWN_eq unat_sub unat_mod_PGSIZE)
qed

lemma PGROUNDDOWN_le: "PGROUNDDOWN a \<le> a"
  by (simp add: word_le_nat_alt unat_PGROUNDDOWN)

lemma PGROUNDDOWN_aligned: "PGROUNDDOWN a mod PGSIZE = 0"
proof -
  have "unat (PGROUNDDOWN a) mod 4096 = 0"
    by (simp add: unat_PGROUNDDOWN minus_mod_eq_mult_div)
  then show ?thesis
    by (metis unat_eq_zero unat_mod_PGSIZE)
qed

lemma PGROUNDUP_eq: "PGROUNDUP a = PGROUNDDOWN (a + PGSIZE - 1)"
  by (simp add: PGROUNDUP_def PGROUNDDOWN_def)

lemma PGROUNDUP_aligned: "PGROUNDUP a mod PGSIZE = 0"
  by (simp add: PGROUNDUP_eq PGROUNDDOWN_aligned)

text \<open>Rounding up does not wrap below the last page of the address space.\<close>

lemma unat_PGROUNDUP:
  assumes "unat a \<le> 2 ^ 32 - 4096"
  shows "unat (PGROUNDUP a) = (unat a + 4095) div 4096 * 4096"
proof -
  have e: "a + PGSIZE - 1 = a + 4095" by (simp add: PGSIZE_def)
  have "unat (a + 4095) = unat a + 4095"
    using assms by (simp add: unat_word_ariths)
  then show ?thesis
    by (simp add: PGROUNDUP_eq e unat_PGROUNDDOWN minus_mod_eq_div_mult)
qed

lemma PGROUNDUP_ge:
  assumes "unat a \<le> 2 ^ 32 - 4096" shows "a \<le> PGROUNDUP a"
  using unat_PGROUNDUP [OF assms] by (simp add: word_le_nat_alt)

text \<open>A virtual address is its directory index, table index and offset.\<close>

lemma PGADDR_split: "PGADDR (PDX va) (PTX va) (va AND 0xFFF) = va"
  unfolding mmu_defs mask_numerals
proof (rule bit_word_eqI)
  fix n assume "n < LENGTH(32)"
  then show "bit (push_bit 22 (drop_bit 22 va AND mask 10) OR
      push_bit 12 (drop_bit 12 va AND mask 10) OR (va AND mask 12)) n = bit va n"
    by (cases "22 \<le> n") (auto simp: bit_simps)
qed

end
