(* ===== verification/Spinlock.thy ===== *)
theory Spinlock
  imports Params
begin

text \<open>
  Spin locks (spinlock.c) and the per-CPU interrupt state they keep
  (\<open>pushcli\<close>, \<open>popcli\<close>, and \<open>mycpu\<close> of proc.c).

  Every routine takes the local APIC id \<open>h\<close> that the hardware reports for the
  CPU that runs it (what \<open>lapicid()\<close> returns there); \<open>iflag s h\<close> is that CPU's
  FL_IF bit. \<open>kmemw\<close> is the kernel memory \<open>getcallerpcs\<close> walks, read as words.
  The loop of \<open>acquire\<close> spins while another CPU holds the lock: a call that has
  to spin ends in \<open>Switch\<close>, in the state in which the CPU is spinning, and
  \<open>acquire_spin\<close> is one more iteration of the loop.

  The second half gives the interleaving of any number of CPUs as a step
  relation, with mutual exclusion in every reachable state, and the interface
  (\<open>lock_layer\<close>) that the rest of the kernel relies on.
\<close>

record cpu =
  apicid :: uchar
  ncli :: int
  intena :: bool

record spinlock =
  locked :: uint
  lname :: string
  lcpu :: "nat option"
  pcs :: "uint list"

record 'l spin =
  cpus :: "nat \<Rightarrow> cpu"
  ncpu :: nat
  iflag :: "uchar \<Rightarrow> bool"
  lks :: "'l \<Rightarrow> spinlock"
  kmemw :: "uint \<Rightarrow> uint"

subsection \<open>Interrupt state\<close>

definition cli :: "uchar \<Rightarrow> ('l spin, unit) kop" where
  "cli h = mods (\<lambda>s. s\<lparr>iflag := (iflag s)(h := False)\<rparr>)"

definition sti :: "uchar \<Rightarrow> ('l spin, unit) kop" where
  "sti h = mods (\<lambda>s. s\<lparr>iflag := (iflag s)(h := True)\<rparr>)"

definition cpu_index :: "nat \<Rightarrow> (nat \<Rightarrow> cpu) \<Rightarrow> uchar \<Rightarrow> nat option" where
  "cpu_index n cs h = scan n (\<lambda>i. apicid (cs i) = h)"

definition mycpu :: "uchar \<Rightarrow> ('l spin, nat) kop" where
  "mycpu h =
     bnd (gets (\<lambda>s. iflag s h)) (\<lambda>fl. if fl then panic ''mycpu called with interrupts enabled'' else
     bnd (gets (\<lambda>s. cpu_index (ncpu s) (cpus s) h)) (\<lambda>r. case r of
       Some i \<Rightarrow> ret i
     | None \<Rightarrow> panic ''unknown apicid''))"

definition cpu_upd :: "nat \<Rightarrow> (cpu \<Rightarrow> cpu) \<Rightarrow> ('l spin, unit) kop" where
  "cpu_upd i f = mods (\<lambda>s. s\<lparr>cpus := (cpus s)(i := f (cpus s i))\<rparr>)"

definition pushcli :: "uchar \<Rightarrow> ('l spin, unit) kop" where
  "pushcli h =
     bnd (gets (\<lambda>s. iflag s h)) (\<lambda>eflags. seqs [
       cli h,
       bnd (mycpu h) (\<lambda>c. bnd (gets (\<lambda>s. ncli (cpus s c))) (\<lambda>n.
         whenk (n = 0) (cpu_upd c (\<lambda>p. p\<lparr>intena := eflags\<rparr>)))),
       bnd (mycpu h) (\<lambda>c. cpu_upd c (\<lambda>p. p\<lparr>ncli := ncli p + 1\<rparr>))])"

definition popcli :: "uchar \<Rightarrow> ('l spin, unit) kop" where
  "popcli h =
     bnd (gets (\<lambda>s. iflag s h)) (\<lambda>fl. if fl then panic ''popcli - interruptible'' else
     bnd (mycpu h) (\<lambda>c.
     bnd (cpu_upd c (\<lambda>p. p\<lparr>ncli := ncli p - 1\<rparr>)) (\<lambda>_.
     bnd (gets (\<lambda>s. cpus s c)) (\<lambda>p.
       if ncli p < 0 then panic ''popcli''
       else whenk (ncli p = 0 \<and> intena p) (sti h)))))"

subsection \<open>The locks\<close>

text \<open>\<open>getcallerpcs\<close>: the saved return addresses along the chain of frame pointers.\<close>

fun callerpcs :: "nat \<Rightarrow> (uint \<Rightarrow> uint) \<Rightarrow> uint \<Rightarrow> uint list" where
  "callerpcs 0 m ebp = []"
| "callerpcs (Suc k) m ebp =
     (if ebp = 0 \<or> ebp < KERNBASE \<or> ebp = 0xffffffff then replicate (Suc k) 0
      else m (ebp + 4) # callerpcs k m (m ebp))"

definition getcallerpcs :: "(uint \<Rightarrow> uint) \<Rightarrow> uint \<Rightarrow> uint list" where
  "getcallerpcs m v = callerpcs 10 m (v - 8)"

definition lk_upd :: "'l \<Rightarrow> (spinlock \<Rightarrow> spinlock) \<Rightarrow> ('l spin, unit) kop" where
  "lk_upd l f = mods (\<lambda>s. s\<lparr>lks := (lks s)(l := f (lks s l))\<rparr>)"

definition initlock :: "'l \<Rightarrow> string \<Rightarrow> ('l spin, unit) kop" where
  "initlock l nm = lk_upd l (\<lambda>k. k\<lparr>lname := nm, locked := 0, lcpu := None\<rparr>)"

definition holding :: "uchar \<Rightarrow> 'l \<Rightarrow> ('l spin, bool) kop" where
  "holding h l =
     bnd (pushcli h) (\<lambda>_.
     bnd (mycpu h) (\<lambda>c.
     bnd (gets (\<lambda>s. locked (lks s l) \<noteq> 0 \<and> lcpu (lks s l) = Some c)) (\<lambda>r.
     bnd (popcli h) (\<lambda>_. ret r))))"

text \<open>
  \<open>acquire_enter\<close> is the code of \<open>acquire\<close> before its loop, \<open>acquire_spin\<close> one
  \<open>xchg\<close> and, when that finds the lock free, the code after the loop. \<open>v\<close> is the
  address of the argument on the stack, from where the call stack is recorded.
\<close>

definition acquire_enter :: "uchar \<Rightarrow> 'l \<Rightarrow> ('l spin, unit) kop" where
  "acquire_enter h l =
     bnd (pushcli h) (\<lambda>_.
     bnd (holding h l) (\<lambda>r. if r then panic ''acquire'' else ret ()))"

definition xchg :: "'l \<Rightarrow> uint \<Rightarrow> ('l spin, uint) kop" where
  "xchg l v =
     bnd (gets (\<lambda>s. locked (lks s l))) (\<lambda>old.
     bnd (lk_upd l (\<lambda>k. k\<lparr>locked := v\<rparr>)) (\<lambda>_. ret old))"

definition acquire_spin :: "uchar \<Rightarrow> uint \<Rightarrow> 'l \<Rightarrow> ('l spin, unit) kop" where
  "acquire_spin h v l =
     bnd (xchg l 1) (\<lambda>old. if old \<noteq> 0 then switch else
     bnd (mycpu h) (\<lambda>c.
     bnd (lk_upd l (\<lambda>k. k\<lparr>lcpu := Some c\<rparr>)) (\<lambda>_.
     bnd (gets kmemw) (\<lambda>m. lk_upd l (\<lambda>k. k\<lparr>pcs := getcallerpcs m v\<rparr>)))))"

definition acquire :: "uchar \<Rightarrow> uint \<Rightarrow> 'l \<Rightarrow> ('l spin, unit) kop" where
  "acquire h v l = bnd (acquire_enter h l) (\<lambda>_. acquire_spin h v l)"

definition release :: "uchar \<Rightarrow> 'l \<Rightarrow> ('l spin, unit) kop" where
  "release h l =
     bnd (holding h l) (\<lambda>r. if \<not> r then panic ''release'' else seqs [
       lk_upd l (\<lambda>k. k\<lparr>pcs := (pcs k)[0 := 0]\<rparr>),
       lk_upd l (\<lambda>k. k\<lparr>lcpu := None\<rparr>),
       lk_upd l (\<lambda>k. k\<lparr>locked := 0\<rparr>),
       popcli h])"

subsection \<open>The call stack record\<close>

lemma length_callerpcs: "length (callerpcs k m ebp) = k"
  by (induction k arbitrary: ebp) simp_all

lemma length_getcallerpcs: "length (getcallerpcs m v) = 10"
  by (simp add: getcallerpcs_def length_callerpcs)

subsection \<open>One CPU\<close>

text \<open>
  \<open>on_cpu s h c\<close>: the CPU with APIC id \<open>h\<close> is entry \<open>c\<close> of the \<open>cpus\<close> table, its
  nesting count is not negative, and its interrupts are off whenever it is
  positive (the meaning of the count).
\<close>

definition on_cpu :: "'l spin \<Rightarrow> uchar \<Rightarrow> nat \<Rightarrow> bool" where
  "on_cpu s h c \<longleftrightarrow>
     cpu_index (ncpu s) (cpus s) h = Some c \<and>
     0 \<le> ncli (cpus s c) \<and> (0 < ncli (cpus s c) \<longrightarrow> \<not> iflag s h)"

definition push_state :: "uchar \<Rightarrow> nat \<Rightarrow> 'l spin \<Rightarrow> 'l spin" where
  "push_state h c s =
     s\<lparr>iflag := (iflag s)(h := False),
       cpus := (cpus s)(c := (cpus s c)
         \<lparr>intena := (if ncli (cpus s c) = 0 then iflag s h else intena (cpus s c)),
          ncli := ncli (cpus s c) + 1\<rparr>)\<rparr>"

definition pop_state :: "uchar \<Rightarrow> nat \<Rightarrow> 'l spin \<Rightarrow> 'l spin" where
  "pop_state h c s =
     s\<lparr>iflag := (iflag s)(h := ncli (cpus s c) = 1 \<and> intena (cpus s c)),
       cpus := (cpus s)(c := (cpus s c)\<lparr>ncli := ncli (cpus s c) - 1\<rparr>)\<rparr>"

lemma cpu_index_upd [simp]:
  "apicid p = apicid (cs c) \<Longrightarrow> cpu_index n (cs(c := p)) h = cpu_index n cs h"
  unfolding cpu_index_def by (intro scan_cong) simp

lemma mycpu_apply:
  "mycpu h s = (if iflag s h then Panic ''mycpu called with interrupts enabled''
     else case cpu_index (ncpu s) (cpus s) h of Some i \<Rightarrow> Ret i s | None \<Rightarrow> Panic ''unknown apicid'')"
  by (simp add: mycpu_def kops split: option.split)

lemma cpu_upd_apply: "cpu_upd i f s = Ret () (s\<lparr>cpus := (cpus s)(i := f (cpus s i))\<rparr>)"
  by (simp add: cpu_upd_def)

lemma lk_upd_apply: "lk_upd l f s = Ret () (s\<lparr>lks := (lks s)(l := f (lks s l))\<rparr>)"
  by (simp add: lk_upd_def)

lemmas spin_simps = mycpu_apply cpu_upd_apply lk_upd_apply cli_def sti_def kops

lemma pushcli_eq:
  assumes "on_cpu s h c"
  shows "pushcli h s = Ret () (push_state h c s)"
  using assms by (auto simp: on_cpu_def pushcli_def push_state_def spin_simps)

lemma popcli_eq:
  assumes "on_cpu s h c" and "0 < ncli (cpus s c)"
  shows "popcli h s = Ret () (pop_state h c s)"
  using assms by (auto simp: on_cpu_def popcli_def pop_state_def spin_simps fun_upd_idem)

lemma popcli_underflow:
  assumes "on_cpu s h c" and "ncli (cpus s c) = 0" and "\<not> iflag s h"
  shows "popcli h s = Panic ''popcli''"
  using assms by (simp add: on_cpu_def popcli_def spin_simps)

lemma on_cpu_push: "on_cpu s h c \<Longrightarrow> on_cpu (push_state h c s) h c"
  by (simp add: on_cpu_def push_state_def)

lemma on_cpu_pop: "on_cpu s h c \<Longrightarrow> 0 < ncli (cpus s c) \<Longrightarrow> on_cpu (pop_state h c s) h c"
  by (simp add: on_cpu_def pop_state_def)

lemma on_cpu_lks [simp]: "on_cpu (s\<lparr>lks := ls\<rparr>) h c = on_cpu s h c"
  by (simp add: on_cpu_def)

lemma ncli_push [simp]: "ncli (cpus (push_state h c s) c) = ncli (cpus s c) + 1"
  and lks_push [simp]: "lks (push_state h c s) = lks s"
  and iflag_push [simp]: "iflag (push_state h c s) h = False"
  and ncpu_push [simp]: "ncpu (push_state h c s) = ncpu s"
  by (simp_all add: push_state_def)

text \<open>A matched pair leaves everything but \<open>intena\<close> as it was; nested, all of it.\<close>

lemma push_pop:
  assumes "on_cpu s h c"
  shows "pop_state h c (push_state h c s) =
    s\<lparr>cpus := (cpus s)(c := (cpus s c)
      \<lparr>intena := (if ncli (cpus s c) = 0 then iflag s h else intena (cpus s c))\<rparr>)\<rparr>"
  using assms by (auto simp: on_cpu_def pop_state_def push_state_def fun_upd_idem)

lemma push_pop_nested:
  assumes "on_cpu s h c" and "0 < ncli (cpus s c)"
  shows "pop_state h c (push_state h c s) = s"
  using assms push_pop [of s h c] by simp

definition owned :: "'l spin \<Rightarrow> nat \<Rightarrow> 'l \<Rightarrow> bool" where
  "owned s c l \<longleftrightarrow> locked (lks s l) \<noteq> 0 \<and> lcpu (lks s l) = Some c"

lemma owned_unique: "owned s c l \<Longrightarrow> owned s d l \<Longrightarrow> c = d"
  by (simp add: owned_def)

lemma mycpu_on: "on_cpu s h c \<Longrightarrow> \<not> iflag s h \<Longrightarrow> mycpu h s = Ret c s"
  by (simp add: mycpu_apply on_cpu_def)

lemma holding_eq:
  assumes "on_cpu s h c" and "0 < ncli (cpus s c)"
  shows "holding h l s = Ret (owned s c l) s"
proof -
  have "on_cpu (push_state h c s) h c" by (rule on_cpu_push [OF assms(1)])
  then show ?thesis
    using assms by (simp add: holding_def bnd_apply pushcli_eq mycpu_on popcli_eq ret_apply
        push_pop_nested owned_def)
qed

lemma acquire_enter_eq:
  assumes "on_cpu s h c"
  shows "acquire_enter h l s = (if owned s c l then Panic ''acquire'' else Ret () (push_state h c s))"
proof -
  have "on_cpu (push_state h c s) h c" by (rule on_cpu_push [OF assms])
  moreover have "0 < ncli (cpus (push_state h c s) c)"
    using assms by (simp add: on_cpu_def)
  ultimately have "holding h l (push_state h c s) = Ret (owned (push_state h c s) c l) (push_state h c s)"
    by (rule holding_eq)
  then show ?thesis
    using assms by (simp add: acquire_enter_def bnd_apply pushcli_eq ret_apply owned_def)
qed

definition take_lock :: "nat \<Rightarrow> uint \<Rightarrow> 'l \<Rightarrow> 'l spin \<Rightarrow> 'l spin" where
  "take_lock c v l s = s\<lparr>lks := (lks s)(l := (lks s l)
     \<lparr>locked := 1, lcpu := Some c, pcs := getcallerpcs (kmemw s) v\<rparr>)\<rparr>"

definition drop_lock :: "'l \<Rightarrow> 'l spin \<Rightarrow> 'l spin" where
  "drop_lock l s = s\<lparr>lks := (lks s)(l := (lks s l)
     \<lparr>pcs := (pcs (lks s l))[0 := 0], lcpu := None, locked := 0\<rparr>)\<rparr>"

lemma acquire_spin_eq:
  assumes "on_cpu s h c" and "\<not> iflag s h"
  shows "acquire_spin h v l s =
    (if locked (lks s l) = 0 then Ret () (take_lock c v l s)
     else Switch (s\<lparr>lks := (lks s)(l := (lks s l)\<lparr>locked := 1\<rparr>)\<rparr>))"
  using assms by (simp add: acquire_spin_def xchg_def take_lock_def on_cpu_def spin_simps)

lemma release_eq:
  assumes "on_cpu s h c" and "0 < ncli (cpus s c)"
  shows "release h l s =
    (if owned s c l then Ret () (pop_state h c (drop_lock l s)) else Panic ''release'')"
proof -
  have "release h l s = (if owned s c l then popcli h (drop_lock l s) else Panic ''release'')"
    using assms by (simp add: release_def bnd_apply holding_eq lk_upd_apply drop_lock_def kops
        cong: outcome.case_cong)
  moreover have "popcli h (drop_lock l s) = Ret () (pop_state h c (drop_lock l s))"
    using assms by (intro popcli_eq) (simp_all add: drop_lock_def)
  ultimately show ?thesis by simp
qed

lemma take_lock_simps [simp]:
  "cpus (take_lock c v l s) = cpus s" "iflag (take_lock c v l s) = iflag s"
  "ncpu (take_lock c v l s) = ncpu s"
  "owned (take_lock c v l s) d k = (if k = l then d = c else owned s d k)"
  by (auto simp: take_lock_def owned_def)

lemma drop_lock_simps [simp]:
  "cpus (drop_lock l s) = cpus s" "iflag (drop_lock l s) = iflag s"
  "ncpu (drop_lock l s) = ncpu s"
  "owned (drop_lock l s) d k = (k \<noteq> l \<and> owned s d k)"
  by (auto simp: drop_lock_def owned_def)

lemma owned_push [simp]: "owned (push_state h c s) d k = owned s d k"
  and owned_pop [simp]: "owned (pop_state h c s) d k = owned s d k"
  by (simp_all add: owned_def push_state_def pop_state_def)

text \<open>
  A release of a lock this CPU does not hold panics. With no lock held at all,
  \<open>holding\<close> turns interrupts off and on again and answers no.
\<close>

lemma release_not_owned:
  assumes on0: "on_cpu s h c" and "\<not> owned s c l"
  shows "release h l s = Panic ''release''"
proof (cases "0 < ncli (cpus s c)")
  case True
  then show ?thesis using assms release_eq [of s h c l] by simp
next
  case False
  have on: "on_cpu (push_state h c s) h c" by (rule on_cpu_push [OF on0])
  have pos: "0 < ncli (cpus (push_state h c s) c)" using on0 by (simp add: on_cpu_def)
  show ?thesis
    using assms(2) by (simp add: release_def holding_def bnd_apply pushcli_eq [OF on0]
        mycpu_on [OF on] popcli_eq [OF on pos] owned_def [symmetric] kops)
qed

subsection \<open>The interface of a lock layer\<close>

text \<open>
  What the kernel relies on: acquiring a lock that this CPU does not hold
  returns with the lock held, acquiring one it holds panics, releasing undoes
  exactly one acquire.
\<close>

locale lock_layer =
  fixes acq :: "'l \<Rightarrow> ('s, unit) kop"
    and rel :: "'l \<Rightarrow> ('s, unit) kop"
    and inv :: "'s \<Rightarrow> bool"
    and held_locks :: "'s \<Rightarrow> 'l set"
  assumes acq_free: "inv s \<Longrightarrow> l \<notin> held_locks s \<Longrightarrow>
      ok (acq l) s (\<lambda>_ t. inv t \<and> held_locks t = insert l (held_locks s))"
    and acq_held: "inv s \<Longrightarrow> l \<in> held_locks s \<Longrightarrow> acq l s = Panic ''acquire''"
    and rel_held: "inv s \<Longrightarrow> l \<in> held_locks s \<Longrightarrow>
      ok (rel l) s (\<lambda>_ t. inv t \<and> held_locks t = held_locks s - {l})"
    and rel_free: "inv s \<Longrightarrow> l \<notin> held_locks s \<Longrightarrow> rel l s = Panic ''release''"
begin

text \<open>A critical section gives back exactly the locks it started with.\<close>

lemma critical_section:
  assumes "inv s" and "l \<notin> held_locks s"
    and body: "\<And>t. inv t \<Longrightarrow> held_locks t = insert l (held_locks s) \<Longrightarrow>
      ok m t (\<lambda>_ u. inv u \<and> held_locks u = held_locks t)"
  shows "ok (bnd (acq l) (\<lambda>_. bnd m (\<lambda>x. bnd (rel l) (\<lambda>_. ret x)))) s
    (\<lambda>_ t. inv t \<and> held_locks t = held_locks s)"
proof -
  have "ok (rel l) u (\<lambda>_ v. inv v \<and> held_locks v = held_locks s)"
    if "inv u" "held_locks u = insert l (held_locks s)" for u
    using rel_held [of u l] that assms(2) by (auto elim!: ok_mono)
  then have "ok m t (\<lambda>_ u. ok (rel l) u (\<lambda>_ v. inv v \<and> held_locks v = held_locks s))"
    if "inv t" "held_locks t = insert l (held_locks s)" for t
    using that by (intro ok_mono [OF body]) simp_all
  then show ?thesis
    by (auto intro!: ok_mono [OF acq_free [OF assms(1,2)]])
qed

lemma acquire_twice:
  assumes "inv s" and "l \<notin> held_locks s"
  shows "bnd (acq l) (\<lambda>_. acq l) s = Panic ''acquire''"
  using acq_free [OF assms] acq_held by (fastforce simp: ok_iff bnd_apply)

lemma release_twice:
  assumes "inv s" and "l \<in> held_locks s"
  shows "bnd (rel l) (\<lambda>_. rel l) s = Panic ''release''"
  using rel_held [OF assms] rel_free by (fastforce simp: ok_iff bnd_apply)

end

text \<open>
  On one CPU the spin locks are a lock layer: the CPU holds the locks marked
  with its index, and \<open>ncli\<close> counts them.
\<close>

definition held_by :: "nat \<Rightarrow> 'l spin \<Rightarrow> 'l set" where
  "held_by c s = {l. owned s c l}"

definition spin_inv :: "uchar \<Rightarrow> nat \<Rightarrow> 'l spin \<Rightarrow> bool" where
  "spin_inv h c s \<longleftrightarrow> on_cpu s h c \<and> finite (held_by c s) \<and>
     ncli (cpus s c) = int (card (held_by c s)) \<and>
     (\<forall>l. locked (lks s l) \<noteq> 0 \<longrightarrow> l \<in> held_by c s)"

lemma held_by_simps [simp]:
  "held_by c (push_state h c s) = held_by c s"
  "held_by c (pop_state h c s) = held_by c s"
  "held_by c (take_lock c v l s) = insert l (held_by c s)"
  "held_by c (drop_lock l s) = held_by c s - {l}"
  by (auto simp: held_by_def)

lemma locked_simps:
  "locked (lks (take_lock c v l s) k) = (if k = l then 1 else locked (lks s k))"
  "locked (lks (drop_lock l s) k) = (if k = l then 0 else locked (lks s k))"
  "locked (lks (pop_state h c s) k) = locked (lks s k)"
  by (simp_all add: take_lock_def drop_lock_def pop_state_def)

lemma on_cpu_take [simp]: "on_cpu (take_lock c v l s) h d = on_cpu s h d"
  and on_cpu_drop [simp]: "on_cpu (drop_lock l s) h d = on_cpu s h d"
  by (simp_all add: on_cpu_def)

lemma acquire_free:
  assumes "spin_inv h c s" and "l \<notin> held_by c s"
  shows "acquire h v l s = Ret () (take_lock c v l (push_state h c s))"
    and "spin_inv h c (take_lock c v l (push_state h c s))"
proof -
  have on0: "on_cpu s h c" using assms by (simp add: spin_inv_def)
  have on: "on_cpu (push_state h c s) h c" by (rule on_cpu_push [OF on0])
  have "locked (lks s l) = 0" using assms by (auto simp: spin_inv_def)
  moreover have "\<not> owned s c l" using assms by (simp add: held_by_def)
  ultimately show "acquire h v l s = Ret () (take_lock c v l (push_state h c s))"
    by (simp add: acquire_def bnd_apply acquire_enter_eq [OF on0] acquire_spin_eq [OF on])
  show "spin_inv h c (take_lock c v l (push_state h c s))"
    using assms on by (simp add: spin_inv_def locked_simps)
qed

lemma acquire_owned:
  assumes "spin_inv h c s" and "l \<in> held_by c s"
  shows "acquire h v l s = Panic ''acquire''"
  using assms by (simp add: acquire_def bnd_apply acquire_enter_eq [of s h c] spin_inv_def held_by_def)

lemma spin_inv_ncli_pos:
  assumes "spin_inv h c s" and "l \<in> held_by c s"
  shows "0 < ncli (cpus s c)"
  using assms by (auto simp: spin_inv_def card_gt_0_iff)

lemma release_owned:
  assumes "spin_inv h c s" and "l \<in> held_by c s"
  shows "release h l s = Ret () (pop_state h c (drop_lock l s))"
    and "spin_inv h c (pop_state h c (drop_lock l s))"
proof -
  have fin: "finite (held_by c s)" and on: "on_cpu s h c"
    and n: "ncli (cpus s c) = int (card (held_by c s))"
    using assms by (auto simp: spin_inv_def)
  note pos = spin_inv_ncli_pos [OF assms]
  show "release h l s = Ret () (pop_state h c (drop_lock l s))"
    using assms release_eq [OF on pos] by (simp add: held_by_def)
  have "on_cpu (pop_state h c (drop_lock l s)) h c"
    using on pos by (intro on_cpu_pop) simp_all
  moreover have "ncli (cpus (pop_state h c (drop_lock l s)) c) = int (card (held_by c s - {l}))"
    using assms(2) fin n pos by (simp add: pop_state_def of_nat_diff)
  ultimately show "spin_inv h c (pop_state h c (drop_lock l s))"
    using assms fin by (simp add: spin_inv_def locked_simps)
qed

lemma release_unowned:
  assumes "spin_inv h c s" and "l \<notin> held_by c s"
  shows "release h l s = Panic ''release''"
  using assms by (intro release_not_owned [of s h c]) (simp_all add: spin_inv_def held_by_def)

interpretation spin1: lock_layer "acquire h v" "release h" "spin_inv h c" "held_by c" for h v c
  by unfold_locales
    (auto simp: ok_def acquire_free acquire_owned release_owned release_unowned)

subsection \<open>Any number of CPUs\<close>

text \<open>
  A step is one CPU running the code before the loop of \<open>acquire\<close>, one
  iteration of the loop, or \<open>release\<close>. \<open>spinning\<close> records the CPUs inside the
  loop and \<open>owns\<close>, for each CPU, the locks for which its \<open>acquire\<close> has returned
  and whose \<open>release\<close> has not been called; neither is read by the code.
\<close>

record 'l mp =
  sp :: "'l spin"
  spinning :: "uchar \<Rightarrow> 'l option"
  owns :: "nat \<Rightarrow> 'l list"

abbreviation this_cpu :: "'l spin \<Rightarrow> uchar \<Rightarrow> nat option" where
  "this_cpu s h \<equiv> cpu_index (ncpu s) (cpus s) h"

inductive mp_step :: "'l mp \<Rightarrow> 'l mp \<Rightarrow> bool" where
  enter: "this_cpu (sp m) h = Some c \<Longrightarrow> spinning m h = None \<Longrightarrow>
    acquire_enter h l (sp m) = Ret () s \<Longrightarrow>
    mp_step m (m\<lparr>sp := s, spinning := (spinning m)(h := Some l)\<rparr>)"
| spin: "this_cpu (sp m) h = Some c \<Longrightarrow> spinning m h = Some l \<Longrightarrow>
    acquire_spin h v l (sp m) = Switch s \<Longrightarrow> mp_step m (m\<lparr>sp := s\<rparr>)"
| got: "this_cpu (sp m) h = Some c \<Longrightarrow> spinning m h = Some l \<Longrightarrow>
    acquire_spin h v l (sp m) = Ret () s \<Longrightarrow>
    mp_step m (m\<lparr>sp := s, spinning := (spinning m)(h := None),
      owns := (owns m)(c := l # owns m c)\<rparr>)"
| rel: "this_cpu (sp m) h = Some c \<Longrightarrow> spinning m h = None \<Longrightarrow>
    release h l (sp m) = Ret () s \<Longrightarrow>
    mp_step m (m\<lparr>sp := s, owns := (owns m)(c := remove1 l (owns m c))\<rparr>)"

definition mp_cpu_ok :: "'l mp \<Rightarrow> uchar \<Rightarrow> nat \<Rightarrow> bool" where
  "mp_cpu_ok m h c \<longleftrightarrow> on_cpu (sp m) h c \<and>
     ncli (cpus (sp m) c) = int (length (owns m c)) + (if spinning m h = None then 0 else 1)"

definition mp_inv :: "'l mp \<Rightarrow> bool" where
  "mp_inv m \<longleftrightarrow>
     (\<forall>c l. l \<in> set (owns m c) \<longleftrightarrow> owned (sp m) c l) \<and>
     (\<forall>c. distinct (owns m c)) \<and>
     (\<forall>l. locked (lks (sp m) l) \<noteq> 0 \<longrightarrow> lcpu (lks (sp m) l) \<noteq> None) \<and>
     (\<forall>h c. this_cpu (sp m) h = Some c \<longrightarrow> mp_cpu_ok m h c)"

lemma this_cpu_inj: "this_cpu s h = Some c \<Longrightarrow> this_cpu s k = Some c \<Longrightarrow> h = k"
  by (auto simp: cpu_index_def scan_Some_iff)

lemma mp_invD:
  assumes "mp_inv m" and "this_cpu (sp m) h = Some c"
  shows "on_cpu (sp m) h c"
    and "ncli (cpus (sp m) c) = int (length (owns m c)) + (if spinning m h = None then 0 else 1)"
  using assms by (simp_all add: mp_inv_def mp_cpu_ok_def)

text \<open>Steps of one CPU do not touch the interrupt state of the others.\<close>

lemma on_cpu_other:
  assumes "k \<noteq> h" and "d \<noteq> c"
  shows "on_cpu (push_state h c s) k d = on_cpu s k d"
    and "on_cpu (pop_state h c s) k d = on_cpu s k d"
  using assms by (simp_all add: on_cpu_def push_state_def pop_state_def)

lemma cpus_other [simp]:
  "d \<noteq> c \<Longrightarrow> cpus (push_state h c s) d = cpus s d"
  "d \<noteq> c \<Longrightarrow> cpus (pop_state h c s) d = cpus s d"
  by (simp_all add: push_state_def pop_state_def)

lemma cpu_index_push_pop [simp]:
  "cpu_index n (cpus (push_state h c s)) k = cpu_index n (cpus s) k"
  "cpu_index n (cpus (pop_state h c s)) k = cpu_index n (cpus s) k"
  by (simp_all add: push_state_def pop_state_def)

lemma ncpu_pop [simp]: "ncpu (pop_state h c s) = ncpu s"
  by (simp add: pop_state_def)

lemma lks_pop [simp]: "lks (pop_state h c s) = lks s"
  by (simp add: pop_state_def)

text \<open>The per-CPU part of the invariant after a step of the CPU \<open>h\<close>.\<close>

lemma mp_cpu_ok_step:
  assumes "mp_inv m" and "this_cpu (sp m) h = Some c"
    and "mp_cpu_ok m' h c" and "this_cpu (sp m) k = Some d"
    and "k \<noteq> h \<Longrightarrow> d \<noteq> c \<Longrightarrow> on_cpu (sp m') k d = on_cpu (sp m) k d \<and>
      cpus (sp m') d = cpus (sp m) d \<and> owns m' d = owns m d \<and> spinning m' k = spinning m k"
  shows "mp_cpu_ok m' k d"
proof (cases "k = h")
  case True
  with assms show ?thesis by simp
next
  case False
  with assms(2,4) have "d \<noteq> c" using this_cpu_inj by blast
  with False assms show ?thesis by (simp add: mp_cpu_ok_def mp_inv_def)
qed

lemma mp_enter_inv:
  assumes I: "mp_inv m" and h: "this_cpu (sp m) h = Some c" and "spinning m h = None"
    and "acquire_enter h l (sp m) = Ret () s"
  shows "mp_inv (m\<lparr>sp := s, spinning := (spinning m)(h := Some l)\<rparr>)"
proof -
  note D = mp_invD [OF I h]
  have s: "s = push_state h c (sp m)"
    using assms(4) acquire_enter_eq [OF D(1), of l] by (simp split: if_splits)
  have "mp_cpu_ok (m\<lparr>sp := s, spinning := (spinning m)(h := Some l)\<rparr>) k d"
    if "this_cpu (sp m) k = Some d" for k d
    using I h _ that
  proof (rule mp_cpu_ok_step)
    show "mp_cpu_ok (m\<lparr>sp := s, spinning := (spinning m)(h := Some l)\<rparr>) h c"
      using assms(3) D by (simp add: mp_cpu_ok_def s on_cpu_push)
  qed (simp add: s on_cpu_other)
  with I show ?thesis by (simp add: mp_inv_def s)
qed

lemma mp_spin_inv:
  assumes I: "mp_inv m" and h: "this_cpu (sp m) h = Some c" and "spinning m h = Some l"
    and "acquire_spin h v l (sp m) = Switch s"
  shows "mp_inv (m\<lparr>sp := s\<rparr>)"
proof -
  note D = mp_invD [OF I h]
  have "\<not> iflag (sp m) h" using D assms(3) by (simp add: on_cpu_def)
  then have s: "s = (sp m)\<lparr>lks := (lks (sp m))(l := (lks (sp m) l)\<lparr>locked := 1\<rparr>)\<rparr>"
    and l: "locked (lks (sp m) l) \<noteq> 0"
    using assms(4) acquire_spin_eq [OF D(1), of v l] by (simp_all split: if_splits)
  from l have "owned s d k = owned (sp m) d k" for d k by (simp add: s owned_def)
  moreover from l have "lcpu (lks s k) \<noteq> None" if "locked (lks s k) \<noteq> 0" for k
    using that I by (auto simp: s mp_inv_def)
  ultimately show ?thesis
    using I by (simp add: mp_inv_def mp_cpu_ok_def s)
qed

lemma mp_got_inv:
  assumes I: "mp_inv m" and h: "this_cpu (sp m) h = Some c" and "spinning m h = Some l"
    and "acquire_spin h v l (sp m) = Ret () s"
  shows "mp_inv (m\<lparr>sp := s, spinning := (spinning m)(h := None),
    owns := (owns m)(c := l # owns m c)\<rparr>)" (is "mp_inv ?m")
proof -
  note D = mp_invD [OF I h]
  have "\<not> iflag (sp m) h" using D assms(3) by (simp add: on_cpu_def)
  then have s: "s = take_lock c v l (sp m)" and l: "locked (lks (sp m) l) = 0"
    using assms(4) acquire_spin_eq [OF D(1), of v l] by (simp_all split: if_splits)
  from l have new: "l \<notin> set (owns m d)" for d
    using I by (simp add: mp_inv_def owned_def)
  have "mp_cpu_ok ?m h c"
    using assms(3) D by (simp add: mp_cpu_ok_def s)
  then have "mp_cpu_ok ?m k d" if "this_cpu (sp m) k = Some d" for k d
    using mp_cpu_ok_step [OF I h _ that, of ?m] by (simp add: s)
  moreover have "lcpu (lks s k) \<noteq> None" if "locked (lks s k) \<noteq> 0" for k
    using that I by (auto simp: s mp_inv_def take_lock_def)
  moreover have "(k \<in> set (if d = c then l # owns m c else owns m d)) = owned s d k" for d k
    using I new by (auto simp: s mp_inv_def)
  ultimately show ?thesis
    using I new by (simp add: mp_inv_def s)
qed

lemma mp_rel_inv:
  assumes I: "mp_inv m" and h: "this_cpu (sp m) h = Some c" and "spinning m h = None"
    and r: "release h l (sp m) = Ret () s"
  shows "mp_inv (m\<lparr>sp := s, owns := (owns m)(c := remove1 l (owns m c))\<rparr>)" (is "mp_inv ?m")
proof -
  note D = mp_invD [OF I h]
  have l: "owned (sp m) c l"
    using r release_not_owned [OF D(1), of l] by force
  then have mem: "l \<in> set (owns m c)" using I by (simp add: mp_inv_def)
  then have len: "length (owns m c) = length (remove1 l (owns m c)) + 1"
    using length_pos_if_in_set [OF mem] by (simp add: length_remove1)
  with D(2) have pos: "0 < ncli (cpus (sp m) c)" by simp
  have s: "s = pop_state h c (drop_lock l (sp m))"
    using r l release_eq [OF D(1) pos, of l] by simp
  have "mp_cpu_ok ?m h c"
    using assms(3) D len pos on_cpu_pop [of "drop_lock l (sp m)" h c]
    by (simp add: mp_cpu_ok_def s pop_state_def)
  then have "mp_cpu_ok ?m k d" if "this_cpu (sp m) k = Some d" for k d
    using mp_cpu_ok_step [OF I h _ that, of ?m] by (simp add: s on_cpu_other)
  moreover have "lcpu (lks s k) \<noteq> None" if "locked (lks s k) \<noteq> 0" for k
    using that I by (auto simp: s mp_inv_def drop_lock_def split: if_splits)
  moreover have "(k \<in> set (if d = c then remove1 l (owns m c) else owns m d)) = owned s d k" for d k
  proof -
    have "(k \<in> set (owns m d)) = owned (sp m) d k" "(k \<in> set (owns m c)) = owned (sp m) c k"
      and "distinct (owns m c)"
      using I by (simp_all add: mp_inv_def)
    then show ?thesis
      using l owned_unique [of "sp m" c l d] by (cases "d = c") (auto simp: s)
  qed
  ultimately show ?thesis
    using I by (simp add: mp_inv_def s distinct_remove1)
qed

lemma mp_step_inv: "mp_step m m' \<Longrightarrow> mp_inv m \<Longrightarrow> mp_inv m'"
  by (induction rule: mp_step.induct)
    (auto intro: mp_enter_inv mp_spin_inv mp_got_inv mp_rel_inv)

text \<open>The machine after \<open>mpinit\<close>: no lock held, interrupt counts zero.\<close>

definition mp_boot :: "'l mp \<Rightarrow> bool" where
  "mp_boot m \<longleftrightarrow> (\<forall>c. owns m c = []) \<and> (\<forall>h. spinning m h = None) \<and>
     (\<forall>c. ncli (cpus (sp m) c) = 0) \<and> (\<forall>l. locked (lks (sp m) l) = 0)"

inductive mp_reach :: "'l mp \<Rightarrow> bool" where
  boot: "mp_boot m \<Longrightarrow> mp_reach m"
| step: "mp_reach m \<Longrightarrow> mp_step m m' \<Longrightarrow> mp_reach m'"

lemma mp_reach_inv: "mp_reach m \<Longrightarrow> mp_inv m"
proof (induction rule: mp_reach.induct)
  case (boot m)
  then show ?case by (simp add: mp_boot_def mp_inv_def mp_cpu_ok_def owned_def on_cpu_def)
next
  case (step m m')
  then show ?case by (blast intro: mp_step_inv)
qed

subsection \<open>Mutual exclusion\<close>


text \<open>Two CPUs, the first of which has taken the one lock while the second spins for it.\<close>

definition mp0 :: "unit mp" where
  "mp0 = \<lparr>sp = \<lparr>cpus = (\<lambda>i. \<lparr>apicid = of_nat i, ncli = 0, intena = False\<rparr>), ncpu = 2, iflag = (\<lambda>_. True),
       lks = (\<lambda>_. \<lparr>locked = 0, lname = [], lcpu = None, pcs = []\<rparr>), kmemw = (\<lambda>_. 0)\<rparr>,
     spinning = (\<lambda>_. None), owns = (\<lambda>_. [])\<rparr>"

lemma cpu_index_two:
  "(\<And>i. apicid (cs i) = of_nat i) \<Longrightarrow> cpu_index 2 cs 0 = Some 0" "(\<And>i. apicid (cs i) = of_nat i) \<Longrightarrow> cpu_index 2 cs 1 = Some 1"
  by (simp_all add: cpu_index_def scan_Some_iff)

lemma mp0_runs: "\<exists>m :: unit mp. mp_reach m \<and> this_cpu (sp m) 0 = Some 0 \<and> spinning m 1 = Some () \<and> () \<in> set (owns m 0)"
proof -
  define s1 where "s1 = push_state 0 0 (sp mp0)"
  define s2 where "s2 = take_lock 0 0 () s1"
  define s3 where "s3 = push_state 1 1 s2"
  let ?m1 = "mp0\<lparr>sp := s1, spinning := (spinning mp0)(0 := Some ())\<rparr>"
  let ?m2 = "?m1\<lparr>sp := s2, spinning := (spinning ?m1)(0 := None), owns := (owns ?m1)(0 := [()])\<rparr>"
  let ?m3 = "?m2\<lparr>sp := s3, spinning := (spinning ?m2)(1 := Some ())\<rparr>"
  note d = s3_def s2_def s1_def mp0_def push_state_def take_lock_def
  have c: "this_cpu (sp mp0) 0 = Some 0" "this_cpu s1 0 = Some 0" "this_cpu s2 1 = Some 1" "this_cpu s3 0 = Some 0"
    by (simp_all add: d cpu_index_two)
  have o: "on_cpu (sp mp0) 0 0" "on_cpu s1 0 0" "on_cpu s2 1 1" "\<not> iflag s1 0"
    using c by (simp_all add: on_cpu_def, simp_all add: d)
  have l: "\<not> owned (sp mp0) 0 ()" "locked (lks s1 ()) = 0" "\<not> owned s2 1 ()"
    by (simp_all add: owned_def d)
  have "acquire_enter 0 () (sp mp0) = Ret () s1" "acquire_spin 0 0 () s1 = Ret () s2" "acquire_enter 1 () s2 = Ret () s3"
    using acquire_enter_eq [OF o(1), of "()"] acquire_spin_eq [OF o(2,4), of 0 "()"] acquire_enter_eq [OF o(3), of "()"] l
    by (simp_all add: s1_def s2_def s3_def)
  moreover have "spinning mp0 0 = None" "owns mp0 0 = []" "spinning ?m2 1 = None" by (simp_all add: mp0_def)
  ultimately have "mp_step mp0 ?m1" "mp_step ?m1 ?m2" "mp_step ?m2 ?m3"
    using mp_step.enter [of mp0 0 0 "()" s1] mp_step.got [of ?m1 0 0 "()" 0 s2] mp_step.enter [of ?m2 1 1 "()" s3] c
    by simp_all
  moreover have "mp_boot mp0" by (simp add: mp_boot_def mp0_def)
  ultimately have "mp_reach ?m3" by (meson mp_reach.boot mp_reach.step)
  then show ?thesis using c by (intro exI [of _ ?m3]) simp
qed


end
