(* ===== verification/Memory.thy ===== *)
theory Memory
  imports Params
begin

unbundle bit_operations_syntax

text \<open>
  Byte-addressed memory and the C string routines that run on it: string.c of
  the kernel and the copies in ulib.c for user programs. An address is a 32-bit
  word, so pointer arithmetic wraps as it does on the machine.

  The set of addresses of the \<open>n\<close> bytes from \<open>p\<close> on is \<open>{a. a - p < n}\<close>, also
  when the range wraps.
\<close>

type_synonym mem = "uint \<Rightarrow> uchar"

subsection \<open>Words in memory\<close>

definition ld32 :: "mem \<Rightarrow> uint \<Rightarrow> uint" where
  "ld32 m a = ucast (m a) OR push_bit 8 (ucast (m (a + 1)))
     OR push_bit 16 (ucast (m (a + 2))) OR push_bit 24 (ucast (m (a + 3)))"

definition st32 :: "mem \<Rightarrow> uint \<Rightarrow> uint \<Rightarrow> mem" where
  "st32 m a w = m(a := ucast w, a + 1 := ucast (drop_bit 8 w),
     a + 2 := ucast (drop_bit 16 w), a + 3 := ucast (drop_bit 24 w))"

subsection \<open>string.c\<close>

text \<open>The x86 string instructions \<open>rep stosb\<close> and \<open>rep stosl\<close> with \<open>n\<close> as the count.\<close>

primrec stosb :: "nat \<Rightarrow> mem \<Rightarrow> uint \<Rightarrow> uchar \<Rightarrow> mem" where
  "stosb 0 m a c = m"
| "stosb (Suc n) m a c = stosb n (m(a := c)) (a + 1) c"

primrec stosl :: "nat \<Rightarrow> mem \<Rightarrow> uint \<Rightarrow> uint \<Rightarrow> mem" where
  "stosl 0 m a w = m"
| "stosl (Suc n) m a w = stosl n (st32 m a w) (a + 4) w"

definition memset :: "mem \<Rightarrow> uint \<Rightarrow> uint \<Rightarrow> uint \<Rightarrow> mem" where
  "memset m dst c n =
     (if dst mod 4 = 0 \<and> n mod 4 = 0 then
        (let c = c AND 0xFF in
         stosl (unat (n div 4)) m dst (push_bit 24 c OR push_bit 16 c OR push_bit 8 c OR c))
      else stosb (unat n) m dst (ucast c))"

primrec memcmp_loop :: "nat \<Rightarrow> mem \<Rightarrow> uint \<Rightarrow> uint \<Rightarrow> int" where
  "memcmp_loop 0 m s1 s2 = 0"
| "memcmp_loop (Suc n) m s1 s2 =
     (if m s1 \<noteq> m s2 then uint (m s1) - uint (m s2) else memcmp_loop n m (s1 + 1) (s2 + 1))"

definition memcmp :: "mem \<Rightarrow> uint \<Rightarrow> uint \<Rightarrow> uint \<Rightarrow> int" where
  "memcmp m v1 v2 n = memcmp_loop (unat n) m v1 v2"

primrec copy_up :: "nat \<Rightarrow> mem \<Rightarrow> uint \<Rightarrow> uint \<Rightarrow> mem" where
  "copy_up 0 m d s = m"
| "copy_up (Suc n) m d s = copy_up n (m(d := m s)) (d + 1) (s + 1)"

primrec copy_down :: "nat \<Rightarrow> mem \<Rightarrow> uint \<Rightarrow> uint \<Rightarrow> mem" where
  "copy_down 0 m d s = m"
| "copy_down (Suc n) m d s = copy_down n (m(d - 1 := m (s - 1))) (d - 1) (s - 1)"

definition memmove :: "mem \<Rightarrow> uint \<Rightarrow> uint \<Rightarrow> uint \<Rightarrow> mem" where
  "memmove m d s n =
     (if s < d \<and> s + n > d then copy_down (unat n) m (d + n) (s + n)
      else copy_up (unat n) m d s)"

definition memcpy :: "mem \<Rightarrow> uint \<Rightarrow> uint \<Rightarrow> uint \<Rightarrow> mem" where
  "memcpy m d s n = memmove m d s n"

primrec strncmp_loop :: "nat \<Rightarrow> mem \<Rightarrow> uint \<Rightarrow> uint \<Rightarrow> int" where
  "strncmp_loop 0 m p q = 0"
| "strncmp_loop (Suc n) m p q =
     (if m p \<noteq> 0 \<and> m p = m q then strncmp_loop n m (p + 1) (q + 1)
      else uint (m p) - uint (m q))"

definition strncmp :: "mem \<Rightarrow> uint \<Rightarrow> uint \<Rightarrow> uint \<Rightarrow> int" where
  "strncmp m p q n = strncmp_loop (unat n) m p q"

primrec strncpy_loop :: "nat \<Rightarrow> mem \<Rightarrow> uint \<Rightarrow> uint \<Rightarrow> mem" where
  "strncpy_loop 0 m s t = m"
| "strncpy_loop (Suc n) m s t =
     (let m' = m(s := m t) in
      if m t \<noteq> 0 then strncpy_loop n m' (s + 1) (t + 1) else stosb n m' (s + 1) 0)"

definition strncpy :: "mem \<Rightarrow> uint \<Rightarrow> uint \<Rightarrow> int \<Rightarrow> mem" where
  "strncpy m s t n = strncpy_loop (nat n) m s t"

primrec safestrcpy_loop :: "nat \<Rightarrow> mem \<Rightarrow> uint \<Rightarrow> uint \<Rightarrow> mem" where
  "safestrcpy_loop 0 m s t = m(s := 0)"
| "safestrcpy_loop (Suc n) m s t =
     (let m' = m(s := m t) in
      if m t \<noteq> 0 then safestrcpy_loop n m' (s + 1) (t + 1) else m'(s + 1 := 0))"

definition safestrcpy :: "mem \<Rightarrow> uint \<Rightarrow> uint \<Rightarrow> int \<Rightarrow> mem" where
  "safestrcpy m s t n = (if n \<le> 0 then m else safestrcpy_loop (nat (n - 1)) m s t)"

text \<open>\<open>strlen\<close> does not return on memory without a zero byte.\<close>

partial_function (option) strlen_loop :: "mem \<Rightarrow> uint \<Rightarrow> nat \<Rightarrow> nat option" where
  "strlen_loop m s n = (if m (s + of_nat n) = 0 then Some n else strlen_loop m s (Suc n))"

definition strlen :: "mem \<Rightarrow> uint \<Rightarrow> nat option" where
  "strlen m s = strlen_loop m s 0"

subsection \<open>ulib.c\<close>

text \<open>
  The user library has its own copies. \<open>strcpy\<close>, \<open>strcmp\<close>, \<open>strchr\<close> and \<open>atoi\<close> run
  until they meet a terminating byte. \<open>atoi\<close> computes in 32-bit arithmetic.
\<close>

partial_function (option) strcpy :: "mem \<Rightarrow> uint \<Rightarrow> uint \<Rightarrow> mem option" where
  "strcpy m s t = (if m t \<noteq> 0 then strcpy (m(s := m t)) (s + 1) (t + 1) else Some (m(s := m t)))"

partial_function (option) strcmp :: "mem \<Rightarrow> uint \<Rightarrow> uint \<Rightarrow> int option" where
  "strcmp m p q = (if m p \<noteq> 0 \<and> m p = m q then strcmp m (p + 1) (q + 1)
     else Some (uint (m p) - uint (m q)))"

definition umemset :: "mem \<Rightarrow> uint \<Rightarrow> uint \<Rightarrow> uint \<Rightarrow> mem" where
  "umemset m dst c n = stosb (unat n) m dst (ucast c)"

partial_function (option) strchr :: "mem \<Rightarrow> uint \<Rightarrow> uchar \<Rightarrow> uint option" where
  "strchr m s c = (if m s = 0 then Some 0 else if m s = c then Some s else strchr m (s + 1) c)"

partial_function (option) atoi_loop :: "mem \<Rightarrow> uint \<Rightarrow> uint \<Rightarrow> uint option" where
  "atoi_loop m s n = (if 48 \<le> m s \<and> m s \<le> 57
     then atoi_loop m (s + 1) (n * 10 + ucast (m s) - 48) else Some n)"

definition atoi :: "mem \<Rightarrow> uint \<Rightarrow> uint option" where
  "atoi m s = atoi_loop m s 0"

definition umemmove :: "mem \<Rightarrow> uint \<Rightarrow> uint \<Rightarrow> int \<Rightarrow> mem" where
  "umemmove m dst src n = copy_up (nat n) m dst src"

text \<open>
  \<open>gets\<close> reads standard input a byte at a time: \<open>rd w\<close> is what \<open>read(0, &c, 1)\<close>
  does in the world \<open>w\<close> (the byte if it returned 1, and the world after it).
\<close>

primrec gets_loop :: "nat \<Rightarrow> ('w \<Rightarrow> uchar option \<times> 'w) \<Rightarrow> 'w \<Rightarrow> mem \<Rightarrow> uint \<Rightarrow> mem \<times> uint \<times> 'w" where
  "gets_loop 0 rd w m b = (m, b, w)"
| "gets_loop (Suc k) rd w m b =
     (case rd w of (None, w') \<Rightarrow> (m, b, w')
      | (Some c, w') \<Rightarrow> (let m' = m(b := c) in
          if c = 10 \<or> c = 13 then (m', b + 1, w') else gets_loop k rd w' m' (b + 1)))"

definition gets_line :: "('w \<Rightarrow> uchar option \<times> 'w) \<Rightarrow> 'w \<Rightarrow> mem \<Rightarrow> uint \<Rightarrow> int \<Rightarrow> mem \<times> 'w" where
  "gets_line rd w m buf mx =
     (case gets_loop (nat (mx - 1)) rd w m buf of (m', b, w') \<Rightarrow> (m'(b := 0), w'))"

subsection \<open>Words in memory: lemmas\<close>

lemma add_eq_self_iff [simp]: "(a :: uint) + b = a \<longleftrightarrow> b = 0"
  by simp

lemma ld32_st32: "ld32 (st32 m a w) a = w"
  unfolding ld32_def st32_def
proof (simp, rule bit_word_eqI)
  fix n assume "n < LENGTH(32)"
  then consider "n < 8" | "8 \<le> n \<and> n < 16" | "16 \<le> n \<and> n < 24" | "24 \<le> n \<and> n < 32"
    by fastforce
  then show "bit (ucast (ucast w :: uchar) OR push_bit 8 (ucast (ucast (drop_bit 8 w) :: uchar)) OR
      push_bit 16 (ucast (ucast (drop_bit 16 w) :: uchar)) OR
      push_bit 24 (ucast (ucast (drop_bit 24 w) :: uchar)) :: uint) n = bit w n"
    by cases (auto simp: bit_simps)
qed

lemma unat_lt32: "unat (a :: uint) < 2 ^ 32"
proof -
  have "unat a < 2 ^ LENGTH(32)" by (rule unsigned_less)
  then show ?thesis by simp
qed

lemma unat_minus_swap: "a \<noteq> b \<Longrightarrow> unat (b - a) = 2 ^ 32 - unat (a - b)" for a b :: uint
  using unat_lt32 [of a] unat_lt32 [of b] by (auto simp: unat_sub_if' word_unat_eq_iff)

text \<open>Two word slots that do not overlap.\<close>

definition apart :: "uint \<Rightarrow> uint \<Rightarrow> bool" where
  "apart a b \<longleftrightarrow> 4 \<le> a - b \<and> 4 \<le> b - a"

lemma apart_sym: "apart a b = apart b a"
  by (auto simp: apart_def)

lemma st32_other: "4 \<le> x - a \<Longrightarrow> st32 m a w x = m x"
  by (auto simp: st32_def word_le_nat_alt)

lemma ld32_cong:
  assumes "m a = m' a" "m (a + 1) = m' (a + 1)" "m (a + 2) = m' (a + 2)" "m (a + 3) = m' (a + 3)"
  shows "ld32 m a = ld32 m' a"
  using assms by (simp add: ld32_def)

lemma apart_add:
  assumes "apart a b" and "unat k < 4"
  shows "4 \<le> a + k - b"
proof -
  have "unat (a - b) < 2 ^ 32 - 3" if "a \<noteq> b"
    using unat_minus_swap [OF that] assms(1) by (auto simp: apart_def word_le_nat_alt)
  moreover have "a \<noteq> b" using assms(1) by (auto simp: apart_def)
  moreover have "4 \<le> unat (a - b)" using assms(1) by (simp add: apart_def word_le_nat_alt)
  ultimately have "4 \<le> (a - b) + k"
    using assms(2) by (simp add: word_le_nat_alt unat_word_ariths)
  then show ?thesis by (simp add: algebra_simps)
qed

lemma ld32_st32_apart:
  assumes "apart a b" shows "ld32 (st32 m b w) a = ld32 m a"
proof (rule ld32_cong)
  show "st32 m b w a = m a" using apart_add [OF assms, of 0] by (simp add: st32_other)
  show "st32 m b w (a + 1) = m (a + 1)" using apart_add [OF assms, of 1] by (simp add: st32_other)
  show "st32 m b w (a + 2) = m (a + 2)" using apart_add [OF assms, of 2] by (simp add: st32_other)
  show "st32 m b w (a + 3) = m (a + 3)" using apart_add [OF assms, of 3] by (simp add: st32_other)
qed

lemma aligned_iff: "(a :: uint) mod k = 0 \<longleftrightarrow> unat k dvd unat a"
  by (metis unat_eq_zero unat_mod dvd_eq_mod_eq_0)

lemma dvd_unat_diff:
  fixes a b :: uint
  assumes "k dvd unat a" "k dvd unat b" "k dvd 2 ^ 32"
  shows "k dvd unat (a - b)"
  using assms by (auto simp: unat_sub_if' intro!: dvd_diff_nat)

lemma apart_aligned:
  assumes "a mod 4 = 0" "b mod 4 = 0" "a \<noteq> b"
  shows "apart a b"
proof -
  have "4 \<le> x" if "x mod 4 = 0" "x \<noteq> 0" for x :: uint
  proof -
    have "4 dvd unat x" using that(1) by (simp add: aligned_iff)
    moreover have "unat x \<noteq> 0" using that(2) by (simp add: unat_eq_zero)
    ultimately have "4 \<le> unat x" by presburger
    then show ?thesis by (simp add: word_le_nat_alt)
  qed
  moreover have "4 dvd unat a" "4 dvd unat b"
    using assms(1,2) by (simp_all add: aligned_iff)
  then have "(a - b) mod 4 = 0" "(b - a) mod 4 = 0"
    using dvd_unat_diff [of 4] by (simp_all add: aligned_iff)
  ultimately show ?thesis using assms(3) by (simp add: apart_def)
qed

subsection \<open>Filling and copying\<close>

lemma mask_numerals8: "(0xFF :: uint) = mask 8"
  by (simp add: mask_eq_exp_minus_1)

lemma unat_diff_Suc: "x \<noteq> a \<Longrightarrow> unat (x - a) = Suc (unat (x - (a + 1)))" for x a :: uint
  using unat_minus_one [of "x - a"] unat_eq_zero [of "x - a"] by (simp add: diff_diff_add)

lemma stosb_spec:
  "n \<le> 2 ^ 32 \<Longrightarrow> stosb n m a c = (\<lambda>x. if unat (x - a) < n then c else m x)"
proof (induction n arbitrary: m a)
  case 0
  then show ?case by simp
next
  case (Suc n)
  have "unat (x - (a + 1)) < n \<or> x = a \<longleftrightarrow> unat (x - a) < Suc n" for x
    by (cases "x = a") (simp_all add: unat_diff_Suc)
  with Suc show ?case by (auto simp: fun_eq_iff)
qed

lemma st32_spread:
  assumes "c = c' AND 0xFF"
  shows "st32 m a (push_bit 24 c OR push_bit 16 c OR push_bit 8 c OR c) = stosb 4 m a (ucast c')"
proof -
  have "ucast (drop_bit k (push_bit 24 c OR push_bit 16 c OR push_bit 8 c OR c)) = (ucast c' :: uchar)"
    if "k \<in> {0, 8, 16, 24}" for k
    using that unfolding assms mask_numerals8
    by (auto intro!: bit_word_eqI simp: bit_simps)
  from this [of 0] this [of 8] this [of 16] this [of 24] show ?thesis
    by (simp add: st32_def eval_nat_numeral add.assoc)
qed

lemma stosb_add: "stosb (n + k) m a c = stosb k (stosb n m a c) (a + of_nat n) c"
  by (induction n arbitrary: m a) (simp_all add: ac_simps)

lemma stosl_spread:
  assumes "c = c' AND 0xFF"
  shows "stosl n m a (push_bit 24 c OR push_bit 16 c OR push_bit 8 c OR c) =
    stosb (4 * n) m a (ucast c')"
proof (induction n arbitrary: m a)
  case 0
  then show ?case by simp
next
  case (Suc n)
  then show ?case
    using stosb_add [of 4 "4 * n" m a] by (simp add: st32_spread [OF assms])
qed

lemma memset_spec: "memset m dst c n = (\<lambda>a. if a - dst < n then ucast c else m a)"
proof -
  have "4 * unat (n div 4) = unat n" if "n mod 4 = 0"
    using that by (simp add: aligned_iff unat_div)
  then have "memset m dst c n = stosb (unat n) m dst (ucast c)"
    unfolding memset_def Let_def stosl_spread [OF refl] by simp
  then show ?thesis
    using unat_lt32 [of n] by (simp add: stosb_spec word_less_nat_alt)
qed

lemma copy_up_spec:
  assumes "n \<le> 2 ^ 32" and "d = s \<or> n \<le> unat (d - s)"
  shows "copy_up n m d s = (\<lambda>x. if unat (x - d) < n then m (s + (x - d)) else m x)"
  using assms
proof (induction n arbitrary: m d s)
  case 0
  then show ?case by simp
next
  case (Suc n)
  have "s + (x - d) \<noteq> d" if "unat (x - d) < Suc n" "d \<noteq> s" for x
  proof
    assume "s + (x - d) = d"
    then have "x - d = d - s" by (metis add_diff_cancel_left')
    with that Suc.prems(2) show False by simp
  qed
  moreover have "unat (x - (d + 1)) < n \<or> x = d \<longleftrightarrow> unat (x - d) < Suc n" for x
    by (cases "x = d") (simp_all add: unat_diff_Suc)
  ultimately show ?case
    using Suc by (cases "d = s") (auto simp: fun_eq_iff)
qed

lemma copy_down_spec:
  assumes "n \<le> 2 ^ 32" and "d = s \<or> n \<le> unat (s - d)"
  shows "copy_down n m (d + of_nat n) (s + of_nat n) =
    (\<lambda>x. if unat (x - d) < n then m (s + (x - d)) else m x)"
  using assms
proof (induction n arbitrary: m)
  case 0
  then show ?case by simp
next
  case (Suc n)
  have n: "unat (of_nat n :: uint) = n"
    using Suc.prems(1) by (simp add: unat_of_nat)
  have at: "unat (x - d) = n \<longleftrightarrow> x = d + of_nat n" for x
  proof
    assume "unat (x - d) = n"
    moreover have "of_nat (unat (x - d)) = x - d" by simp
    ultimately show "x = d + of_nat n" by (simp add: algebra_simps)
  qed (use n in simp)
  have "s + (x - d) \<noteq> d + of_nat n" if "unat (x - d) < n" "d \<noteq> s" for x
  proof
    assume "s + (x - d) = d + of_nat n"
    then have "of_nat n = (x - d) + (s - d)" by (simp add: algebra_simps)
    then have "n = unat ((x - d) + (s - d))" using n by metis
    moreover have "unat (s - d) \<le> unat ((x - d) + (s - d)) \<or> unat ((x - d) + (s - d)) < unat (x - d)"
      unfolding unat_word_ariths using unat_lt32 [of "s - d"] unat_lt32 [of "x - d"]
      by (auto simp: mod_if)
    ultimately show False
      using that Suc.prems(2) by simp
  qed
  with at show ?case
    using Suc by (cases "d = s") (auto simp: fun_eq_iff less_Suc_eq algebra_simps)
qed

lemma memmove_spec:
  assumes "unat s + unat n \<le> 2 ^ 32" and "unat d + unat n \<le> 2 ^ 32"
  shows "memmove m d s n = (\<lambda>a. if a - d < n then m (s + (a - d)) else m a)"
proof (cases "s < d \<and> s + n > d")
  case True
  then have "unat n \<le> unat (s - d)"
    using assms by (auto simp: unat_sub_if' word_less_nat_alt)
  then show ?thesis
    using True unat_lt32 [of n] copy_down_spec [of "unat n" d s m]
    by (simp add: memmove_def word_less_nat_alt)
next
  case False
  have "d = s \<or> unat n \<le> unat (d - s)"
    using False assms by (auto simp: unat_sub_if' word_less_nat_alt unat_word_ariths word_unat_eq_iff)
  then show ?thesis
    using unat_lt32 [of n] copy_up_spec [of "unat n" d s m]
    unfolding memmove_def if_not_P [OF False] by (simp add: word_less_nat_alt)
qed

subsection \<open>C strings\<close>

text \<open>\<open>cstr m p cs\<close>: at \<open>p\<close> there are the non-zero bytes \<open>cs\<close> and then a zero byte.\<close>

primrec cstr :: "mem \<Rightarrow> uint \<Rightarrow> bytes \<Rightarrow> bool" where
  "cstr m p [] = (m p = 0)"
| "cstr m p (c # cs) = (m p = c \<and> c \<noteq> 0 \<and> cstr m (p + 1) cs)"

lemma cstr_unique: "cstr m p cs \<Longrightarrow> cstr m p ds \<Longrightarrow> cs = ds"
proof (induction cs arbitrary: p ds)
  case Nil
  then show ?case by (cases ds) simp_all
next
  case (Cons c cs)
  then show ?case by (cases ds) auto
qed

lemma strlen_loop_cstr: "cstr m (p + of_nat n) cs \<Longrightarrow> strlen_loop m p n = Some (n + length cs)"
proof (induction cs arbitrary: n)
  case Nil
  then show ?case by (simp add: strlen_loop.simps [of m p n])
next
  case (Cons c cs)
  then show ?case using Cons.IH [of "Suc n"] by (simp add: strlen_loop.simps [of m p n] ac_simps)
qed

lemma strlen_cstr: "cstr m p cs \<Longrightarrow> strlen m p = Some (length cs)"
  using strlen_loop_cstr [of m p 0 cs] by (simp add: strlen_def)

lemma uint_diff_0 [simp]: "uint (a :: uchar) = uint b \<longleftrightarrow> a = b" "uint a = 0 \<longleftrightarrow> a = 0"
  by (simp_all add: word_uint_eq_iff)

lemma strcmp_cstr:
  assumes "cstr m p cs" and "cstr m q ds"
  shows "\<exists>r. strcmp m p q = Some r \<and> (r = 0 \<longleftrightarrow> cs = ds)"
  using assms
proof (induction cs arbitrary: p q ds)
  case Nil
  then show ?case by (cases ds) (auto simp: strcmp.simps [of m p q])
next
  case (Cons c cs)
  show ?case
  proof (cases "m p = m q")
    case True
    with Cons.prems obtain ds' where ds: "ds = c # ds'" "cstr m (q + 1) ds'"
      by (cases ds) auto
    with Cons.prems True Cons.IH [of "p + 1" "q + 1" ds'] show ?thesis
      by (simp add: strcmp.simps [of m p q])
  next
    case False
    with Cons.prems show ?thesis
      by (cases ds) (auto simp: strcmp.simps [of m p q])
  qed
qed

lemma strncmp_cstr:
  assumes "cstr m p cs" and "cstr m q ds"
  shows "strncmp m p q n = 0 \<longleftrightarrow> take (unat n) cs = take (unat n) ds"
proof -
  have "strncmp_loop k m p q = 0 \<longleftrightarrow> take k cs = take k ds" for k
    using assms
  proof (induction k arbitrary: p q cs ds)
    case 0
    then show ?case by simp
  next
    case (Suc k)
    then show ?case by (cases cs; cases ds) auto
  qed
  then show ?thesis by (simp add: strncmp_def)
qed

text \<open>\<open>strchr\<close> returns the address of the first \<open>c\<close>, or null.\<close>

lemma strchr_cstr:
  "cstr m p cs \<Longrightarrow> c \<noteq> 0 \<Longrightarrow> strchr m p c =
    Some (if c \<in> set cs then p + of_nat (length (takeWhile (\<lambda>x. x \<noteq> c) cs)) else 0)"
proof (induction cs arbitrary: p)
  case Nil
  then show ?case by (simp add: strchr.simps [of m p])
next
  case (Cons d cs)
  then show ?case using Cons.IH [of "p + 1"] by (simp add: strchr.simps [of m p] ac_simps)
qed

text \<open>\<open>atoi\<close> reads the decimal digits at the front of the string.\<close>

definition digit :: "uchar \<Rightarrow> bool" where
  "digit c \<longleftrightarrow> 48 \<le> c \<and> c \<le> 57"

definition dec_value :: "bytes \<Rightarrow> nat" where
  "dec_value cs = foldl (\<lambda>n c. n * 10 + (unat c - 48)) 0 cs"

lemma ucast_digit: "48 \<le> (c :: uchar) \<Longrightarrow> (ucast c :: uint) - 48 = of_nat (unat c - 48)"
proof -
  assume "48 \<le> c"
  then have "48 \<le> unat c" by (simp add: word_le_nat_alt)
  moreover have "(ucast c :: uint) = of_nat (unat c)" by simp
  ultimately show ?thesis by (simp add: of_nat_diff)
qed

lemma atoi_loop_cstr:
  "cstr m p cs \<Longrightarrow> atoi_loop m p (of_nat n) =
     Some (of_nat (foldl (\<lambda>n c. n * 10 + (unat c - 48)) n (takeWhile digit cs)))"
proof (induction cs arbitrary: p n)
  case Nil
  then show ?case by (simp add: atoi_loop.simps [of m p])
next
  case (Cons c cs)
  show ?case
  proof (cases "digit c")
    case True
    have "of_nat n * 10 + ucast c - 48 = of_nat n * 10 + (ucast c - 48 :: uint)" by simp
    also have "\<dots> = of_nat (n * 10 + (unat c - 48))"
      using True by (simp add: ucast_digit digit_def)
    finally have step: "of_nat n * 10 + ucast c - 48 = (of_nat (n * 10 + (unat c - 48)) :: uint)" .
    have "atoi_loop m p (of_nat n) = atoi_loop m (p + 1) (of_nat n * 10 + ucast c - 48)"
      using True Cons.prems by (simp add: atoi_loop.simps [of m p] digit_def)
    with True Cons.prems Cons.IH [of "p + 1" "n * 10 + (unat c - 48)"] show ?thesis
      unfolding step by simp
  next
    case False
    with Cons show ?thesis by (auto simp: atoi_loop.simps [of m p] digit_def)
  qed
qed

lemma atoi_cstr: "cstr m p cs \<Longrightarrow> atoi m p = Some (of_nat (dec_value (takeWhile digit cs)))"
  using atoi_loop_cstr [of m p cs 0] by (simp add: atoi_def dec_value_def)

text \<open>
  \<open>safestrcpy\<close> leaves a terminated string, the source cut to \<open>n - 1\<close> bytes, and
  writes nothing outside the \<open>n\<close> bytes of the destination.
\<close>

lemma cstr_cong:
  "(\<And>i. i \<le> length cs \<Longrightarrow> m (p + of_nat i) = m' (p + of_nat i)) \<Longrightarrow> cstr m p cs = cstr m' p cs"
proof (induction cs arbitrary: p)
  case Nil
  from Nil [of 0] show ?case by simp
next
  case (Cons c cs)
  have "m p = m' p" using Cons.prems [of 0] by simp
  moreover have "m (p + 1 + of_nat i) = m' (p + 1 + of_nat i)" if "i \<le> length cs" for i
    using Cons.prems [of "Suc i"] that by (simp add: ac_simps)
  ultimately show ?case using Cons.IH [of "p + 1"] by simp
qed

lemma unat_diff_ge_Suc: "Suc n \<le> unat (a - s) \<Longrightarrow> n \<le> unat (a - (s + 1)) \<and> a \<noteq> s" for a s :: uint
  using unat_diff_Suc [of a s] by (cases "a = s") simp_all

lemma safestrcpy_loop_frame:
  "Suc k \<le> unat (a - s) \<Longrightarrow> safestrcpy_loop k m s t a = m a"
proof (induction k arbitrary: m s t)
  case 0
  then show ?case by auto
next
  case (Suc k)
  from unat_diff_ge_Suc [OF Suc.prems] have "Suc k \<le> unat (a - (s + 1))" "a \<noteq> s" by simp_all
  with Suc.IH [of "s + 1"] show ?case by (auto simp: Let_def)
qed

lemma safestrcpy_loop_cstr:
  assumes "cstr m t cs" and "\<And>i. i \<le> length cs \<Longrightarrow> k < unat (t + of_nat i - s)"
    and "k < 2 ^ 32 - 1"
  shows "cstr (safestrcpy_loop k m s t) s (take k cs)"
  using assms
proof (induction k arbitrary: m s t cs)
  case 0
  then show ?case by simp
next
  case (Suc k)
  show ?case
  proof (cases cs)
    case Nil
    with Suc.prems show ?thesis by simp
  next
    case (Cons c cs')
    let ?m = "m(s := m t)"
    have k: "k < 2 ^ 32 - 1" using Suc.prems(3) by simp
    have off: "Suc k < unat (t + 1 + of_nat i - s)" if "i \<le> length cs'" for i
      using Suc.prems(2) [of "Suc i"] that Cons by (simp add: ac_simps)
    then have "t + 1 + of_nat i \<noteq> s" if "i \<le> length cs'" for i
      using that by fastforce
    then have "cstr ?m (t + 1) cs'"
      using Suc.prems(1) Cons cstr_cong [of cs' ?m "t + 1" m] by simp
    moreover have "k < unat (t + 1 + of_nat i - (s + 1))" if "i \<le> length cs'" for i
      using unat_diff_ge_Suc [of "Suc k" "t + 1 + of_nat i" s] off [OF that] by simp
    ultimately have "cstr (safestrcpy_loop k ?m (s + 1) (t + 1)) (s + 1) (take k cs')"
      by (rule Suc.IH [OF _ _ k])
    moreover have "safestrcpy_loop k ?m (s + 1) (t + 1) s = m t"
    proof -
      have "s - (s + 1) = - 1" by simp
      then have "unat (s - (s + 1)) = 2 ^ 32 - 1"
        by (simp only: unsigned_minus_1_eq_mask) (simp add: mask_eq_exp_minus_1)
      then show ?thesis using k by (simp only: safestrcpy_loop_frame) simp
    qed
    ultimately show ?thesis
      using Suc.prems(1) Cons by simp
  qed
qed

text \<open>\<open>gets\<close> ends the line with a zero byte inside the buffer and writes only there.\<close>

lemma gets_loop_bounds:
  assumes "gets_loop k rd w m b = (m', b', w')" and "k < 2 ^ 32"
  shows "(\<exists>j \<le> k. b' = b + of_nat j) \<and> (\<forall>a. k \<le> unat (a - b) \<longrightarrow> m' a = m a)"
  using assms
proof (induction k arbitrary: w m b)
  case 0
  then show ?case by auto
next
  case (Suc k)
  obtain r v where r: "rd w = (r, v)" by force
  show ?case
  proof (cases "\<exists>c. r = Some c \<and> c \<noteq> 10 \<and> c \<noteq> 13")
    case True
    then obtain c where c: "r = Some c" "c \<noteq> 10" "c \<noteq> 13" by blast
    with Suc.prems r have "gets_loop k rd v (m(b := c)) (b + 1) = (m', b', w')" by simp
    from Suc.IH [OF this] Suc.prems(2) obtain j
      where j: "j \<le> k" "b' = b + 1 + of_nat j"
        and m': "\<And>a. k \<le> unat (a - (b + 1)) \<Longrightarrow> m' a = (m(b := c)) a"
      by (auto simp: ac_simps)
    have "m' a = m a" if "Suc k \<le> unat (a - b)" for a
      using unat_diff_ge_Suc [OF that] m' [of a] by simp
    moreover have "Suc j \<le> Suc k \<and> b' = b + of_nat (Suc j)" using j by simp
    ultimately show ?thesis by blast
  next
    case False
    then have "(m', b') = (m, b) \<or> (\<exists>c. (m', b') = (m(b := c), b + 1))"
      using Suc.prems(1) r by (auto split: option.splits)
    then show ?thesis by (auto intro: exI [of _ 0] exI [of _ 1])
  qed
qed

subsection \<open>Properties\<close>

text \<open>
  C11. \<open>memmove\<close> of string.c copies \<open>n\<close> bytes as if they were all read before any is
  written, for every overlap of the two areas, and writes nothing else.
\<close>

theorem memmove_copies:
  assumes "unat s + unat n \<le> 2 ^ 32" and "unat d + unat n \<le> 2 ^ 32"
  shows "memmove m d s n = (\<lambda>a. if a - d < n then m (s + (a - d)) else m a)"
  using assms by (rule memmove_spec)

theorem memmove_copies_witness:
  "memmove (\<lambda>a. ucast a) 102 100 8 = (\<lambda>a. if a - 102 < 8 then ucast (100 + (a - 102)) else ucast a)"
  by (rule memmove_copies) simp_all

text \<open>
  C12. \<open>safestrcpy\<close> of string.c always leaves a terminated string, the first \<open>n - 1\<close>
  bytes of the source or the whole of it, and writes only the \<open>n\<close> bytes it is given.
\<close>

theorem safestrcpy_terminates_string:
  assumes "cstr m t cs" and "\<And>i. i \<le> length cs \<Longrightarrow> n \<le> int (unat (t + of_nat i - s))" and "0 < n" "n < 2 ^ 31"
  shows "cstr (safestrcpy m s t n) s (take (nat n - 1) cs) \<and> (\<forall>a. n \<le> int (unat (a - s)) \<longrightarrow> safestrcpy m s t n a = m a)"
proof (intro conjI allI impI)
  have e: "safestrcpy m s t n = safestrcpy_loop (nat n - 1) m s t"
    using assms(3) by (simp add: safestrcpy_def nat_diff_distrib)
  show "cstr (safestrcpy m s t n) s (take (nat n - 1) cs)"
    unfolding e
  proof (rule safestrcpy_loop_cstr [OF assms(1)])
    show "nat n - 1 < unat (t + of_nat i - s)" if "i \<le> length cs" for i
      using assms(2) [OF that] assms(3) by linarith
  qed (use assms(3,4) in simp)
  show "safestrcpy m s t n a = m a" if "n \<le> int (unat (a - s))" for a
    unfolding e by (rule safestrcpy_loop_frame) (use that assms(3) in linarith)
qed

theorem safestrcpy_terminates_string_witness:
  "cstr (safestrcpy ((\<lambda>_. 0)(200 := 65, 201 := 66)) 100 200 2) 100 [65]"
proof -
  let ?m = "(\<lambda>_. 0)(200 := 65, 201 := 66) :: mem"
  have "cstr ?m 200 [65, 66]" by simp
  moreover have "2 \<le> int (unat (200 + of_nat i - 100 :: uint))" if "i \<le> length [65, 66 :: uchar]" for i
  proof -
    have "i = 0 \<or> i = 1 \<or> i = 2" using that by auto
    then show ?thesis by (elim disjE) simp_all
  qed
  ultimately show ?thesis
    using safestrcpy_terminates_string [of ?m 200 "[65, 66]" 2 100] by simp
qed

text \<open>
  C13. \<open>gets\<close> of ulib.c never writes outside the \<open>max\<close> bytes of its buffer, whatever
  the input, and leaves a zero byte inside it.
\<close>

theorem gets_in_buffer:
  assumes "gets_line rd w m buf mx = (m', w')" and "0 < mx" "mx < 2 ^ 31"
  shows "(\<forall>a. mx \<le> int (unat (a - buf)) \<longrightarrow> m' a = m a) \<and> (\<exists>i < nat mx. m' (buf + of_nat i) = 0)"
proof -
  obtain u b where g: "gets_loop (nat (mx - 1)) rd w m buf = (u, b, w')" and m': "m' = u(b := 0)"
    using assms(1) by (auto simp: gets_line_def split: prod.splits)
  have k: "nat (mx - 1) < 2 ^ 32" using assms(3) by simp
  obtain j where j: "j \<le> nat (mx - 1)" "b = buf + of_nat j" and u: "\<And>a. nat (mx - 1) \<le> unat (a - buf) \<Longrightarrow> u a = m a"
    using gets_loop_bounds [OF g k] by blast
  have jm: "j < nat mx" using j(1) assms(2) by linarith
  have "m' a = m a" if "mx \<le> int (unat (a - buf))" for a
  proof -
    have "unat (b - buf) = j" using j assms(3) by (simp add: unat_of_nat)
    then have "a \<noteq> b" using that jm by (metis nat_le_iff not_less)
    moreover have "nat (mx - 1) \<le> unat (a - buf)" using that by linarith
    ultimately show ?thesis using u [of a] by (simp add: m')
  qed
  moreover have "m' (buf + of_nat j) = 0" by (simp add: m' j(2))
  ultimately show ?thesis using jm by blast
qed

definition read_list :: "uchar list \<Rightarrow> uchar option \<times> uchar list" where
  "read_list w = (case w of [] \<Rightarrow> (None, []) | c # cs \<Rightarrow> (Some c, cs))"

theorem gets_in_buffer_witness:
  "let m' = fst (gets_line read_list [65, 66, 67, 10] (\<lambda>_. 1) 500 3) in
   (\<forall>a. 3 \<le> int (unat (a - 500)) \<longrightarrow> m' a = 1) \<and> (\<exists>i < nat 3. m' (500 + of_nat i) = 0)"
proof -
  obtain m' w' where g: "gets_line read_list [65, 66, 67, 10] (\<lambda>_. 1) 500 3 = (m', w')" by force
  from gets_in_buffer [OF g] show ?thesis by (simp add: g)
qed

end
