(* ===== verification/Kcore.thy ===== *)
theory Kcore
  imports Spinlock Memory
begin

text \<open>
  The core of the kernel state that every layer above shares: the spin locks
  the CPU holds, the process table, the tick counter and the sleep locks; and
  the operations on it that every layer calls (\<open>sched\<close>, \<open>sleep\<close>, \<open>wakeup\<close> of
  proc.c and sleeplock.c).

  The build has one CPU (\<open>NCPU\<close> is 1), so the state keeps the list \<open>held\<close> of the
  spin locks that CPU holds, latest first, and the process it runs,
  \<open>cpus[0].proc\<close>, as \<open>curproc\<close>. \<open>kacquire\<close> and \<open>krelease\<close> are \<open>acquire\<close> and
  \<open>release\<close> over that list; \<open>lock_simulation\<close> proves that the code of spinlock.c
  behaves exactly like them, panics included. The nesting count \<open>ncli\<close> is the
  length of the list, so interrupts are off whenever it is not empty.

  A pointer to an entry of a table is its index, a null pointer is \<open>None\<close>. A
  table is a function on indices below its size. Sleep channels, which the code
  takes from the addresses of objects, are the values of \<open>chan\<close>.
\<close>

subsection \<open>Locks and channels\<close>

datatype slid = BufLock nat | InodeLock nat

datatype lock =
    PTableLock | KMemLock | BCacheLock | LogLock | ICacheLock | FTableLock
  | TicksLock | ConsLock | IdeLock | PipeLock uint | SleepLk slid

datatype chan =
    ChTicks | ChProc nat | ChLog | ChSleep slid | ChBuf nat
  | ChPipeR uint | ChPipeW uint | ChInput

record sleeplock =
  slocked :: bool
  slname :: string
  slpid :: int

subsection \<open>Processes (proc.h, x86.h)\<close>

record trapframe =
  tf_edi :: uint
  tf_esi :: uint
  tf_ebp :: uint
  tf_oesp :: uint
  tf_ebx :: uint
  tf_edx :: uint
  tf_ecx :: uint
  tf_eax :: uint
  tf_gs :: ushort
  tf_fs :: ushort
  tf_es :: ushort
  tf_ds :: ushort
  tf_trapno :: uint
  tf_err :: uint
  tf_eip :: uint
  tf_cs :: ushort
  tf_eflags :: uint
  tf_esp :: uint
  tf_ss :: ushort

record ctxt =
  cx_edi :: uint
  cx_esi :: uint
  cx_ebx :: uint
  cx_ebp :: uint
  cx_eip :: uint

datatype procstate = UNUSED | EMBRYO | SLEEPING | RUNNABLE | RUNNING | ZOMBIE

text \<open>
  The trap frame and the saved context live on the process's kernel stack; the
  record holds what \<open>p->tf\<close> and \<open>p->context\<close> point to. The execution-time
  fields at the end are those this version of the kernel adds.
\<close>

record proc =
  psz :: uint
  pgdir :: uint
  kstack :: uint
  pstate :: procstate
  pid :: int
  parent :: "nat option"
  ptf :: trapframe
  pcontext :: ctxt
  chan :: "chan option"
  killed :: bool
  ofile :: "nat \<Rightarrow> nat option"
  cwd :: "nat option"
  pname :: bytes
  slot :: int
  ctime :: uint
  waiting_t :: uint
  running_t :: uint
  turnaround_t :: uint
  pwaiting_t :: "uint list"
  prunning_t :: "uint list"
  pturnaround_t :: "uint list"
  pidtimes :: int

record kcore =
  held :: "lock list"
  curproc :: "nat option"
  ticks :: uint
  procs :: "nat \<Rightarrow> proc"
  nextpid :: int
  initproc :: "nat option"
  slocks :: "slid \<Rightarrow> sleeplock"

subsection \<open>Spin locks and the current process\<close>

definition kacquire :: "lock \<Rightarrow> ('z kcore_scheme, unit) kop" where
  "kacquire l = (\<lambda>s. if l \<in> set (held s) then Panic ''acquire'' else Ret () (s\<lparr>held := l # held s\<rparr>))"

definition krelease :: "lock \<Rightarrow> ('z kcore_scheme, unit) kop" where
  "krelease l = (\<lambda>s. if l \<in> set (held s) then Ret () (s\<lparr>held := remove1 l (held s)\<rparr>) else Panic ''release'')"

definition myproc :: "('z kcore_scheme, nat option) kop" where
  "myproc = gets curproc"

text \<open>\<open>with_myproc f\<close> runs \<open>f\<close> on \<open>myproc()\<close>, which the code dereferences.\<close>

definition with_myproc :: "(nat \<Rightarrow> ('z kcore_scheme, 'a) kop) \<Rightarrow> ('z kcore_scheme, 'a) kop" where
  "with_myproc f = bnd myproc (\<lambda>p. case p of None \<Rightarrow> wild ''null process'' | Some i \<Rightarrow> f i)"

definition proc_upd :: "nat \<Rightarrow> (proc \<Rightarrow> proc) \<Rightarrow> ('z kcore_scheme, unit) kop" where
  "proc_upd i f = mods (\<lambda>s. s\<lparr>procs := (procs s)(i := f (procs s i))\<rparr>)"

definition proc_get :: "nat \<Rightarrow> (proc \<Rightarrow> 'a) \<Rightarrow> ('z kcore_scheme, 'a) kop" where
  "proc_get i f = gets (\<lambda>s. f (procs s i))"

subsection \<open>sched, sleep, wakeup\<close>

text \<open>
  \<open>sched\<close> checks its preconditions and switches to the scheduler. Its check that
  interrupts are off cannot fail while a lock is held. \<open>sleep\<close> ends in the switch;
  \<open>sleep_resume\<close> is what it does when the process runs again.
\<close>

definition sched :: "('z kcore_scheme, 'a) kop" where
  "sched = with_myproc (\<lambda>p.
     bnd (gets held) (\<lambda>h.
     bnd (proc_get p pstate) (\<lambda>st.
       if PTableLock \<notin> set h then panic ''sched ptable.lock''
       else if length h \<noteq> 1 then panic ''sched locks''
       else if st = RUNNING then panic ''sched running''
       else switch)))"

definition sleep :: "chan option \<Rightarrow> lock option \<Rightarrow> ('z kcore_scheme, 'a) kop" where
  "sleep ch lk =
     bnd myproc (\<lambda>p. case p of None \<Rightarrow> panic ''sleep'' | Some i \<Rightarrow>
       (case lk of None \<Rightarrow> panic ''sleep without lk'' | Some l \<Rightarrow>
        bnd (seqs [
          whenk (l \<noteq> PTableLock) (seqs [kacquire PTableLock, krelease l]),
          proc_upd i (\<lambda>p. p\<lparr>chan := ch\<rparr>),
          proc_upd i (\<lambda>p. p\<lparr>pstate := SLEEPING\<rparr>)]) (\<lambda>_. sched)))"

definition sleep_resume :: "nat \<Rightarrow> lock \<Rightarrow> ('z kcore_scheme, unit) kop" where
  "sleep_resume i l = seqs [
     proc_upd i (\<lambda>p. p\<lparr>chan := None\<rparr>),
     whenk (l \<noteq> PTableLock) (seqs [krelease PTableLock, kacquire l])]"

definition wakeup1 :: "chan option \<Rightarrow> ('z kcore_scheme, unit) kop" where
  "wakeup1 ch = for_each [0..<NPROC] (\<lambda>i.
     bnd (proc_get i (\<lambda>p. pstate p = SLEEPING \<and> chan p = ch)) (\<lambda>b.
       whenk b (proc_upd i (\<lambda>p. p\<lparr>pstate := RUNNABLE\<rparr>))))"

definition wakeup :: "chan option \<Rightarrow> ('z kcore_scheme, unit) kop" where
  "wakeup ch = seqs [kacquire PTableLock, wakeup1 ch, krelease PTableLock]"

subsection \<open>Sleep locks (sleeplock.c)\<close>

definition sl_upd :: "slid \<Rightarrow> (sleeplock \<Rightarrow> sleeplock) \<Rightarrow> ('z kcore_scheme, unit) kop" where
  "sl_upd l f = mods (\<lambda>s. s\<lparr>slocks := (slocks s)(l := f (slocks s l))\<rparr>)"

definition initsleeplock :: "slid \<Rightarrow> string \<Rightarrow> ('z kcore_scheme, unit) kop" where
  "initsleeplock l nm = sl_upd l (\<lambda>k. k\<lparr>slname := nm, slocked := False, slpid := 0\<rparr>)"

text \<open>
  The loop of \<open>acquiresleep\<close>: one test of the lock; when it is taken the process
  sleeps, and \<open>acquiresleep_resume\<close> is the rest of the loop after it is woken.
\<close>

definition acquiresleep_loop :: "slid \<Rightarrow> ('z kcore_scheme, unit) kop" where
  "acquiresleep_loop l =
     bnd (gets (\<lambda>s. slocked (slocks s l))) (\<lambda>b.
       if b then sleep (Some (ChSleep l)) (Some (SleepLk l))
       else seqs [
         sl_upd l (\<lambda>k. k\<lparr>slocked := True\<rparr>),
         with_myproc (\<lambda>p. bnd (proc_get p pid) (\<lambda>i. sl_upd l (\<lambda>k. k\<lparr>slpid := i\<rparr>))),
         krelease (SleepLk l)])"

definition acquiresleep :: "slid \<Rightarrow> ('z kcore_scheme, unit) kop" where
  "acquiresleep l = seqs [kacquire (SleepLk l), acquiresleep_loop l]"

definition acquiresleep_resume :: "nat \<Rightarrow> slid \<Rightarrow> ('z kcore_scheme, unit) kop" where
  "acquiresleep_resume i l = seqs [sleep_resume i (SleepLk l), acquiresleep_loop l]"

definition releasesleep :: "slid \<Rightarrow> ('z kcore_scheme, unit) kop" where
  "releasesleep l = seqs [
     kacquire (SleepLk l),
     sl_upd l (\<lambda>k. k\<lparr>slocked := False, slpid := 0\<rparr>),
     wakeup (Some (ChSleep l)),
     krelease (SleepLk l)]"

definition holdingsleep :: "slid \<Rightarrow> ('z kcore_scheme, bool) kop" where
  "holdingsleep l =
     bnd (kacquire (SleepLk l)) (\<lambda>_.
     bnd (with_myproc (\<lambda>p. gets (\<lambda>s. slocked (slocks s l) \<and> slpid (slocks s l) = pid (procs s p)))) (\<lambda>r.
     bnd (krelease (SleepLk l)) (\<lambda>_. ret r)))"

subsection \<open>Evaluation\<close>

named_theorems kcore "evaluation rules of the kernel core"

lemma kacquire_apply [kcore]:
  "kacquire l s = (if l \<in> set (held s) then Panic ''acquire'' else Ret () (s\<lparr>held := l # held s\<rparr>))"
  by (simp add: kacquire_def)

lemma krelease_apply [kcore]:
  "krelease l s = (if l \<in> set (held s) then Ret () (s\<lparr>held := remove1 l (held s)\<rparr>) else Panic ''release'')"
  by (simp add: krelease_def)

lemma proc_upd_apply [kcore]: "proc_upd i f s = Ret () (s\<lparr>procs := (procs s)(i := f (procs s i))\<rparr>)"
  by (simp add: proc_upd_def)

lemma proc_get_apply [kcore]: "proc_get i f s = Ret (f (procs s i)) s"
  by (simp add: proc_get_def)

lemma sl_upd_apply [kcore]: "sl_upd l f s = Ret () (s\<lparr>slocks := (slocks s)(l := f (slocks s l))\<rparr>)"
  by (simp add: sl_upd_def)

lemma myproc_apply [kcore]: "myproc s = Ret (curproc s) s"
  by (simp add: myproc_def)

lemma with_myproc_apply [kcore]:
  "with_myproc f s = (case curproc s of None \<Rightarrow> Wild ''null process'' | Some i \<Rightarrow> f i s)"
  by (simp add: with_myproc_def myproc_def kops split: option.split)

declare kops [kcore]

text \<open>The same as weakest preconditions.\<close>

lemma ok_kacquire [simp, wp]:
  "ok (kacquire l) s Q = (l \<notin> set (held s) \<and> Q () (s\<lparr>held := l # held s\<rparr>))"
  by (simp add: ok_def kacquire_def)

lemma ok_krelease [simp, wp]:
  "ok (krelease l) s Q = (l \<in> set (held s) \<and> Q () (s\<lparr>held := remove1 l (held s)\<rparr>))"
  by (simp add: ok_def krelease_def)

lemma ok_proc_upd [simp, wp]:
  "ok (proc_upd i f) s Q = Q () (s\<lparr>procs := (procs s)(i := f (procs s i))\<rparr>)"
  by (simp add: ok_def proc_upd_apply)

lemma ok_proc_get [simp, wp]: "ok (proc_get i f) s Q = Q (f (procs s i)) s"
  by (simp add: ok_def proc_get_apply)

lemma ok_sl_upd [simp, wp]:
  "ok (sl_upd l f) s Q = Q () (s\<lparr>slocks := (slocks s)(l := f (slocks s l))\<rparr>)"
  by (simp add: ok_def sl_upd_apply)

lemma ok_with_myproc [simp, wp]:
  "ok (with_myproc f) s Q = (case curproc s of None \<Rightarrow> False | Some i \<Rightarrow> ok (f i) s Q)"
  by (simp add: ok_def with_myproc_apply split: option.split)

lemma upon_kacquire [simp, wp]:
  "upon (kacquire l) s Q = (l \<notin> set (held s) \<longrightarrow> Q () (s\<lparr>held := l # held s\<rparr>))"
  by (simp add: upon_def kacquire_def)

lemma upon_krelease [simp, wp]:
  "upon (krelease l) s Q = (l \<in> set (held s) \<longrightarrow> Q () (s\<lparr>held := remove1 l (held s)\<rparr>))"
  by (simp add: upon_def krelease_def)

lemma upon_proc_upd [simp, wp]:
  "upon (proc_upd i f) s Q = Q () (s\<lparr>procs := (procs s)(i := f (procs s i))\<rparr>)"
  by (simp add: upon_def proc_upd_apply)

lemma upon_proc_get [simp, wp]: "upon (proc_get i f) s Q = Q (f (procs s i)) s"
  by (simp add: upon_def proc_get_apply)

lemma upon_sl_upd [simp, wp]:
  "upon (sl_upd l f) s Q = Q () (s\<lparr>slocks := (slocks s)(l := f (slocks s l))\<rparr>)"
  by (simp add: upon_def sl_upd_apply)

lemma upon_with_myproc [simp, wp]:
  "upon (with_myproc f) s Q = (case curproc s of None \<Rightarrow> True | Some i \<Rightarrow> upon (f i) s Q)"
  by (simp add: upon_def with_myproc_apply split: option.split)

subsection \<open>The lock layer\<close>

interpretation klocks: lock_layer kacquire krelease
    "\<lambda>s :: 'z kcore_scheme. distinct (held s)" "\<lambda>s. set (held s)"
  by unfold_locales (auto simp: kacquire_apply krelease_apply)

text \<open>
  The relation between the CPU's state in spinlock.c and the list \<open>held\<close>: the
  CPU owns the locks of the list, each once, and \<open>ncli\<close> is its length.
\<close>

definition lock_rel :: "uchar \<Rightarrow> nat \<Rightarrow> lock spin \<Rightarrow> 'z kcore_scheme \<Rightarrow> bool" where
  "lock_rel h c s k \<longleftrightarrow> spin_inv h c s \<and> distinct (held k) \<and> held_by c s = set (held k)"

lemma lock_rel_ncli: "lock_rel h c s k \<Longrightarrow> ncli (cpus s c) = int (length (held k))"
  by (simp add: lock_rel_def spin_inv_def distinct_card)

text \<open>Two routines agree: both return in related states, or both panic alike.\<close>

definition agree :: "('s \<Rightarrow> 't \<Rightarrow> bool) \<Rightarrow> ('a, 's) outcome \<Rightarrow> ('a, 't) outcome \<Rightarrow> bool" where
  "agree R x y = (case (x, y) of (Ret a s, Ret b t) \<Rightarrow> a = b \<and> R s t
     | (Panic m, Panic n) \<Rightarrow> m = n | _ \<Rightarrow> False)"

lemma agree_acquire:
  assumes "lock_rel h c s k"
  shows "agree (lock_rel h c) (acquire h v l s) (kacquire l k)"
  using assms acquire_free [of h c s l v] acquire_owned [of h c s l v]
  by (auto simp: agree_def lock_rel_def kacquire_def)

lemma agree_release:
  assumes "lock_rel h c s k"
  shows "agree (lock_rel h c) (release h l s) (krelease l k)"
  using assms release_owned [of h c s l] release_unowned [of h c s l]
  by (auto simp: agree_def lock_rel_def krelease_def distinct_remove1)

subsection \<open>wakeup\<close>

definition woken :: "chan option \<Rightarrow> (nat \<Rightarrow> proc) \<Rightarrow> nat \<Rightarrow> proc" where
  "woken ch ps = (\<lambda>i. if i < NPROC \<and> pstate (ps i) = SLEEPING \<and> chan (ps i) = ch
     then (ps i)\<lparr>pstate := RUNNABLE\<rparr> else ps i)"

lemma wakeup1_prefix:
  "n \<le> NPROC \<Longrightarrow> for_each [0..<n] (\<lambda>i.
     bnd (proc_get i (\<lambda>p. pstate p = SLEEPING \<and> chan p = ch)) (\<lambda>b.
       whenk b (proc_upd i (\<lambda>p. p\<lparr>pstate := RUNNABLE\<rparr>)))) s =
   Ret () (s\<lparr>procs := (\<lambda>i. if i < n then woken ch (procs s) i else procs s i)\<rparr>)"
proof (induction n)
  case 0
  then show ?case by (simp add: ret_apply)
next
  case (Suc n)
  then show ?case
    by (auto simp: for_each_append kcore woken_def less_Suc_eq intro!: arg_cong [where f = "\<lambda>f. s\<lparr>procs := f\<rparr>"])
qed

lemma wakeup1_apply [kcore]: "wakeup1 ch s = Ret () (s\<lparr>procs := woken ch (procs s)\<rparr>)"
proof -
  have "(\<lambda>i. if i < NPROC then woken ch (procs s) i else procs s i) = woken ch (procs s)"
    by (auto simp: woken_def)
  then show ?thesis by (simp add: wakeup1_def wakeup1_prefix)
qed

lemma wakeup_apply [kcore]:
  "wakeup ch s = (if PTableLock \<in> set (held s) then Panic ''acquire''
     else Ret () (s\<lparr>procs := woken ch (procs s)\<rparr>))"
  by (simp add: wakeup_def kcore)

lemma ok_wakeup [simp, wp]: "ok (wakeup ch) s Q =
    (PTableLock \<notin> set (held s) \<and> Q () (s\<lparr>procs := woken ch (procs s)\<rparr>))"
  by (simp add: ok_def wakeup_apply)

lemma upon_wakeup [simp, wp]: "upon (wakeup ch) s Q =
    (PTableLock \<notin> set (held s) \<longrightarrow> Q () (s\<lparr>procs := woken ch (procs s)\<rparr>))"
  by (simp add: upon_def wakeup_apply)

lemma woken_fields [simp]:
  "pid (woken ch ps i) = pid (ps i)" "parent (woken ch ps i) = parent (ps i)"
  "killed (woken ch ps i) = killed (ps i)" "chan (woken ch ps i) = chan (ps i)"
  "pgdir (woken ch ps i) = pgdir (ps i)" "psz (woken ch ps i) = psz (ps i)"
  "kstack (woken ch ps i) = kstack (ps i)" "ofile (woken ch ps i) = ofile (ps i)"
  "cwd (woken ch ps i) = cwd (ps i)" "ptf (woken ch ps i) = ptf (ps i)"
  "pname (woken ch ps i) = pname (ps i)" "slot (woken ch ps i) = slot (ps i)"
  "ctime (woken ch ps i) = ctime (ps i)"
  by (simp_all add: woken_def)

lemma pstate_woken:
  "pstate (woken ch ps i) = (if i < NPROC \<and> pstate (ps i) = SLEEPING \<and> chan (ps i) = ch
     then RUNNABLE else pstate (ps i))"
  by (simp add: woken_def)

subsection \<open>sched and sleep\<close>

lemma sched_apply [kcore]:
  "sched s = (case curproc s of None \<Rightarrow> Wild ''null process'' | Some p \<Rightarrow>
     if PTableLock \<notin> set (held s) then Panic ''sched ptable.lock''
     else if length (held s) \<noteq> 1 then Panic ''sched locks''
     else if pstate (procs s p) = RUNNING then Panic ''sched running''
     else Switch s)"
  by (simp add: sched_def kcore split: option.split)

lemma upon_sched [simp, wp]: "upon sched s Q"
  by (simp add: upon_def sched_apply split: option.split)

lemma upon_sleep [simp, wp]: "upon (sleep ch lk) s Q"
  by (simp add: sleep_def myproc_def wp split: option.split)

text \<open>The state in which a process that holds just \<open>lk\<close> gives up the CPU in \<open>sleep\<close>.\<close>

definition asleep :: "nat \<Rightarrow> chan option \<Rightarrow> 'z kcore_scheme \<Rightarrow> 'z kcore_scheme" where
  "asleep p ch s = s\<lparr>held := [PTableLock],
     procs := (procs s)(p := (procs s p)\<lparr>chan := ch, pstate := SLEEPING\<rparr>)\<rparr>"

lemma sleep_switch:
  assumes "curproc s = Some p" and "held s = [l]"
  shows "sleep ch (Some l) s = Switch (asleep p ch s)"
  using assms by (auto simp: sleep_def asleep_def kcore)

lemma sleep_locks_panic:
  assumes "curproc s = Some p" and "l \<in> set (held s)" and "PTableLock \<notin> set (held s)"
    and "length (held s) \<noteq> 1"
  shows "sleep ch (Some l) s = Panic ''sched locks''"
  using assms by (cases "held s") (auto simp: sleep_def kcore length_remove1)

subsection \<open>Sleep locks\<close>

lemma acquiresleep_free:
  assumes "curproc s = Some p" and "SleepLk l \<notin> set (held s)" and "\<not> slocked (slocks s l)"
  shows "acquiresleep l s = Ret () (s\<lparr>slocks := (slocks s)(l := (slocks s l)
    \<lparr>slocked := True, slpid := pid (procs s p)\<rparr>)\<rparr>)"
  using assms by (simp add: acquiresleep_def acquiresleep_loop_def kcore)

lemma acquiresleep_busy:
  assumes "curproc s = Some p" and "held s = []" and "slocked (slocks s l)"
  shows "acquiresleep l s = Switch (asleep p (Some (ChSleep l)) (s\<lparr>held := [SleepLk l]\<rparr>))"
proof -
  have "sleep (Some (ChSleep l)) (Some (SleepLk l)) (s\<lparr>held := [SleepLk l]\<rparr>) =
      (Switch (asleep p (Some (ChSleep l)) (s\<lparr>held := [SleepLk l]\<rparr>)) :: (unit, _) outcome)"
    using assms by (intro sleep_switch) simp_all
  with assms show ?thesis
    by (simp add: acquiresleep_def acquiresleep_loop_def kcore)
qed

lemma releasesleep_apply:
  assumes "SleepLk l \<notin> set (held s)" and "PTableLock \<notin> set (held s)"
  shows "releasesleep l s = Ret () (s\<lparr>slocks := (slocks s)(l := (slocks s l)\<lparr>slocked := False, slpid := 0\<rparr>),
    procs := woken (Some (ChSleep l)) (procs s)\<rparr>)"
  using assms by (simp add: releasesleep_def kcore)

lemma holdingsleep_apply:
  assumes "curproc s = Some p" and "SleepLk l \<notin> set (held s)"
  shows "holdingsleep l s = Ret (slocked (slocks s l) \<and> slpid (slocks s l) = pid (procs s p)) s"
  using assms by (simp add: holdingsleep_def kcore)

subsection \<open>An unused entry of the process table\<close>

text \<open>The table is zeroed when the kernel starts.\<close>

definition tf0 :: trapframe where
  "tf0 = \<lparr>tf_edi = 0, tf_esi = 0, tf_ebp = 0, tf_oesp = 0, tf_ebx = 0, tf_edx = 0, tf_ecx = 0, tf_eax = 0,
     tf_gs = 0, tf_fs = 0, tf_es = 0, tf_ds = 0, tf_trapno = 0, tf_err = 0, tf_eip = 0, tf_cs = 0,
     tf_eflags = 0, tf_esp = 0, tf_ss = 0\<rparr>"

definition ctxt0 :: ctxt where
  "ctxt0 = \<lparr>cx_edi = 0, cx_esi = 0, cx_ebx = 0, cx_ebp = 0, cx_eip = 0\<rparr>"

definition proc0 :: proc where
  "proc0 = \<lparr>psz = 0, pgdir = 0, kstack = 0, pstate = UNUSED, pid = 0, parent = None, ptf = tf0,
     pcontext = ctxt0, chan = None, killed = False, ofile = (\<lambda>_. None), cwd = None, pname = [],
     slot = 0, ctime = 0, waiting_t = 0, running_t = 0, turnaround_t = 0,
     pwaiting_t = replicate 10 0, prunning_t = replicate 10 0, pturnaround_t = replicate 10 0, pidtimes = 0\<rparr>"

definition kcore0 :: kcore where
  "kcore0 = \<lparr>held = [], curproc = Some 0, ticks = 0, procs = (\<lambda>_. proc0), nextpid = 1, initproc = None,
     slocks = (\<lambda>_. \<lparr>slocked = False, slname = [], slpid = 0\<rparr>)\<rparr>"

subsection \<open>Spin locks implement the list of held locks\<close>

text \<open>A CPU's calls of \<open>acquire\<close> and \<open>release\<close>, in any order.\<close>

datatype lock_call = Acq lock | Rel lock

definition spin_call :: "uchar \<Rightarrow> uint \<Rightarrow> lock_call \<Rightarrow> (lock spin, unit) kop" where
  "spin_call h v c = (case c of Acq l \<Rightarrow> acquire h v l | Rel l \<Rightarrow> release h l)"

definition held_call :: "lock_call \<Rightarrow> ('z kcore_scheme, unit) kop" where
  "held_call c = (case c of Acq l \<Rightarrow> kacquire l | Rel l \<Rightarrow> krelease l)"

lemma agree_bnd:
  assumes "agree R (m s) (n t)" and "\<And>x s t. R s t \<Longrightarrow> agree R (f x s) (g x t)"
  shows "agree R (bnd m f s) (bnd n g t)"
proof (cases "m s")
  case (Ret x s')
  then obtain t' where "n t = Ret x t'" "R s' t'" using assms(1) by (cases "n t") (auto simp: agree_def)
  with Ret assms(2) show ?thesis by (simp add: bnd_apply)
qed (use assms(1) in \<open>cases "n t"; auto simp: agree_def bnd_apply\<close>)+

text \<open>
  C8. On one CPU the code of spinlock.c refines the list of held locks that the rest
  of the development uses: any sequence of calls of \<open>acquire\<close> and \<open>release\<close> returns
  when the list operations do, with the same locks held, the nesting count equal
  to their number and interrupts off while it is not zero; and it panics, with the
  same message, exactly when they do.
\<close>

theorem lock_simulation:
  assumes "lock_rel h c s k"
  shows "agree (lock_rel h c) (seqs (map (spin_call h v) calls) s) (seqs (map held_call calls) k)"
  using assms
proof (induction calls arbitrary: s k)
  case Nil
  then show ?case by (simp add: agree_def ret_apply)
next
  case (Cons x calls)
  have "agree (lock_rel h c) (spin_call h v x s) (held_call x k)"
    using Cons.prems by (cases x) (simp_all add: spin_call_def held_call_def agree_acquire agree_release)
  with Cons.IH show ?case by (simp add: agree_bnd)
qed

definition spin0 :: "lock spin" where
  "spin0 = \<lparr>cpus = (\<lambda>i. \<lparr>apicid = 0, ncli = 0, intena = False\<rparr>), ncpu = 1, iflag = (\<lambda>_. True),
     lks = (\<lambda>_. \<lparr>locked = 0, lname = [], lcpu = None, pcs = []\<rparr>), kmemw = (\<lambda>_. 0)\<rparr>"

theorem lock_simulation_witness:
  "agree (lock_rel 0 0) (seqs (map (spin_call 0 0) [Acq KMemLock, Acq LogLock, Rel KMemLock, Rel KMemLock]) spin0)
     (seqs (map held_call [Acq KMemLock, Acq LogLock, Rel KMemLock, Rel KMemLock]) kcore0) \<and>
   seqs (map held_call [Acq KMemLock, Acq LogLock, Rel KMemLock, Rel KMemLock]) kcore0 = Panic ''release''"
proof -
  have "lock_rel 0 0 spin0 kcore0"
    by (simp add: lock_rel_def spin_inv_def on_cpu_def held_by_def owned_def spin0_def cpu_index_def scan_Some_iff kcore0_def)
  then show ?thesis
    using lock_simulation [of 0 0 spin0 kcore0 0 "[Acq KMemLock, Acq LogLock, Rel KMemLock, Rel KMemLock]"]
    by (simp add: held_call_def kacquire_apply krelease_apply bnd_apply kcore0_def)
qed

end
