(* ===== verification/Kalloc.thy ===== *)
theory Kalloc
  imports Kcore
begin

text \<open>
  The physical page allocator (kalloc.c). Memory is the kernel's view of it, so
  an address is a kernel virtual address. The free pages form a linked list
  threaded through their own first words, as in the code; \<open>kmem_inv s xs\<close> says
  that the list in memory is \<open>xs\<close>, and each operation is shown to act on \<open>xs\<close> as
  a stack. \<open>kend\<close> is the linker symbol \<open>end\<close>.
\<close>

record kmem = kcore +
  mem :: mem
  freelist :: uint
  use_lock :: bool
  kend :: uint

definition kfree :: "uint \<Rightarrow> ('z kmem_scheme, unit) kop" where
  "kfree v =
     bnd (gets kend) (\<lambda>e.
       if v mod PGSIZE \<noteq> 0 \<or> v < e \<or> V2P v \<ge> PHYSTOP then panic ''kfree''
       else bnd (gets use_lock) (\<lambda>ul. seqs [
         mods (\<lambda>s. s\<lparr>mem := memset (mem s) v 1 PGSIZE\<rparr>),
         whenk ul (kacquire KMemLock),
         mods (\<lambda>s. s\<lparr>mem := st32 (mem s) v (freelist s)\<rparr>),
         mods (\<lambda>s. s\<lparr>freelist := v\<rparr>),
         whenk ul (krelease KMemLock)]))"

definition kalloc :: "('z kmem_scheme, uint) kop" where
  "kalloc =
     bnd (gets use_lock) (\<lambda>ul.
     bnd (whenk ul (kacquire KMemLock)) (\<lambda>_.
     bnd (gets freelist) (\<lambda>r.
     bnd (whenk (r \<noteq> 0) (mods (\<lambda>s. s\<lparr>freelist := ld32 (mem s) r\<rparr>))) (\<lambda>_.
     bnd (whenk ul (krelease KMemLock)) (\<lambda>_. ret r)))))"

text \<open>
  The loop of \<open>freerange\<close>, with the number of pages of the address space as
  fuel: \<open>freerange_pages\<close> shows that it never runs out on a range of memory.
\<close>

primrec freerange_loop :: "nat \<Rightarrow> uint \<Rightarrow> uint \<Rightarrow> ('z kmem_scheme, unit) kop" where
  "freerange_loop 0 p vend = wild ''freerange''"
| "freerange_loop (Suc n) p vend =
     (if p + PGSIZE \<le> vend then bnd (kfree p) (\<lambda>_. freerange_loop n (p + PGSIZE) vend) else ret ())"

definition freerange :: "uint \<Rightarrow> uint \<Rightarrow> ('z kmem_scheme, unit) kop" where
  "freerange vstart vend = freerange_loop (2 ^ 20) (PGROUNDUP vstart) vend"

definition kinit1 :: "uint \<Rightarrow> uint \<Rightarrow> ('z kmem_scheme, unit) kop" where
  "kinit1 vstart vend = seqs [mods (\<lambda>s. s\<lparr>use_lock := False\<rparr>), freerange vstart vend]"

definition kinit2 :: "uint \<Rightarrow> uint \<Rightarrow> ('z kmem_scheme, unit) kop" where
  "kinit2 vstart vend = seqs [freerange vstart vend, mods (\<lambda>s. s\<lparr>use_lock := True\<rparr>)]"

subsection \<open>Pages\<close>

definition page_ok :: "uint \<Rightarrow> uint \<Rightarrow> bool" where
  "page_ok e v \<longleftrightarrow> v mod PGSIZE = 0 \<and> e \<le> v \<and> V2P v < PHYSTOP"

lemma page_ok_nonzero: "page_ok e v \<Longrightarrow> v \<noteq> 0"
  by (auto simp: page_ok_def layout_defs)

text \<open>Every byte of one page lies outside every other page.\<close>

lemma page_sep:
  assumes "x mod PGSIZE = 0" "v mod PGSIZE = 0" "x \<noteq> v" and "unat off < 4096"
  shows "PGSIZE \<le> x + off - v"
proof -
  have d: "4096 dvd unat x" "4096 dvd unat v"
    using assms(1,2) by (simp_all add: aligned_iff PGSIZE_def)
  have x: "4096 dvd unat (x - v)" "4096 dvd unat (v - x)"
    using d by (simp_all add: dvd_unat_diff)
  moreover have "unat (x - v) \<noteq> 0" using assms(3) by (simp add: unat_eq_zero)
  ultimately have lo: "4096 \<le> unat (x - v)" by (meson dvd_imp_le gr0I)
  have "unat (v - x) \<noteq> 0" using assms(3) by (simp add: unat_eq_zero)
  with x have "4096 \<le> unat (v - x)" by (meson dvd_imp_le gr0I)
  then have "unat (x - v) \<le> 2 ^ 32 - 4096"
    using unat_minus_swap [OF assms(3)] unat_lt32 [of "x - v"] by simp
  then have "unat ((x - v) + off) = unat (x - v) + unat off"
    using assms(4) by (simp add: unat_word_ariths)
  then have "PGSIZE \<le> (x - v) + off"
    using lo by (simp add: PGSIZE_def word_le_nat_alt)
  then show ?thesis by (simp add: algebra_simps)
qed

definition same_off_page :: "uint \<Rightarrow> mem \<Rightarrow> mem \<Rightarrow> bool" where
  "same_off_page v m m' \<longleftrightarrow> (\<forall>a. PGSIZE \<le> a - v \<longrightarrow> m' a = m a)"

lemma same_off_page_ld32:
  assumes "same_off_page v m m'" "x mod PGSIZE = 0" "v mod PGSIZE = 0" "x \<noteq> v"
  shows "ld32 m' x = ld32 m x"
proof (rule ld32_cong)
  note s = assms(1) [unfolded same_off_page_def, rule_format]
  show "m' x = m x" using s [OF page_sep [OF assms(2-4), of 0]] by simp
  show "m' (x + 1) = m (x + 1)" using s [OF page_sep [OF assms(2-4), of 1]] by simp
  show "m' (x + 2) = m (x + 2)" using s [OF page_sep [OF assms(2-4), of 2]] by simp
  show "m' (x + 3) = m (x + 3)" using s [OF page_sep [OF assms(2-4), of 3]] by simp
qed

lemma same_off_page_free: "same_off_page v m (st32 (memset m v c PGSIZE) v w)"
proof -
  have "st32 (memset m v c PGSIZE) v w a = m a" if "PGSIZE \<le> a - v" for a
  proof -
    have "4 \<le> a - v" "\<not> a - v < PGSIZE"
      using that by (simp_all add: PGSIZE_def word_le_nat_alt word_less_nat_alt)
    then show ?thesis by (simp add: st32_other memset_spec)
  qed
  then show ?thesis by (simp add: same_off_page_def)
qed

subsection \<open>The free list\<close>

primrec chain :: "mem \<Rightarrow> uint \<Rightarrow> uint list \<Rightarrow> bool" where
  "chain m p [] = (p = 0)"
| "chain m p (x # xs) = (p = x \<and> x \<noteq> 0 \<and> chain m (ld32 m x) xs)"

lemma chain_unique: "chain m p xs \<Longrightarrow> chain m p ys \<Longrightarrow> xs = ys"
proof (induction xs arbitrary: p ys)
  case Nil
  then show ?case by (cases ys) simp_all
next
  case (Cons x xs)
  then show ?case by (cases ys) auto
qed

lemma chain_cong: "(\<And>x. x \<in> set xs \<Longrightarrow> ld32 m x = ld32 m' x) \<Longrightarrow> chain m p xs = chain m' p xs"
  by (induction xs arbitrary: p) auto

definition kmem_inv :: "'z kmem_scheme \<Rightarrow> uint list \<Rightarrow> bool" where
  "kmem_inv s xs \<longleftrightarrow> chain (mem s) (freelist s) xs \<and> distinct xs \<and>
     (\<forall>x \<in> set xs. page_ok (kend s) x) \<and> (use_lock s \<longrightarrow> KMemLock \<notin> set (held s))"

lemma kmem_inv_unique: "kmem_inv s xs \<Longrightarrow> kmem_inv s ys \<Longrightarrow> xs = ys"
  by (auto simp: kmem_inv_def dest: chain_unique)

lemma kalloc_empty: "kmem_inv s [] \<Longrightarrow> kalloc s = Ret 0 s"
  by (auto simp: kmem_inv_def kalloc_def kcore)

lemma kalloc_cons:
  "kmem_inv s (x # xs) \<Longrightarrow> kalloc s = Ret x (s\<lparr>freelist := ld32 (mem s) x\<rparr>)"
  by (auto simp: kmem_inv_def kalloc_def kcore)

lemma kalloc_inv:
  "kmem_inv s (x # xs) \<Longrightarrow> kmem_inv (s\<lparr>freelist := ld32 (mem s) x\<rparr>) xs"
  by (simp add: kmem_inv_def)

lemma kfree_apply:
  assumes "page_ok (kend s) v" and "use_lock s \<longrightarrow> KMemLock \<notin> set (held s)"
  shows "kfree v s = Ret () (s\<lparr>mem := st32 (memset (mem s) v 1 PGSIZE) v (freelist s), freelist := v\<rparr>)"
  using assms by (auto simp: kfree_def page_ok_def kcore not_less not_le)

lemma kfree_panic: "\<not> page_ok (kend s) v \<Longrightarrow> kfree v s = Panic ''kfree''"
  by (auto simp: kfree_def page_ok_def kcore not_less not_le)

lemma kfree_inv:
  assumes "kmem_inv s xs" "page_ok (kend s) v" "v \<notin> set xs"
  shows "kmem_inv (s\<lparr>mem := st32 (memset (mem s) v 1 PGSIZE) v (freelist s), freelist := v\<rparr>) (v # xs)"
proof -
  let ?m = "st32 (memset (mem s) v 1 PGSIZE) v (freelist s)"
  have "x mod PGSIZE = 0 \<and> x \<noteq> v" if "x \<in> set xs" for x
    using that assms by (auto simp: kmem_inv_def page_ok_def)
  moreover have "v mod PGSIZE = 0" using assms(2) by (simp add: page_ok_def)
  ultimately have "ld32 (mem s) x = ld32 ?m x" if "x \<in> set xs" for x
    using that by (intro same_off_page_ld32 [OF same_off_page_free, symmetric]) simp_all
  then have "chain ?m (freelist s) xs"
    using assms(1) chain_cong [of xs "mem s" ?m] by (simp add: kmem_inv_def)
  then show ?thesis
    using assms page_ok_nonzero [OF assms(2)] by (simp add: kmem_inv_def ld32_st32)
qed

subsection \<open>The interface of a page allocator\<close>

text \<open>
  What the rest of the kernel relies on: \<open>alloc\<close> hands out free pages, each once,
  until none is left and it returns null; \<open>free\<close> takes back a valid page.
\<close>

primrec collect :: "nat \<Rightarrow> ('s, 'a) kop \<Rightarrow> ('s, 'a list) kop" where
  "collect 0 m = ret []"
| "collect (Suc n) m = bnd m (\<lambda>x. bnd (collect n m) (\<lambda>xs. ret (x # xs)))"

locale page_alloc =
  fixes alloc :: "('s, uint) kop"
    and free :: "uint \<Rightarrow> ('s, unit) kop"
    and inv :: "'s \<Rightarrow> uint list \<Rightarrow> bool"
    and valid :: "'s \<Rightarrow> uint \<Rightarrow> bool"
  assumes alloc_none: "inv s [] \<Longrightarrow> alloc s = Ret 0 s"
    and alloc_some: "inv s (x # xs) \<Longrightarrow>
      ok alloc s (\<lambda>p t. p = x \<and> inv t xs \<and> valid t = valid s)"
    and free_valid: "inv s xs \<Longrightarrow> valid s v \<Longrightarrow> v \<notin> set xs \<Longrightarrow>
      ok (free v) s (\<lambda>_ t. inv t (v # xs) \<and> valid t = valid s)"
    and inv_pages: "inv s xs \<Longrightarrow> distinct xs \<and> (\<forall>x \<in> set xs. valid s x)"
    and valid_nonzero: "valid s v \<Longrightarrow> v \<noteq> 0"
begin

lemma collect_alloc:
  assumes "inv s xs" and "n \<le> length xs"
  shows "ok (collect n alloc) s (\<lambda>ps t. ps = take n xs \<and> inv t (drop n xs))"
  using assms
proof (induction n arbitrary: s xs)
  case 0
  then show ?case by simp
next
  case (Suc n)
  then obtain x ys where xs: "xs = x # ys" by (cases xs) auto
  have "ok (collect n alloc) t (\<lambda>ps u. ps = take n ys \<and> inv u (drop n ys))" if "inv t ys" for t
    using Suc.IH [OF that] Suc.prems(2) xs by simp
  then show ?case
    using alloc_some [of s x ys] Suc.prems xs by (auto elim!: ok_mono)
qed

lemma alloc_then_free:
  assumes "inv s xs"
  shows "ok (bnd alloc (\<lambda>p. if p = 0 then ret () else free p)) s (\<lambda>_ t. inv t xs)"
proof (cases xs)
  case Nil
  with assms show ?thesis by (simp add: ok_def alloc_none bnd_apply ret_apply)
next
  case (Cons x ys)
  with inv_pages [OF assms] have x: "valid s x" "x \<notin> set ys" by auto
  have "ok (free x) t (\<lambda>_ u. inv u xs)" if "inv t ys" "valid t = valid s" for t
    using free_valid [of t ys x] that x Cons by (auto elim!: ok_mono)
  with alloc_some [of s x ys] assms Cons valid_nonzero [OF x(1)] show ?thesis
    by (auto elim!: ok_mono)
qed

lemma collect_distinct:
  assumes "inv s xs" and "n \<le> length xs"
  shows "ok (collect n alloc) s (\<lambda>ps t. distinct ps \<and> length ps = n \<and> 0 \<notin> set ps)"
proof -
  have "\<And>x. x \<in> set (take n xs) \<Longrightarrow> x \<noteq> 0"
    using inv_pages [OF assms(1)] valid_nonzero by (blast dest: in_set_takeD)
  then show ?thesis
    using inv_pages [OF assms(1)] assms(2) by (intro ok_mono [OF collect_alloc [OF assms]]) auto
qed

end

interpretation pages: page_alloc kalloc kfree
    "kmem_inv :: 'z kmem_scheme \<Rightarrow> uint list \<Rightarrow> bool" "\<lambda>s. page_ok (kend s)"
proof
  fix s :: "'z kmem_scheme" and x v xs
  show "kmem_inv s [] \<Longrightarrow> kalloc s = Ret 0 s" by (rule kalloc_empty)
  show "kmem_inv s (x # xs) \<Longrightarrow>
      ok kalloc s (\<lambda>p t. p = x \<and> kmem_inv t xs \<and> page_ok (kend t) = page_ok (kend s))"
    by (rule okI [of _ _ x "s\<lparr>freelist := ld32 (mem s) x\<rparr>"])
      (simp_all add: kalloc_cons [of s x xs] kalloc_inv)
  show "ok (kfree v) s (\<lambda>_ t. kmem_inv t (v # xs) \<and> page_ok (kend t) = page_ok (kend s))"
    if "kmem_inv s xs" "page_ok (kend s) v" "v \<notin> set xs"
    using that kfree_inv [OF that]
    by (intro okI [where x = "()", OF kfree_apply]) (simp_all add: kmem_inv_def)
  show "kmem_inv s xs \<Longrightarrow> distinct xs \<and> (\<forall>x \<in> set xs. page_ok (kend s) x)"
    by (simp add: kmem_inv_def)
  show "page_ok (kend s) v \<Longrightarrow> v \<noteq> 0" by (rule page_ok_nonzero)
qed

subsection \<open>Filling the free list at boot\<close>

definition range_pages :: "uint \<Rightarrow> nat \<Rightarrow> uint list" where
  "range_pages p n = map (\<lambda>i. p + of_nat (4096 * i)) [0..<n]"

lemma range_pages_Suc: "range_pages p (Suc n) = p # range_pages (p + PGSIZE) n"
  by (simp add: range_pages_def upt_conv_Cons map_Suc_upt [symmetric] PGSIZE_def algebra_simps del: upt_Suc)

lemma unat_step: "unat p + 4096 < 2 ^ 32 \<Longrightarrow> unat (p + PGSIZE) = unat p + 4096"
  by (simp add: PGSIZE_def unat_word_ariths)

lemma aligned_step: "p mod PGSIZE = 0 \<Longrightarrow> (p + PGSIZE) mod PGSIZE = 0"
proof -
  assume "p mod PGSIZE = 0"
  then have "4096 dvd unat p" by (simp add: aligned_iff PGSIZE_def)
  then have "4096 dvd unat (p + PGSIZE)"
    unfolding unat_word_ariths by (intro dvd_mod) (simp_all add: PGSIZE_def)
  then show ?thesis by (simp add: aligned_iff PGSIZE_def)
qed

lemma set_range_pages:
  assumes "p mod PGSIZE = 0" and "unat p + 4096 * n < 2 ^ 32"
  shows "set (range_pages p n) = {v. v mod PGSIZE = 0 \<and> unat p \<le> unat v \<and> unat v < unat p + 4096 * n}"
  (is "_ = ?R")
proof (intro set_eqI iffI)
  fix v assume "v \<in> set (range_pages p n)"
  then obtain i where i: "i < n" "v = p + of_nat (4096 * i)" by (auto simp: range_pages_def)
  then have v: "unat v = unat p + 4096 * i"
    using assms(2) by (simp add: unat_word_ariths unat_of_nat del: of_nat_mult)
  moreover have "4096 dvd unat v"
    unfolding v using assms(1) by (simp add: aligned_iff PGSIZE_def)
  ultimately show "v \<in> ?R" using i by (simp add: aligned_iff PGSIZE_def)
next
  fix v assume v: "v \<in> ?R"
  then have "4096 dvd unat v - unat p"
    using assms(1) by (auto simp: aligned_iff PGSIZE_def)
  then obtain i where "unat v - unat p = 4096 * i" by (rule dvdE)
  moreover have "unat p \<le> unat v" using v by simp
  ultimately have i: "unat v = unat p + 4096 * i" by simp
  then have "v = p + of_nat (4096 * i)"
  proof -
    have "v = of_nat (unat v)" by simp
    also have "\<dots> = p + of_nat (4096 * i)" by (simp only: i of_nat_add) simp
    finally show ?thesis .
  qed
  with v i show "v \<in> set (range_pages p n)" by (auto simp: range_pages_def)
qed

definition same_kmem :: "'z kmem_scheme \<Rightarrow> 'z kmem_scheme \<Rightarrow> bool" where
  "same_kmem t s \<longleftrightarrow> kend t = kend s \<and> held t = held s \<and> use_lock t = use_lock s"

lemma freerange_loop_pages:
  assumes "kmem_inv s xs" and "n < k"
    and "\<And>x. x \<in> set (range_pages p n) \<Longrightarrow> page_ok (kend s) x \<and> x \<notin> set xs"
    and "distinct (range_pages p n)"
    and "unat p + 4096 * n \<le> unat vend" "unat vend < unat p + 4096 * Suc n"
    and "unat p + 4096 * Suc n < 2 ^ 32"
  shows "ok (freerange_loop k p vend) s (\<lambda>_ t. kmem_inv t (rev (range_pages p n) @ xs) \<and> same_kmem t s)"
  using assms
proof (induction n arbitrary: k p s xs)
  case 0
  then obtain j where "k = Suc j" by (cases k) auto
  moreover have "\<not> p + PGSIZE \<le> vend"
    using 0 by (simp add: word_le_nat_alt unat_step)
  ultimately show ?case using 0 by (simp add: range_pages_def same_kmem_def)
next
  case (Suc n)
  then obtain j where k: "k = Suc j" "n < j" by (cases k) auto
  have step: "unat (p + PGSIZE) = unat p + 4096"
    using Suc.prems(7) by (intro unat_step) simp
  have p: "page_ok (kend s) p" "p \<notin> set xs" "p \<notin> set (range_pages (p + PGSIZE) n)"
    using Suc.prems(3) [of p] Suc.prems(4) by (simp_all add: range_pages_Suc)
  let ?t = "s\<lparr>mem := st32 (memset (mem s) p 1 PGSIZE) p (freelist s), freelist := p\<rparr>"
  have t: "kfree p s = Ret () ?t" and I: "kmem_inv ?t (p # xs)"
    using kfree_apply [of s p] kfree_inv [of s xs p] Suc.prems(1) p by (simp_all add: kmem_inv_def)
  have "ok (freerange_loop j (p + PGSIZE) vend) ?t
      (\<lambda>_ u. kmem_inv u (rev (range_pages (p + PGSIZE) n) @ p # xs) \<and> same_kmem u ?t)"
  proof (rule Suc.IH [OF I k(2)])
    show "page_ok (kend ?t) x \<and> x \<notin> set (p # xs)" if "x \<in> set (range_pages (p + PGSIZE) n)" for x
      using that Suc.prems(3) [of x] p(3) by (auto simp: range_pages_Suc)
    show "distinct (range_pages (p + PGSIZE) n)"
      using Suc.prems(4) by (simp add: range_pages_Suc)
  qed (use Suc.prems step in simp_all)
  moreover have "p + PGSIZE \<le> vend"
    using Suc.prems(5) step by (simp add: word_le_nat_alt)
  ultimately show ?case
    by (simp add: k(1) ok_def bnd_apply t range_pages_Suc same_kmem_def)
qed

lemma distinct_range_pages:
  assumes "unat p + 4096 * n < 2 ^ 32"
  shows "distinct (range_pages p n)"
proof -
  have "inj_on (\<lambda>i. p + of_nat (4096 * i)) {0..<n}"
  proof (rule inj_onI)
    fix i j assume ij: "i \<in> {0..<n}" "j \<in> {0..<n}" and "p + of_nat (4096 * i) = p + of_nat (4096 * j)"
    then have "unat (of_nat (4096 * i) :: uint) = unat (of_nat (4096 * j) :: uint)" by simp
    with ij assms show "i = j" by (simp add: unat_of_nat del: of_nat_mult)
  qed
  then show ?thesis by (simp add: range_pages_def distinct_map)
qed

lemma round_up_le: "(a + 4095) div 4096 * 4096 \<le> 4096 * k \<longleftrightarrow> a \<le> 4096 * (k :: nat)"
proof -
  have "(a + 4095) div 4096 \<le> k \<longleftrightarrow> a \<le> 4096 * k" by auto
  then show ?thesis by simp
qed

lemma round_up_ge: "a \<le> (a + 4095) div 4096 * (4096 :: nat)"
  by linarith

text \<open>\<open>freerange\<close> puts every whole page of the range on the list.\<close>

lemma freerange_pages:
  assumes "kmem_inv s xs" and "unat vstart \<le> unat vend" and "unat vend < 2 ^ 32 - 8192"
    and "kend s \<le> vstart" "V2P vend \<le> PHYSTOP" "KERNBASE \<le> vstart" "vend mod PGSIZE = 0"
    and "\<And>x. x \<in> set xs \<Longrightarrow> x < vstart"
  shows "ok (freerange vstart vend) s (\<lambda>_ t. same_kmem t s \<and>
    (\<exists>ys. kmem_inv t (ys @ xs) \<and> set ys = {v. v mod PGSIZE = 0 \<and> vstart \<le> v \<and> v < vend}))"
proof -
  define p where "p = PGROUNDUP vstart"
  have up: "unat p = (unat vstart + 4095) div 4096 * 4096"
    unfolding p_def using assms(2,3) by (intro unat_PGROUNDUP) simp
  have pa: "p mod PGSIZE = 0" by (simp add: p_def PGROUNDUP_aligned)
  have "4096 dvd unat vend" using assms(7) by (simp add: aligned_iff PGSIZE_def)
  then obtain w where w: "unat vend = 4096 * w" by (rule dvdE)
  have le: "unat p \<le> unat vend" "unat vstart \<le> unat p"
    unfolding up using w assms(2) round_up_ge [of "unat vstart"] round_up_le [of "unat vstart" w] by simp_all
  define n where "n = w - unat p div 4096"
  have "unat p = 4096 * (unat p div 4096)" using up by simp
  then have n: "unat vend = unat p + 4096 * n"
    using w le(1) unfolding n_def by linarith
  then have n20: "n < 2 ^ 20" using assms(3) by simp
  have R: "set (range_pages p n) = {v. v mod PGSIZE = 0 \<and> vstart \<le> v \<and> v < vend}"
  proof -
    have "unat p \<le> unat v \<longleftrightarrow> unat vstart \<le> unat v" if "v mod PGSIZE = 0" for v
    proof -
      have "4096 dvd unat v" using that by (simp add: aligned_iff PGSIZE_def)
      then obtain k where "unat v = 4096 * k" by (rule dvdE)
      then show ?thesis unfolding up by (simp only: round_up_le)
    qed
    then show ?thesis
      using set_range_pages [OF pa, of n] n unat_lt32 [of vend]
      by (simp add: word_le_nat_alt word_less_nat_alt cong: conj_cong)
  qed
  have "page_ok (kend s) x \<and> x \<notin> set xs" if "x \<in> set (range_pages p n)" for x
  proof -
    have x: "x mod PGSIZE = 0" "vstart \<le> x" "x < vend" using that unfolding R by simp_all
    have "V2P x < V2P vend"
      using x(2,3) assms(6) unfolding V2P_def word_less_nat_alt word_le_nat_alt
      by (subst (1 2) unat_sub) (simp_all add: word_le_nat_alt)
    then have "V2P x < PHYSTOP" using assms(5) by simp
    moreover have "x \<notin> set xs" using assms(8) [of x] x(2) by auto
    ultimately show ?thesis using x(1,2) assms(4) by (simp add: page_ok_def)
  qed
  moreover have big: "unat p + 4096 * Suc n < 2 ^ 32" using n assms(3) by simp
  moreover have "distinct (range_pages p n)" using big by (intro distinct_range_pages) simp
  moreover have "unat p + 4096 * n \<le> unat vend" "unat vend < unat p + 4096 * Suc n"
    using n by simp_all
  ultimately have "ok (freerange_loop (2 ^ 20) p vend) s
      (\<lambda>_ t. kmem_inv t (rev (range_pages p n) @ xs) \<and> same_kmem t s)"
    by (intro freerange_loop_pages [OF assms(1) n20])
  then have "ok (freerange vstart vend) s
      (\<lambda>_ t. kmem_inv t (rev (range_pages p n) @ xs) \<and> same_kmem t s)"
    unfolding freerange_def p_def .
  then show ?thesis
    by (rule ok_mono) (use R in \<open>simp, metis set_rev\<close>)
qed

text \<open>
  \<open>main\<close> calls \<open>kinit1(end, P2V(4 MB))\<close> and later \<open>kinit2(P2V(4 MB), P2V(PHYSTOP))\<close>:
  every page above the kernel is then on the list, once.
\<close>

definition kinit :: "('z kmem_scheme, unit) kop" where
  "kinit = bnd (gets kend) (\<lambda>e. seqs [kinit1 e (P2V 0x400000), kinit2 (P2V 0x400000) (P2V PHYSTOP)])"

lemma boot_nums:
  "unat (P2V 0x400000) = 0x80400000" "unat (P2V PHYSTOP) = 0x8E000000" "unat PHYSTOP = 0xE000000"
  "P2V 0x400000 mod PGSIZE = 0" "P2V PHYSTOP mod PGSIZE = 0" "KERNBASE \<le> P2V 0x400000"
  by (simp_all add: layout_defs PGSIZE_def)

lemma page_ok_top:
  assumes "KERNBASE \<le> e"
  shows "page_ok e v \<longleftrightarrow> v mod PGSIZE = 0 \<and> e \<le> v \<and> v < P2V PHYSTOP"
proof -
  have "V2P v < PHYSTOP \<longleftrightarrow> v < P2V PHYSTOP" if "e \<le> v"
  proof -
    have "0x80000000 \<le> unat v"
      using that assms by (simp add: word_le_nat_alt KERNBASE_def)
    then have "unat (V2P v) = unat v - 0x80000000"
      by (simp add: V2P_def KERNBASE_def unat_sub word_le_nat_alt)
    then show ?thesis
      using \<open>0x80000000 \<le> unat v\<close> unfolding word_less_nat_alt boot_nums by linarith
  qed
  then show ?thesis by (simp add: page_ok_def cong: conj_cong)
qed

lemma kinit_low:
  assumes "freelist s = 0" and "KERNBASE \<le> kend s" and "kend s \<le> P2V 0x400000"
  shows "ok (kinit1 (kend s) (P2V 0x400000)) s (\<lambda>_ t. kend t = kend s \<and> held t = held s \<and>
    (\<exists>ys. kmem_inv t ys \<and> set ys = {v. v mod PGSIZE = 0 \<and> kend s \<le> v \<and> v < P2V 0x400000}))"
proof -
  have "kmem_inv (s\<lparr>use_lock := False\<rparr>) []" using assms(1) by (simp add: kmem_inv_def)
  moreover have "unat (kend s) \<le> unat (P2V 0x400000)" "unat (P2V 0x400000) < 2 ^ 32 - 8192"
    using assms(3) boot_nums(1) by (simp_all add: word_le_nat_alt)
  moreover have "V2P (P2V 0x400000) \<le> PHYSTOP" by (simp add: PHYSTOP_def)
  ultimately have "ok (freerange (kend s) (P2V 0x400000)) (s\<lparr>use_lock := False\<rparr>)
      (\<lambda>_ t. same_kmem t (s\<lparr>use_lock := False\<rparr>) \<and> (\<exists>ys. kmem_inv t (ys @ []) \<and>
        set ys = {v. v mod PGSIZE = 0 \<and> kend s \<le> v \<and> v < P2V 0x400000}))"
    using assms(2) boot_nums(4) by (intro freerange_pages) simp_all
  then have "ok (freerange (kend s) (P2V 0x400000)) (s\<lparr>use_lock := False\<rparr>)
      (\<lambda>_ t. kend t = kend s \<and> held t = held s \<and> (\<exists>ys. kmem_inv t ys \<and>
        set ys = {v. v mod PGSIZE = 0 \<and> kend s \<le> v \<and> v < P2V 0x400000}))"
    by (rule ok_mono) (simp add: same_kmem_def)
  then show ?thesis by (simp add: kinit1_def)
qed

lemma kinit_high:
  assumes "kmem_inv s ys" and "KERNBASE \<le> kend s" and "kend s \<le> P2V 0x400000"
    and "KMemLock \<notin> set (held s)"
    and "set ys = {v. v mod PGSIZE = 0 \<and> kend s \<le> v \<and> v < P2V 0x400000}"
  shows "ok (kinit2 (P2V 0x400000) (P2V PHYSTOP)) s
    (\<lambda>_ t. \<exists>xs. kmem_inv t xs \<and> set xs = {v. page_ok (kend s) v})"
proof -
  let ?Z = "{v. v mod PGSIZE = 0 \<and> P2V 0x400000 \<le> v \<and> v < P2V PHYSTOP}"
  have "x < P2V 0x400000" if "x \<in> set ys" for x using that assms(5) by simp
  then have step: "ok (freerange (P2V 0x400000) (P2V PHYSTOP)) s
      (\<lambda>_ t. same_kmem t s \<and> (\<exists>zs. kmem_inv t (zs @ ys) \<and> set zs = ?Z))"
    using assms(1,3) boot_nums(4-6)
    by (intro freerange_pages) (simp_all only: boot_nums V2P_P2V order_refl, simp_all)
  have all: "?Z \<union> set ys = {v. page_ok (kend s) v}"
  proof -
    have "v < P2V PHYSTOP" if "v < P2V 0x400000" for v
      using that boot_nums(1,2) by (simp add: word_less_nat_alt)
    moreover have "kend s \<le> v" if "P2V 0x400000 \<le> v" for v using that assms(3) by simp
    ultimately have "page_ok (kend s) v \<longleftrightarrow> v \<in> ?Z \<or> v \<in> set ys" for v
      unfolding assms(5) page_ok_top [OF assms(2)] mem_Collect_eq by (meson not_le)
    then show ?thesis by (intro set_eqI) (simp only: Un_iff mem_Collect_eq)
  qed
  from step have "ok (freerange (P2V 0x400000) (P2V PHYSTOP)) s
      (\<lambda>_ t. \<exists>xs. kmem_inv (t\<lparr>use_lock := True\<rparr>) xs \<and> set xs = {v. page_ok (kend s) v})"
  proof (rule ok_mono)
    fix t assume "same_kmem t s \<and> (\<exists>zs. kmem_inv t (zs @ ys) \<and> set zs = ?Z)"
    then obtain zs where t: "same_kmem t s" "kmem_inv t (zs @ ys)" and "set zs = ?Z" by blast
    then have "kmem_inv (t\<lparr>use_lock := True\<rparr>) (zs @ ys)" "set (zs @ ys) = {v. page_ok (kend s) v}"
      using assms(4) all by (simp_all add: kmem_inv_def same_kmem_def)
    then show "\<exists>xs. kmem_inv (t\<lparr>use_lock := True\<rparr>) xs \<and> set xs = {v. page_ok (kend s) v}"
      by blast
  qed
  then show ?thesis by (simp add: kinit2_def)
qed

lemma kinit_pages:
  assumes "freelist s = 0" and "KERNBASE \<le> kend s" and "kend s \<le> P2V 0x400000"
    and "KMemLock \<notin> set (held s)"
  shows "ok kinit s (\<lambda>_ t. \<exists>xs. kmem_inv t xs \<and> set xs = {v. page_ok (kend s) v})"
proof -
  have "ok (kinit1 (kend s) (P2V 0x400000)) s (\<lambda>_ t. ok (kinit2 (P2V 0x400000) (P2V PHYSTOP)) t
      (\<lambda>_ u. \<exists>xs. kmem_inv u xs \<and> set xs = {v. page_ok (kend s) v}))"
  proof (rule ok_mono [OF kinit_low [OF assms(1-3)]])
    fix t assume "kend t = kend s \<and> held t = held s \<and> (\<exists>ys. kmem_inv t ys \<and>
      set ys = {v. v mod PGSIZE = 0 \<and> kend s \<le> v \<and> v < P2V 0x400000})"
    then obtain ys where t: "kend t = kend s" "held t = held s" "kmem_inv t ys"
      "set ys = {v. v mod PGSIZE = 0 \<and> kend t \<le> v \<and> v < P2V 0x400000}" by metis
    show "ok (kinit2 (P2V 0x400000) (P2V PHYSTOP)) t
        (\<lambda>_ u. \<exists>xs. kmem_inv u xs \<and> set xs = {v. page_ok (kend s) v})"
      using kinit_high [OF t(3) _ _ _ t(4)] assms(2-4) t(1,2) by simp
  qed
  then show ?thesis by (simp add: kinit_def)
qed

text \<open>
  A client of the allocator: each step allocates a page, or frees the \<open>i\<close>-th of
  the pages \<open>own\<close> it holds.
\<close>

fun page_ops :: "('s, uint) kop \<Rightarrow> (uint \<Rightarrow> ('s, unit) kop) \<Rightarrow> nat option list \<Rightarrow> uint list \<Rightarrow> ('s, uint list) kop" where
  "page_ops alloc free [] own = ret own"
| "page_ops alloc free (None # ops) own =
     bnd alloc (\<lambda>p. page_ops alloc free ops (if p = 0 then own else p # own))"
| "page_ops alloc free (Some i # ops) own =
     (if i < length own
      then bnd (free (own ! i)) (\<lambda>_. page_ops alloc free ops (take i own @ drop (Suc i) own))
      else page_ops alloc free ops own)"

context page_alloc
begin

lemma page_ops_keep:
  assumes "inv s xs" and "distinct (own @ xs)" and "\<forall>x \<in> set own. valid s x"
  shows "ok (page_ops alloc free ops own) s (\<lambda>own' t. \<exists>ys. inv t ys \<and> distinct (own' @ ys) \<and>
    set own' \<union> set ys = set own \<union> set xs)"
  using assms
proof (induction ops arbitrary: s xs own)
  case Nil
  then show ?case by auto
next
  case (Cons x ops)
  define Q where "Q = (\<lambda>own' t. \<exists>ys. inv t ys \<and> distinct (own' @ ys) \<and> set own' \<union> set ys = set own \<union> set xs)"
  have rest: "ok (page_ops alloc free ops own') t Q"
    if "inv t ys" "valid t = valid s" "distinct (own' @ ys)" "\<forall>x \<in> set own'. valid s x"
      "set own' \<union> set ys = set own \<union> set xs" for own' t ys
    using Cons.IH [of t ys own'] that by (simp add: Q_def)
  note P = inv_pages [OF Cons.prems(1)]
  have "ok (page_ops alloc free (x # ops) own) s Q"
  proof (cases x)
    case None
    show ?thesis
    proof (cases xs)
      case Nil
      with Cons.prems None rest [of s "[]" own] show ?thesis by (simp add: ok_def bnd_apply alloc_none)
    next
      case (Cons p ys)
      have p: "valid s p" "p \<noteq> 0" using P Cons valid_nonzero by auto
      have "ok (bnd alloc (\<lambda>p. page_ops alloc free ops (if p = 0 then own else p # own))) s Q"
        by (rule ok_bndI [OF alloc_some [of s p ys]])
          (use Cons.prems Cons p in \<open>auto intro!: rest\<close>)
      then show ?thesis using None by simp
    qed
  next
    case (Some i)
    show ?thesis
    proof (cases "i < length own")
      case True
      let ?own = "take i own @ drop (Suc i) own"
      have own: "own = take i own @ own ! i # drop (Suc i) own" using True by (rule id_take_nth_drop)
      have d: "distinct (take i own @ own ! i # drop (Suc i) own)" "set own = insert (own ! i) (set ?own)"
        using Cons.prems(2) own by (metis distinct_append) (metis own Un_insert_right list.simps(15) set_append)
      have "ok (bnd (free (own ! i)) (\<lambda>_. page_ops alloc free ops ?own)) s Q"
        by (rule ok_bndI [OF free_valid [OF Cons.prems(1)]])
          (use Cons.prems d in \<open>auto intro!: rest\<close>)
      then show ?thesis using Some True by simp
    qed (use Some Cons.prems rest [of s xs own] in simp)
  qed
  then show ?case by (simp add: Q_def)
qed

end

definition kmem0 :: kmem where
  "kmem0 = \<lparr>held = [], curproc = None, ticks = 0, procs = (\<lambda>_. proc0), nextpid = 1, initproc = None,
     slocks = (\<lambda>_. \<lparr>slocked = False, slname = [], slpid = 0\<rparr>), mem = (\<lambda>_. 0), freelist = 0, use_lock = False,
     kend = 0x80200000\<rparr>"

text \<open>
  C5. Pages are conserved. A client of \<open>kalloc\<close> and \<open>kfree\<close> that frees only pages it
  holds can run any sequence of allocations and frees: none panics, no page is
  ever handed out twice, and the pages the client holds and those on the free list
  together stay the same.
\<close>

theorem pages_conserved:
  assumes "kmem_inv s xs" and "distinct (own @ xs)" and "\<forall>x \<in> set own. page_ok (kend s) x"
  shows "ok (page_ops kalloc kfree ops own) s (\<lambda>own' t. \<exists>ys. kmem_inv t ys \<and> distinct (own' @ ys) \<and>
    set own' \<union> set ys = set own \<union> set xs)"
  using assms by (rule pages.page_ops_keep)

theorem pages_conserved_witness:
  "ok (page_ops kalloc kfree [Some 0, None, None] [0x80300000, 0x80301000]) kmem0 (\<lambda>own' t. \<exists>ys. kmem_inv t ys \<and>
    distinct (own' @ ys) \<and> set own' \<union> set ys = {0x80300000, 0x80301000})"
  using pages_conserved [of kmem0 "[]" "[0x80300000, 0x80301000]" "[Some 0, None, None]"]
  by (simp add: kmem_inv_def page_ok_def kmem0_def PGSIZE_def V2P_def PHYSTOP_def KERNBASE_def)

text \<open>
  C10. After \<open>kinit1\<close> and \<open>kinit2\<close> as \<open>main\<close> calls them, the free list holds every page
  of physical memory above the kernel, each once.
\<close>

theorem kinit_frees_memory:
  assumes "freelist s = 0" and "KERNBASE \<le> kend s" and "kend s \<le> P2V 0x400000"
    and "KMemLock \<notin> set (held s)"
  shows "ok kinit s (\<lambda>_ t. \<exists>xs. kmem_inv t xs \<and> set xs = {v. page_ok (kend s) v})"
  using assms by (rule kinit_pages)

theorem kinit_frees_memory_witness:
  "ok kinit kmem0 (\<lambda>_ t. \<exists>xs. kmem_inv t xs \<and> set xs = {v. page_ok 0x80200000 v})"
  using kinit_frees_memory [of kmem0] by (simp add: kmem0_def KERNBASE_def P2V_def)

end
