(* ===== verification/Ring.thy ===== *)
theory Ring
  imports Prelude
begin

text \<open>
  Circular buffers. The console input and the pipes keep a byte array of \<open>N\<close>
  entries and free-running 32-bit counters: the byte with number \<open>i\<close> is at index
  \<open>i % N\<close>, and the difference of two counters is the number of bytes between
  them, also after a counter has wrapped around. Both sizes divide \<open>2 ^ 32\<close>, which
  is what makes the indices continue through the wrap-around.
\<close>

definition ring_seq :: "nat \<Rightarrow> bytes \<Rightarrow> uint \<Rightarrow> uint \<Rightarrow> bytes" where
  "ring_seq N buf r w = map (\<lambda>k. buf ! (unat (r + of_nat k) mod N)) [0..<unat (w - r)]"

lemma length_ring_seq [simp]: "length (ring_seq N buf r w) = unat (w - r)"
  by (simp add: ring_seq_def)

lemma ring_seq_self [simp]: "ring_seq N buf r r = []"
  by (simp add: ring_seq_def)

lemma ring_seq_empty [simp]: "ring_seq N buf r w = [] \<longleftrightarrow> r = w"
  by (metis eq_iff_diff_eq_0 length_0_conv length_ring_seq unat_eq_zero)

lemma unat_Suc_diff: "w - r \<noteq> - 1 \<Longrightarrow> unat (w + 1 - r) = Suc (unat (w - r))" for w r :: uint
proof -
  assume "w - r \<noteq> - 1"
  then have "1 + (w - r) \<noteq> 0" by (metis add.commute eq_neg_iff_add_eq_0)
  then have "unat (1 + (w - r)) = 1 + unat (w - r)" by (simp add: unatSuc)
  then show ?thesis by (simp add: algebra_simps)
qed

lemma ring_seq_Cons: "r \<noteq> w \<Longrightarrow> ring_seq N buf r w = buf ! (unat r mod N) # ring_seq N buf (r + 1) w"
proof -
  assume "r \<noteq> w"
  then have "w - (r + 1) - 0 \<noteq> - 1" by (simp add: algebra_simps)
  then have n: "unat (w - r) = Suc (unat (w - (r + 1)))"
    using unat_Suc_diff [of "w - (r + 1)" 0] by simp
  then show ?thesis
    by (simp add: ring_seq_def n upt_conv_Cons map_Suc_upt [symmetric] algebra_simps del: upt_Suc map_Suc_upt)
qed

lemma ring_seq_append:
  assumes "unat (x - r) \<le> unat (w - r)"
  shows "ring_seq N buf r w = ring_seq N buf r x @ ring_seq N buf x w"
proof -
  have "unat (w - x) = unat ((w - r) - (x - r))" by simp
  also have "\<dots> = unat (w - r) - unat (x - r)"
    by (rule unat_sub) (simp add: word_le_nat_alt assms)
  finally have s: "unat (w - r) = unat (x - r) + unat (w - x)" using assms by simp
  have "r + of_nat (unat (x - r) + k) = x + of_nat k" for k
    by (simp add: algebra_simps)
  then show ?thesis
    unfolding ring_seq_def s upt_add_eq_append [OF le0] map_append
    by (auto intro!: nth_equalityI)
qed

lemma ring_seq_snoc:
  assumes "w - r \<noteq> - 1"
  shows "ring_seq N buf r (w + 1) = ring_seq N buf r w @ [buf ! (unat w mod N)]"
  unfolding ring_seq_def unat_Suc_diff [OF assms] by simp

lemma ring_seq_butlast: "r \<noteq> w \<Longrightarrow> ring_seq N buf r (w - 1) = butlast (ring_seq N buf r w)"
proof -
  assume "r \<noteq> w"
  then have "w - 1 - r \<noteq> - 1" by (auto simp: algebra_simps)
  from ring_seq_snoc [OF this] show ?thesis by simp
qed

text \<open>The size of a ring, and what writing the next byte does to the bytes between the counters.\<close>

locale ring =
  fixes N :: nat
  assumes pos: "0 < N" and lt: "N < 2 ^ 32" and dvd: "N dvd 2 ^ 32"
begin

lemma mod_add: "unat (r + of_nat k :: uint) mod N = (unat r + k) mod N"
proof -
  have "unat (r + of_nat k) = (unat r + k) mod 2 ^ 32"
    by (simp add: unat_word_ariths unat_of_nat mod_add_right_eq)
  then show ?thesis by (simp only: mod_mod_cancel [OF dvd])
qed

lemma mod_inj:
  assumes "j < k" "k < N"
  shows "unat (r + of_nat j :: uint) mod N \<noteq> unat (r + of_nat k) mod N"
proof
  assume "unat (r + of_nat j) mod N = unat (r + of_nat k) mod N"
  then have "(unat r + j) mod N = (unat r + k) mod N" by (simp only: mod_add)
  then have "N dvd (unat r + k) - (unat r + j)"
    using mod_eq_dvd_iff_nat [of "unat r + j" "unat r + k" N] assms(1) by simp
  then have "N dvd k - j" by simp
  with assms show False by (auto dest: dvd_imp_le)
qed

lemma seq_put:
  assumes "length buf = N" and "unat (w - r) < N"
  shows "ring_seq N (buf[unat w mod N := c]) r (w + 1) = ring_seq N buf r w @ [c]"
proof -
  have "w - r \<noteq> - 1"
  proof
    assume "w - r = - 1"
    then have "unat (w - r) = 2 ^ 32 - 1" by (simp add: unsigned_minus_1_eq_mask mask_eq_exp_minus_1)
    with assms(2) lt show False by simp
  qed
  moreover have "ring_seq N (buf[unat w mod N := c]) r w = ring_seq N buf r w"
  proof -
    have "unat w mod N \<noteq> unat (r + of_nat k) mod N" if "k < unat (w - r)" for k
      using mod_inj [OF that assms(2), of r] by simp
    then show ?thesis by (simp add: ring_seq_def)
  qed
  ultimately show ?thesis using assms pos by (simp add: ring_seq_snoc)
qed

end

end
