(* ===== verification/Console.thy ===== *)
theory Console
  imports Kalloc Ring
begin

unbundle bit_operations_syntax

text \<open>
  The console (console.c, with the output side of uart.c and \<open>procdump\<close> of proc.c):
  formatted kernel output, the screen, and the editing of input lines in a
  circular buffer. \<open>consoleread\<close> and \<open>consolewrite\<close>, which lock the inode of the
  device and copy through user addresses, are in the theory of the device files.

  The screen is the memory at \<open>P2V(0xb8000)\<close> as 16-bit cells, \<open>crt_cursor\<close> the
  registers 14 and 15 of its controller; \<open>uart_out\<close> is what was sent to the
  serial port. The poll loop of \<open>uartputc\<close> only delays.
\<close>

record cons = kmem +
  cons_locking :: bool
  panicked :: bool
  uart :: bool
  uart_out :: bytes
  crt :: "nat \<Rightarrow> ushort"
  crt_cursor :: ushort
  in_buf :: bytes
  in_r :: uint
  in_w :: uint
  in_e :: uint

definition INPUT_BUF :: nat where "INPUT_BUF = 128"
definition BACKSPACE :: uint where "BACKSPACE = 0x100"

definition chars :: "string \<Rightarrow> bytes" where "chars s = map of_char s"

text \<open>\<open>C(x)\<close>: the control character of a letter.\<close>

definition Ctl :: "char \<Rightarrow> uint" where "Ctl x = of_char x - of_char (CHR ''@'')"

subsection \<open>Characters\<close>

definition uartputc :: "uint \<Rightarrow> ('z cons_scheme, unit) kop" where
  "uartputc c = bnd (gets uart) (\<lambda>u. whenk u (mods (\<lambda>s. s\<lparr>uart_out := uart_out s @ [ucast c]\<rparr>)))"

text \<open>The two memory operations with which \<open>cgaputc\<close> scrolls, on the cells of the screen.\<close>

definition crt_scroll :: "int \<Rightarrow> (nat \<Rightarrow> ushort) \<Rightarrow> nat \<Rightarrow> ushort" where
  "crt_scroll pos cells = (let moved = (\<lambda>i. if i < 23 * 80 then cells (i + 80) else cells i) in
     (\<lambda>i. if pos \<le> int i \<and> i < 24 * 80 then 0 else moved i))"

definition cgaputc :: "uint \<Rightarrow> ('z cons_scheme, unit) kop" where
  "cgaputc c =
     bnd (gets (\<lambda>s. uint (crt_cursor s))) (\<lambda>pos.
     bnd (if c = 10 then ret (pos + (80 - pos mod 80))
          else if c = BACKSPACE then ret (if pos > 0 then pos - 1 else pos)
          else bnd (mods (\<lambda>s. s\<lparr>crt := (crt s)(nat pos := ucast (c AND 0xff) OR 0x0700)\<rparr>)) (\<lambda>_. ret (pos + 1))) (\<lambda>pos.
       if pos < 0 \<or> pos > 25 * 80 then panic ''pos under/overflow''
       else bnd (if pos div 80 \<ge> 24
                 then bnd (mods (\<lambda>s. s\<lparr>crt := crt_scroll (pos - 80) (crt s)\<rparr>)) (\<lambda>_. ret (pos - 80))
                 else ret pos) (\<lambda>pos. seqs [
         mods (\<lambda>s. s\<lparr>crt_cursor := of_int pos\<rparr>),
         mods (\<lambda>s. s\<lparr>crt := (crt s)(nat pos := 0x0720)\<rparr>)])))"

text \<open>A CPU that reaches \<open>consputc\<close> after a panic spins for ever.\<close>

definition consputc :: "uint \<Rightarrow> ('z cons_scheme, unit) kop" where
  "consputc c =
     bnd (gets panicked) (\<lambda>p. if p then panic ''frozen'' else seqs [
       if c = BACKSPACE then seqs [uartputc 8, uartputc 32, uartputc 8] else uartputc c,
       cgaputc c])"

subsection \<open>Formatted output\<close>

definition hexdigits :: bytes where "hexdigits = chars ''0123456789abcdef''"

text \<open>
  The digits are stored least significant first in a buffer of 16 bytes, which is
  the fuel: running out of it is writing past its end.
\<close>

primrec printint_loop :: "nat \<Rightarrow> bytes \<Rightarrow> uint \<Rightarrow> uint \<Rightarrow> bytes option" where
  "printint_loop 0 ds x base = None"
| "printint_loop (Suc n) ds x base =
     (let d = ds ! unat (x mod base) in
      if x div base = 0 then Some [d] else map_option ((#) d) (printint_loop n ds (x div base) base))"

definition printint_buf :: "bytes \<Rightarrow> uint \<Rightarrow> uint \<Rightarrow> bool \<Rightarrow> bytes option" where
  "printint_buf ds xx base sg =
     (let neg = sg \<and> sint xx < 0; x = if neg then - xx else xx in
      case printint_loop 16 ds x base of None \<Rightarrow> None
      | Some buf \<Rightarrow> if neg then (if length buf < 16 then Some (buf @ [45]) else None) else Some buf)"

definition printint :: "uint \<Rightarrow> uint \<Rightarrow> bool \<Rightarrow> ('z cons_scheme, unit) kop" where
  "printint xx base sg =
     (case printint_buf hexdigits xx base sg of None \<Rightarrow> wild ''printint''
      | Some buf \<Rightarrow> for_each (rev buf) (\<lambda>c. consputc (scast c)))"

text \<open>
  The arguments after the format: a word, or a pointer to a string, \<open>None\<close> when
  it is null. A missing argument or one of the wrong kind is read from the stack
  as it is.
\<close>

datatype carg = ANum uint | AStr "bytes option"

fun cprintf_loop :: "bytes \<Rightarrow> carg list \<Rightarrow> ('z cons_scheme, unit) kop" where
  "cprintf_loop [] args = ret ()"
| "cprintf_loop [c] args = (if c = 0 \<or> c = 37 then ret () else consputc (ucast c))"
| "cprintf_loop (c # d # fmt) args =
     (if c = 0 then ret ()
      else if c \<noteq> 37 then bnd (consputc (ucast c)) (\<lambda>_. cprintf_loop (d # fmt) args)
      else if d = 0 then ret ()
      else if d = of_char (CHR ''d'') then (case args of
          ANum x # args' \<Rightarrow> bnd (printint x 10 True) (\<lambda>_. cprintf_loop fmt args')
        | _ \<Rightarrow> wild ''cprintf'')
      else if d = of_char (CHR ''x'') \<or> d = of_char (CHR ''p'') then (case args of
          ANum x # args' \<Rightarrow> bnd (printint x 16 False) (\<lambda>_. cprintf_loop fmt args')
        | _ \<Rightarrow> wild ''cprintf'')
      else if d = of_char (CHR ''s'') then (case args of
          AStr s # args' \<Rightarrow>
            bnd (for_each (case s of None \<Rightarrow> chars ''(null)'' | Some cs \<Rightarrow> cs) (\<lambda>c. consputc (scast c)))
              (\<lambda>_. cprintf_loop fmt args')
        | _ \<Rightarrow> wild ''cprintf'')
      else if d = 37 then bnd (consputc 37) (\<lambda>_. cprintf_loop fmt args)
      else bnd (seqs [consputc 37, consputc (ucast d)]) (\<lambda>_. cprintf_loop fmt args))"

definition cprintf :: "bytes option \<Rightarrow> carg list \<Rightarrow> ('z cons_scheme, unit) kop" where
  "cprintf fmt args =
     bnd (gets cons_locking) (\<lambda>locking. seqs [
       whenk locking (kacquire ConsLock),
       case fmt of None \<Rightarrow> panic ''null fmt'' | Some f \<Rightarrow> cprintf_loop f args,
       whenk locking (krelease ConsLock)])"

primrec state_name :: "procstate \<Rightarrow> string" where
  "state_name UNUSED = ''unused''"
| "state_name EMBRYO = ''embryo''"
| "state_name SLEEPING = ''sleep ''"
| "state_name RUNNABLE = ''runble''"
| "state_name RUNNING = ''run   ''"
| "state_name ZOMBIE = ''zombie''"

definition procdump :: "('z cons_scheme, unit) kop" where
  "procdump = for_each [0..<NPROC] (\<lambda>i.
     bnd (proc_get i (\<lambda>p. p)) (\<lambda>p. whenk (pstate p \<noteq> UNUSED) (seqs [
       cprintf (Some (chars ''%d %s %s''))
         [ANum (of_int (pid p)), AStr (Some (chars (state_name (pstate p)))), AStr (Some (pname p))],
       whenk (pstate p = SLEEPING) (bnd (gets (\<lambda>s. ld32 (mem s))) (\<lambda>m.
         for_each (takeWhile (\<lambda>c. c \<noteq> 0) (getcallerpcs m (cx_ebp (pcontext p) + 8)))
           (\<lambda>c. cprintf (Some (chars '' %p'')) [ANum c]))),
       cprintf (Some (chars [CHR 0x0A])) []])))"

subsection \<open>Input\<close>

text \<open>\<open>^U\<close>: delete up to the end of the previous line; at most a whole buffer.\<close>

primrec kill_line :: "nat \<Rightarrow> ('z cons_scheme, unit) kop" where
  "kill_line 0 = wild ''input''"
| "kill_line (Suc n) =
     bnd (gets (\<lambda>s. in_e s \<noteq> in_w s \<and> in_buf s ! (unat (in_e s - 1) mod INPUT_BUF) \<noteq> 10)) (\<lambda>b.
       if b then seqs [
         mods (\<lambda>s. s\<lparr>in_e := in_e s - 1\<rparr>),
         consputc BACKSPACE,
         kill_line n]
       else ret ())"

text \<open>One character of the loop of \<open>consoleintr\<close>; the result is \<open>doprocdump\<close>.\<close>

definition console_key :: "uint \<Rightarrow> ('z cons_scheme, bool) kop" where
  "console_key c =
     (if c = Ctl CHR ''P'' then ret True
      else bnd (
        if c = Ctl CHR ''U'' then kill_line (Suc INPUT_BUF)
        else if c = Ctl CHR ''H'' \<or> c = 0x7f then
          bnd (gets (\<lambda>s. in_e s \<noteq> in_w s)) (\<lambda>b. whenk b (seqs [
            mods (\<lambda>s. s\<lparr>in_e := in_e s - 1\<rparr>),
            consputc BACKSPACE]))
        else bnd (gets (\<lambda>s. c \<noteq> 0 \<and> in_e s - in_r s < of_nat INPUT_BUF)) (\<lambda>b. whenk b (
          let c' = if c = 13 then 10 else c in seqs [
            mods (\<lambda>s. s\<lparr>in_buf := (in_buf s)[unat (in_e s) mod INPUT_BUF := ucast c']\<rparr>),
            mods (\<lambda>s. s\<lparr>in_e := in_e s + 1\<rparr>),
            consputc c',
            bnd (gets (\<lambda>s. c' = 10 \<or> c' = Ctl CHR ''D'' \<or> in_e s = in_r s + of_nat INPUT_BUF)) (\<lambda>b. whenk b (seqs [
              mods (\<lambda>s. s\<lparr>in_w := in_e s\<rparr>),
              wakeup (Some ChInput)]))]))) (\<lambda>_. ret False))"

text \<open>\<open>consoleintr\<close> on the characters that \<open>getc\<close> delivers before it returns a negative value.\<close>

primrec console_keys :: "uint list \<Rightarrow> bool \<Rightarrow> ('z cons_scheme, bool) kop" where
  "console_keys [] dump = ret dump"
| "console_keys (c # cs) dump = bnd (console_key c) (\<lambda>d. console_keys cs (dump \<or> d))"

definition consoleintr :: "uint list \<Rightarrow> ('z cons_scheme, unit) kop" where
  "consoleintr cs =
     bnd (kacquire ConsLock) (\<lambda>_.
     bnd (console_keys cs False) (\<lambda>dump. seqs [
       krelease ConsLock,
       whenk dump procdump]))"

subsection \<open>Numerals\<close>

text \<open>The value of a numeral, least significant digit first.\<close>

definition lsd_value :: "nat \<Rightarrow> nat list \<Rightarrow> nat" where
  "lsd_value b ds = foldr (\<lambda>d n. d + b * n) ds 0"

lemma lsd_value_simps [simp]: "lsd_value b [] = 0" "lsd_value b (d # ds) = d + b * lsd_value b ds"
  by (simp_all add: lsd_value_def)

lemma printint_loop_digits:
  assumes "unat x < unat base ^ n" "0 < n" and "1 < base"
  shows "\<exists>qs. printint_loop n ds x base = Some (map ((!) ds) qs) \<and> qs \<noteq> [] \<and> length qs \<le> n \<and>
    (\<forall>q \<in> set qs. q < unat base) \<and> lsd_value (unat base) qs = unat x"
  using assms(1,2)
proof (induction n arbitrary: x)
  case (Suc n)
  have b: "1 < unat base" using assms(3) by (simp add: word_less_nat_alt)
  let ?d = "unat (x mod base)"
  have d: "?d = unat x mod unat base" "unat (x div base) = unat x div unat base"
    by (simp_all add: unat_mod unat_div)
  have dl: "?d < unat base" using b by (simp add: d)
  show ?case
  proof (cases "x div base = 0")
    case True
    then have "unat x div unat base = 0" using d(2) by simp
    then have "?d = unat x" using b by (simp add: d div_eq_0_iff)
    then show ?thesis using True dl by (intro exI [of _ "[?d]"]) (simp add: Let_def)
  next
    case False
    have "unat (x div base) < unat base ^ n"
      using Suc.prems b by (simp add: d less_mult_imp_div_less mult.commute)
    moreover from this False have "0 < n" by (cases n) (simp_all add: unat_eq_zero)
    ultimately obtain qs where qs: "printint_loop n ds (x div base) base = Some (map ((!) ds) qs)"
      "qs \<noteq> []" "length qs \<le> n" "\<forall>q \<in> set qs. q < unat base" "lsd_value (unat base) qs = unat (x div base)"
      using Suc.IH by blast
    then show ?thesis
      using False dl by (intro exI [of _ "?d # qs"]) (simp add: Let_def d)
  qed
qed simp

text \<open>
  Decimal numerals fit the buffer; the characters in the order they are printed
  have the value of the number.
\<close>

lemma dec_value_snoc: "dec_value (cs @ [c]) = dec_value cs * 10 + (unat c - 48)"
  by (simp add: dec_value_def)

lemma hexdigits_dec: "q < 10 \<Longrightarrow> unat (hexdigits ! q) = 48 + q" "q < 10 \<Longrightarrow> digit (hexdigits ! q)"
proof -
  have "\<forall>q \<in> {..<10}. unat (hexdigits ! q) = 48 + q \<and> digit (hexdigits ! q)"
    unfolding hexdigits_def chars_def digit_def by code_simp
  then show "q < 10 \<Longrightarrow> unat (hexdigits ! q) = 48 + q" "q < 10 \<Longrightarrow> digit (hexdigits ! q)" by auto
qed

lemma dec_value_digits:
  "\<forall>q \<in> set qs. q < 10 \<Longrightarrow> dec_value (rev (map ((!) hexdigits) qs)) = lsd_value 10 qs"
proof (induction qs)
  case Nil
  then show ?case by (simp add: dec_value_def)
next
  case (Cons q qs)
  then show ?case by (simp add: dec_value_snoc hexdigits_dec)
qed

lemma printint_dec:
  assumes "x = (if sint xx < 0 then - xx else xx)"
  obtains qs where "printint_buf ds xx 10 True =
      Some (map ((!) ds) qs @ (if sint xx < 0 then [45] else []))"
    "qs \<noteq> []" "length qs \<le> 10" "\<forall>q \<in> set qs. q < 10" "lsd_value 10 qs = unat x"
proof -
  have "unat x < 10 ^ 10" using unat_lt32 [of x] by simp
  then obtain qs where qs: "printint_loop 10 ds x 10 = Some (map ((!) ds) qs)" "qs \<noteq> []"
    "length qs \<le> 10" "\<forall>q \<in> set qs. q < 10" "lsd_value 10 qs = unat x"
    using printint_loop_digits [of x 10 10 ds] by auto
  have more: "printint_loop n es y b = Some r \<Longrightarrow> printint_loop (n + k) es y b = Some r" for n k es y b r
  proof (induction n arbitrary: y r)
    case (Suc n)
    then show ?case by (auto simp: Let_def split: if_splits)
  qed simp
  from more [OF qs(1), of 6] have "printint_loop 16 ds x 10 = Some (map ((!) ds) qs)" by simp
  then have "printint_buf ds xx 10 True =
      Some (map ((!) ds) qs @ (if sint xx < 0 then [45] else []))"
    using qs(3) assms unfolding printint_buf_def Let_def by simp
  then show ?thesis using that qs by blast
qed

subsection \<open>The screen\<close>

text \<open>What output changes, and the range of the cursor between characters.\<close>

definition screen_ok :: "'z cons_scheme \<Rightarrow> bool" where
  "screen_ok s \<longleftrightarrow> uint (crt_cursor s) \<le> 24 * 80 \<and> \<not> panicked s"

definition put_out :: "'z cons_scheme \<Rightarrow> 'z cons_scheme \<Rightarrow> bool" where
  "put_out s t \<longleftrightarrow> screen_ok t \<and> (\<exists>o' c' p'. t = s\<lparr>uart_out := o', crt_cursor := p', crt := c'\<rparr>)"

lemma put_outI: "screen_ok t \<Longrightarrow> t = s\<lparr>uart_out := o', crt_cursor := p', crt := c'\<rparr> \<Longrightarrow> put_out s t"
  unfolding put_out_def by blast

lemma put_outE:
  assumes "put_out s t"
  obtains o' c' p' where "screen_ok t" "t = s\<lparr>uart_out := o', crt_cursor := p', crt := c'\<rparr>"
  using assms unfolding put_out_def by blast

lemma put_out_refl: "screen_ok s \<Longrightarrow> put_out s s"
  by (rule put_outI [where o' = "uart_out s" and c' = "crt s" and p' = "crt_cursor s"]) simp_all

lemma put_out_trans: "put_out s t \<Longrightarrow> put_out t u \<Longrightarrow> put_out s u"
  by (elim put_outE, rule put_outI, assumption) simp

lemma put_out_fields:
  assumes "put_out s t"
  shows "held t = held s" "procs t = procs s" "curproc t = curproc s" "mem t = mem s" "cons_locking t = cons_locking s"
    "in_buf t = in_buf s" "in_r t = in_r s" "in_w t = in_w s" "in_e t = in_e s" "screen_ok t" "uart t = uart s"
  using assms by (auto simp: put_out_def)

lemma uartputc_out: "ok (uartputc c) s (\<lambda>_ t. \<exists>o'. t = s\<lparr>uart_out := o'\<rparr>)"
  by (auto simp: uartputc_def ok_whenk intro: exI [of _ "uart_out s"])

lemma cga_cursor:
  assumes "0 \<le> p" "p \<le> 24 * 80"
  shows "uint (of_int p :: ushort) = p"
  using assms by (simp add: unsigned_of_int take_bit_int_eq_self)

lemma cgaputc_out:
  assumes "screen_ok s"
  shows "ok (cgaputc c) s (\<lambda>_ t. screen_ok t \<and> (\<exists>c' p'. t = s\<lparr>crt_cursor := p', crt := c'\<rparr>))"
proof -
  define p where "p = uint (crt_cursor s)"
  have p: "0 \<le> p" "p \<le> 1920" using assms by (simp_all add: screen_ok_def p_def)
  define R where "R = (\<lambda>t. \<exists>cells. t = s\<lparr>crt := cells\<rparr>)"
  define Q where "Q = (\<lambda>t. screen_ok t \<and> (\<exists>c' p'. t = s\<lparr>crt_cursor := p', crt := c'\<rparr>))"
  let ?fin = "\<lambda>pos. if pos < 0 \<or> pos > 25 * 80 then panic ''pos under/overflow''
       else bnd (if pos div 80 \<ge> 24
                 then bnd (mods (\<lambda>s. s\<lparr>crt := crt_scroll (pos - 80) (crt s)\<rparr>)) (\<lambda>_. ret (pos - 80))
                 else ret pos) (\<lambda>pos. seqs [
         mods (\<lambda>s. s\<lparr>crt_cursor := of_int pos\<rparr>),
         mods (\<lambda>s. s\<lparr>crt := (crt s)(nat pos := 0x0720)\<rparr>)])"
  have at: "Q (s\<lparr>crt_cursor := of_int q, crt := cells\<rparr>)" if "0 \<le> q" "q \<le> 1920" for q cells
    using cga_cursor [of q] that assms unfolding Q_def by (simp add: screen_ok_def) (rule exI, rule exI, rule refl)
  have fin: "ok (?fin q) (s\<lparr>crt := cells\<rparr>) (\<lambda>_. Q)" if "0 \<le> q" "q \<le> 2000" for q cells
  proof (cases "q div 80 \<ge> 24")
    case True
    then have "0 \<le> q - 80" "q - 80 \<le> 1920" using that by linarith+
    then show ?thesis using True that at [of "q - 80"] by simp
  next
    case False
    then have "q \<le> 1920" by linarith
    then show ?thesis using False that at [of q] by simp
  qed
  let ?put = "if c = 10 then ret (p + (80 - p mod 80))
      else if c = BACKSPACE then ret (if p > 0 then p - 1 else p)
      else bnd (mods (\<lambda>s. s\<lparr>crt := (crt s)(nat p := ucast (c AND 0xff) OR 0x0700)\<rparr>)) (\<lambda>_. ret (p + 1))"
  have "p mod 80 \<ge> 0" "p mod 80 < 80" by simp_all
  then have "p + (80 - p mod 80) \<le> 2000" "0 \<le> p + (80 - p mod 80)" using p by linarith+
  moreover have "R (s\<lparr>crt := cells\<rparr>)" for cells unfolding R_def by blast
  moreover from this [of "crt s"] have "R s" by simp
  ultimately have "ok ?put s (\<lambda>q t. (0 \<le> q \<and> q \<le> 2000) \<and> R t)" using p by simp
  then have "ok (bnd ?put ?fin) s (\<lambda>_. Q)"
    by (rule ok_bndI) (unfold R_def, elim conjE exE, simp only: fin)
  moreover have "cgaputc c s = bnd ?put ?fin s"
    by (simp only: cgaputc_def bnd_apply [of "gets _"] gets_apply outcome.case p_def)
  ultimately show ?thesis by (simp only: ok_def Q_def)
qed

lemma consputc_out:
  assumes "screen_ok s"
  shows "ok (consputc c) s (\<lambda>_. put_out s)"
proof -
  have cga: "ok (cgaputc c) (s\<lparr>uart_out := o'\<rparr>) (\<lambda>_. put_out s)" for o'
  proof (rule ok_mono [OF cgaputc_out])
    show "screen_ok (s\<lparr>uart_out := o'\<rparr>)" using assms by (simp add: screen_ok_def)
    fix t assume "screen_ok t \<and> (\<exists>c' p'. t = s\<lparr>uart_out := o'\<rparr>\<lparr>crt_cursor := p', crt := c'\<rparr>)"
    then show "put_out s t" by (elim conjE exE, intro put_outI) simp_all
  qed
  have "ok (if c = BACKSPACE then seqs [uartputc 8, uartputc 32, uartputc 8] else uartputc c) s
      (\<lambda>_ t. \<exists>o'. t = s\<lparr>uart_out := o'\<rparr>)"
    by (auto intro!: ok_mono [OF uartputc_out])
  then have "ok (seqs [if c = BACKSPACE then seqs [uartputc 8, uartputc 32, uartputc 8] else uartputc c, cgaputc c]) s
      (\<lambda>_. put_out s)"
    unfolding seqs.simps(2) [of "if _ then _ else _"]
    by (rule ok_bndI) (use cga in auto)
  then show ?thesis
    using assms unfolding consputc_def by (simp add: screen_ok_def del: seqs.simps)
qed

lemma for_each_out:
  assumes "\<And>i t. i \<in> set is \<Longrightarrow> put_out s t \<Longrightarrow> ok (f i) t (\<lambda>_. put_out t)" and "screen_ok s"
  shows "ok (for_each is f) s (\<lambda>_. put_out s)"
proof -
  have "ok (for_each is f) s (\<lambda>_. (\<lambda>_. put_out s) (length is))"
  proof (rule ok_for_each)
    fix k t assume k: "k < length is" and t: "put_out s t"
    then show "ok (f (is ! k)) t (\<lambda>_. put_out s)"
      by (intro ok_mono [OF assms(1)]) (auto intro: put_out_trans)
  qed (simp add: put_out_refl assms(2))
  then show ?thesis .
qed

subsection \<open>Printing returns\<close>

lemma printint_hex_buf: "\<exists>buf. printint_buf ds xx 16 False = Some buf"
  using printint_loop_digits [of xx 16 16 ds] unat_lt32 [of xx] by (auto simp: printint_buf_def Let_def)

lemma printint_out:
  assumes "screen_ok s"
  shows "ok (printint xx 10 True) s (\<lambda>_. put_out s)" "ok (printint xx 16 False) s (\<lambda>_. put_out s)"
proof -
  have loop: "ok (for_each cs (\<lambda>c. consputc (scast c))) s (\<lambda>_. put_out s)" for cs :: bytes
    by (rule for_each_out [OF consputc_out assms]) (rule put_out_fields(10))
  obtain b1 where "printint_buf hexdigits xx 10 True = Some b1" by (rule printint_dec [OF refl])
  moreover obtain b2 where "printint_buf hexdigits xx 16 False = Some b2" using printint_hex_buf by blast
  ultimately show "ok (printint xx 10 True) s (\<lambda>_. put_out s)" "ok (printint xx 16 False) s (\<lambda>_. put_out s)"
    using loop by (simp_all add: printint_def)
qed

text \<open>The arguments fit the format.\<close>

fun fmt_ok :: "bytes \<Rightarrow> carg list \<Rightarrow> bool" where
  "fmt_ok (c # d # fmt) args =
     (if c = 0 then True
      else if c \<noteq> 37 then fmt_ok (d # fmt) args
      else if d = 0 then True
      else if d = of_char (CHR ''d'') \<or> d = of_char (CHR ''x'') \<or> d = of_char (CHR ''p'') then
        (case args of ANum x # args' \<Rightarrow> fmt_ok fmt args' | _ \<Rightarrow> False)
      else if d = of_char (CHR ''s'') then (case args of AStr x # args' \<Rightarrow> fmt_ok fmt args' | _ \<Rightarrow> False)
      else fmt_ok fmt args)"
| "fmt_ok fmt args = True"

lemma out_then:
  assumes "ok m s (\<lambda>_. put_out s)" and "\<And>t. put_out s t \<Longrightarrow> ok m' t (\<lambda>_. put_out t)"
  shows "ok (bnd m (\<lambda>_. m')) s (\<lambda>_. put_out s)"
proof (rule ok_bndI [OF assms(1)])
  fix t assume "put_out s t"
  then show "ok m' t (\<lambda>_. put_out s)" by (intro ok_mono [OF assms(2)]) (auto intro: put_out_trans)
qed

lemma cprintf_loop_out:
  fixes s :: "'z cons_scheme"
  shows "fmt_ok fmt args \<Longrightarrow> screen_ok s \<Longrightarrow> ok (cprintf_loop fmt args) s (\<lambda>_. put_out s)"
proof (induction fmt args arbitrary: s rule: fmt_ok.induct)
  case (1 c d fmt args)
  have step: "ok (bnd m (\<lambda>_. cprintf_loop f a)) s (\<lambda>_. put_out s)"
    if "ok m s (\<lambda>_. put_out s)" "\<And>t :: 'z cons_scheme. screen_ok t \<Longrightarrow> ok (cprintf_loop f a) t (\<lambda>_. put_out t)"
    for m f a
    using that by (intro out_then) (auto dest: put_out_fields(10))
  have loop: "ok (for_each cs (\<lambda>c. consputc (scast c))) s (\<lambda>_. put_out s)" for cs :: bytes
    by (rule for_each_out [OF consputc_out \<open>screen_ok s\<close>]) (rule put_out_fields(10))
  have two: "ok (seqs [consputc a, consputc b]) s (\<lambda>_. put_out s)" for a b
    unfolding seqs.simps using 1
    by (intro out_then consputc_out) (auto dest: put_out_fields(10) intro: put_out_refl)
  show ?case
    using 1 printint_out [OF \<open>screen_ok s\<close>] consputc_out [OF \<open>screen_ok s\<close>] loop two
    by (auto split: if_splits list.splits carg.splits simp: put_out_refl simp del: ok_bnd seqs.simps intro!: step)
qed (simp_all add: put_out_refl consputc_out)

lemma cprintf_out:
  assumes "fmt_ok fmt args" "screen_ok s" "ConsLock \<notin> set (held s)"
  shows "ok (cprintf (Some fmt) args) s (\<lambda>_. put_out s)"
proof -
  let ?h = "ConsLock # held s"
  have "ok (cprintf_loop fmt args) (s\<lparr>held := ?h\<rparr>) (\<lambda>_ t. put_out s (t\<lparr>held := remove1 ConsLock (held t)\<rparr>) \<and>
      ConsLock \<in> set (held t))"
  proof (rule ok_mono [OF cprintf_loop_out [OF assms(1)]])
    show "screen_ok (s\<lparr>held := ?h\<rparr>)" using assms(2) by (simp add: screen_ok_def)
    fix t assume "put_out (s\<lparr>held := ?h\<rparr>) t"
    then show "put_out s (t\<lparr>held := remove1 ConsLock (held t)\<rparr>) \<and> ConsLock \<in> set (held t)"
      by (elim put_outE, intro conjI put_outI) (simp_all add: screen_ok_def)
  qed
  moreover have "ok (cprintf_loop fmt args) s (\<lambda>_. put_out s)" using cprintf_loop_out assms by blast
  ultimately show ?thesis
    using assms(3) by (simp add: cprintf_def ok_whenk) (auto elim!: ok_mono)
qed

lemma cprintf_out':
  assumes "fmt_ok fmt args" "ConsLock \<notin> set (held s)" "put_out s t"
  shows "ok (cprintf (Some fmt) args) t (\<lambda>_. put_out t)"
  using assms put_out_fields [OF assms(3)] by (intro cprintf_out) simp_all

lemma procdump_out:
  assumes "screen_ok s" "ConsLock \<notin> set (held s)"
  shows "ok procdump s (\<lambda>_. put_out s)"
  unfolding procdump_def
proof (rule for_each_out [OF _ assms(1)])
  fix i t assume t: "put_out s t"
  note f = put_out_fields [OF t]
  have h: "ConsLock \<notin> set (held t)" using assms(2) f by simp
  let ?p = "procs t i"
  have 1: "ok (cprintf (Some (chars ''%d %s %s''))
      [ANum (of_int (pid ?p)), AStr (Some (chars (state_name (pstate ?p)))), AStr (Some (pname ?p))]) t
      (\<lambda>_. put_out t)"
    by (rule cprintf_out [OF _ f(10) h]) (simp add: chars_def)
  have pcs: "ok (for_each cs (\<lambda>c. cprintf (Some (chars '' %p'')) [ANum c])) u (\<lambda>_. put_out u)" if "put_out t u" for cs u
    using put_out_fields [OF that] h
    by (intro for_each_out cprintf_out) (auto simp: chars_def dest: put_out_fields(1,10))
  have 2: "ok (whenk b (bnd (gets (\<lambda>s. ld32 (mem s))) (\<lambda>m. for_each (f m) (\<lambda>c. cprintf (Some (chars '' %p'')) [ANum c])))) u
      (\<lambda>_. put_out u)" if "put_out t u" for b f u
    using pcs [OF that] put_out_refl [OF put_out_fields(10) [OF that]] by (simp add: ok_whenk)
  have 3: "ok (cprintf (Some (chars [CHR 0x0A])) []) u (\<lambda>_. put_out u)" if "put_out t u" for u
    by (rule cprintf_out' [OF _ h that]) (simp add: chars_def)
  have 4: "ok (seqs [cprintf (Some (chars [CHR 0x0A])) []]) u (\<lambda>_. put_out u)" if "put_out t u" for u
    using 3 [OF that] by simp
  have 5: "ok (seqs [whenk b (bnd (gets (\<lambda>s. ld32 (mem s))) (\<lambda>m. for_each (f m) (\<lambda>c. cprintf (Some (chars '' %p'')) [ANum c]))),
      cprintf (Some (chars [CHR 0x0A])) []]) u (\<lambda>_. put_out u)" if "put_out t u" for b f u
    unfolding seqs.simps(2) [of "whenk _ _"] by (rule out_then [OF 2 [OF that] 4]) (rule put_out_trans [OF that])
  show "ok (bnd (proc_get i (\<lambda>p. p)) (\<lambda>p. whenk (pstate p \<noteq> UNUSED) (seqs [
       cprintf (Some (chars ''%d %s %s''))
         [ANum (of_int (pid p)), AStr (Some (chars (state_name (pstate p)))), AStr (Some (pname p))],
       whenk (pstate p = SLEEPING) (bnd (gets (\<lambda>s. ld32 (mem s))) (\<lambda>m.
         for_each (takeWhile (\<lambda>c. c \<noteq> 0) (getcallerpcs m (cx_ebp (pcontext p) + 8)))
           (\<lambda>c. cprintf (Some (chars '' %p'')) [ANum c]))),
       cprintf (Some (chars [CHR 0x0A])) []]))) t (\<lambda>_. put_out t)"
    using out_then [OF 1 5] put_out_refl [OF f(10)]
    by (simp only: seqs.simps(2) [of "cprintf (Some (chars ''%d %s %s'')) _"] ok_bnd ok_proc_get ok_whenk if_cancel)
qed

end
