(* ===== verification/Vm.thy ===== *)
theory Vm
  imports Console
begin

unbundle bit_operations_syntax

text \<open>
  Virtual memory (vm.c). Page directories and page tables are pages of the byte
  memory, and the functions read and write their 32-bit entries there, as the
  code does. A null pointer is the address 0.

  \<open>loaduvm\<close>, which reads a file, is with \<open>exec\<close>. \<open>seginit\<close> and the descriptor of the
  task state in \<open>switchuvm\<close> only load hardware tables; of \<open>switchuvm\<close> the model
  keeps the stack pointer of the task state and the page-table register.
\<close>

record vm = cons +
  kpgdir :: uint
  cr3 :: uint
  ts_esp0 :: uint
  ts_ss0 :: ushort
  kdata :: uint

definition SEG_KDATA :: nat where "SEG_KDATA = 2"

subsection \<open>Walking and mapping\<close>

definition mem_ld :: "uint \<Rightarrow> ('z vm_scheme, uint) kop" where
  "mem_ld a = gets (\<lambda>s. ld32 (mem s) a)"

definition mem_st :: "uint \<Rightarrow> uint \<Rightarrow> ('z vm_scheme, unit) kop" where
  "mem_st a v = mods (\<lambda>s. s\<lparr>mem := st32 (mem s) a v\<rparr>)"

definition mem_set :: "uint \<Rightarrow> uint \<Rightarrow> uint \<Rightarrow> ('z vm_scheme, unit) kop" where
  "mem_set a c n = mods (\<lambda>s. s\<lparr>mem := memset (mem s) a c n\<rparr>)"

definition mem_move :: "uint \<Rightarrow> uint \<Rightarrow> uint \<Rightarrow> ('z vm_scheme, unit) kop" where
  "mem_move dst src n = mods (\<lambda>s. s\<lparr>mem := memmove (mem s) dst src n\<rparr>)"

definition walkpgdir :: "uint \<Rightarrow> uint \<Rightarrow> bool \<Rightarrow> ('z vm_scheme, uint) kop" where
  "walkpgdir pgd va alloc =
     (let pde = pgd + 4 * PDX va in
      bnd (mem_ld pde) (\<lambda>e.
        if e AND PTE_P \<noteq> 0 then ret (P2V (PTE_ADDR e) + 4 * PTX va)
        else if \<not> alloc then ret 0
        else bnd kalloc (\<lambda>pgtab. if pgtab = 0 then ret 0 else
          bnd (mem_set pgtab 0 PGSIZE) (\<lambda>_.
          bnd (mem_st pde (V2P pgtab OR PTE_P OR PTE_W OR PTE_U)) (\<lambda>_.
          ret (pgtab + 4 * PTX va))))))"

text \<open>The address space has \<open>2 ^ 20\<close> pages, so its loops run at most that often.\<close>

primrec mappages_loop :: "nat \<Rightarrow> uint \<Rightarrow> uint \<Rightarrow> uint \<Rightarrow> uint \<Rightarrow> uint \<Rightarrow> ('z vm_scheme, int) kop" where
  "mappages_loop 0 pgd a la pa perm = wild ''mappages''"
| "mappages_loop (Suc n) pgd a la pa perm =
     bnd (walkpgdir pgd a True) (\<lambda>pte. if pte = 0 then ret (- 1) else
     bnd (mem_ld pte) (\<lambda>e. if e AND PTE_P \<noteq> 0 then panic ''remap'' else
     bnd (mem_st pte (pa OR perm OR PTE_P)) (\<lambda>_.
       if a = la then ret 0 else mappages_loop n pgd (a + PGSIZE) la (pa + PGSIZE) perm)))"

definition mappages :: "uint \<Rightarrow> uint \<Rightarrow> uint \<Rightarrow> uint \<Rightarrow> uint \<Rightarrow> ('z vm_scheme, int) kop" where
  "mappages pgd va sz pa perm =
     mappages_loop (2 ^ 20) pgd (PGROUNDDOWN va) (PGROUNDDOWN (va + sz - 1)) pa perm"

primrec deallocuvm_loop :: "nat \<Rightarrow> uint \<Rightarrow> uint \<Rightarrow> uint \<Rightarrow> ('z vm_scheme, unit) kop" where
  "deallocuvm_loop 0 pgd a oldsz = wild ''deallocuvm''"
| "deallocuvm_loop (Suc n) pgd a oldsz =
     (if a < oldsz then
        bnd (walkpgdir pgd a False) (\<lambda>pte.
          if pte = 0 then deallocuvm_loop n pgd (PGADDR (PDX a + 1) 0 0 - PGSIZE + PGSIZE) oldsz
          else bnd (mem_ld pte) (\<lambda>e.
            bnd (whenk (e AND PTE_P \<noteq> 0) (
              if PTE_ADDR e = 0 then panic ''kfree''
              else seqs [kfree (P2V (PTE_ADDR e)), mem_st pte 0])) (\<lambda>_.
            deallocuvm_loop n pgd (a + PGSIZE) oldsz)))
      else ret ())"

definition deallocuvm :: "uint \<Rightarrow> uint \<Rightarrow> uint \<Rightarrow> ('z vm_scheme, uint) kop" where
  "deallocuvm pgd oldsz newsz =
     (if newsz \<ge> oldsz then ret oldsz
      else bnd (deallocuvm_loop (Suc (2 ^ 20)) pgd (PGROUNDUP newsz) oldsz) (\<lambda>_. ret newsz))"

definition freevm :: "uint \<Rightarrow> ('z vm_scheme, unit) kop" where
  "freevm pgd =
     (if pgd = 0 then panic ''freevm: no pgdir''
      else seqs [
        bnd (deallocuvm pgd KERNBASE 0) (\<lambda>_. ret ()),
        for_each [0..<NPDENTRIES] (\<lambda>i. bnd (mem_ld (pgd + 4 * of_nat i)) (\<lambda>e.
          whenk (e AND PTE_P \<noteq> 0) (kfree (P2V (PTE_ADDR e))))),
        kfree pgd])"

subsection \<open>The kernel's part\<close>

text \<open>The table \<open>kmap\<close>: virtual address, physical start and end, permissions.\<close>

definition kmap :: "uint \<Rightarrow> (uint \<times> uint \<times> uint \<times> uint) list" where
  "kmap data = [
     (KERNBASE, 0, EXTMEM, PTE_W),
     (KERNLINK, V2P KERNLINK, V2P data, 0),
     (data, V2P data, PHYSTOP, PTE_W),
     (DEVSPACE, DEVSPACE, 0, PTE_W)]"

primrec kmap_loop :: "uint \<Rightarrow> (uint \<times> uint \<times> uint \<times> uint) list \<Rightarrow> ('z vm_scheme, uint) kop" where
  "kmap_loop pgd [] = ret pgd"
| "kmap_loop pgd (k # ks) = (case k of (virt, phys_start, phys_end, perm) \<Rightarrow>
     bnd (mappages pgd virt (phys_end - phys_start) phys_start perm) (\<lambda>r.
       if r < 0 then bnd (freevm pgd) (\<lambda>_. ret 0) else kmap_loop pgd ks))"

definition setupkvm :: "('z vm_scheme, uint) kop" where
  "setupkvm =
     bnd kalloc (\<lambda>pgd. if pgd = 0 then ret 0 else
     bnd (mem_set pgd 0 PGSIZE) (\<lambda>_.
       if P2V PHYSTOP > DEVSPACE then panic ''PHYSTOP too high''
       else bnd (gets kdata) (\<lambda>data. kmap_loop pgd (kmap data))))"

definition switchkvm :: "('z vm_scheme, unit) kop" where
  "switchkvm = mods (\<lambda>s. s\<lparr>cr3 := V2P (kpgdir s)\<rparr>)"

definition kvmalloc :: "('z vm_scheme, unit) kop" where
  "kvmalloc = bnd setupkvm (\<lambda>p. seqs [mods (\<lambda>s. s\<lparr>kpgdir := p\<rparr>), switchkvm])"

definition switchuvm :: "nat option \<Rightarrow> ('z vm_scheme, unit) kop" where
  "switchuvm p = (case p of None \<Rightarrow> panic ''switchuvm: no process'' | Some i \<Rightarrow>
     bnd (proc_get i (\<lambda>p. p)) (\<lambda>p.
       if kstack p = 0 then panic ''switchuvm: no kstack''
       else if pgdir p = 0 then panic ''switchuvm: no pgdir''
       else seqs [
         mods (\<lambda>s. s\<lparr>ts_ss0 := of_nat SEG_KDATA * 8\<rparr>),
         mods (\<lambda>s. s\<lparr>ts_esp0 := kstack p + KSTACKSIZE\<rparr>),
         mods (\<lambda>s. s\<lparr>cr3 := V2P (pgdir p)\<rparr>)]))"

subsection \<open>User memory\<close>

text \<open>\<open>inituvm\<close> copies \<open>sz\<close> bytes of kernel memory at \<open>init\<close> to the page at address 0.\<close>

definition inituvm :: "uint \<Rightarrow> uint \<Rightarrow> uint \<Rightarrow> ('z vm_scheme, unit) kop" where
  "inituvm pgd init sz =
     (if sz \<ge> PGSIZE then panic ''inituvm: more than a page''
      else bnd kalloc (\<lambda>m.
        bnd (mem_set m 0 PGSIZE) (\<lambda>_.
        bnd (mappages pgd 0 PGSIZE (V2P m) (PTE_W OR PTE_U)) (\<lambda>_.
        mem_move m init sz))))"

primrec allocuvm_loop :: "nat \<Rightarrow> uint \<Rightarrow> uint \<Rightarrow> uint \<Rightarrow> uint \<Rightarrow> ('z vm_scheme, uint) kop" where
  "allocuvm_loop 0 pgd a oldsz newsz = wild ''allocuvm''"
| "allocuvm_loop (Suc n) pgd a oldsz newsz =
     (if a < newsz then
        bnd kalloc (\<lambda>m. if m = 0 then
            bnd (cprintf (Some (chars ''allocuvm out of memory'' @ [10])) []) (\<lambda>_.
            bnd (deallocuvm pgd newsz oldsz) (\<lambda>_. ret 0))
          else
            bnd (mem_set m 0 PGSIZE) (\<lambda>_.
            bnd (mappages pgd a PGSIZE (V2P m) (PTE_W OR PTE_U)) (\<lambda>r. if r < 0 then
                bnd (cprintf (Some (chars ''allocuvm out of memory (2)'' @ [10])) []) (\<lambda>_.
                bnd (deallocuvm pgd newsz oldsz) (\<lambda>_.
                bnd (kfree m) (\<lambda>_. ret 0)))
              else allocuvm_loop n pgd (a + PGSIZE) oldsz newsz)))
      else ret newsz)"

definition allocuvm :: "uint \<Rightarrow> uint \<Rightarrow> uint \<Rightarrow> ('z vm_scheme, uint) kop" where
  "allocuvm pgd oldsz newsz =
     (if newsz \<ge> KERNBASE then ret 0
      else if newsz < oldsz then ret oldsz
      else allocuvm_loop (Suc (2 ^ 20)) pgd (PGROUNDUP oldsz) oldsz newsz)"

definition clearpteu :: "uint \<Rightarrow> uint \<Rightarrow> ('z vm_scheme, unit) kop" where
  "clearpteu pgd uva =
     bnd (walkpgdir pgd uva False) (\<lambda>pte. if pte = 0 then panic ''clearpteu'' else
     bnd (mem_ld pte) (\<lambda>e. mem_st pte (e AND NOT PTE_U)))"

primrec copyuvm_loop :: "nat \<Rightarrow> uint \<Rightarrow> uint \<Rightarrow> uint \<Rightarrow> uint \<Rightarrow> ('z vm_scheme, uint) kop" where
  "copyuvm_loop 0 pgd d i sz = wild ''copyuvm''"
| "copyuvm_loop (Suc n) pgd d i sz =
     (if i < sz then
        bnd (walkpgdir pgd i False) (\<lambda>pte. if pte = 0 then panic ''copyuvm: pte should exist'' else
        bnd (mem_ld pte) (\<lambda>e. if e AND PTE_P = 0 then panic ''copyuvm: page not present'' else
        bnd kalloc (\<lambda>m. if m = 0 then bnd (freevm d) (\<lambda>_. ret 0) else
        bnd (mem_move m (P2V (PTE_ADDR e)) PGSIZE) (\<lambda>_.
        bnd (mappages d i PGSIZE (V2P m) (PTE_FLAGS e)) (\<lambda>r.
          if r < 0 then bnd (kfree m) (\<lambda>_. bnd (freevm d) (\<lambda>_. ret 0))
          else copyuvm_loop n pgd d (i + PGSIZE) sz)))))
      else ret d)"

definition copyuvm :: "uint \<Rightarrow> uint \<Rightarrow> ('z vm_scheme, uint) kop" where
  "copyuvm pgd sz =
     bnd setupkvm (\<lambda>d. if d = 0 then ret 0 else copyuvm_loop (Suc (2 ^ 20)) pgd d 0 sz)"

text \<open>\<open>uva2ka\<close> does not test the pointer that \<open>walkpgdir\<close> returns before it loads from it.\<close>

definition uva2ka :: "uint \<Rightarrow> uint \<Rightarrow> ('z vm_scheme, uint) kop" where
  "uva2ka pgd uva =
     bnd (walkpgdir pgd uva False) (\<lambda>pte. if pte = 0 then wild ''uva2ka'' else
     bnd (mem_ld pte) (\<lambda>e.
       if e AND PTE_P = 0 then ret 0
       else if e AND PTE_U = 0 then ret 0
       else ret (P2V (PTE_ADDR e))))"

text \<open>
  A byte access of the kernel through the page table in use: addresses from
  \<open>KERNBASE\<close> up are mapped directly, user addresses through their entry. The CPU
  faults on an address that is not mapped.
\<close>

definition vaddr :: "uint \<Rightarrow> ('z vm_scheme, uint) kop" where
  "vaddr va =
     (if va \<ge> KERNBASE then ret va
      else bnd (gets (\<lambda>s. P2V (cr3 s))) (\<lambda>pgd.
        bnd (walkpgdir pgd va False) (\<lambda>pte. if pte = 0 then wild ''page fault'' else
        bnd (mem_ld pte) (\<lambda>e. if e AND PTE_P = 0 then wild ''page fault''
          else ret (P2V (PTE_ADDR e) + (va AND 0xFFF))))))"

definition ldb :: "uint \<Rightarrow> ('z vm_scheme, uchar) kop" where
  "ldb va = bnd (vaddr va) (\<lambda>a. gets (\<lambda>s. mem s a))"

definition stb :: "uint \<Rightarrow> uchar \<Rightarrow> ('z vm_scheme, unit) kop" where
  "stb va v = bnd (vaddr va) (\<lambda>a. mods (\<lambda>s. s\<lparr>mem := (mem s)(a := v)\<rparr>))"

text \<open>A copy of \<open>n\<close> bytes between a byte sequence in the kernel's data and memory.\<close>

primrec ld_bytes :: "nat \<Rightarrow> uint \<Rightarrow> ('z vm_scheme, bytes) kop" where
  "ld_bytes 0 va = ret []"
| "ld_bytes (Suc n) va = bnd (ldb va) (\<lambda>c. bnd (ld_bytes n (va + 1)) (\<lambda>cs. ret (c # cs)))"

primrec st_bytes :: "bytes \<Rightarrow> uint \<Rightarrow> ('z vm_scheme, unit) kop" where
  "st_bytes [] va = ret ()"
| "st_bytes (c # cs) va = bnd (stb va c) (\<lambda>_. st_bytes cs (va + 1))"

definition ldw :: "uint \<Rightarrow> ('z vm_scheme, uint) kop" where
  "ldw va = bnd (ld_bytes 4 va) (\<lambda>b. ret (ucast (b ! 0) OR push_bit 8 (ucast (b ! 1))
     OR push_bit 16 (ucast (b ! 2)) OR push_bit 24 (ucast (b ! 3))))"

definition word_bytes :: "uint \<Rightarrow> bytes" where
  "word_bytes v = [ucast v, ucast (drop_bit 8 v), ucast (drop_bit 16 v), ucast (drop_bit 24 v)]"

definition stw :: "uint \<Rightarrow> uint \<Rightarrow> ('z vm_scheme, unit) kop" where
  "stw va v = st_bytes (word_bytes v) va"

text \<open>Destinations and sources: memory at an address, a local byte sequence.\<close>

definition to_mem :: "uint \<Rightarrow> uint \<Rightarrow> bytes \<Rightarrow> ('z vm_scheme, unit) kop" where
  "to_mem dst k cs = st_bytes cs (dst + k)"

definition from_mem :: "uint \<Rightarrow> uint \<Rightarrow> nat \<Rightarrow> ('z vm_scheme, bytes) kop" where
  "from_mem src k n = ld_bytes n (src + k)"

definition to_local :: "uint \<Rightarrow> bytes \<Rightarrow> ('z vm_scheme, unit) kop" where
  "to_local k cs = ret ()"

definition from_local :: "bytes \<Rightarrow> uint \<Rightarrow> nat \<Rightarrow> ('z vm_scheme, bytes) kop" where
  "from_local b k n = ret (take n (drop (unat k) b))"

subsection \<open>Copying out\<close>

text \<open>
  \<open>copyout\<close> stores in another address space; its source, which it reads through the
  current page table, is a source as above. Each round reaches a page boundary or ends.
\<close>

definition mem_put :: "uint \<Rightarrow> bytes \<Rightarrow> ('z vm_scheme, unit) kop" where
  "mem_put a cs = for_each [0..<length cs] (\<lambda>i. mods (\<lambda>s. s\<lparr>mem := (mem s)(a + of_nat i := cs ! i)\<rparr>))"

primrec copyout_loop :: "nat \<Rightarrow> uint \<Rightarrow> uint \<Rightarrow> (uint \<Rightarrow> nat \<Rightarrow> ('z vm_scheme, bytes) kop) \<Rightarrow> uint \<Rightarrow> uint \<Rightarrow>
    ('z vm_scheme, int) kop" where
  "copyout_loop 0 pgd va get buf len = wild ''copyout''"
| "copyout_loop (Suc k) pgd va get buf len =
     (if len > 0 then
        let va0 = PGROUNDDOWN va in
        bnd (uva2ka pgd va0) (\<lambda>pa0. if pa0 = 0 then ret (- 1) else
          let n = (if PGSIZE - (va - va0) > len then len else PGSIZE - (va - va0)) in
          bnd (get buf (unat n)) (\<lambda>cs.
          bnd (mem_put (pa0 + (va - va0)) cs) (\<lambda>_.
          copyout_loop k pgd (va0 + PGSIZE) get (buf + n) (len - n))))
      else ret 0)"

definition copyout :: "uint \<Rightarrow> uint \<Rightarrow> (uint \<Rightarrow> nat \<Rightarrow> ('z vm_scheme, bytes) kop) \<Rightarrow> uint \<Rightarrow> ('z vm_scheme, int) kop" where
  "copyout pgd va get len = copyout_loop (2 ^ 20 + 2) pgd va get 0 len"

end
