(* ===== verification/Layout.thy ===== *)
theory Layout
  imports Params
begin

unbundle bit_operations_syntax

text \<open>
  The on-disk format (fs.h): 16- and 32-bit fields in the bytes of a block, low
  byte first, as the x86 stores them, and the structures made of them. The
  interface \<open>field_codec\<close> holds what the file-system code relies on when it
  reads and writes a field of a block through a C struct.
\<close>

definition get16 :: "bytes \<Rightarrow> nat \<Rightarrow> ushort" where
  "get16 d i = ucast (d ! i) OR push_bit 8 (ucast (d ! (i + 1)))"

definition put16 :: "bytes \<Rightarrow> nat \<Rightarrow> ushort \<Rightarrow> bytes" where
  "put16 d i v = d[i := ucast v, i + 1 := ucast (drop_bit 8 v)]"

definition get32 :: "bytes \<Rightarrow> nat \<Rightarrow> uint" where
  "get32 d i = ucast (d ! i) OR push_bit 8 (ucast (d ! (i + 1)))
     OR push_bit 16 (ucast (d ! (i + 2))) OR push_bit 24 (ucast (d ! (i + 3)))"

definition put32 :: "bytes \<Rightarrow> nat \<Rightarrow> uint \<Rightarrow> bytes" where
  "put32 d i v = d[i := ucast v, i + 1 := ucast (drop_bit 8 v),
     i + 2 := ucast (drop_bit 16 v), i + 3 := ucast (drop_bit 24 v)]"

text \<open>Storing \<open>n\<close> elements of an array of fields, in order.\<close>

definition put_array :: "(bytes \<Rightarrow> nat \<Rightarrow> 'v \<Rightarrow> bytes) \<Rightarrow> nat \<Rightarrow> nat \<Rightarrow> (nat \<Rightarrow> 'v) \<Rightarrow> nat \<Rightarrow> bytes \<Rightarrow> bytes" where
  "put_array put w base vs n d = fold (\<lambda>i d. put d (base + w * i) (vs i)) [0..<n] d"

lemma put_array_0 [simp]: "put_array put w base vs 0 d = d"
  by (simp add: put_array_def)

lemma put_array_Suc:
  "put_array put w base vs (Suc n) d = put (put_array put w base vs n d) (base + w * n) (vs n)"
  by (simp add: put_array_def)

locale field_codec =
  fixes w :: nat
    and get :: "bytes \<Rightarrow> nat \<Rightarrow> 'v"
    and put :: "bytes \<Rightarrow> nat \<Rightarrow> 'v \<Rightarrow> bytes"
  assumes length_put: "length (put d i v) = length d"
    and get_put: "i + w \<le> length d \<Longrightarrow> get (put d i v) i = v"
    and put_nth: "k < i \<or> i + w \<le> k \<Longrightarrow> put d i v ! k = d ! k"
    and get_cong: "(\<And>k. i \<le> k \<Longrightarrow> k < i + w \<Longrightarrow> d ! k = e ! k) \<Longrightarrow> get d i = get e i"
begin

lemma get_put_other: "j + w \<le> i \<or> i + w \<le> j \<Longrightarrow> get (put d i v) j = get d j"
  by (rule get_cong) (auto intro!: put_nth)

lemma length_put_array: "length (put_array put w base vs n d) = length d"
  by (induction n) (simp_all add: put_array_Suc length_put)

lemma put_array_nth: "k < base \<or> base + w * n \<le> k \<Longrightarrow> put_array put w base vs n d ! k = d ! k"
  by (induction n) (auto simp: put_array_Suc put_nth)

lemma get_put_array:
  "j < n \<Longrightarrow> base + w * n \<le> length d \<Longrightarrow> get (put_array put w base vs n d) (base + w * j) = vs j"
proof (induction n)
  case 0
  then show ?case by simp
next
  case (Suc n)
  show ?case
  proof (cases "j = n")
    case True
    then show ?thesis
      using Suc.prems by (simp add: put_array_Suc get_put length_put_array)
  next
    case False
    then have "j < n" using Suc.prems(1) by simp
    moreover have "base + w * j + w \<le> base + w * n"
    proof -
      have "w * Suc j \<le> w * n" using \<open>j < n\<close> by (intro mult_le_mono2) simp
      then show ?thesis by simp
    qed
    ultimately show ?thesis
      using Suc by (simp add: put_array_Suc get_put_other)
  qed
qed

lemma get_put_array_other:
  "j + w \<le> base \<or> base + w * n \<le> j \<Longrightarrow> get (put_array put w base vs n d) j = get d j"
  by (rule get_cong) (auto intro!: put_array_nth)

end

lemma ucast_parts16:
  "ucast (ucast v :: uchar) OR push_bit 8 (ucast (ucast (drop_bit 8 v) :: uchar)) = (v :: ushort)"
proof (rule bit_word_eqI)
  fix n assume "n < LENGTH(16)"
  then consider "n < 8" | "8 \<le> n \<and> n < 16" by fastforce
  then show "bit (ucast (ucast v :: uchar) OR push_bit 8 (ucast (ucast (drop_bit 8 v) :: uchar)) :: ushort) n = bit v n"
    by cases (auto simp: bit_simps)
qed

lemma ucast_parts32:
  "ucast (ucast v :: uchar) OR push_bit 8 (ucast (ucast (drop_bit 8 v) :: uchar)) OR
   push_bit 16 (ucast (ucast (drop_bit 16 v) :: uchar)) OR
   push_bit 24 (ucast (ucast (drop_bit 24 v) :: uchar)) = (v :: uint)"
proof (rule bit_word_eqI)
  fix n assume "n < LENGTH(32)"
  then consider "n < 8" | "8 \<le> n \<and> n < 16" | "16 \<le> n \<and> n < 24" | "24 \<le> n \<and> n < 32" by fastforce
  then show "bit (ucast (ucast v :: uchar) OR push_bit 8 (ucast (ucast (drop_bit 8 v) :: uchar)) OR
      push_bit 16 (ucast (ucast (drop_bit 16 v) :: uchar)) OR
      push_bit 24 (ucast (ucast (drop_bit 24 v) :: uchar)) :: uint) n = bit v n"
    by cases (auto simp: bit_simps)
qed

interpretation f16: field_codec 2 get16 put16
  by unfold_locales (auto simp: get16_def put16_def ucast_parts16)

interpretation f32: field_codec 4 get32 put32
  by unfold_locales (auto simp: get32_def put32_def ucast_parts32)

lemma length_put16 [simp]: "length (put16 d i v) = length d"
  and length_put32 [simp]: "length (put32 d i x) = length d"
  by (simp_all add: put16_def put32_def)

subsection \<open>The super block\<close>

record superblock =
  sb_size :: uint
  sb_nblocks :: uint
  sb_ninodes :: uint
  sb_nlog :: uint
  sb_logstart :: uint
  sb_inodestart :: uint
  sb_bmapstart :: uint

definition decode_sb :: "bytes \<Rightarrow> superblock" where
  "decode_sb d = \<lparr>sb_size = get32 d 0, sb_nblocks = get32 d 4, sb_ninodes = get32 d 8,
     sb_nlog = get32 d 12, sb_logstart = get32 d 16, sb_inodestart = get32 d 20,
     sb_bmapstart = get32 d 24\<rparr>"

definition encode_sb :: "superblock \<Rightarrow> bytes \<Rightarrow> bytes" where
  "encode_sb sb d = put32 (put32 (put32 (put32 (put32 (put32 (put32 d
     0 (sb_size sb)) 4 (sb_nblocks sb)) 8 (sb_ninodes sb)) 12 (sb_nlog sb))
     16 (sb_logstart sb)) 20 (sb_inodestart sb)) 24 (sb_bmapstart sb)"

lemma decode_encode_sb: "28 \<le> length d \<Longrightarrow> decode_sb (encode_sb sb d) = sb"
  by (simp add: decode_sb_def encode_sb_def f32.get_put f32.get_put_other)

end
