(* ===== verification/Bio.thy ===== *)
theory Bio
  imports Vm Layout
begin

unbundle bit_operations_syntax

text \<open>
  The buffer cache (bio.c) over the memory disk driver (memide.c), whose \<open>iderw\<close>
  completes at once. The cache is the array of \<open>NBUF\<close> buffers with the links of
  the most-recently-used list, \<open>NBUF\<close> being the index of the list head. The disk
  is its blocks; \<open>dwrites\<close> records, for reasoning only, every block write in
  order.

  The lemmas show that the cache is transparent: with \<open>bview s b\<close> the contents
  of block \<open>b\<close> that \<open>bread\<close> delivers, the cache operations change \<open>bview\<close> only
  where the caller changes the data of a buffer it has locked.
\<close>

definition BSIZE :: nat where "BSIZE = 512"

definition B_VALID :: uint where "B_VALID = 2"
definition B_DIRTY :: uint where "B_DIRTY = 4"

record buf =
  bflags :: uint
  bdev :: uint
  blockno :: uint
  refcnt :: uint
  bprev :: nat
  bnext :: nat
  bdata :: bytes

record bcache = vm +
  bufs :: "nat \<Rightarrow> buf"
  disk :: "uint \<Rightarrow> bytes"
  disksize :: uint
  dwrites :: "(uint \<times> bytes) list"

definition bhead :: nat where "bhead = NBUF"

definition buf_upd :: "nat \<Rightarrow> (buf \<Rightarrow> buf) \<Rightarrow> ('z bcache_scheme, unit) kop" where
  "buf_upd i f = mods (\<lambda>s. s\<lparr>bufs := (bufs s)(i := f (bufs s i))\<rparr>)"

definition buf_get :: "nat \<Rightarrow> (buf \<Rightarrow> 'a) \<Rightarrow> ('z bcache_scheme, 'a) kop" where
  "buf_get i f = gets (\<lambda>s. f (bufs s i))"

subsection \<open>memide.c\<close>

definition iderw :: "nat \<Rightarrow> ('z bcache_scheme, unit) kop" where
  "iderw b =
     bnd (holdingsleep (BufLock b)) (\<lambda>h. if \<not> h then panic ''iderw: buf not locked'' else
     bnd (buf_get b (\<lambda>x. x)) (\<lambda>x.
     bnd (gets disksize) (\<lambda>sz.
       if bflags x AND (B_VALID OR B_DIRTY) = B_VALID then panic ''iderw: nothing to do''
       else if bdev x \<noteq> 1 then panic ''iderw: request not for disk 1''
       else if blockno x \<ge> sz then panic ''iderw: block out of range''
       else seqs [
         if bflags x AND B_DIRTY \<noteq> 0 then seqs [
           buf_upd b (\<lambda>x. x\<lparr>bflags := bflags x AND NOT B_DIRTY\<rparr>),
           mods (\<lambda>s. s\<lparr>disk := (disk s)(blockno x := bdata (bufs s b)),
             dwrites := dwrites s @ [(blockno x, bdata (bufs s b))]\<rparr>)]
         else bnd (gets (\<lambda>s. disk s (blockno x))) (\<lambda>d. buf_upd b (\<lambda>x. x\<lparr>bdata := d\<rparr>)),
         buf_upd b (\<lambda>x. x\<lparr>bflags := bflags x OR B_VALID\<rparr>)])))"

subsection \<open>bio.c\<close>

definition link_front :: "nat \<Rightarrow> ('z bcache_scheme, unit) kop" where
  "link_front b =
     bnd (buf_get bhead bnext) (\<lambda>h. seqs [
       buf_upd b (\<lambda>x. x\<lparr>bnext := h\<rparr>),
       buf_upd b (\<lambda>x. x\<lparr>bprev := bhead\<rparr>)])"

definition binit :: "('z bcache_scheme, unit) kop" where
  "binit = seqs [
     buf_upd bhead (\<lambda>x. x\<lparr>bprev := bhead\<rparr>),
     buf_upd bhead (\<lambda>x. x\<lparr>bnext := bhead\<rparr>),
     for_each [0..<NBUF] (\<lambda>b. seqs [
       link_front b,
       initsleeplock (BufLock b) ''buffer'',
       bnd (buf_get bhead bnext) (\<lambda>h. buf_upd h (\<lambda>x. x\<lparr>bprev := b\<rparr>)),
       buf_upd bhead (\<lambda>x. x\<lparr>bnext := b\<rparr>)])]"

text \<open>
  The walks of \<open>bget\<close> along the list, from \<open>b\<close> in the direction \<open>dir\<close> to the first
  buffer with \<open>P\<close> or to the head. The list has \<open>NBUF\<close> buffers and the head, which
  bounds the walk.
\<close>

primrec bwalk :: "nat \<Rightarrow> (buf \<Rightarrow> nat) \<Rightarrow> (buf \<Rightarrow> bool) \<Rightarrow> nat \<Rightarrow> ('z bcache_scheme, nat option) kop" where
  "bwalk 0 dir P b = wild ''bcache list''"
| "bwalk (Suc k) dir P b =
     (if b = bhead then ret None
      else bnd (buf_get b (\<lambda>x. x)) (\<lambda>x. if P x then ret (Some b) else bwalk k dir P (dir x)))"

definition bget :: "uint \<Rightarrow> uint \<Rightarrow> ('z bcache_scheme, nat) kop" where
  "bget dev bno =
     bnd (kacquire BCacheLock) (\<lambda>_.
     bnd (buf_get bhead bnext) (\<lambda>h.
     bnd (bwalk (Suc NBUF) bnext (\<lambda>x. bdev x = dev \<and> blockno x = bno) h) (\<lambda>r. case r of
       Some b \<Rightarrow> bnd (seqs [
         buf_upd b (\<lambda>x. x\<lparr>refcnt := refcnt x + 1\<rparr>),
         krelease BCacheLock,
         acquiresleep (BufLock b)]) (\<lambda>_. ret b)
     | None \<Rightarrow>
       bnd (buf_get bhead bprev) (\<lambda>h.
       bnd (bwalk (Suc NBUF) bprev (\<lambda>x. refcnt x = 0 \<and> bflags x AND B_DIRTY = 0) h) (\<lambda>r. case r of
         Some b \<Rightarrow> bnd (seqs [
           buf_upd b (\<lambda>x. x\<lparr>bdev := dev\<rparr>),
           buf_upd b (\<lambda>x. x\<lparr>blockno := bno\<rparr>),
           buf_upd b (\<lambda>x. x\<lparr>bflags := 0\<rparr>),
           buf_upd b (\<lambda>x. x\<lparr>refcnt := 1\<rparr>),
           krelease BCacheLock,
           acquiresleep (BufLock b)]) (\<lambda>_. ret b)
       | None \<Rightarrow> panic ''bget: no buffers'')))))"

definition bread :: "uint \<Rightarrow> uint \<Rightarrow> ('z bcache_scheme, nat) kop" where
  "bread dev bno =
     bnd (bget dev bno) (\<lambda>b.
     bnd (buf_get b bflags) (\<lambda>f.
     bnd (whenk (f AND B_VALID = 0) (iderw b)) (\<lambda>_. ret b)))"

definition bwrite :: "nat \<Rightarrow> ('z bcache_scheme, unit) kop" where
  "bwrite b =
     bnd (holdingsleep (BufLock b)) (\<lambda>h. if \<not> h then panic ''bwrite'' else seqs [
       buf_upd b (\<lambda>x. x\<lparr>bflags := bflags x OR B_DIRTY\<rparr>),
       iderw b])"

text \<open>The part of \<open>brelse\<close> that moves a buffer to the front of the list.\<close>

definition to_front :: "nat \<Rightarrow> ('z bcache_scheme, unit) kop" where
  "to_front b = bnd (buf_get b (\<lambda>x. x)) (\<lambda>x. seqs [
     buf_upd (bnext x) (\<lambda>y. y\<lparr>bprev := bprev x\<rparr>),
     buf_upd (bprev x) (\<lambda>y. y\<lparr>bnext := bnext x\<rparr>),
     link_front b,
     bnd (buf_get bhead bnext) (\<lambda>h. buf_upd h (\<lambda>y. y\<lparr>bprev := b\<rparr>)),
     buf_upd bhead (\<lambda>y. y\<lparr>bnext := b\<rparr>)])"

definition brelse :: "nat \<Rightarrow> ('z bcache_scheme, unit) kop" where
  "brelse b =
     bnd (holdingsleep (BufLock b)) (\<lambda>h. if \<not> h then panic ''brelse'' else seqs [
       releasesleep (BufLock b),
       kacquire BCacheLock,
       buf_upd b (\<lambda>x. x\<lparr>refcnt := refcnt x - 1\<rparr>),
       bnd (buf_get b refcnt) (\<lambda>n. whenk (n = 0) (to_front b)),
       krelease BCacheLock])"

subsection \<open>Flags\<close>

definition bvalid :: "buf \<Rightarrow> bool" where "bvalid x \<longleftrightarrow> bflags x AND B_VALID \<noteq> 0"
definition bdirty :: "buf \<Rightarrow> bool" where "bdirty x \<longleftrightarrow> bflags x AND B_DIRTY \<noteq> 0"

lemma flag_bits: "(f :: uint) AND B_VALID = 0 \<longleftrightarrow> \<not> bit f 1" "f AND B_DIRTY = 0 \<longleftrightarrow> \<not> bit f 2"
  using and_exp_eq_0_iff_not_bit [of f 1] and_exp_eq_0_iff_not_bit [of f 2]
  by (simp_all add: B_VALID_def B_DIRTY_def)

lemma bit_flags: "bit B_VALID n \<longleftrightarrow> n = 1" "bit B_DIRTY n \<longleftrightarrow> n = 2"
proof -
  have V: "B_VALID = 2 ^ 1" and D: "B_DIRTY = 2 ^ 2" by (simp_all add: B_VALID_def B_DIRTY_def)
  show "bit B_VALID n \<longleftrightarrow> n = 1" unfolding V bit_exp_iff by auto
  show "bit B_DIRTY n \<longleftrightarrow> n = 2" unfolding D bit_exp_iff by auto
qed

lemma flag_simps [simp]:
  "bvalid (x\<lparr>bflags := f OR B_DIRTY\<rparr>) \<longleftrightarrow> bit f 1"
  "bvalid (x\<lparr>bflags := f AND NOT B_DIRTY\<rparr>) \<longleftrightarrow> bit f 1"
  "bvalid (x\<lparr>bflags := f OR B_VALID\<rparr>)"
  "bdirty (x\<lparr>bflags := f OR B_DIRTY\<rparr>)"
  "\<not> bdirty (x\<lparr>bflags := f AND NOT B_DIRTY\<rparr>)"
  "bdirty (x\<lparr>bflags := f OR B_VALID\<rparr>) \<longleftrightarrow> bit f 2"
  "\<not> bvalid (x\<lparr>bflags := 0\<rparr>)" "\<not> bdirty (x\<lparr>bflags := 0\<rparr>)"
  by (simp_all add: bvalid_def bdirty_def flag_bits bit_flags bit_simps)
    (simp_all add: B_VALID_def B_DIRTY_def)

lemma flags_clean: "f AND (B_VALID OR B_DIRTY) = B_VALID \<longleftrightarrow> bit f 1 \<and> \<not> bit f 2"
proof
  assume "f AND (B_VALID OR B_DIRTY) = B_VALID"
  then have "bit (f AND (B_VALID OR B_DIRTY)) n = bit B_VALID n" for n by simp
  from this [of 1] this [of 2] show "bit f 1 \<and> \<not> bit f 2"
    by (auto simp: bit_simps bit_flags)
next
  assume "bit f 1 \<and> \<not> bit f 2"
  then show "f AND (B_VALID OR B_DIRTY) = B_VALID"
    by (intro bit_word_eqI) (auto simp: bit_simps bit_flags)
qed

lemma bvalid_iff: "bvalid x \<longleftrightarrow> bit (bflags x) 1" and bdirty_iff: "bdirty x \<longleftrightarrow> bit (bflags x) 2"
  by (simp_all add: bvalid_def bdirty_def flag_bits)

subsection \<open>The list of buffers\<close>

text \<open>\<open>path f a xs c\<close>: following \<open>f\<close> from \<open>a\<close> visits \<open>xs\<close> and then \<open>c\<close>.\<close>

primrec path :: "(nat \<Rightarrow> nat) \<Rightarrow> nat \<Rightarrow> nat list \<Rightarrow> nat \<Rightarrow> bool" where
  "path f a [] c = (f a = c)"
| "path f a (x # xs) c = (f a = x \<and> path f x xs c)"

lemma path_append [simp]: "path f a (xs @ x # ys) c = (path f a xs x \<and> path f x ys c)"
  by (induction xs arbitrary: a) auto

lemma path_cong: "(\<And>x. x \<in> set (a # xs) \<Longrightarrow> f x = g x) \<Longrightarrow> path f a xs c = path g a xs c"
  by (induction xs arbitrary: a) auto

text \<open>Taking \<open>b\<close> out of the path: its predecessor is linked to its successor.\<close>

lemma path_splice:
  assumes "path f a xs b" and "path f b zs c" and "distinct (a # xs @ zs)"
  shows "path (f(last (a # xs) := f b)) a (xs @ zs) c"
  using assms
proof (induction xs arbitrary: a)
  case Nil
  then have "path (f(a := f b)) z ws c = path f z ws c" if "zs = z # ws" for z ws
    using that by (intro path_cong) auto
  with Nil show ?case by (cases zs) (simp_all del: fun_upd_apply add: fun_upd_same)
next
  case (Cons x xs)
  then have "a \<noteq> last (x # xs)" by (metis distinct.simps(2) last_in_set list.distinct(1) UnI1 set_append append_Cons)
  with Cons show ?case by auto
qed

definition links :: "(nat \<Rightarrow> nat) \<Rightarrow> (nat \<Rightarrow> nat) \<Rightarrow> nat list \<Rightarrow> bool" where
  "links nx pv xs \<longleftrightarrow> path nx bhead xs bhead \<and> path pv bhead (rev xs) bhead \<and>
     distinct xs \<and> bhead \<notin> set xs"

lemma path_last: "path f a xs c \<Longrightarrow> f (last (a # xs)) = c"
  by (induction xs arbitrary: a) auto

lemma links_unlink:
  assumes "links nx pv (ys @ b # zs)"
  shows "links (nx(pv b := nx b)) (pv(nx b := pv b)) (ys @ zs)"
proof -
  have d: "distinct (bhead # ys @ zs)" "distinct (bhead # rev zs @ rev ys)"
    using assms by (auto simp: links_def)
  have p: "path nx bhead ys b" "path nx b zs bhead" "path pv bhead (rev zs) b" "path pv b (rev ys) bhead"
    using assms by (simp_all add: links_def)
  have "pv b = last (bhead # ys)"
    using p(4) by (cases ys rule: rev_cases) (auto split: if_splits)
  moreover have "nx b = last (bhead # rev zs)"
    using p(2) by (cases zs) auto
  ultimately show ?thesis
    using path_splice [OF p(1,2) d(1)] path_splice [OF p(3,4) d(2)] assms
    by (simp add: links_def)
qed

lemma links_front:
  assumes "links nx pv xs" and "b \<notin> set xs" and "b \<noteq> bhead"
  shows "links (nx(b := nx bhead, bhead := b)) (pv(b := bhead, nx bhead := b)) (b # xs)"
proof (cases xs)
  case Nil
  with assms show ?thesis by (auto simp: links_def)
next
  case (Cons w ws)
  let ?nx = "nx(b := nx bhead, bhead := b)" and ?pv = "pv(b := bhead, nx bhead := b)"
  have w: "nx bhead = w" "path nx w ws bhead" "path pv bhead (rev ws) w" "pv w = bhead"
    "b \<noteq> w" "w \<noteq> bhead" "distinct (w # ws)" "bhead \<notin> set ws"
    using assms Cons by (auto simp: links_def)
  have "path ?nx w ws bhead"
    using w assms Cons by (subst path_cong [of _ _ _ nx]) auto
  moreover have "path ?pv bhead (rev ws) w"
    using w assms Cons by (subst path_cong [of _ _ _ pv]) auto
  ultimately show ?thesis
    using w assms Cons by (auto simp: links_def)
qed

lemma buf_upd_apply [kcore]: "buf_upd i f s = Ret () (s\<lparr>bufs := (bufs s)(i := f (bufs s i))\<rparr>)"
  by (simp add: buf_upd_def)

lemma buf_get_apply [kcore]: "buf_get i f s = Ret (f (bufs s i)) s"
  by (simp add: buf_get_def)

lemma ok_buf_upd [simp, wp]: "ok (buf_upd i f) s Q = Q () (s\<lparr>bufs := (bufs s)(i := f (bufs s i))\<rparr>)"
  by (simp add: ok_def buf_upd_apply)

lemma ok_buf_get [simp, wp]: "ok (buf_get i f) s Q = Q (f (bufs s i)) s"
  by (simp add: ok_def buf_get_apply)

lemma bwalk_path:
  assumes "path (\<lambda>i. dir (bufs s i)) a xs bhead" and "bhead \<notin> set xs" and "length xs < k"
  shows "bwalk k dir P (dir (bufs s a)) s = Ret (List.find (\<lambda>i. P (bufs s i)) xs) s"
  using assms
proof (induction xs arbitrary: a k)
  case Nil
  then show ?case by (cases k) (simp_all add: kcore)
next
  case (Cons x xs)
  then obtain j where "k = Suc j" "length xs < j" by (cases k) auto
  with Cons show ?case by (auto simp: kcore)
qed

declare bwalk.simps [simp del]

definition bring :: "(nat \<Rightarrow> buf) \<Rightarrow> nat list \<Rightarrow> bool" where
  "bring bs xs \<longleftrightarrow> links (\<lambda>i. bnext (bs i)) (\<lambda>i. bprev (bs i)) xs \<and> set xs = {..<NBUF}"

lemma bring_length: "bring bs xs \<Longrightarrow> length xs = NBUF"
  using distinct_card [of xs] by (simp add: bring_def links_def)

lemma bring_cong:
  "(\<And>i. bnext (bs i) = bnext (cs i) \<and> bprev (bs i) = bprev (cs i)) \<Longrightarrow> bring bs xs = bring cs xs"
  by (simp add: bring_def)

lemma bwalk_next:
  "bring (bufs s) xs \<Longrightarrow>
   bwalk (Suc NBUF) bnext P (bnext (bufs s bhead)) s = Ret (List.find (\<lambda>i. P (bufs s i)) xs) s"
  using bring_length [of "bufs s" xs] by (intro bwalk_path) (simp_all add: bring_def links_def bhead_def)

lemma bwalk_prev:
  "bring (bufs s) xs \<Longrightarrow>
   bwalk (Suc NBUF) bprev P (bprev (bufs s bhead)) s = Ret (List.find (\<lambda>i. P (bufs s i)) (rev xs)) s"
  using bring_length [of "bufs s" xs] by (intro bwalk_path) (simp_all add: bring_def links_def bhead_def)

text \<open>The contents of a buffer, without its links.\<close>

definition bcore :: "buf \<Rightarrow> uint \<times> uint \<times> uint \<times> uint \<times> bytes" where
  "bcore x = (bflags x, bdev x, blockno x, refcnt x, bdata x)"

lemma bcore_links [simp]: "bcore (x\<lparr>bnext := n\<rparr>) = bcore x" "bcore (x\<lparr>bprev := n\<rparr>) = bcore x"
  by (simp_all add: bcore_def)

lemma bcore_upd [simp]:
  "(\<And>x. bcore (f x) = bcore x) \<Longrightarrow> bcore ((bs(i := f (bs i))) j) = bcore (bs j)"
  by simp

text \<open>Link updates of the buffer array, and what they do to the two link functions.\<close>

definition set_next :: "nat \<Rightarrow> nat \<Rightarrow> (nat \<Rightarrow> buf) \<Rightarrow> nat \<Rightarrow> buf" where
  "set_next i n bs = bs(i := (bs i)\<lparr>bnext := n\<rparr>)"

definition set_prev :: "nat \<Rightarrow> nat \<Rightarrow> (nat \<Rightarrow> buf) \<Rightarrow> nat \<Rightarrow> buf" where
  "set_prev i n bs = bs(i := (bs i)\<lparr>bprev := n\<rparr>)"

definition nexts :: "(nat \<Rightarrow> buf) \<Rightarrow> nat \<Rightarrow> nat" where "nexts bs i = bnext (bs i)"
definition prevs :: "(nat \<Rightarrow> buf) \<Rightarrow> nat \<Rightarrow> nat" where "prevs bs i = bprev (bs i)"

lemma links_upd [simp]:
  "nexts (set_next i n bs) = (nexts bs)(i := n)" "nexts (set_prev i n bs) = nexts bs"
  "prevs (set_prev i n bs) = (prevs bs)(i := n)" "prevs (set_next i n bs) = prevs bs"
  "bcore (set_next i n bs j) = bcore (bs j)" "bcore (set_prev i n bs j) = bcore (bs j)"
  by (auto simp: nexts_def prevs_def set_next_def set_prev_def)

lemma bring_iff: "bring bs xs \<longleftrightarrow> links (nexts bs) (prevs bs) xs \<and> set xs = {..<NBUF}"
  by (simp add: bring_def nexts_def [abs_def] prevs_def [abs_def])

definition fronted :: "nat \<Rightarrow> (nat \<Rightarrow> buf) \<Rightarrow> nat \<Rightarrow> buf" where
  "fronted b bs = (let n = nexts bs b; p = prevs bs b;
     cs = set_next p n (set_prev n p bs); h = nexts cs bhead;
     ds = set_prev b bhead (set_next b h cs) in
     set_next bhead b (set_prev (nexts ds bhead) b ds))"

lemma to_front_apply [kcore]: "to_front b s = Ret () (s\<lparr>bufs := fronted b (bufs s)\<rparr>)"
  by (simp add: to_front_def link_front_def fronted_def set_next_def set_prev_def nexts_def prevs_def
      kcore Let_def)

lemma bcore_fronted [simp]: "bcore (fronted b bs i) = bcore (bs i)"
  by (simp add: fronted_def Let_def)

lemma bring_fronted:
  assumes "bring bs xs" and "b < NBUF"
  shows "bring (fronted b bs) (b # remove1 b xs)"
proof -
  have b: "b \<in> set xs" "b \<noteq> bhead" and l: "links (nexts bs) (prevs bs) xs"
    using assms by (auto simp: bring_iff bhead_def)
  then obtain ys zs where xs: "xs = ys @ b # zs" "b \<notin> set ys" by (meson split_list_first)
  let ?n = "(nexts bs)(prevs bs b := nexts bs b)" and ?p = "(prevs bs)(nexts bs b := prevs bs b)"
  have "links ?n ?p (ys @ zs)" by (rule links_unlink) (use l xs in simp)
  moreover have "b \<notin> set (ys @ zs)" using l xs by (simp add: links_def)
  ultimately have "links (?n(b := ?n bhead, bhead := b)) (?p(b := bhead, ?n bhead := b)) (b # ys @ zs)"
    using b(2) by (rule links_front)
  moreover have "nexts (fronted b bs) = ?n(b := ?n bhead, bhead := b)"
      "prevs (fronted b bs) = ?p(b := bhead, ?n bhead := b)"
    using b(2) by (simp_all add: fronted_def Let_def)
  ultimately show ?thesis
    using assms xs by (auto simp: bring_iff remove1_append)
qed

lemma binit_links:
  "ok binit s (\<lambda>_ t. bring (bufs t) (rev [0..<NBUF]) \<and> (\<forall>b < NBUF. \<not> slocked (slocks t (BufLock b))) \<and>
     (\<forall>i. bcore (bufs t i) = bcore (bufs s i)))"
proof -
  let ?P = "\<lambda>k t. links (nexts (bufs t)) (prevs (bufs t)) (rev [0..<k]) \<and>
    (\<forall>b < k. \<not> slocked (slocks t (BufLock b))) \<and> (\<forall>i. bcore (bufs t i) = bcore (bufs s i))"
  let ?step = "\<lambda>b. seqs [
       link_front b,
       initsleeplock (BufLock b) ''buffer'',
       bnd (buf_get bhead bnext) (\<lambda>h. buf_upd h (\<lambda>x. x\<lparr>bprev := b\<rparr>)),
       buf_upd bhead (\<lambda>x. x\<lparr>bnext := b\<rparr>)]"
  have step: "ok (?step b) t (\<lambda>_. ?P (Suc b))" if "b < NBUF" "?P b t" for b and t :: "'a bcache_scheme"
  proof -
    let ?cs = "set_prev b bhead (set_next b (nexts (bufs t) bhead) (bufs t))"
    let ?bs = "set_next bhead b (set_prev (nexts ?cs bhead) b ?cs)"
    have eq: "?step b t = Ret () (t\<lparr>bufs := ?bs, slocks := (slocks t)
        (BufLock b := (slocks t (BufLock b))\<lparr>slname := ''buffer'', slocked := False, slpid := 0\<rparr>)\<rparr>)"
      by (simp add: link_front_def initsleeplock_def set_next_def set_prev_def nexts_def kcore)
    have "links (nexts ?bs) (prevs ?bs) (b # rev [0..<b])"
      using links_front [of "nexts (bufs t)" "prevs (bufs t)" "rev [0..<b]" b] that
      by (simp add: bhead_def)
    with that show ?thesis
      unfolding ok_def eq by (simp add: less_Suc_eq)
  qed
  let ?s = "s\<lparr>bufs := set_next bhead bhead (set_prev bhead bhead (bufs s))\<rparr>"
  have "ok (for_each [0..<NBUF] ?step) ?s (\<lambda>_. ?P (length [0..<NBUF]))"
  proof (rule ok_for_each)
    fix k and t :: "'a bcache_scheme"
    assume k: "k < length [0..<NBUF]" and P: "?P k t"
    then have i: "[0..<NBUF] ! k = k" "k < NBUF" by simp_all
    show "ok (?step ([0..<NBUF] ! k)) t (\<lambda>_. ?P (Suc k))"
      unfolding i(1) by (rule step [OF i(2) P])
  qed (simp add: links_def)
  then have "ok (for_each [0..<NBUF] ?step) ?s (\<lambda>_ t. bring (bufs t) (rev [0..<NBUF]) \<and>
      (\<forall>b < NBUF. \<not> slocked (slocks t (BufLock b))) \<and> (\<forall>i. bcore (bufs t i) = bcore (bufs s i)))"
    by (rule ok_mono) (auto simp: bring_iff)
  then show ?thesis
    by (simp add: binit_def set_next_def set_prev_def)
qed

subsection \<open>One operation at a time\<close>

text \<open>
  A process in the file system holds no spin lock when it calls the cache. It
  holds the buffers whose sleep lock has its pid.
\<close>

definition ready :: "nat \<Rightarrow> 'z kcore_scheme \<Rightarrow> bool" where
  "ready p s \<longleftrightarrow> held s = [] \<and> curproc s = Some p"

definition blocked :: "'z kcore_scheme \<Rightarrow> nat \<Rightarrow> bool" where
  "blocked s i \<longleftrightarrow> slocked (slocks s (BufLock i))"

definition mine :: "nat \<Rightarrow> 'z kcore_scheme \<Rightarrow> nat \<Rightarrow> bool" where
  "mine p s i \<longleftrightarrow> blocked s i \<and> slpid (slocks s (BufLock i)) = pid (procs s p)"

definition take_buf :: "nat \<Rightarrow> nat \<Rightarrow> buf \<Rightarrow> 'z bcache_scheme \<Rightarrow> 'z bcache_scheme" where
  "take_buf p i x s = s\<lparr>slocks := (slocks s)(BufLock i := (slocks s (BufLock i))
       \<lparr>slocked := True, slpid := pid (procs s p)\<rparr>), bufs := (bufs s)(i := x)\<rparr>"

lemma readyE:
  assumes "ready p s"
  obtains u where "s = u\<lparr>curproc := Some p, held := []\<rparr>"
  using assms that [of s] by (simp add: ready_def)

lemma acquiresleep_buf:
  assumes "curproc s = Some p" "SleepLk (BufLock i) \<notin> set (held s)" "\<not> blocked s i"
  shows "acquiresleep (BufLock i) s = Ret () (take_buf p i (bufs s i) s)"
  using assms acquiresleep_free [of s p "BufLock i"]
  by (simp add: blocked_def take_buf_def)

lemma holdingsleep_buf:
  assumes "ready p s"
  shows "holdingsleep (BufLock i) s = Ret (mine p s i) s"
  using assms holdingsleep_apply [of s p "BufLock i"]
  by (simp add: ready_def mine_def blocked_def)

definition is_block :: "uint \<Rightarrow> uint \<Rightarrow> buf \<Rightarrow> bool" where
  "is_block d b x \<longleftrightarrow> bdev x = d \<and> blockno x = b"

definition unused :: "buf \<Rightarrow> bool" where
  "unused x \<longleftrightarrow> refcnt x = 0 \<and> \<not> bdirty x"

lemma blocked_simps [simp]:
  "blocked (s\<lparr>held := h\<rparr>) i = blocked s i" "blocked (s\<lparr>curproc := c\<rparr>) i = blocked s i"
  "blocked (t\<lparr>bufs := bs\<rparr>) i = blocked t i" "blocked (t\<lparr>disk := d\<rparr>) i = blocked t i"
  "blocked (t\<lparr>dwrites := w\<rparr>) i = blocked t i"
  "blocked (take_buf p i x t) j \<longleftrightarrow> j = i \<or> blocked t j"
  by (auto simp: blocked_def take_buf_def)

lemma bget_hit:
  assumes "ready p s" "bring (bufs s) xs" "\<not> blocked s i"
    and "List.find (\<lambda>i. is_block d b (bufs s i)) xs = Some i"
  shows "bget d b s = Ret i (take_buf p i ((bufs s i)\<lparr>refcnt := refcnt (bufs s i) + 1\<rparr>) s)"
proof -
  obtain u where s: "s = u\<lparr>curproc := Some p, held := []\<rparr>" using assms(1) by (rule readyE)
  let ?v = "u\<lparr>curproc := Some p, held := [BCacheLock]\<rparr>"
  have "bwalk (Suc NBUF) bnext (is_block d b) (bnext (bufs u bhead)) ?v = Ret (Some i) ?v"
    using bwalk_next [of ?v xs "is_block d b"] assms(2,4) s by simp
  then show ?thesis
    using assms(3) unfolding s
    by (simp add: bget_def kcore take_buf_def is_block_def [abs_def] acquiresleep_buf)
qed

lemma bget_miss:
  assumes "ready p s" "bring (bufs s) xs" "\<not> blocked s i"
    and "List.find (\<lambda>i. is_block d b (bufs s i)) xs = None"
    and "List.find (\<lambda>i. unused (bufs s i)) (rev xs) = Some i"
  shows "bget d b s = Ret i (take_buf p i ((bufs s i)
    \<lparr>bdev := d, blockno := b, bflags := 0, refcnt := 1\<rparr>) s)"
proof -
  obtain u where s: "s = u\<lparr>curproc := Some p, held := []\<rparr>" using assms(1) by (rule readyE)
  let ?v = "u\<lparr>curproc := Some p, held := [BCacheLock]\<rparr>"
  have "bwalk (Suc NBUF) bnext (is_block d b) (bnext (bufs u bhead)) ?v = Ret None ?v"
    using bwalk_next [of ?v xs "is_block d b"] assms(2,4) s by simp
  moreover have "bwalk (Suc NBUF) bprev unused (bprev (bufs u bhead)) ?v = Ret (Some i) ?v"
    using bwalk_prev [of ?v xs unused] assms(2,5) s by simp
  ultimately show ?thesis
    using assms(3) unfolding s
    by (simp add: bget_def kcore take_buf_def is_block_def [abs_def] unused_def [abs_def] bdirty_def
        acquiresleep_buf)
qed

lemma bget_full:
  assumes "ready p s" "bring (bufs s) xs"
    and "List.find (\<lambda>i. is_block d b (bufs s i)) xs = None"
    and "List.find (\<lambda>i. unused (bufs s i)) (rev xs) = None"
  shows "bget d b s = Panic ''bget: no buffers''"
proof -
  obtain u where s: "s = u\<lparr>curproc := Some p, held := []\<rparr>" using assms(1) by (rule readyE)
  let ?v = "u\<lparr>curproc := Some p, held := [BCacheLock]\<rparr>"
  have "bwalk (Suc NBUF) bnext (is_block d b) (bnext (bufs u bhead)) ?v = Ret None ?v"
    using bwalk_next [of ?v xs "is_block d b"] assms(2,3) s by simp
  moreover have "bwalk (Suc NBUF) bprev unused (bprev (bufs u bhead)) ?v = Ret None ?v"
    using bwalk_prev [of ?v xs unused] assms(2,4) s by simp
  ultimately show ?thesis
    unfolding s
    by (simp add: bget_def kcore is_block_def [abs_def] unused_def [abs_def] bdirty_def)
qed

lemma iderw_read:
  assumes "ready p s" "mine p s i" "\<not> bvalid (bufs s i)" "\<not> bdirty (bufs s i)"
    and "bdev (bufs s i) = 1" "blockno (bufs s i) < disksize s"
  shows "iderw i s = Ret () (s\<lparr>bufs := (bufs s)(i := (bufs s i)
    \<lparr>bdata := disk s (blockno (bufs s i)), bflags := bflags (bufs s i) OR B_VALID\<rparr>)\<rparr>)"
  using assms by (simp add: iderw_def kcore holdingsleep_buf flags_clean flag_bits bvalid_iff bdirty_iff not_le)

lemma iderw_write:
  assumes "ready p s" "mine p s i" "bdirty (bufs s i)"
    and "bdev (bufs s i) = 1" "blockno (bufs s i) < disksize s"
  shows "iderw i s = Ret () (s\<lparr>
    disk := (disk s)(blockno (bufs s i) := bdata (bufs s i)),
    dwrites := dwrites s @ [(blockno (bufs s i), bdata (bufs s i))],
    bufs := (bufs s)(i := (bufs s i)\<lparr>bflags := (bflags (bufs s i) AND NOT B_DIRTY) OR B_VALID\<rparr>)\<rparr>)"
  using assms by (simp add: iderw_def kcore holdingsleep_buf flags_clean flag_bits bvalid_iff bdirty_iff not_le)

subsection \<open>The cache is transparent\<close>

text \<open>
  The invariant between operations of one process at a time: the list links all
  buffers; a block of the disk is cached at most once; a buffer is referenced
  exactly when it is locked; a dirty buffer holds valid data of the disk; and a
  valid, clean buffer nobody has locked holds what the disk holds.
\<close>

definition buf_ok :: "'z bcache_scheme \<Rightarrow> nat \<Rightarrow> buf \<Rightarrow> bool" where
  "buf_ok s i x \<longleftrightarrow> refcnt x = (if blocked s i then 1 else 0) \<and>
     (bdirty x \<longrightarrow> bvalid x \<and> bdev x = 1 \<and> blockno x < disksize s) \<and>
     (bvalid x \<longrightarrow> length (bdata x) = BSIZE) \<and>
     (bvalid x \<and> \<not> bdirty x \<and> \<not> blocked s i \<and> bdev x = 1 \<longrightarrow> bdata x = disk s (blockno x))"

definition buf_uniq :: "(nat \<Rightarrow> buf) \<Rightarrow> bool" where
  "buf_uniq bs \<longleftrightarrow> (\<forall>i < NBUF. \<forall>j < NBUF. \<forall>b. is_block 1 b (bs i) \<longrightarrow> is_block 1 b (bs j) \<longrightarrow> i = j)"

definition binv :: "'z bcache_scheme \<Rightarrow> bool" where
  "binv s \<longleftrightarrow> (\<exists>xs. bring (bufs s) xs) \<and> buf_uniq (bufs s) \<and>
     (\<forall>i < NBUF. buf_ok s i (bufs s i)) \<and> (\<forall>b. length (disk s b) = BSIZE)"

definition bview :: "'z bcache_scheme \<Rightarrow> uint \<Rightarrow> bytes" where
  "bview s b = (case scan NBUF (\<lambda>i. is_block 1 b (bufs s i) \<and> bvalid (bufs s i)) of
     Some i \<Rightarrow> bdata (bufs s i) | None \<Rightarrow> disk s b)"

lemma bview_hit:
  assumes "buf_uniq (bufs s)" "i < NBUF" "is_block 1 b (bufs s i)" "bvalid (bufs s i)"
  shows "bview s b = bdata (bufs s i)"
proof -
  obtain k where k: "scan NBUF (\<lambda>i. is_block 1 b (bufs s i) \<and> bvalid (bufs s i)) = Some k"
    using scan_exI [of i NBUF "\<lambda>i. is_block 1 b (bufs s i) \<and> bvalid (bufs s i)"] assms by blast
  with scan_SomeD [OF k] assms have "k = i" by (auto simp: buf_uniq_def)
  with k show ?thesis by (simp add: bview_def)
qed

lemma bview_miss:
  assumes "\<And>i. i < NBUF \<Longrightarrow> is_block 1 b (bufs s i) \<Longrightarrow> \<not> bvalid (bufs s i)"
  shows "bview s b = disk s b"
proof -
  have "scan NBUF (\<lambda>i. is_block 1 b (bufs s i) \<and> bvalid (bufs s i)) = None"
    using assms by (auto simp: scan_None_iff)
  then show ?thesis by (simp add: bview_def)
qed

lemma length_bview: "binv s \<Longrightarrow> length (bview s b) = BSIZE"
  by (auto simp: bview_def binv_def buf_ok_def split: option.split dest!: scan_SomeD)

text \<open>Two states with the same valid blocks and the same disk have the same view.\<close>

lemma bview_cong:
  assumes "\<And>i. i < NBUF \<Longrightarrow> (is_block 1 b (bufs s i) \<and> bvalid (bufs s i)) =
      (is_block 1 b (bufs t i) \<and> bvalid (bufs t i))"
    and "\<And>i. i < NBUF \<Longrightarrow> is_block 1 b (bufs s i) \<Longrightarrow> bvalid (bufs s i) \<Longrightarrow> bdata (bufs s i) = bdata (bufs t i)"
    and "disk s b = disk t b"
  shows "bview s b = bview t b"
proof -
  have "scan NBUF (\<lambda>i. is_block 1 b (bufs s i) \<and> bvalid (bufs s i)) =
      scan NBUF (\<lambda>i. is_block 1 b (bufs t i) \<and> bvalid (bufs t i))"
    using assms(1) by (rule scan_cong)
  then show ?thesis
    using assms by (auto simp: bview_def split: option.split dest!: scan_SomeD)
qed

lemma bring_upd: "bnext x = bnext (bs i) \<Longrightarrow> bprev x = bprev (bs i) \<Longrightarrow> bring (bs(i := x)) = bring bs"
  by (intro ext bring_cong) simp

lemma buf_uniq_upd:
  "bdev x = bdev (bs i) \<Longrightarrow> blockno x = blockno (bs i) \<Longrightarrow> buf_uniq (bs(i := x)) = buf_uniq bs"
  unfolding buf_uniq_def is_block_def by (metis fun_upd_apply)

lemma binv_take:
  assumes "binv s" "i < NBUF" "bnext x = bnext (bufs s i)" "bprev x = bprev (bufs s i)"
    and "refcnt x = 1" "bdirty x \<Longrightarrow> bvalid x \<and> bdev x = 1 \<and> blockno x < disksize s"
    and "bvalid x \<Longrightarrow> length (bdata x) = BSIZE"
    and "\<And>j b. j < NBUF \<Longrightarrow> j \<noteq> i \<Longrightarrow> is_block 1 b x \<Longrightarrow> \<not> is_block 1 b (bufs s j)"
  shows "binv (take_buf p i x s)"
proof -
  have "buf_ok (take_buf p i x s) j (((bufs s)(i := x)) j)" if "j < NBUF" for j
    using that assms unfolding binv_def by (cases "j = i") (auto simp: buf_ok_def take_buf_def blocked_def)
  moreover have "buf_uniq ((bufs s)(i := x))"
    using assms(1,8) unfolding binv_def buf_uniq_def by (metis fun_upd_apply)
  ultimately show ?thesis
    using assms(1,3,4) unfolding binv_def by (simp add: take_buf_def bring_upd)
qed

lemma bread_fill:
  assumes "ready p s" and "bget 1 b s = Ret i (take_buf p i y s)" and "is_block 1 b y"
    and "b < disksize s" and "bvalid y \<or> \<not> bdirty y"
  shows "bread 1 b s = Ret i (take_buf p i
    (if bvalid y then y else y\<lparr>bdata := disk s b, bflags := bflags y OR B_VALID\<rparr>) s)"
proof (cases "bvalid y")
  case True
  then show ?thesis
    using assms(2) by (simp add: bread_def kcore take_buf_def bvalid_def)
next
  case False
  let ?t = "take_buf p i y s"
  have r: "ready p ?t" "mine p ?t i" "disksize ?t = disksize s" "disk ?t = disk s" "bufs ?t i = y"
    using assms(1) by (simp_all add: ready_def take_buf_def mine_def blocked_def)
  then have "iderw i ?t = Ret () (?t\<lparr>bufs := (bufs ?t)(i := y\<lparr>bdata := disk s b, bflags := bflags y OR B_VALID\<rparr>)\<rparr>)"
    using iderw_read [OF r(1,2)] False assms(3-5) by (simp add: is_block_def)
  then show ?thesis
    using assms(2) False r(5) by (simp add: bread_def kcore bvalid_def) (simp add: take_buf_def)
qed

text \<open>
  What \<open>bread\<close> promises: the buffer \<open>i\<close> it returns was free, is now locked by the
  caller, holds the block and its current contents; nothing else has changed.
\<close>

definition bread_post :: "nat \<Rightarrow> uint \<Rightarrow> 'z bcache_scheme \<Rightarrow> nat \<Rightarrow> buf \<Rightarrow> bool" where
  "bread_post p b s i x \<longleftrightarrow> i < NBUF \<and> \<not> blocked s i \<and> is_block 1 b x \<and> refcnt x = 1 \<and>
     bvalid x \<and> bdata x = bview s b \<and> bdirty x = bdirty (bufs s i) \<and>
     (bdirty x \<longrightarrow> is_block 1 b (bufs s i)) \<and>
     (\<forall>j < NBUF. is_block 1 b (bufs s j) \<longrightarrow> j = i) \<and>
     bnext x = bnext (bufs s i) \<and> bprev x = bprev (bufs s i)"

lemma bread_hit:
  assumes "ready p s" "binv s" "b < disksize s" "i < NBUF" "is_block 1 b (bufs s i)" "\<not> blocked s i"
  shows "\<exists>x. bread 1 b s = Ret i (take_buf p i x s) \<and> bread_post p b s i x"
proof -
  obtain xs where xs: "bring (bufs s) xs" using assms(2) by (auto simp: binv_def)
  have u: "buf_uniq (bufs s)" and k: "buf_ok s i (bufs s i)" using assms(2,4) by (auto simp: binv_def)
  have "i \<in> set xs" using xs assms(4) by (simp add: bring_def)
  then obtain k where k': "List.find (\<lambda>i. is_block 1 b (bufs s i)) xs = Some k"
    using assms(5) by (metis find_None_iff option.exhaust)
  then have "k \<in> set xs" "is_block 1 b (bufs s k)" by (auto simp: find_Some_iff)
  then have "k = i"
    using u xs assms(4,5) by (auto simp: buf_uniq_def bring_def)
  let ?y = "(bufs s i)\<lparr>refcnt := refcnt (bufs s i) + 1\<rparr>"
  let ?x = "if bvalid ?y then ?y else ?y\<lparr>bdata := disk s b, bflags := bflags ?y OR B_VALID\<rparr>"
  have v: "bvalid ?y = bvalid (bufs s i)" "bdirty ?y = bdirty (bufs s i)"
    by (simp_all add: bvalid_def bdirty_def)
  have "bget 1 b s = Ret i (take_buf p i ?y s)"
    using bget_hit [OF assms(1) xs assms(6)] k' \<open>k = i\<close> by simp
  then have "bread 1 b s = Ret i (take_buf p i ?x s)"
    using assms(3,5) k v by (intro bread_fill [OF assms(1)]) (auto simp: buf_ok_def is_block_def)
  moreover have "bdata ?x = bview s b"
  proof (cases "bvalid (bufs s i)")
    case True
    then show ?thesis using bview_hit [OF u assms(4,5)] v by simp
  next
    case False
    then have "bview s b = disk s b"
      using u assms(4,5) by (intro bview_miss) (auto simp: buf_uniq_def)
    with False v show ?thesis by simp
  qed
  moreover have "bvalid ?x" "bdirty ?x = bdirty (bufs s i)"
    using v by (simp_all add: bdirty_iff bit_simps bit_flags)
  moreover have "refcnt ?x = 1" "is_block 1 b ?x"
    using k assms(5,6) by (simp_all add: buf_ok_def is_block_def)
  moreover have "bnext ?x = bnext (bufs s i)" "bprev ?x = bprev (bufs s i)" by simp_all
  ultimately have "bread_post p b s i ?x"
    unfolding bread_post_def using u assms(4-6) by (simp only: buf_uniq_def) blast
  with \<open>bread 1 b s = _\<close> show ?thesis by blast
qed

lemma bread_miss:
  assumes "ready p s" "binv s" "b < disksize s" "bring (bufs s) xs"
    and "\<And>i. i < NBUF \<Longrightarrow> \<not> is_block 1 b (bufs s i)"
    and "List.find (\<lambda>i. unused (bufs s i)) (rev xs) = Some i"
  shows "\<exists>x. bread 1 b s = Ret i (take_buf p i x s) \<and> bread_post p b s i x"
proof -
  have i: "i < NBUF" "unused (bufs s i)"
    using assms(4,6) by (auto simp: find_Some_iff bring_def)
      (metis lessThan_iff nth_mem set_rev length_rev)
  then have nb: "\<not> blocked s i" using assms(2) by (auto simp: binv_def buf_ok_def unused_def)
  let ?y = "(bufs s i)\<lparr>bdev := 1, blockno := b, bflags := 0, refcnt := 1\<rparr>"
  let ?x = "?y\<lparr>bdata := disk s b, bflags := bflags ?y OR B_VALID\<rparr>"
  have none: "List.find (\<lambda>i. is_block 1 b (bufs s i)) xs = None"
    using assms(4,5) by (auto simp: find_None_iff bring_def)
  have v: "\<not> bvalid ?y" "\<not> bdirty ?y" by (simp_all add: bvalid_def bdirty_def)
  have "bread 1 b s = Ret i (take_buf p i ?x s)"
    using bread_fill [OF assms(1) bget_miss [OF assms(1,4) nb none assms(6)] _ assms(3)] v
    by (simp add: is_block_def)
  moreover have "bview s b = disk s b" using assms(5) by (intro bview_miss) blast
  then have "bread_post p b s i ?x"
    using i nb assms(5) by (auto simp: bread_post_def is_block_def unused_def bvalid_iff bdirty_iff bit_simps bit_flags)
  ultimately show ?thesis by blast
qed

lemma bread_spec:
  assumes "ready p s" "binv s" "b < disksize s"
    and "\<And>i. i < NBUF \<Longrightarrow> is_block 1 b (bufs s i) \<Longrightarrow> \<not> blocked s i"
    and "\<exists>i < NBUF. is_block 1 b (bufs s i) \<or> unused (bufs s i)"
  shows "\<exists>i x. bread 1 b s = Ret i (take_buf p i x s) \<and> bread_post p b s i x"
proof (cases "\<exists>i < NBUF. is_block 1 b (bufs s i)")
  case True
  then show ?thesis using bread_hit [OF assms(1-3)] assms(4) by blast
next
  case False
  obtain xs where xs: "bring (bufs s) xs" using assms(2) by (auto simp: binv_def)
  obtain j where "j \<in> set (rev xs)" "unused (bufs s j)"
    using False assms(5) xs by (auto simp: bring_def)
  then obtain i where "List.find (\<lambda>i. unused (bufs s i)) (rev xs) = Some i"
    by (metis find_None_iff option.exhaust)
  with False show ?thesis using bread_miss [OF assms(1-3) xs] by blast
qed

lemma binv_bread:
  assumes "binv s" and "bread_post p b s i x" and "b < disksize s"
  shows "binv (take_buf p i x s)"
proof (rule binv_take [OF assms(1)])
  show "length (bdata x) = BSIZE" using assms(1,2) by (simp add: bread_post_def length_bview)
  show "\<not> is_block 1 c (bufs s j)" if "j < NBUF" "j \<noteq> i" "is_block 1 c x" for j c
    using that assms(2) by (auto simp: bread_post_def is_block_def)
qed (use assms in \<open>auto simp: bread_post_def is_block_def\<close>)

text \<open>Changing the data of a buffer the process has locked, and writing it to the disk.\<close>

definition put_data :: "nat \<Rightarrow> bytes \<Rightarrow> 'z bcache_scheme \<Rightarrow> 'z bcache_scheme" where
  "put_data i d s = s\<lparr>bufs := (bufs s)(i := (bufs s i)\<lparr>bdata := d\<rparr>)\<rparr>"

lemma binv_put:
  assumes "binv s" "blocked s i" "length d = BSIZE"
  shows "binv (put_data i d s)"
proof -
  have "buf_ok (put_data i d s) j (bufs (put_data i d s) j)" if "j < NBUF" for j
    using that assms unfolding binv_def
    by (cases "j = i") (auto simp: buf_ok_def put_data_def bvalid_def bdirty_def)
  moreover have "buf_uniq (bufs (put_data i d s))"
    using assms(1) by (simp add: binv_def put_data_def buf_uniq_upd)
  ultimately show ?thesis
    using assms(1) unfolding binv_def by (simp add: put_data_def bring_upd)
qed

lemma bview_put:
  assumes "binv s" "i < NBUF" "is_block 1 b (bufs s i)" "bvalid (bufs s i)"
  shows "bview (put_data i d s) = (bview s)(b := d)"
proof
  fix c
  have u: "buf_uniq (bufs s)" using assms(1) by (simp add: binv_def)
  show "bview (put_data i d s) c = ((bview s)(b := d)) c"
  proof (cases "c = b")
    case True
    have "buf_uniq (bufs (put_data i d s))"
      using u by (simp add: put_data_def buf_uniq_upd)
    then have "bview (put_data i d s) b = bdata (bufs (put_data i d s) i)"
      using assms by (intro bview_hit) (simp_all add: put_data_def is_block_def bvalid_def)
    with True show ?thesis by (simp add: put_data_def)
  next
    case False
    then have "\<not> is_block 1 c (bufs s i)" using assms(3) by (simp add: is_block_def)
    then have "bview (put_data i d s) c = bview s c"
      by (intro bview_cong) (auto simp: put_data_def is_block_def bvalid_def)
    with False show ?thesis by simp
  qed
qed

definition written :: "nat \<Rightarrow> 'z bcache_scheme \<Rightarrow> 'z bcache_scheme" where
  "written i s = (let x = bufs s i in s\<lparr>
    disk := (disk s)(blockno x := bdata x),
    dwrites := dwrites s @ [(blockno x, bdata x)],
    bufs := (bufs s)(i := x\<lparr>bflags := ((bflags x OR B_DIRTY) AND NOT B_DIRTY) OR B_VALID\<rparr>)\<rparr>)"

lemma bwrite_apply:
  assumes "ready p s" "mine p s i" "bdev (bufs s i) = 1" "blockno (bufs s i) < disksize s"
  shows "bwrite i s = Ret () (written i s)"
proof -
  let ?x = "(bufs s i)\<lparr>bflags := bflags (bufs s i) OR B_DIRTY\<rparr>"
  let ?t = "s\<lparr>bufs := (bufs s)(i := ?x)\<rparr>"
  have "ready p ?t" "mine p ?t i" "bdirty (bufs ?t i)" "bdev (bufs ?t i) = 1"
    "blockno (bufs ?t i) < disksize ?t"
    using assms by (simp_all add: ready_def mine_def)
  from iderw_write [OF this] show ?thesis
    using assms by (simp add: bwrite_def kcore holdingsleep_buf written_def Let_def)
qed

lemma written_flags:
  "bvalid (bufs (written i s) i)" "\<not> bdirty (bufs (written i s) i)"
  by (simp_all add: written_def Let_def bvalid_iff bdirty_iff bit_simps bit_flags)

lemma binv_written:
  assumes "binv s" "i < NBUF" "blocked s i" "is_block 1 b (bufs s i)" "bvalid (bufs s i)"
  shows "binv (written i s)"
proof -
  have other: "blockno (bufs s j) \<noteq> b" if "j < NBUF" "j \<noteq> i" "bdev (bufs s j) = 1" for j
    using that assms(1,2,4) by (auto simp: binv_def buf_uniq_def is_block_def)
  have k: "buf_ok s j (bufs s j)" if "j < NBUF" for j using that assms(1) by (simp add: binv_def)
  have "buf_ok (written i s) j (bufs (written i s) j)" if "j < NBUF" for j
  proof (cases "j = i")
    case True
    then show ?thesis
      using k [OF that] assms(3,5) written_flags [of i s]
      by (simp add: buf_ok_def) (simp add: written_def Let_def)
  next
    case False
    then show ?thesis
      using k [OF that] other [OF that False] assms(4)
      by (auto simp: buf_ok_def written_def Let_def is_block_def)
  qed
  moreover have "buf_uniq (bufs (written i s))"
    using assms(1) by (simp add: binv_def written_def Let_def buf_uniq_upd)
  moreover have "length (bdata (bufs s i)) = BSIZE" using k [OF assms(2)] assms(5) by (simp add: buf_ok_def)
  ultimately show ?thesis
    using assms(1) unfolding binv_def by (simp add: written_def Let_def bring_upd)
qed

lemma bview_written:
  assumes "binv s" "i < NBUF" "is_block 1 b (bufs s i)" "bvalid (bufs s i)"
  shows "bview (written i s) = bview s"
proof
  fix c
  have u: "buf_uniq (bufs s)" using assms(1) by (simp add: binv_def)
  show "bview (written i s) c = bview s c"
  proof (cases "c = b")
    case True
    have "buf_uniq (bufs (written i s))"
      using u by (simp add: written_def Let_def buf_uniq_upd)
    then have "bview (written i s) b = bdata (bufs (written i s) i)"
      using assms written_flags by (intro bview_hit) (simp_all add: written_def Let_def is_block_def)
    with True show ?thesis using bview_hit [OF u assms(2-4)] by (simp add: written_def Let_def)
  next
    case False
    then show ?thesis
      using assms(3) by (intro bview_cong) (auto simp: written_def Let_def is_block_def bvalid_def)
  qed
qed

definition give_buf :: "nat \<Rightarrow> 'z bcache_scheme \<Rightarrow> 'z bcache_scheme" where
  "give_buf i s = s\<lparr>
     slocks := (slocks s)(BufLock i := (slocks s (BufLock i))\<lparr>slocked := False, slpid := 0\<rparr>),
     procs := woken (Some (ChSleep (BufLock i))) (procs s),
     bufs := fronted i ((bufs s)(i := (bufs s i)\<lparr>refcnt := 0\<rparr>))\<rparr>"

lemma brelse_apply:
  assumes "ready p s" "mine p s i" "refcnt (bufs s i) = 1"
  shows "brelse i s = Ret () (give_buf i s)"
proof -
  obtain u where s: "s = u\<lparr>curproc := Some p, held := []\<rparr>" using assms(1) by (rule readyE)
  show ?thesis
    using assms holdingsleep_buf [OF assms(1), of i] releasesleep_apply [of "BufLock i" s]
    unfolding s by (simp add: brelse_def kcore give_buf_def)
qed

lemma blocked_give [simp]: "blocked (give_buf i s) j \<longleftrightarrow> j \<noteq> i \<and> blocked s j"
  by (simp add: blocked_def give_buf_def)

lemma bcore_fields:
  assumes "bcore x = bcore y"
  shows "bflags x = bflags y" "bdev x = bdev y" "blockno x = blockno y" "refcnt x = refcnt y"
    "bdata x = bdata y" "bvalid x = bvalid y" "bdirty x = bdirty y" "is_block d b x = is_block d b y"
  using assms by (simp_all add: bcore_def bvalid_def bdirty_def is_block_def)

lemma disk_give [simp]: "disk (give_buf i s) = disk s" "disksize (give_buf i s) = disksize s"
    "dwrites (give_buf i s) = dwrites s"
  by (simp_all add: give_buf_def)

lemma give_buf_fields:
  "bdev (bufs (give_buf i s) j) = bdev (bufs s j)"
  "blockno (bufs (give_buf i s) j) = blockno (bufs s j)"
  "bdata (bufs (give_buf i s) j) = bdata (bufs s j)"
  "bvalid (bufs (give_buf i s) j) = bvalid (bufs s j)"
  "bdirty (bufs (give_buf i s) j) = bdirty (bufs s j)"
  "is_block d b (bufs (give_buf i s) j) = is_block d b (bufs s j)"
  "refcnt (bufs (give_buf i s) j) = (if j = i then 0 else refcnt (bufs s j))"
proof -
  let ?cs = "(bufs s)(i := (bufs s i)\<lparr>refcnt := 0\<rparr>)"
  have "bcore (bufs (give_buf i s) j) = bcore (?cs j)" by (simp add: give_buf_def)
  note c = bcore_fields [OF this]
  show "bdev (bufs (give_buf i s) j) = bdev (bufs s j)"
    "blockno (bufs (give_buf i s) j) = blockno (bufs s j)"
    "bdata (bufs (give_buf i s) j) = bdata (bufs s j)"
    "bvalid (bufs (give_buf i s) j) = bvalid (bufs s j)"
    "bdirty (bufs (give_buf i s) j) = bdirty (bufs s j)"
    "is_block d b (bufs (give_buf i s) j) = is_block d b (bufs s j)"
    "refcnt (bufs (give_buf i s) j) = (if j = i then 0 else refcnt (bufs s j))"
    by (simp_all add: c) (simp_all add: bvalid_def bdirty_def is_block_def)
qed

lemma binv_give:
  assumes "binv s" "i < NBUF"
    and "bvalid (bufs s i) \<Longrightarrow> \<not> bdirty (bufs s i) \<Longrightarrow> bdev (bufs s i) = 1 \<Longrightarrow>
      bdata (bufs s i) = disk s (blockno (bufs s i))"
  shows "binv (give_buf i s)"
proof -
  obtain xs where xs: "bring (bufs s) xs" using assms(1) by (auto simp: binv_def)
  then have "bring ((bufs s)(i := (bufs s i)\<lparr>refcnt := 0\<rparr>)) xs" by (simp add: bring_upd)
  then have "bring (bufs (give_buf i s)) (i # remove1 i xs)"
    using bring_fronted [OF _ assms(2)] by (simp add: give_buf_def)
  moreover have "buf_ok (give_buf i s) j (bufs (give_buf i s) j)" if "j < NBUF" for j
  proof -
    have "buf_ok s j (bufs s j)" using assms(1) that by (simp add: binv_def)
    then show ?thesis
      using assms(3) by (cases "j = i") (auto simp: buf_ok_def give_buf_fields)
  qed
  moreover have "buf_uniq (bufs (give_buf i s))" "\<forall>b. length (disk (give_buf i s) b) = BSIZE"
    using assms(1) by (simp_all add: binv_def buf_uniq_def give_buf_fields)
  ultimately show ?thesis by (auto simp: binv_def)
qed

lemma bview_give: "bview (give_buf i s) = bview s"
proof
  show "bview (give_buf i s) b = bview s b" for b
    by (rule bview_cong) (simp_all add: give_buf_fields)
qed

lemma bview_take:
  assumes "binv s" and "bread_post p b s i x" and "b < disksize s"
  shows "bview (take_buf p i x s) = bview s"
proof
  fix c
  let ?t = "take_buf p i x s"
  have P: "i < NBUF" "\<not> blocked s i" "is_block 1 b x" "bvalid x" "bdata x = bview s b"
    "bdirty (bufs s i) \<Longrightarrow> is_block 1 b (bufs s i)"
    using assms(2) by (auto simp: bread_post_def)
  have u: "buf_uniq (bufs ?t)" and i: "bufs ?t i = x"
    using binv_bread [OF assms] by (simp_all add: binv_def) (simp add: take_buf_def)
  show "bview ?t c = bview s c"
  proof (cases "c = b")
    case True
    then show ?thesis using bview_hit [OF u P(1)] P i by simp
  next
    case False
    then have nc: "\<not> is_block 1 c x" using P(3) by (simp add: is_block_def)
    show ?thesis
    proof (cases "is_block 1 c (bufs s i) \<and> bvalid (bufs s i)")
      case True
      have u': "buf_uniq (bufs s)" and k: "buf_ok s i (bufs s i)"
        using assms(1) P(1) by (auto simp: binv_def)
      have "\<not> bdirty (bufs s i)" using True False P(6) by (auto simp: is_block_def)
      then have "bdata (bufs s i) = disk s c"
        using k True P(2) by (simp add: buf_ok_def is_block_def)
      then have "bview s c = disk s c"
        using bview_hit [OF u' P(1)] True by simp
      moreover have "bview ?t c = disk ?t c"
      proof (rule bview_miss)
        fix j assume "j < NBUF" "is_block 1 c (bufs ?t j)"
        then show "\<not> bvalid (bufs ?t j)"
          using u' True nc P(1) unfolding buf_uniq_def by (cases "j = i") (auto simp: take_buf_def)
      qed
      ultimately show ?thesis by (simp add: take_buf_def)
    next
      case False
      then show ?thesis
        using nc by (intro bview_cong) (auto simp: take_buf_def)
    qed
  qed
qed

end
