(* ===== verification/Block_Ops.thy ===== *)
theory Block_Ops
  imports Bio
begin

unbundle bit_operations_syntax

text \<open>
  The buffer cache as its clients, the log and the file system, see it: a
  process reads blocks into buffers it then owns, changes their data, writes or
  releases them. \<open>bview\<close> is the contents of the blocks, \<open>pinned\<close> the blocks the log
  keeps in the cache. \<open>bframe\<close> says that nothing outside the cache has changed.
\<close>

definition owns_buf :: "nat \<Rightarrow> uint \<Rightarrow> 'z bcache_scheme \<Rightarrow> nat \<Rightarrow> bool" where
  "owns_buf p b s i \<longleftrightarrow> i < NBUF \<and> mine p s i \<and> is_block 1 b (bufs s i) \<and> bvalid (bufs s i)"

definition synced :: "'z bcache_scheme \<Rightarrow> nat \<Rightarrow> bool" where
  "synced s i \<longleftrightarrow> bdirty (bufs s i) \<or> bdata (bufs s i) = disk s (blockno (bufs s i))"

definition pinned :: "'z bcache_scheme \<Rightarrow> uint set" where
  "pinned s = {b. \<exists>i < NBUF. is_block 1 b (bufs s i) \<and> bdirty (bufs s i)}"

definition bframe :: "'z bcache_scheme \<Rightarrow> 'z bcache_scheme \<Rightarrow> bool" where
  "bframe s t \<longleftrightarrow> (\<exists>pr sl bf dk dw.
     t = s\<lparr>procs := pr, slocks := sl, bufs := bf, disk := dk, dwrites := dw\<rparr> \<and>
     (\<forall>i. (pr i)\<lparr>pstate := pstate (procs s i)\<rparr> = procs s i) \<and>
     (\<forall>l. (\<forall>i. l \<noteq> BufLock i) \<longrightarrow> sl l = slocks s l))"

subsection \<open>The frame\<close>

lemma bframe_refl [simp, intro]: "bframe s s"
  by (auto simp: bframe_def intro!: exI [of _ "procs s"] exI [of _ "slocks s"] exI [of _ "bufs s"]
      exI [of _ "disk s"] exI [of _ "dwrites s"])

lemma bframe_trans: "bframe s t \<Longrightarrow> bframe t u \<Longrightarrow> bframe s u"
proof -
  assume "bframe s t" "bframe t u"
  then obtain pr sl bf dk dw pr' sl' bf' dk' dw' where
    t: "t = s\<lparr>procs := pr, slocks := sl, bufs := bf, disk := dk, dwrites := dw\<rparr>"
      "\<And>i. (pr i)\<lparr>pstate := pstate (procs s i)\<rparr> = procs s i"
      "\<And>l. (\<forall>i. l \<noteq> BufLock i) \<Longrightarrow> sl l = slocks s l" and
    u: "u = t\<lparr>procs := pr', slocks := sl', bufs := bf', disk := dk', dwrites := dw'\<rparr>"
      "\<And>i. (pr' i)\<lparr>pstate := pstate (procs t i)\<rparr> = procs t i"
      "\<And>l. (\<forall>i. l \<noteq> BufLock i) \<Longrightarrow> sl' l = slocks t l"
    unfolding bframe_def by blast
  have "(pr' i)\<lparr>pstate := pstate (procs s i)\<rparr> = procs s i" for i
  proof -
    have "(pr' i)\<lparr>pstate := pstate (procs s i)\<rparr> =
        ((pr' i)\<lparr>pstate := pstate (procs t i)\<rparr>)\<lparr>pstate := pstate (procs s i)\<rparr>" by simp
    also have "\<dots> = procs s i" unfolding u(2) using t(1) t(2) [of i] by simp
    finally show ?thesis .
  qed
  then show ?thesis
    unfolding bframe_def using t u
    by (intro exI [of _ pr'] exI [of _ sl'] exI [of _ bf'] exI [of _ dk'] exI [of _ dw']) simp
qed

lemma bframe_simps:
  assumes "bframe s t"
  shows "held t = held s" "curproc t = curproc s" "ticks t = ticks s" "nextpid t = nextpid s"
    "initproc t = initproc s" "mem t = mem s" "freelist t = freelist s" "use_lock t = use_lock s"
    "kend t = kend s" "disksize t = disksize s" "bcache.more t = bcache.more s"
    "pid (procs t i) = pid (procs s i)" "ready p t = ready p s"
    "(\<And>i. l \<noteq> BufLock i) \<Longrightarrow> slocks t l = slocks s l"
proof -
  obtain pr sl bf dk dw where
    t: "t = s\<lparr>procs := pr, slocks := sl, bufs := bf, disk := dk, dwrites := dw\<rparr>"
      "\<And>i. (pr i)\<lparr>pstate := pstate (procs s i)\<rparr> = procs s i"
      "\<And>l. (\<forall>i. l \<noteq> BufLock i) \<Longrightarrow> sl l = slocks s l"
    using assms unfolding bframe_def by blast
  show "held t = held s" "curproc t = curproc s" "ticks t = ticks s" "nextpid t = nextpid s"
    "initproc t = initproc s" "mem t = mem s" "freelist t = freelist s" "use_lock t = use_lock s"
    "kend t = kend s" "disksize t = disksize s" "bcache.more t = bcache.more s" "ready p t = ready p s"
    "(\<And>i. l \<noteq> BufLock i) \<Longrightarrow> slocks t l = slocks s l"
    using t(3) [of l] by (simp_all add: t(1) ready_def)
  have "pid ((pr i)\<lparr>pstate := pstate (procs s i)\<rparr>) = pid (procs s i)" using t(2) [of i] by simp
  then show "pid (procs t i) = pid (procs s i)" by (simp add: t(1))
qed

lemma bframe_take [simp, intro]: "bframe s (take_buf p i x s)"
  unfolding bframe_def take_buf_def
  by (intro exI [of _ "procs s"] exI [of _ "(slocks s)(BufLock i := (slocks s (BufLock i))
      \<lparr>slocked := True, slpid := pid (procs s p)\<rparr>)"] exI [of _ "(bufs s)(i := x)"]
      exI [of _ "disk s"] exI [of _ "dwrites s"]) simp

lemma bframe_put [simp, intro]: "bframe s (put_data i d s)"
  unfolding bframe_def put_data_def
  by (intro exI [of _ "procs s"] exI [of _ "slocks s"] exI [of _ "(bufs s)(i := (bufs s i)\<lparr>bdata := d\<rparr>)"]
      exI [of _ "disk s"] exI [of _ "dwrites s"]) simp

lemma bframe_bufs [simp, intro]: "bframe s (s\<lparr>bufs := bs\<rparr>)"
  unfolding bframe_def
  by (intro exI [of _ "procs s"] exI [of _ "slocks s"] exI [of _ bs]
      exI [of _ "disk s"] exI [of _ "dwrites s"]) simp

lemma bframe_written [simp, intro]: "bframe s (written i s)"
  unfolding bframe_def written_def Let_def
  by (intro exI [of _ "procs s"] exI [of _ "slocks s"]
      exI [of _ "(bufs s)(i := (bufs s i)\<lparr>bflags :=
        ((bflags (bufs s i) OR B_DIRTY) AND NOT B_DIRTY) OR B_VALID\<rparr>)"]
      exI [of _ "(disk s)(blockno (bufs s i) := bdata (bufs s i))"]
      exI [of _ "dwrites s @ [(blockno (bufs s i), bdata (bufs s i))]"]) simp

lemma woken_pstate: "(woken ch ps i)\<lparr>pstate := pstate (ps i)\<rparr> = ps i"
  by (simp add: woken_def)

lemma bframe_give [simp, intro]: "bframe s (give_buf i s)"
  unfolding bframe_def give_buf_def
  by (intro exI [of _ "woken (Some (ChSleep (BufLock i))) (procs s)"]
      exI [of _ "(slocks s)(BufLock i := (slocks s (BufLock i))\<lparr>slocked := False, slpid := 0\<rparr>)"]
      exI [of _ "fronted i ((bufs s)(i := (bufs s i)\<lparr>refcnt := 0\<rparr>))"]
      exI [of _ "disk s"] exI [of _ "dwrites s"]) (simp add: woken_pstate)

subsection \<open>Owned buffers\<close>

lemma owns_data:
  "binv s \<Longrightarrow> owns_buf p b s i \<Longrightarrow> bdata (bufs s i) = bview s b"
  by (rule bview_hit [symmetric]) (simp_all add: owns_buf_def binv_def)

lemma owns_refcnt: "binv s \<Longrightarrow> owns_buf p b s i \<Longrightarrow> refcnt (bufs s i) = 1"
  by (auto simp: owns_buf_def binv_def buf_ok_def mine_def)

lemma owns_blocked: "owns_buf p b s i \<Longrightarrow> blocked s i"
  by (simp add: owns_buf_def mine_def)

lemma owns_unique: "binv s \<Longrightarrow> owns_buf p b s i \<Longrightarrow> owns_buf p b s j \<Longrightarrow> i = j"
  by (auto simp: owns_buf_def binv_def buf_uniq_def)

lemma blocked_put [simp]: "blocked (put_data k d s) i = blocked s i"
  and blocked_written [simp]: "blocked (written k s) i = blocked s i"
  by (simp_all add: put_data_def written_def Let_def)

lemma mine_simps [simp]:
  "mine p (put_data k d s) i = mine p s i" "mine p (written k s) i = mine p s i"
  "i \<noteq> k \<Longrightarrow> mine p (give_buf k s) i = mine p s i"
  "i \<noteq> k \<Longrightarrow> mine p (take_buf p k x s) i = mine p s i" "mine p (take_buf p k x s) k"
  by (simp_all add: mine_def) (simp_all add: put_data_def written_def Let_def give_buf_def take_buf_def blocked_def)

lemma owns_put [simp]: "owns_buf p b (put_data k d s) i = owns_buf p b s i"
  by (simp add: owns_buf_def) (simp add: put_data_def is_block_def bvalid_def)

lemma owns_written [simp]: "owns_buf p b s i \<Longrightarrow> owns_buf p b (written k s) i"
  using written_flags [of k s]
  by (cases "i = k") (simp_all add: owns_buf_def is_block_def, simp_all add: written_def Let_def)

lemma owns_give [simp]: "owns_buf p b s i \<Longrightarrow> i \<noteq> k \<Longrightarrow> owns_buf p b (give_buf k s) i"
  by (simp add: owns_buf_def give_buf_fields)

lemma pinned_put [simp]: "pinned (put_data k d s) = pinned s"
proof -
  have "is_block 1 b (bufs (put_data k d s) i) = is_block 1 b (bufs s i)"
    "bdirty (bufs (put_data k d s) i) = bdirty (bufs s i)" for b i
    by (simp_all add: put_data_def is_block_def bdirty_def)
  then show ?thesis by (simp add: pinned_def)
qed

lemma pinned_give [simp]: "pinned (give_buf k s) = pinned s"
  by (simp add: pinned_def give_buf_fields)

lemma pinned_written:
  assumes "binv s" and "owns_buf p b s k"
  shows "pinned (written k s) = pinned s - {b}"
proof -
  have w: "is_block 1 c (bufs (written k s) i) = is_block 1 c (bufs s i)" for c i
    by (simp add: written_def Let_def is_block_def)
  have d: "bdirty (bufs (written k s) i) \<longleftrightarrow> i \<noteq> k \<and> bdirty (bufs s i)" for i
  proof (cases "i = k")
    case True
    then show ?thesis using written_flags(2) [of k s] by simp
  next
    case False
    then show ?thesis by (simp add: written_def Let_def)
  qed
  have k: "is_block 1 c (bufs s k) \<longleftrightarrow> c = b" for c
    using assms(2) by (auto simp: owns_buf_def is_block_def)
  have "i = k" if "i < NBUF" "is_block 1 b (bufs s i)" for i
    using that assms by (auto simp: owns_buf_def binv_def buf_uniq_def)
  with k show ?thesis
    unfolding pinned_def w d by blast
qed

lemma pinned_take:
  assumes "bread_post p b s i x"
  shows "pinned (take_buf p i x s) = pinned s"
proof -
  have "is_block 1 b x" "bdirty x = bdirty (bufs s i)" "bdirty x \<longrightarrow> is_block 1 b (bufs s i)"
    using assms by (simp_all add: bread_post_def)
  then have "is_block 1 c (bufs (take_buf p i x s) j) \<and> bdirty (bufs (take_buf p i x s) j) \<longleftrightarrow>
      is_block 1 c (bufs s j) \<and> bdirty (bufs s j)" for c j
    by (cases "j = i") (auto simp: is_block_def take_buf_def)
  then show ?thesis by (simp add: pinned_def)
qed

text \<open>A block that nobody has locked and the log has not pinned is as on the disk.\<close>

lemma bview_disk:
  assumes "binv s" "b \<notin> pinned s" "\<And>i. i < NBUF \<Longrightarrow> is_block 1 b (bufs s i) \<Longrightarrow> \<not> blocked s i"
  shows "bview s b = disk s b"
proof (cases "\<exists>i < NBUF. is_block 1 b (bufs s i) \<and> bvalid (bufs s i)")
  case True
  then obtain i where i: "i < NBUF" "is_block 1 b (bufs s i)" "bvalid (bufs s i)" by blast
  moreover have "\<not> bdirty (bufs s i)" using i assms(2) by (auto simp: pinned_def)
  moreover have "buf_ok s i (bufs s i)" using i assms(1) by (simp add: binv_def)
  ultimately have "bdata (bufs s i) = disk s b"
    using assms(3) by (auto simp: buf_ok_def is_block_def)
  then show ?thesis
    using i assms(1) bview_hit [of s i b] by (simp add: binv_def)
next
  case False
  then show ?thesis by (intro bview_miss) blast
qed

subsection \<open>Rules for the clients\<close>

text \<open>
  \<open>cinv p H M s\<close>: process \<open>p\<close> runs with no spin lock, owns exactly the blocks in
  \<open>H\<close>, which maps a block to its buffer, and has changed, since it read or last
  wrote them, at most those in \<open>M\<close>.
\<close>

definition cinv :: "nat \<Rightarrow> (uint \<rightharpoonup> nat) \<Rightarrow> uint set \<Rightarrow> 'z bcache_scheme \<Rightarrow> bool" where
  "cinv p H M s \<longleftrightarrow> ready p s \<and> binv s \<and>
     (\<forall>b i. H b = Some i \<longrightarrow> owns_buf p b s i \<and> (b \<in> M \<or> synced s i)) \<and>
     (\<forall>i < NBUF. blocked s i \<longrightarrow> i \<in> ran H)"

lemma cinvD:
  assumes "cinv p H M s"
  shows "ready p s" "binv s" "H b = Some i \<Longrightarrow> owns_buf p b s i"
    "H b = Some i \<Longrightarrow> b \<notin> M \<Longrightarrow> synced s i" "i < NBUF \<Longrightarrow> blocked s i \<Longrightarrow> i \<in> ran H"
  using assms by (auto simp: cinv_def)

lemma cinv_unlocked:
  assumes "cinv p H M s" and "H b = None" and "i < NBUF" and "is_block 1 b (bufs s i)"
  shows "\<not> blocked s i"
proof
  assume "blocked s i"
  then obtain c where c: "H c = Some i" using cinvD(5) [OF assms(1,3)] by (auto simp: ran_def)
  then have "is_block 1 c (bufs s i)" using cinvD(3) [OF assms(1)] by (auto simp: owns_buf_def)
  with assms(2,4) c show False by (auto simp: is_block_def)
qed

lemma cinv_finite:
  assumes "cinv p H M s"
  shows "finite (dom H)" "card {i. i < NBUF \<and> blocked s i} \<le> card (dom H)"
proof -
  have own: "the (H b) < NBUF \<and> is_block 1 b (bufs s (the (H b)))" if "b \<in> dom H" for b
    using that cinvD(3) [OF assms] by (auto simp: owns_buf_def)
  have inj: "inj_on (\<lambda>b. the (H b)) (dom H)"
    by (rule inj_onI) (metis own is_block_def)
  show fin: "finite (dom H)"
    by (rule inj_on_finite [OF inj, of "{..<NBUF}"]) (use own in auto)
  have "{i. i < NBUF \<and> blocked s i} \<subseteq> (\<lambda>b. the (H b)) ` dom H"
  proof
    fix i assume "i \<in> {i. i < NBUF \<and> blocked s i}"
    then obtain b where "H b = Some i" using cinvD(5) [OF assms] by (auto simp: ran_def)
    then show "i \<in> (\<lambda>b. the (H b)) ` dom H" by (metis domI imageI option.sel)
  qed
  then show "card {i. i < NBUF \<and> blocked s i} \<le> card (dom H)"
    using fin by (meson card_image_le card_mono finite_imageI order_trans)
qed

lemma card_dirty:
  assumes "binv s"
  shows "card {i. i < NBUF \<and> bdirty (bufs s i)} = card (pinned s)"
proof -
  have d: "is_block 1 (blockno (bufs s i)) (bufs s i)" if "i < NBUF" "bdirty (bufs s i)" for i
    using that assms by (auto simp: binv_def buf_ok_def is_block_def)
  have "pinned s = (\<lambda>i. blockno (bufs s i)) ` {i. i < NBUF \<and> bdirty (bufs s i)}"
    using d by (force simp: pinned_def is_block_def)
  moreover have "inj_on (\<lambda>i. blockno (bufs s i)) {i. i < NBUF \<and> bdirty (bufs s i)}"
    using assms d by (intro inj_onI) (metis (mono_tags, lifting) binv_def buf_uniq_def mem_Collect_eq)
  ultimately show ?thesis by (simp add: card_image)
qed

lemma finite_pinned: "finite (pinned s)"
proof -
  have "pinned s \<subseteq> (\<lambda>i. blockno (bufs s i)) ` {..<NBUF}"
    by (auto simp: pinned_def is_block_def)
  then show ?thesis by (rule finite_subset) simp
qed

lemma unused_exists:
  assumes "cinv p H M s" and "card (pinned s) + card (dom H) < NBUF"
  shows "\<exists>i < NBUF. unused (bufs s i)"
proof (rule ccontr)
  note I = cinvD(2) [OF assms(1)]
  assume "\<not> (\<exists>i < NBUF. unused (bufs s i))"
  moreover have "blocked s i" if "i < NBUF" "refcnt (bufs s i) \<noteq> 0" for i
    using that I by (auto simp: binv_def buf_ok_def split: if_splits)
  ultimately have "{..<NBUF} \<subseteq> {i. i < NBUF \<and> bdirty (bufs s i)} \<union> {i. i < NBUF \<and> blocked s i}"
    by (auto simp: unused_def)
  then have "card {..<NBUF} \<le> card ({i. i < NBUF \<and> bdirty (bufs s i)} \<union> {i. i < NBUF \<and> blocked s i})"
    by (intro card_mono) auto
  also have "\<dots> \<le> card {i. i < NBUF \<and> bdirty (bufs s i)} + card {i. i < NBUF \<and> blocked s i}"
    by (rule card_Un_le)
  also have "\<dots> \<le> card (pinned s) + card (dom H)"
    unfolding card_dirty [OF I] by (rule add_left_mono [OF cinv_finite(2) [OF assms(1)]])
  finally show False using assms(2) by simp
qed

text \<open>What every operation keeps of the rest of the system.\<close>

definition bkeep :: "'z bcache_scheme \<Rightarrow> 'z bcache_scheme \<Rightarrow> bool" where
  "bkeep s t \<longleftrightarrow> bview t = bview s \<and> disk t = disk s \<and> dwrites t = dwrites s \<and>
     pinned t = pinned s \<and> bframe s t"

lemma bkeep_refl [simp]: "bkeep s s"
  by (simp add: bkeep_def)

lemma bkeep_trans: "bkeep s t \<Longrightarrow> bkeep t u \<Longrightarrow> bkeep s u"
  by (auto simp: bkeep_def intro: bframe_trans)

lemma bread_rule:
  assumes "cinv p H M s" and "b < disksize s" and "H b = None"
    and "b \<in> pinned s \<or> card (pinned s) + card (dom H) < NBUF"
  shows "ok (bread 1 b) s (\<lambda>i t. cinv p (H(b \<mapsto> i)) (M - {b}) t \<and> bkeep s t)"
proof -
  note D = cinvD [OF assms(1)]
  have "\<exists>i < NBUF. is_block 1 b (bufs s i) \<or> unused (bufs s i)"
    using assms(4) unused_exists [OF assms(1)] by (auto simp: pinned_def)
  then obtain i x where r: "bread 1 b s = Ret i (take_buf p i x s)" and P: "bread_post p b s i x"
    using bread_spec [OF D(1,2) assms(2) cinv_unlocked [OF assms(1,3)]] by blast
  let ?t = "take_buf p i x s"
  have Q: "i < NBUF" "\<not> blocked s i" "is_block 1 b x" "bvalid x" "bdata x = bview s b"
    "bdirty x = bdirty (bufs s i)" "bdirty x \<longrightarrow> is_block 1 b (bufs s i)"
    using P by (simp_all add: bread_post_def)
  have t: "bufs ?t = (bufs s)(i := x)" "disk ?t = disk s" "dwrites ?t = dwrites s"
    by (simp_all add: take_buf_def)
  have "bkeep s ?t"
    using bview_take [OF D(2) P assms(2)] pinned_take [OF P] t by (simp add: bkeep_def)
  moreover have "cinv p (H(b \<mapsto> i)) (M - {b}) ?t"
  proof -
    have "synced ?t i"
    proof (cases "bdirty x")
      case False
      have "b \<notin> pinned s"
        using False Q(6) P by (auto simp: pinned_def bread_post_def)
      then have "bview s b = disk s b"
        using bview_disk [OF D(2)] cinv_unlocked [OF assms(1,3)] by blast
      then show ?thesis using Q t by (simp add: synced_def is_block_def)
    qed (use t in \<open>simp add: synced_def\<close>)
    moreover have "owns_buf p b ?t i"
      using Q t by (simp add: owns_buf_def)
    moreover have "j \<noteq> i \<and> owns_buf p c ?t j \<and> (c \<in> M \<or> synced ?t j)" if "H c = Some j" for c j
    proof -
      have o: "owns_buf p c s j" "c \<in> M \<or> synced s j" using that D(3,4) by blast+
      then have "j \<noteq> i" using owns_blocked Q(2) by blast
      with o t show ?thesis by (simp add: owns_buf_def synced_def)
    qed
    moreover have "ready p ?t" using D(1) bframe_simps(13) [OF bframe_take] by blast
    moreover have "k \<in> ran (H(b \<mapsto> i))" if "k < NBUF" "blocked ?t k" for k
      using that D(5) [of k] assms(3) by (auto simp: ran_map_upd)
    ultimately show ?thesis
      using binv_bread [OF D(2) P assms(2)] by (auto simp: cinv_def split: if_splits)
  qed
  ultimately show ?thesis using r by (simp add: ok_def)
qed

lemma put_rule:
  assumes "cinv p H M s" and "H b = Some i" and "length d = BSIZE"
  shows "cinv p H (insert b M) (put_data i d s)" and "bview (put_data i d s) = (bview s)(b := d)"
proof -
  note D = cinvD [OF assms(1)]
  have o: "owns_buf p b s i" using D(3) assms(2) by blast
  show "bview (put_data i d s) = (bview s)(b := d)"
    using o D(2) by (intro bview_put) (simp_all add: owns_buf_def)
  have "synced (put_data i d s) j" if "H c = Some j" "c \<noteq> b" "synced s j" for c j
  proof -
    have "j \<noteq> i"
      using D(3) [OF that(1)] o that(2) by (auto simp: owns_buf_def is_block_def)
    with that(3) show ?thesis by (simp add: synced_def put_data_def)
  qed
  then have "owns_buf p c (put_data i d s) j \<and> (c \<in> insert b M \<or> synced (put_data i d s) j)"
    if "H c = Some j" for c j
    using that D(3,4) [OF that] by (cases "c = b \<or> c \<in> M") auto
  moreover have "ready p (put_data i d s)" using D(1) bframe_simps(13) [OF bframe_put] by blast
  ultimately show "cinv p H (insert b M) (put_data i d s)"
    using binv_put [OF D(2) owns_blocked [OF o] assms(3)] D(5) by (auto simp: cinv_def)
qed

lemma bwrite_rule:
  assumes "cinv p H M s" and "H b = Some i" and "b < disksize s"
  shows "ok (bwrite i) s (\<lambda>_ t. cinv p H (M - {b}) t \<and> bview t = bview s \<and>
    disk t = (disk s)(b := bview s b) \<and> dwrites t = dwrites s @ [(b, bview s b)] \<and>
    pinned t = pinned s - {b} \<and> bframe s t)"
proof -
  note D = cinvD [OF assms(1)]
  have o: "owns_buf p b s i" using D(3) assms(2) by blast
  then have b: "i < NBUF" "is_block 1 b (bufs s i)" "bvalid (bufs s i)" "mine p s i"
    by (simp_all add: owns_buf_def)
  have "bwrite i s = Ret () (written i s)"
    using b assms(3) by (intro bwrite_apply [OF D(1)]) (simp_all add: is_block_def)
  moreover have w: "disk (written i s) = (disk s)(b := bview s b)"
      "dwrites (written i s) = dwrites s @ [(b, bview s b)]"
    using owns_data [OF D(2) o] b by (simp_all add: written_def Let_def is_block_def)
  moreover have "cinv p H (M - {b}) (written i s)"
  proof -
    have "owns_buf p c (written i s) j \<and> (c \<in> M - {b} \<or> synced (written i s) j)" if "H c = Some j" for c j
    proof (cases "j = i")
      case True
      have "bdata (bufs (written i s) i) = disk (written i s) (blockno (bufs (written i s) i))"
        by (simp add: written_def Let_def)
      with True D(3) [OF that] show ?thesis by (simp add: synced_def)
    next
      case False
      then have "c \<noteq> b" using that assms(2) by auto
      then have "blockno (bufs s j) \<noteq> blockno (bufs s i)"
        using D(3) [OF that] b by (simp add: owns_buf_def is_block_def)
      with False have "synced (written i s) j = synced s j"
        by (simp add: synced_def written_def Let_def)
      with \<open>c \<noteq> b\<close> D(3,4) [OF that] show ?thesis by auto
    qed
    moreover have "ready p (written i s)" using D(1) bframe_simps(13) [OF bframe_written] by blast
    ultimately show ?thesis
      using binv_written [OF D(2) b(1) owns_blocked [OF o] b(2,3)] D(5) by (auto simp: cinv_def)
  qed
  ultimately show ?thesis
    using bview_written [OF D(2) b(1-3)] pinned_written [OF D(2) o] by (simp add: ok_def)
qed

lemma brelse_rule:
  assumes "cinv p H M s" and "H b = Some i" and "b \<notin> M"
  shows "ok (brelse i) s (\<lambda>_ t. cinv p (H(b := None)) M t \<and> bkeep s t)"
proof -
  note D = cinvD [OF assms(1)]
  have o: "owns_buf p b s i" using D(3) assms(2) by blast
  then have b: "i < NBUF" "is_block 1 b (bufs s i)" "bvalid (bufs s i)" "mine p s i"
    by (simp_all add: owns_buf_def)
  have "brelse i s = Ret () (give_buf i s)"
    using b owns_refcnt [OF D(2) o] by (intro brelse_apply [OF D(1)])
  moreover have "bkeep s (give_buf i s)" by (simp add: bkeep_def bview_give)
  moreover have "cinv p (H(b := None)) M (give_buf i s)"
  proof -
    have "j \<noteq> i \<and> owns_buf p c (give_buf i s) j \<and> (c \<in> M \<or> synced (give_buf i s) j)"
      if "H c = Some j" "c \<noteq> b" for c j
    proof -
      have "j \<noteq> i" using D(3) [OF that(1)] b(2) that(2) by (auto simp: owns_buf_def is_block_def)
      with D(3,4) [OF that(1)] show ?thesis by (auto simp: synced_def give_buf_fields)
    qed
    moreover have "k \<in> ran (H(b := None))" if k: "k < NBUF" "blocked (give_buf i s) k" for k
    proof -
      obtain c where "H c = Some k" "k \<noteq> i" using k D(5) [of k] by (auto simp: ran_def)
      then have "(H(b := None)) c = Some k" using assms(2) by auto
      then show ?thesis by (rule ranI)
    qed
    moreover have "ready p (give_buf i s)" using D(1) bframe_simps(13) [OF bframe_give] by blast
    moreover have "binv (give_buf i s)"
      using D(4) [OF assms(2,3)] by (intro binv_give [OF D(2) b(1)]) (simp add: synced_def)
    ultimately show ?thesis by (auto simp: cinv_def)
  qed
  ultimately show ?thesis by (simp add: ok_def)
qed

lemma bkeepD:
  assumes "bkeep s t"
  shows "bview t = bview s" "disk t = disk s" "dwrites t = dwrites s" "pinned t = pinned s"
    "bframe s t" "disksize t = disksize s" "ready p t = ready p s" "bcache.more t = bcache.more s"
proof -
  have f: "bframe s t" using assms by (simp add: bkeep_def)
  show "bview t = bview s" "disk t = disk s" "dwrites t = dwrites s" "pinned t = pinned s"
    "bframe s t" "disksize t = disksize s" "ready p t = ready p s" "bcache.more t = bcache.more s"
    using assms bframe_simps(10,11) [OF f] bframe_simps(13) [OF f, of p] by (simp_all add: bkeep_def)
qed

text \<open>The cache predicates read only the fields of the cache and the layers below it.\<close>

definition same_cache :: "'z bcache_scheme \<Rightarrow> 'z bcache_scheme \<Rightarrow> bool" where
  "same_cache s t \<longleftrightarrow> held t = held s \<and> curproc t = curproc s \<and> procs t = procs s \<and>
     slocks t = slocks s \<and> bufs t = bufs s \<and> disk t = disk s \<and> disksize t = disksize s \<and>
     dwrites t = dwrites s"

lemma same_cacheD:
  assumes "same_cache s t"
  shows "held t = held s" "curproc t = curproc s" "procs t = procs s" "slocks t = slocks s"
    "bufs t = bufs s" "disk t = disk s" "disksize t = disksize s" "dwrites t = dwrites s"
  using assms by (simp_all add: same_cache_def)

lemma same_cache_preds:
  assumes "same_cache s t"
  shows "cinv p H M t = cinv p H M s" "bview t = bview s" "pinned t = pinned s" "ready p t = ready p s"
proof -
  note D = same_cacheD [OF assms]
  show v: "bview t = bview s" unfolding bview_def fun_eq_iff D by simp
  show "pinned t = pinned s" by (simp add: pinned_def D)
  show r: "ready p t = ready p s" by (simp add: ready_def D)
  have b: "blocked t = blocked s" by (intro ext) (simp add: blocked_def D)
  have "binv t = binv s" by (simp add: binv_def buf_ok_def D b)
  moreover have "owns_buf p c t i = owns_buf p c s i" "synced t i = synced s i" for c i
    by (simp_all add: owns_buf_def mine_def synced_def D b)
  ultimately show "cinv p H M t = cinv p H M s" by (simp add: cinv_def r b)
qed

end
