(* ===== verification/Log.thy ===== *)
theory Log
  imports Block_Ops
begin

unbundle bit_operations_syntax

text \<open>
  The write-ahead log (log.c), over the buffer cache. A transaction's modified
  blocks stay pinned in the cache until \<open>commit\<close>, which writes them to the log,
  writes the log header (the commit point), installs them in their home blocks
  and clears the header. \<open>recover_from_log\<close> runs at boot.

  The main results: from every state in which a crash can leave the disk during
  \<open>commit\<close>, recovery gives all of the transaction's blocks or none of them; and
  recovery gives the same disk when it is itself interrupted and started again.
\<close>

record log = bcache +
  lstart :: uint
  lsize :: int
  outstanding :: int
  committing :: bool
  ldev :: uint
  lh_n :: int
  lh_block :: "nat \<Rightarrow> uint"

definition readsb :: "uint \<Rightarrow> ('z bcache_scheme, superblock) kop" where
  "readsb dev =
     bnd (bread dev 1) (\<lambda>bp.
     bnd (buf_get bp bdata) (\<lambda>d.
     bnd (brelse bp) (\<lambda>_. ret (decode_sb d))))"

text \<open>\<open>memmove(to->data, from->data, BSIZE)\<close> between two buffers.\<close>

definition copy_data :: "nat \<Rightarrow> nat \<Rightarrow> ('z bcache_scheme, unit) kop" where
  "copy_data to from = bnd (buf_get from bdata) (\<lambda>d. buf_upd to (\<lambda>x. x\<lparr>bdata := d\<rparr>))"

definition install_trans :: "('z log_scheme, unit) kop" where
  "install_trans =
     bnd (gets (\<lambda>s. (ldev s, lstart s, lh_n s, lh_block s))) (\<lambda>(dev, start, n, blk).
       for_each [0..<nat n] (\<lambda>tail.
         bnd (bread dev (start + of_nat tail + 1)) (\<lambda>lbuf.
         bnd (bread dev (blk tail)) (\<lambda>dbuf. seqs [
           copy_data dbuf lbuf,
           bwrite dbuf,
           brelse lbuf,
           brelse dbuf]))))"

text \<open>
  The header block holds \<open>n\<close> and then the block numbers. The in-memory array has
  \<open>LOGSIZE\<close> entries; a larger \<open>n\<close> makes the loops run past its end.
\<close>

definition read_head :: "('z log_scheme, unit) kop" where
  "read_head =
     bnd (gets (\<lambda>s. (ldev s, lstart s))) (\<lambda>(dev, start).
     bnd (bread dev start) (\<lambda>b.
     bnd (buf_get b bdata) (\<lambda>d.
     bnd (mods (\<lambda>s. s\<lparr>lh_n := sint (get32 d 0)\<rparr>)) (\<lambda>_.
       if sint (get32 d 0) > int LOGSIZE then wild ''read_head''
       else seqs [
         for_each [0..<nat (sint (get32 d 0))] (\<lambda>i.
           mods (\<lambda>s. s\<lparr>lh_block := (lh_block s)(i := get32 d (4 + 4 * i))\<rparr>)),
         brelse b]))))"

definition write_head :: "('z log_scheme, unit) kop" where
  "write_head =
     bnd (gets (\<lambda>s. (ldev s, lstart s, lh_n s, lh_block s))) (\<lambda>(dev, start, n, blk).
     bnd (bread dev start) (\<lambda>b.
       if n > int LOGSIZE then wild ''write_head''
       else seqs [
         buf_upd b (\<lambda>x. x\<lparr>bdata := put32 (bdata x) 0 (of_int n)\<rparr>),
         for_each [0..<nat n] (\<lambda>i.
           buf_upd b (\<lambda>x. x\<lparr>bdata := put32 (bdata x) (4 + 4 * i) (blk i)\<rparr>)),
         bwrite b,
         brelse b]))"

definition recover_from_log :: "('z log_scheme, unit) kop" where
  "recover_from_log = seqs [
     read_head,
     install_trans,
     mods (\<lambda>s. s\<lparr>lh_n := 0\<rparr>),
     write_head]"

text \<open>\<open>sizeof(struct logheader)\<close> is \<open>4 + 4 * LOGSIZE\<close>.\<close>

definition initlog :: "uint \<Rightarrow> ('z log_scheme, unit) kop" where
  "initlog dev =
     (if 4 + 4 * LOGSIZE \<ge> BSIZE then panic ''initlog: too big logheader''
      else bnd (readsb dev) (\<lambda>sb. seqs [
        mods (\<lambda>s. s\<lparr>lstart := sb_logstart sb\<rparr>),
        mods (\<lambda>s. s\<lparr>lsize := sint (sb_nlog sb)\<rparr>),
        mods (\<lambda>s. s\<lparr>ldev := dev\<rparr>),
        recover_from_log]))"

text \<open>One test of the loop of \<open>begin_op\<close>; \<open>begin_op_resume\<close> is the loop after a wakeup.\<close>

definition begin_op_loop :: "('z log_scheme, unit) kop" where
  "begin_op_loop =
     bnd (gets (\<lambda>s. (committing s, lh_n s, outstanding s))) (\<lambda>(com, n, out).
       if com then sleep (Some ChLog) (Some LogLock)
       else if n + (out + 1) * int MAXOPBLOCKS > int LOGSIZE then sleep (Some ChLog) (Some LogLock)
       else seqs [mods (\<lambda>s. s\<lparr>outstanding := outstanding s + 1\<rparr>), krelease LogLock])"

definition begin_op :: "('z log_scheme, unit) kop" where
  "begin_op = seqs [kacquire LogLock, begin_op_loop]"

definition begin_op_resume :: "nat \<Rightarrow> ('z log_scheme, unit) kop" where
  "begin_op_resume p = seqs [sleep_resume p LogLock, begin_op_loop]"

definition write_log :: "('z log_scheme, unit) kop" where
  "write_log =
     bnd (gets (\<lambda>s. (ldev s, lstart s, lh_n s, lh_block s))) (\<lambda>(dev, start, n, blk).
       for_each [0..<nat n] (\<lambda>tail.
         bnd (bread dev (start + of_nat tail + 1)) (\<lambda>to.
         bnd (bread dev (blk tail)) (\<lambda>from. seqs [
           copy_data to from,
           bwrite to,
           brelse from,
           brelse to]))))"

definition commit :: "('z log_scheme, unit) kop" where
  "commit =
     bnd (gets lh_n) (\<lambda>n. whenk (n > 0) (seqs [
       write_log,
       write_head,
       install_trans,
       mods (\<lambda>s. s\<lparr>lh_n := 0\<rparr>),
       write_head]))"

definition end_op :: "('z log_scheme, unit) kop" where
  "end_op = seqs [
     kacquire LogLock,
     mods (\<lambda>s. s\<lparr>outstanding := outstanding s - 1\<rparr>),
     bnd (gets committing) (\<lambda>com. if com then panic ''log.committing'' else ret ()),
     bnd (gets outstanding) (\<lambda>out.
       if out = 0 then seqs [
         mods (\<lambda>s. s\<lparr>committing := True\<rparr>),
         krelease LogLock,
         commit,
         kacquire LogLock,
         mods (\<lambda>s. s\<lparr>committing := False\<rparr>),
         wakeup (Some ChLog),
         krelease LogLock]
       else seqs [wakeup (Some ChLog), krelease LogLock])]"

definition log_write :: "nat \<Rightarrow> ('z log_scheme, unit) kop" where
  "log_write b =
     bnd (gets (\<lambda>s. (lh_n s, lsize s, outstanding s))) (\<lambda>(n, size, out).
       if n \<ge> int LOGSIZE \<or> n \<ge> size - 1 then panic ''too big a transaction''
       else if out < 1 then panic ''log_write outside of trans''
       else bnd (kacquire LogLock) (\<lambda>_.
         bnd (buf_get b blockno) (\<lambda>bno.
         bnd (gets (\<lambda>s. case scan (nat (lh_n s)) (\<lambda>i. lh_block s i = bno) of
             Some i \<Rightarrow> i | None \<Rightarrow> nat (lh_n s))) (\<lambda>i. seqs [
           mods (\<lambda>s. s\<lparr>lh_block := (lh_block s)(i := bno)\<rparr>),
           bnd (gets lh_n) (\<lambda>n. whenk (int i = n) (mods (\<lambda>s. s\<lparr>lh_n := lh_n s + 1\<rparr>))),
           buf_upd b (\<lambda>x. x\<lparr>bflags := bflags x OR B_DIRTY\<rparr>),
           krelease LogLock]))))"

subsection \<open>Sequences of block writes\<close>

definition apply_writes :: "(uint \<Rightarrow> bytes) \<Rightarrow> (uint \<times> bytes) list \<Rightarrow> uint \<Rightarrow> bytes" where
  "apply_writes D ws = foldl (\<lambda>D (b, d). D(b := d)) D ws"

lemma apply_writes_simps [simp]:
  "apply_writes D [] = D" "apply_writes D ((b, d) # ws) = apply_writes (D(b := d)) ws"
  "apply_writes D (ws @ vs) = apply_writes (apply_writes D ws) vs"
  by (simp_all add: apply_writes_def)

lemma apply_writes_other: "b \<notin> fst ` set ws \<Longrightarrow> apply_writes D ws b = D b"
  by (induction ws arbitrary: D) auto

lemma apply_writes_cong: "D b = E b \<Longrightarrow> apply_writes D ws b = apply_writes E ws b"
proof (induction ws arbitrary: D E)
  case (Cons w ws)
  then have "(D(fst w := snd w)) b = (E(fst w := snd w)) b" by simp
  then have "apply_writes (D(fst w := snd w)) ws b = apply_writes (E(fst w := snd w)) ws b" by (rule Cons.IH)
  then show ?case by (cases w) simp
qed simp

text \<open>Writes of a function of the block: the last value written is that of the block.\<close>

lemma apply_writes_fun:
  "apply_writes D (map (\<lambda>t. (f t, V (f t))) ts) b = (if b \<in> f ` set ts then V b else D b)"
  by (induction ts arbitrary: D) auto

lemma apply_writes_inj:
  assumes "inj_on f (set ts)" and "t \<in> set ts"
  shows "apply_writes D (map (\<lambda>t. (f t, v t)) ts) (f t) = v t"
  using assms
proof (induction ts arbitrary: D)
  case (Cons u ts)
  show ?case
  proof (cases "t \<in> set ts")
    case True
    then show ?thesis using Cons by (simp add: inj_on_def)
  next
    case False
    then have "f t \<notin> f ` set ts" using Cons.prems by (auto simp: inj_on_def)
    moreover have "t = u" using False Cons.prems by simp
    ultimately show ?thesis
      using apply_writes_other [of "f t" "map (\<lambda>t. (f t, v t)) ts" "D(f u := v u)"]
      by (simp add: image_image)
  qed
qed simp

text \<open>
  \<open>wrote s W t\<close>: from \<open>s\<close> to \<open>t\<close>, with no buffer left locked, exactly the block
  writes \<open>W\<close> were made, to the disk and to the contents alike.
\<close>

definition wrote :: "'z bcache_scheme \<Rightarrow> (uint \<times> bytes) list \<Rightarrow> 'z bcache_scheme \<Rightarrow> bool" where
  "wrote s W t \<longleftrightarrow> dwrites t = dwrites s @ W \<and> disk t = apply_writes (disk s) W \<and>
     bview t = apply_writes (bview s) W \<and> pinned t = pinned s - fst ` set W \<and> bframe s t"

lemma wrote_refl: "wrote s [] s"
  by (simp add: wrote_def)

lemma wrote_trans: "wrote s W t \<Longrightarrow> wrote t W' u \<Longrightarrow> wrote s (W @ W') u"
  by (auto simp: wrote_def intro: bframe_trans)

lemma wrote_keep: "wrote s W t \<Longrightarrow> bkeep t u \<Longrightarrow> wrote s W u"
  by (auto simp: wrote_def bkeep_def intro: bframe_trans)

lemma keep_wrote: "bkeep s t \<Longrightarrow> wrote t W u \<Longrightarrow> wrote s W u"
  by (auto simp: wrote_def bkeep_def intro: bframe_trans)

subsection \<open>Copying a block\<close>

lemma copy_data_apply:
  "copy_data to from s = Ret () (put_data to (bdata (bufs s from)) s)"
  by (simp add: copy_data_def kcore put_data_def)

text \<open>
  Two owned buffers, the data of one copied to the other, which is written, and
  both released, in either order.
\<close>

lemma copy_pair:
  assumes "cinv p [f \<mapsto> i, g \<mapsto> j] {} s" and "f \<noteq> g" and "g < disksize s"
  shows "ok (seqs [copy_data j i, bwrite j]) s (\<lambda>_ t. cinv p [f \<mapsto> i, g \<mapsto> j] {} t \<and>
    wrote s [(g, bview s f)] t)"
proof -
  let ?H = "[f \<mapsto> i, g \<mapsto> j]"
  have d: "bdata (bufs s i) = bview s f"
    using owns_data [OF cinvD(2) [OF assms(1)] cinvD(3) [OF assms(1), of f i]] assms(2) by simp
  have len: "length (bview s f) = BSIZE" by (rule length_bview [OF cinvD(2) [OF assms(1)]])
  let ?s = "put_data j (bview s f) s"
  have c: "cinv p ?H (insert g {}) ?s" and v: "bview ?s = (bview s)(g := bview s f)"
    using put_rule [OF assms(1) _ len, of g j] by simp_all
  have "ok (bwrite j) ?s (\<lambda>_ t. cinv p ?H {} t \<and> wrote s [(g, bview s f)] t)"
  proof (rule ok_mono [OF bwrite_rule [OF c, of g j]])
    fix t assume "cinv p ?H (insert g {} - {g}) t \<and> bview t = bview ?s \<and>
      disk t = (disk ?s)(g := bview ?s g) \<and> dwrites t = dwrites ?s @ [(g, bview ?s g)] \<and>
      pinned t = pinned ?s - {g} \<and> bframe ?s t"
    then show "cinv p ?H {} t \<and> wrote s [(g, bview s f)] t"
      using v bframe_trans [OF bframe_put [of s j "bview s f"]]
      by (simp add: wrote_def) (simp add: put_data_def)
  qed (use assms(3) in \<open>simp_all add: put_data_def\<close>)
  then show ?thesis
    by (simp add: ok_def bnd_apply copy_data_apply d ret_apply split: outcome.splits)
qed

text \<open>
  The bodies of the loops of \<open>install_trans\<close> and \<open>write_log\<close>, which differ in the
  direction of the copy and the order of the releases.
\<close>

lemma two_reads:
  assumes "cinv p Map.empty {} s" and "f \<noteq> g" and "f < disksize s" "g < disksize s"
    and "card (pinned s) < NBUF" and "g \<in> pinned s \<or> card (pinned s) + 1 < NBUF"
    and "\<And>i j t. cinv p [f \<mapsto> i, g \<mapsto> j] {} t \<Longrightarrow> bkeep s t \<Longrightarrow> ok (m i j) t Q"
  shows "ok (bnd (bread 1 f) (\<lambda>i. bnd (bread 1 g) (\<lambda>j. m i j))) s Q"
proof (rule ok_bndI [OF bread_rule [OF assms(1,3)]])
  fix i t assume t: "cinv p [f \<mapsto> i] ({} - {f}) t \<and> bkeep s t"
  then have k: "pinned t = pinned s" "disksize t = disksize s"
    using bkeepD by blast+
  show "ok (bnd (bread 1 g) (\<lambda>j. m i j)) t Q"
  proof (rule ok_bndI [OF bread_rule])
    show "cinv p [f \<mapsto> i] {} t" using t by simp
    show "g < disksize t" "[f \<mapsto> i] g = None" using k assms(2,4) by simp_all
    show "g \<in> pinned t \<or> card (pinned t) + card (dom [f \<mapsto> i]) < NBUF"
      using assms(6) k by simp
    fix j u assume "cinv p [f \<mapsto> i, g \<mapsto> j] ({} - {g}) u \<and> bkeep t u"
    then show "ok (m i j) u Q" using t by (intro assms(7)) (auto intro: bkeep_trans)
  qed
qed (use assms(5) in simp_all)

lemma two_releases:
  assumes "cinv p H {} s" and "H f = Some i" "H g = Some j" "f \<noteq> g" and "dom H = {f, g}"
  shows "ok (seqs [brelse i, brelse j]) s (\<lambda>_ t. cinv p Map.empty {} t \<and> bkeep s t)"
  unfolding seqs.simps
proof (rule ok_bndI [OF brelse_rule [OF assms(1,2)]])
  fix t assume t: "cinv p (H(f := None)) {} t \<and> bkeep s t"
  have e: "H(f := None, g := None) = Map.empty"
    using assms(5) by (auto simp: fun_eq_iff)
  show "ok (bnd (brelse j) (\<lambda>_. ret ())) t (\<lambda>_ u. cinv p Map.empty {} u \<and> bkeep s u)"
    using brelse_rule [of p "H(f := None)" "{}" t g j] t assms(3,4)
    by (auto simp: e intro: bkeep_trans elim!: ok_mono)
qed simp

lemma install_step:
  assumes "cinv p Map.empty {} s" and "f \<noteq> g" and "f < disksize s" "g < disksize s"
    and "card (pinned s) < NBUF" and "g \<in> pinned s \<or> card (pinned s) + 1 < NBUF"
  shows "ok (bnd (bread 1 f) (\<lambda>lbuf. bnd (bread 1 g) (\<lambda>dbuf.
      seqs [copy_data dbuf lbuf, bwrite dbuf, brelse lbuf, brelse dbuf]))) s
    (\<lambda>_ t. cinv p Map.empty {} t \<and> wrote s [(g, bview s f)] t)"
proof (rule two_reads [OF assms])
  fix i j t assume c: "cinv p [f \<mapsto> i, g \<mapsto> j] {} t" and k: "bkeep s t"
  have split: "seqs [copy_data j i, bwrite j, brelse i, brelse j] =
      bnd (seqs [copy_data j i, bwrite j]) (\<lambda>_. seqs [brelse i, brelse j])"
    by (simp add: bnd_assoc)
  have sz: "g < disksize t" "bview t f = bview s f"
    using bkeepD [OF k] assms(4) by simp_all
  have rel: "ok (seqs [brelse i, brelse j]) u (\<lambda>_ v. cinv p Map.empty {} v \<and> wrote s [(g, bview s f)] v)"
    if "cinv p [f \<mapsto> i, g \<mapsto> j] {} u \<and> wrote t [(g, bview t f)] u" for u
    using that k sz(2) assms(2)
    by (intro ok_mono [OF two_releases [of p "[f \<mapsto> i, g \<mapsto> j]" u f i g j]])
      (auto intro: wrote_keep keep_wrote)
  show "ok (seqs [copy_data j i, bwrite j, brelse i, brelse j]) t
      (\<lambda>_ v. cinv p Map.empty {} v \<and> wrote s [(g, bview s f)] v)"
    unfolding split by (rule ok_bndI [OF copy_pair [OF c assms(2) sz(1)] rel])
qed

lemma write_step:
  assumes "cinv p Map.empty {} s" and "f \<noteq> g" and "f < disksize s" "g < disksize s"
    and "card (pinned s) < NBUF" and "g \<in> pinned s \<or> card (pinned s) + 1 < NBUF"
  shows "ok (bnd (bread 1 f) (\<lambda>to. bnd (bread 1 g) (\<lambda>from.
      seqs [copy_data to from, bwrite to, brelse from, brelse to]))) s
    (\<lambda>_ t. cinv p Map.empty {} t \<and> wrote s [(f, bview s g)] t)"
proof (rule two_reads [OF assms])
  fix i j t assume c: "cinv p [f \<mapsto> i, g \<mapsto> j] {} t" and k: "bkeep s t"
  have c': "cinv p [g \<mapsto> j, f \<mapsto> i] {} t"
    using c assms(2) by (simp add: fun_upd_twist)
  have split: "seqs [copy_data i j, bwrite i, brelse j, brelse i] =
      bnd (seqs [copy_data i j, bwrite i]) (\<lambda>_. seqs [brelse j, brelse i])"
    by (simp add: bnd_assoc)
  have sz: "f < disksize t" "bview t g = bview s g"
    using bkeepD [OF k] assms(3) by simp_all
  have rel: "ok (seqs [brelse j, brelse i]) u (\<lambda>_ v. cinv p Map.empty {} v \<and> wrote s [(f, bview s g)] v)"
    if "cinv p [g \<mapsto> j, f \<mapsto> i] {} u \<and> wrote t [(f, bview t g)] u" for u
    using that k sz(2) assms(2)
    by (intro ok_mono [OF two_releases [of p "[g \<mapsto> j, f \<mapsto> i]" u g j f i]])
      (auto intro: wrote_keep keep_wrote)
  show "ok (seqs [copy_data i j, bwrite i, brelse j, brelse i]) t
      (\<lambda>_ v. cinv p Map.empty {} v \<and> wrote s [(f, bview s g)] v)"
    unfolding split by (rule ok_bndI [OF copy_pair [OF c' assms(2) [symmetric] sz(1)] rel])
qed

subsection \<open>The log on the disk\<close>

definition lblk :: "uint \<Rightarrow> nat \<Rightarrow> uint" where
  "lblk st t = st + of_nat t + 1"

definition in_log :: "'z log_scheme \<Rightarrow> uint \<Rightarrow> bool" where
  "in_log s b \<longleftrightarrow> unat (lstart s) \<le> unat b \<and> unat b < unat (lstart s) + nat (lsize s)"

text \<open>The log lies on the disk and is as large as mkfs makes it, or smaller.\<close>

definition log_geom :: "'z log_scheme \<Rightarrow> bool" where
  "log_geom s \<longleftrightarrow> ldev s = 1 \<and> 2 \<le> lsize s \<and> lsize s \<le> int LOGSIZE \<and>
     unat (lstart s) + nat (lsize s) \<le> unat (disksize s)"

text \<open>A set of \<open>n\<close> distinct home blocks the log can hold.\<close>

definition txn :: "'z log_scheme \<Rightarrow> nat \<Rightarrow> (nat \<Rightarrow> uint) \<Rightarrow> bool" where
  "txn s n blk \<longleftrightarrow> int n < lsize s \<and> inj_on blk {..<n} \<and>
     (\<forall>t < n. blk t < disksize s \<and> \<not> in_log s (blk t))"

lemma lblk_bounds:
  assumes "log_geom s" and "int t + 1 < lsize s"
  shows "unat (lblk (lstart s) t) = unat (lstart s) + t + 1" "lblk (lstart s) t < disksize s"
    "in_log s (lblk (lstart s) t)" "lblk (lstart s) t \<noteq> lstart s"
proof -
  have g: "unat (lstart s) + nat (lsize s) \<le> unat (disksize s)" "t + 1 < nat (lsize s)"
    using assms by (simp_all add: log_geom_def)
  have "unat (lstart s) + t + 1 < 2 ^ 32"
    using unat_lt32 [of "disksize s"] g by simp
  then show u: "unat (lblk (lstart s) t) = unat (lstart s) + t + 1"
    by (simp add: lblk_def unat_word_ariths unat_of_nat)
  show "lblk (lstart s) t < disksize s" "in_log s (lblk (lstart s) t)"
    using g by (simp_all add: word_less_nat_alt u in_log_def)
  show "lblk (lstart s) t \<noteq> lstart s" using u by fastforce
qed

lemma lstart_bounds:
  assumes "log_geom s" shows "lstart s < disksize s" "in_log s (lstart s)"
proof -
  have "unat (lstart s) + nat (lsize s) \<le> unat (disksize s)" "0 < nat (lsize s)"
    using assms by (simp_all add: log_geom_def)
  then show "lstart s < disksize s" "in_log s (lstart s)"
    by (simp_all add: in_log_def word_less_nat_alt)
qed

lemma lblk_inj:
  assumes "log_geom s" and "int n < lsize s"
  shows "inj_on (lblk (lstart s)) {..<n}"
proof (rule inj_onI)
  fix t u assume "t \<in> {..<n}" "u \<in> {..<n}" "lblk (lstart s) t = lblk (lstart s) u"
  moreover from this assms(2) have "int t + 1 < lsize s" "int u + 1 < lsize s" by auto
  ultimately show "t = u"
    using lblk_bounds(1) [OF assms(1), of t] lblk_bounds(1) [OF assms(1), of u] by (metis add_right_cancel add_left_cancel)
qed

definition enc_head :: "bytes \<Rightarrow> nat \<Rightarrow> (nat \<Rightarrow> uint) \<Rightarrow> bytes" where
  "enc_head d n blk = put_array put32 4 4 blk n (put32 d 0 (of_nat n))"

definition head_n :: "bytes \<Rightarrow> int" where "head_n d = sint (get32 d 0)"
definition head_block :: "bytes \<Rightarrow> nat \<Rightarrow> uint" where "head_block d i = get32 d (4 + 4 * i)"

lemma length_enc_head [simp]: "length (enc_head d n blk) = length d"
  by (simp add: enc_head_def f32.length_put_array)

lemma sint_of_small: "n \<le> 30 \<Longrightarrow> sint (of_nat n :: uint) = int n"
  by (simp add: signed_of_nat signed_take_bit_int_eq_self)

lemma head_enc:
  assumes "length d = BSIZE" and "n \<le> LOGSIZE"
  shows "head_n (enc_head d n blk) = int n" "i < n \<Longrightarrow> head_block (enc_head d n blk) i = blk i"
proof -
  have n: "n \<le> 30" using assms(2) by (simp add: param_defs)
  have "get32 (enc_head d n blk) 0 = of_nat n"
    using assms(1) by (simp add: enc_head_def f32.get_put_array_other f32.get_put BSIZE_def)
  then show "head_n (enc_head d n blk) = int n"
    using n by (simp add: head_n_def sint_of_small)
  show "head_block (enc_head d n blk) i = blk i" if "i < n"
    using that n assms(1) f32.get_put_array [of i n 4 "put32 d 0 (of_nat n)" blk]
    by (simp add: head_block_def enc_head_def BSIZE_def)
qed

subsection \<open>The loops of the log\<close>

definition log_writes :: "uint \<Rightarrow> nat \<Rightarrow> (nat \<Rightarrow> uint) \<Rightarrow> (uint \<Rightarrow> bytes) \<Rightarrow> (uint \<times> bytes) list" where
  "log_writes st n blk V = map (\<lambda>t. (lblk st t, V (blk t))) [0..<n]"

definition inst_writes :: "uint \<Rightarrow> nat \<Rightarrow> (nat \<Rightarrow> uint) \<Rightarrow> (uint \<Rightarrow> bytes) \<Rightarrow> (uint \<times> bytes) list" where
  "inst_writes st n blk V = map (\<lambda>t. (blk t, V (lblk st t))) [0..<n]"

lemma fst_log_writes: "fst ` set (log_writes st n blk V) = lblk st ` {..<n}"
  and fst_inst_writes: "fst ` set (inst_writes st n blk V) = blk ` {..<n}"
  by (auto simp: log_writes_def inst_writes_def image_image atLeast0LessThan)

lemma log_writes_Suc: "log_writes st (Suc n) blk V = log_writes st n blk V @ [(lblk st n, V (blk n))]"
  and inst_writes_Suc: "inst_writes st (Suc n) blk V = inst_writes st n blk V @ [(blk n, V (lblk st n))]"
  by (simp_all add: log_writes_def inst_writes_def)

lemma log_fields:
  assumes "bframe (s :: 'z log_scheme) t"
  shows "lstart t = lstart s" "lsize t = lsize s" "outstanding t = outstanding s"
    "committing t = committing s" "ldev t = ldev s" "lh_n t = lh_n s" "lh_block t = lh_block s"
    "log_geom t = log_geom s" "in_log t b = in_log s b" "txn t n blk = txn s n blk"
proof -
  show f: "lstart t = lstart s" "lsize t = lsize s" "outstanding t = outstanding s"
    "committing t = committing s" "ldev t = ldev s" "lh_n t = lh_n s" "lh_block t = lh_block s"
    using assms unfolding bframe_def by auto
  show "in_log t b = in_log s b" for b using f by (simp add: in_log_def)
  then show "log_geom t = log_geom s" "txn t n blk = txn s n blk"
    using f bframe_simps(10) [OF assms] by (simp_all add: log_geom_def txn_def)
qed

lemma wroteD:
  assumes "wrote s W t"
  shows "bview t = apply_writes (bview s) W" "disk t = apply_writes (disk s) W"
    "dwrites t = dwrites s @ W" "pinned t = pinned s - fst ` set W" "bframe s t"
    "disksize t = disksize s"
  using assms bframe_simps(10) [of s t] by (simp_all add: wrote_def)

lemma write_log_rule:
  assumes c: "cinv p Map.empty {} s" and g: "log_geom s" and T: "txn s (nat (lh_n s)) (lh_block s)"
    and pin: "\<And>t. t < nat (lh_n s) \<Longrightarrow> lh_block s t \<in> pinned s" "\<And>b. in_log s b \<Longrightarrow> b \<notin> pinned s"
    and room: "card (pinned s) < NBUF"
  shows "ok write_log s (\<lambda>_ t. cinv p Map.empty {} t \<and>
    wrote s (log_writes (lstart s) (nat (lh_n s)) (lh_block s) (bview s)) t)"
proof -
  let ?st = "lstart s" and ?n = "nat (lh_n s)" and ?blk = "lh_block s"
  let ?W = "\<lambda>k. log_writes ?st k ?blk (bview s)"
  let ?body = "\<lambda>tail. bnd (bread 1 (?st + of_nat tail + 1)) (\<lambda>to. bnd (bread 1 (?blk tail)) (\<lambda>from.
      seqs [copy_data to from, bwrite to, brelse from, brelse to]))"
  have "ok (for_each [0..<?n] ?body) s (\<lambda>_ t. cinv p Map.empty {} t \<and> wrote s (?W (length [0..<?n])) t)"
  proof (rule ok_for_each)
    show "cinv p Map.empty {} s \<and> wrote s (?W 0) s" using c by (simp add: log_writes_def wrote_refl)
    fix k t assume k: "k < length [0..<?n]" and t: "cinv p Map.empty {} t \<and> wrote s (?W k) t"
    then have kn: "k < ?n" "[0..<?n] ! k = k" by simp_all
    note w = wroteD [OF conjunct2 [OF t]]
    have "int ?n < lsize s" using T unfolding txn_def by blast
    then have l: "int k + 1 < lsize s" using kn(1) by linarith
    note lb = lblk_bounds [OF g l]
    have fw: "fst ` set (?W k) \<subseteq> {b. in_log s b}"
      using lblk_bounds(3) [OF g] l by (auto simp: fst_log_writes)
    then have "pinned t = pinned s" using w(4) pin(2) by auto
    moreover have "bview t (?blk k) = bview s (?blk k)"
      using T kn(1) fw unfolding w(1) txn_def by (intro apply_writes_other) auto
    moreover have "?blk k < disksize s" "?blk k \<noteq> lblk ?st k"
      using T kn(1) lb(3) by (auto simp: txn_def)
    ultimately have "ok (?body k) t (\<lambda>_ u. cinv p Map.empty {} u \<and> wrote t [(lblk ?st k, bview s (?blk k))] u)"
      using write_step [of p t "lblk ?st k" "?blk k"] t pin(1) [OF kn(1)] room lb(2) w(6)
      by (simp add: lblk_def)
    then show "ok (?body ([0..<?n] ! k)) t (\<lambda>_ u. cinv p Map.empty {} u \<and> wrote s (?W (Suc k)) u)"
      unfolding kn(2) log_writes_Suc using wrote_trans [OF conjunct2 [OF t]]
      by (elim ok_mono) blast
  qed
  then show ?thesis using g by (simp add: write_log_def log_geom_def)
qed

lemma install_rule:
  assumes c: "cinv p Map.empty {} s" and g: "log_geom s" and T: "txn s (nat (lh_n s)) (lh_block s)"
    and pin: "pinned s = {} \<or> (\<forall>t < nat (lh_n s). lh_block s t \<in> pinned s)"
    and room: "card (pinned s) < NBUF"
  shows "ok install_trans s (\<lambda>_ t. cinv p Map.empty {} t \<and>
    wrote s (inst_writes (lstart s) (nat (lh_n s)) (lh_block s) (bview s)) t)"
proof -
  let ?st = "lstart s" and ?n = "nat (lh_n s)" and ?blk = "lh_block s"
  let ?W = "\<lambda>k. inst_writes ?st k ?blk (bview s)"
  let ?body = "\<lambda>tail. bnd (bread 1 (?st + of_nat tail + 1)) (\<lambda>lbuf. bnd (bread 1 (?blk tail)) (\<lambda>dbuf.
      seqs [copy_data dbuf lbuf, bwrite dbuf, brelse lbuf, brelse dbuf]))"
  have "ok (for_each [0..<?n] ?body) s (\<lambda>_ t. cinv p Map.empty {} t \<and> wrote s (?W (length [0..<?n])) t)"
  proof (rule ok_for_each)
    show "cinv p Map.empty {} s \<and> wrote s (?W 0) s" using c by (simp add: inst_writes_def wrote_refl)
    fix k t assume k: "k < length [0..<?n]" and t: "cinv p Map.empty {} t \<and> wrote s (?W k) t"
    then have kn: "k < ?n" "[0..<?n] ! k = k" by simp_all
    note w = wroteD [OF conjunct2 [OF t]]
    have "int ?n < lsize s" using T unfolding txn_def by blast
    then have l: "int k + 1 < lsize s" using kn(1) by linarith
    note lb = lblk_bounds [OF g l]
    have b: "?blk u < disksize s \<and> \<not> in_log s (?blk u)" if "u < ?n" for u
      using T that by (simp add: txn_def)
    have "inj_on ?blk {..<?n}" using T unfolding txn_def by blast
    then have inj: "?blk k \<notin> ?blk ` {..<k}" using kn(1) by (fastforce dest: inj_onD)
    have "?blk k \<in> pinned t \<or> card (pinned t) + 1 < NBUF"
      using pin kn(1) inj unfolding w(4) fst_inst_writes by (auto simp: param_defs)
    moreover have "card (pinned t) < NBUF"
      using room unfolding w(4)
      by (meson card_mono Diff_subset le_less_trans finite_pinned)
    moreover have "bview t (lblk ?st k) = bview s (lblk ?st k)"
      unfolding w(1) using b kn(1) lb(3) by (intro apply_writes_other) (auto simp: fst_inst_writes)
    moreover have "?blk k < disksize t" "lblk ?st k < disksize t" "lblk ?st k \<noteq> ?blk k"
      using b [OF kn(1)] lb(2,3) w(6) by auto
    ultimately have "ok (?body k) t (\<lambda>_ u. cinv p Map.empty {} u \<and> wrote t [(?blk k, bview s (lblk ?st k))] u)"
      using install_step [of p t "lblk ?st k" "?blk k"] t by (simp add: lblk_def)
    then show "ok (?body ([0..<?n] ! k)) t (\<lambda>_ u. cinv p Map.empty {} u \<and> wrote s (?W (Suc k)) u)"
      unfolding kn(2) inst_writes_Suc using wrote_trans [OF conjunct2 [OF t]]
      by (elim ok_mono) blast
  qed
  then show ?thesis using g by (simp add: install_trans_def log_geom_def)
qed

lemma put_head_loop:
  "for_each [0..<n] (\<lambda>i. buf_upd b (\<lambda>x. x\<lparr>bdata := put32 (bdata x) (4 + 4 * i) (blk i)\<rparr>)) s =
   Ret () (put_data b (put_array put32 4 4 blk n (bdata (bufs s b))) s)"
proof (induction n)
  case 0
  then show ?case by (simp add: ret_apply put_data_def)
next
  case (Suc n)
  then show ?case by (simp add: for_each_append kcore put_data_def put_array_Suc)
qed

lemma write_head_rule:
  assumes c: "cinv p Map.empty {} s" and g: "log_geom s" and n: "0 \<le> lh_n s" "lh_n s \<le> int LOGSIZE"
    and room: "card (pinned s) < NBUF"
  shows "ok write_head s (\<lambda>_ t. cinv p Map.empty {} t \<and>
    wrote s [(lstart s, enc_head (bview s (lstart s)) (nat (lh_n s)) (lh_block s))] t)"
proof -
  let ?st = "lstart s" and ?n = "nat (lh_n s)" and ?blk = "lh_block s"
  let ?d = "enc_head (bview s ?st) ?n ?blk"
  let ?upd = "\<lambda>b. seqs [buf_upd b (\<lambda>x. x\<lparr>bdata := put32 (bdata x) 0 (of_int (lh_n s))\<rparr>),
         for_each [0..<?n] (\<lambda>i. buf_upd b (\<lambda>x. x\<lparr>bdata := put32 (bdata x) (4 + 4 * i) (?blk i)\<rparr>)),
         bwrite b, brelse b]"
  have "ok (bnd (bread 1 ?st) ?upd) s (\<lambda>_ t. cinv p Map.empty {} t \<and> wrote s [(?st, ?d)] t)"
  proof (rule ok_bndI [OF bread_rule [OF c lstart_bounds(1) [OF g]]])
    fix b t assume t: "cinv p [?st \<mapsto> b] ({} - {?st}) t \<and> bkeep s t"
    then have ct: "cinv p [?st \<mapsto> b] {} t" and k: "bkeep s t" by simp_all
    note K = bkeepD [OF k]
    have d: "bdata (bufs t b) = bview s ?st"
      using owns_data [OF cinvD(2) [OF ct] cinvD(3) [OF ct, of ?st b]] K(1) by simp
    have len: "length ?d = BSIZE" by (simp add: length_bview [OF cinvD(2) [OF c]])
    let ?t = "put_data b ?d t"
    note P = put_rule [OF ct _ len, of ?st b]
    have st: "?st < disksize ?t" using K(6) lstart_bounds(1) [OF g] bframe_simps(10) [OF bframe_put] by metis
    have "ok (bwrite b) ?t (\<lambda>_ u. ok (brelse b) u (\<lambda>_ v. cinv p Map.empty {} v \<and> wrote s [(?st, ?d)] v))"
    proof (rule ok_mono [OF bwrite_rule [OF P(1) _ st, of b]])
      fix u assume u: "cinv p [?st \<mapsto> b] (insert ?st {} - {?st}) u \<and> bview u = bview ?t \<and>
        disk u = (disk ?t)(?st := bview ?t ?st) \<and> dwrites u = dwrites ?t @ [(?st, bview ?t ?st)] \<and>
        pinned u = pinned ?t - {?st} \<and> bframe ?t u"
      have "bframe s u" using u bframe_trans [OF bframe_trans [OF K(5) bframe_put [of t b ?d]]] by blast
      moreover have "disk ?t = disk t" "dwrites ?t = dwrites t" by (simp_all add: put_data_def)
      ultimately have "wrote s [(?st, ?d)] u"
        using u P(2) K(1-4) by (simp add: wrote_def)
      then show "ok (brelse b) u (\<lambda>_ v. cinv p Map.empty {} v \<and> wrote s [(?st, ?d)] v)"
        using u by (intro ok_mono [OF brelse_rule [of p "[?st \<mapsto> b]" "{}" u ?st b]])
          (auto intro: wrote_keep)
    qed simp_all
    moreover have "of_int (lh_n s) = (of_nat ?n :: uint)" using n(1) by (metis of_nat_nat of_int_of_nat_eq)
    ultimately show "ok (?upd b) t (\<lambda>_ t. cinv p Map.empty {} t \<and> wrote s [(?st, ?d)] t)"
      using d by (simp add: ok_def bnd_apply kcore put_head_loop)
        (simp add: put_data_def enc_head_def split: outcome.splits)
  qed (use room in simp_all)
  then show ?thesis using g n(2) by (simp add: write_head_def log_geom_def)
qed

subsection \<open>The in-memory header\<close>

lemma same_cache_log [simp]:
  "same_cache s (s\<lparr>lh_n := n\<rparr>)" "same_cache s (s\<lparr>lh_block := blk\<rparr>)" "same_cache s (s\<lparr>outstanding := out\<rparr>)"
  "same_cache s (s\<lparr>committing := com\<rparr>)" "same_cache s (s\<lparr>lstart := st\<rparr>)" "same_cache s (s\<lparr>lsize := sz\<rparr>)"
  "same_cache s (s\<lparr>ldev := dv\<rparr>)"
  by (simp_all add: same_cache_def)

lemmas log_cache_simps [simp] =
  same_cache_log [THEN same_cache_preds(1)] same_cache_log [THEN same_cache_preds(2)]
  same_cache_log [THEN same_cache_preds(3)] same_cache_log [THEN same_cache_preds(4)]

lemma log_geom_simps [simp]:
  "log_geom (s\<lparr>lh_n := n\<rparr>) = log_geom s" "log_geom (s\<lparr>lh_block := blk\<rparr>) = log_geom s"
  "in_log (s\<lparr>lh_n := n\<rparr>) b = in_log s b" "in_log (s\<lparr>lh_block := blk\<rparr>) b = in_log s b"
  "txn (s\<lparr>lh_n := n\<rparr>) k f = txn s k f" "txn (s\<lparr>lh_block := blk\<rparr>) k f = txn s k f"
  by (simp_all add: log_geom_def txn_def in_log_def)

lemma bframe_header:
  "bframe s t \<Longrightarrow> bframe (s\<lparr>lh_n := n, lh_block := blk\<rparr>) (t\<lparr>lh_n := n, lh_block := blk\<rparr>)"
proof -
  assume "bframe s t"
  then obtain pr sl bf dk dw where
    t: "t = s\<lparr>procs := pr, slocks := sl, bufs := bf, disk := dk, dwrites := dw\<rparr>"
      "\<forall>i. (pr i)\<lparr>pstate := pstate (procs s i)\<rparr> = procs s i"
      "\<forall>l. (\<forall>i. l \<noteq> BufLock i) \<longrightarrow> sl l = slocks s l"
    unfolding bframe_def by blast
  show ?thesis
    unfolding bframe_def
    by (intro exI [of _ pr] exI [of _ sl] exI [of _ bf] exI [of _ dk] exI [of _ dw]) (simp add: t)
qed

lemma bkeep_header:
  "bkeep s t \<Longrightarrow> bkeep (s\<lparr>lh_n := n, lh_block := blk\<rparr>) (t\<lparr>lh_n := n, lh_block := blk\<rparr>)"
  using bframe_header by (auto simp: bkeep_def)

lemma wrote_header:
  "wrote s W t \<Longrightarrow> wrote (s\<lparr>lh_n := n, lh_block := blk\<rparr>) W (t\<lparr>lh_n := n, lh_block := blk\<rparr>)"
  using bframe_header by (auto simp: wrote_def)

lemma read_head_loop:
  "for_each [0..<n] (\<lambda>i. mods (\<lambda>s. s\<lparr>lh_block := (lh_block s)(i := f i)\<rparr>)) s =
   Ret () (s\<lparr>lh_block := (\<lambda>i. if i < n then f i else lh_block s i)\<rparr>)"
proof (induction n)
  case 0
  then show ?case by (simp add: ret_apply)
next
  case (Suc n)
  have "(\<lambda>i. if i < n then f i else lh_block s i)(n := f n) = (\<lambda>i. if i < Suc n then f i else lh_block s i)"
    by (auto simp: less_Suc_eq)
  with Suc show ?case by (simp add: for_each_append kops del: fun_upd_apply)
qed

lemma read_head_rule:
  assumes c: "cinv p Map.empty {} s" and g: "log_geom s" and d: "d = bview s (lstart s)"
    and n: "head_n d \<le> int LOGSIZE" and room: "card (pinned s) < NBUF"
  shows "ok read_head s (\<lambda>_ t. cinv p Map.empty {} t \<and> bkeep (s\<lparr>lh_n := head_n d,
    lh_block := (\<lambda>i. if i < nat (head_n d) then head_block d i else lh_block s i)\<rparr>) t)"
proof -
  let ?st = "lstart s"
  let ?h = "\<lambda>s. s\<lparr>lh_n := head_n d, lh_block := (\<lambda>i. if i < nat (head_n d) then head_block d i else lh_block s i)\<rparr>"
  let ?rest = "\<lambda>b. bnd (buf_get b bdata) (\<lambda>d.
     bnd (mods (\<lambda>s. s\<lparr>lh_n := sint (get32 d 0)\<rparr>)) (\<lambda>_.
       if sint (get32 d 0) > int LOGSIZE then wild ''read_head''
       else seqs [
         for_each [0..<nat (sint (get32 d 0))] (\<lambda>i.
           mods (\<lambda>s. s\<lparr>lh_block := (lh_block s)(i := get32 d (4 + 4 * i))\<rparr>)),
         brelse b]))"
  have "ok (bnd (bread 1 ?st) ?rest) s (\<lambda>_ t. cinv p Map.empty {} t \<and> bkeep (?h s) t)"
  proof (rule ok_bndI [OF bread_rule [OF c lstart_bounds(1) [OF g]]])
    fix b t assume "cinv p [?st \<mapsto> b] ({} - {?st}) t \<and> bkeep s t"
    then have ct: "cinv p [?st \<mapsto> b] {} t" and k: "bkeep s t" by simp_all
    have bd: "bdata (bufs t b) = d"
      using owns_data [OF cinvD(2) [OF ct] cinvD(3) [OF ct, of ?st b]] bkeepD(1) [OF k] d by simp
    have r: "ok (brelse b) (?h t) (\<lambda>_ u. cinv p Map.empty {} u \<and> bkeep (?h t) u)"
      using brelse_rule [of p "[?st \<mapsto> b]" "{}" "?h t" ?st b] ct by simp
    have lb: "lh_block t = lh_block s" using log_fields(7) [OF bkeepD(5) [OF k]] .
    have kh: "bkeep (?h s) (?h t)" unfolding lb by (rule bkeep_header [OF k])
    have q: "ok (brelse b) (?h t) (\<lambda>_ u. cinv p Map.empty {} u \<and> bkeep (?h s) u)"
      by (rule ok_mono [OF r]) (blast intro: bkeep_trans [OF kh])
    have "?rest b t = bnd (brelse b) (\<lambda>_. ret ()) (?h t)"
      using n bd by (simp add: bnd_apply kcore read_head_loop head_n_def head_block_def not_less cong: if_cong)
    then show "ok (?rest b) t (\<lambda>_ u. cinv p Map.empty {} u \<and> bkeep (?h s) u)"
      using q by (simp add: ok_def bnd_apply ret_apply split: outcome.splits)
  qed (use room in simp_all)
  then show ?thesis using g by (simp add: read_head_def log_geom_def)
qed

end
