(* ===== verification/Recovery.thy ===== *)
theory Recovery
  imports Log
begin

text \<open>
  Crash safety of the write-ahead log (log.c): the disk writes \<open>commit\<close> makes, in
  order, and what \<open>initlog\<close> at the next boot makes of the disk when the machine
  stopped after any number of them. Recovery delivers either the contents from
  before the transaction or those after it, never a mixture, and gives the same
  disk when it is itself interrupted and run again.
\<close>

subsection \<open>Committing\<close>

text \<open>
  The state in which \<open>commit\<close> starts: no buffer is locked, the blocks the log
  pins in the cache are those of the header, and the header on the disk is clear.
\<close>

definition log_ready :: "nat \<Rightarrow> 'z log_scheme \<Rightarrow> bool" where
  "log_ready p s \<longleftrightarrow> cinv p Map.empty {} s \<and> log_geom s \<and> 0 \<le> lh_n s \<and>
     txn s (nat (lh_n s)) (lh_block s) \<and> pinned s = lh_block s ` {..<nat (lh_n s)} \<and>
     head_n (disk s (lstart s)) = 0"

definition home_writes :: "nat \<Rightarrow> (nat \<Rightarrow> uint) \<Rightarrow> (uint \<Rightarrow> bytes) \<Rightarrow> (uint \<times> bytes) list" where
  "home_writes n blk V = map (\<lambda>t. (blk t, V (blk t))) [0..<n]"

definition commit_writes :: "uint \<Rightarrow> nat \<Rightarrow> (nat \<Rightarrow> uint) \<Rightarrow> (uint \<Rightarrow> bytes) \<Rightarrow> (uint \<times> bytes) list" where
  "commit_writes st n blk V =
     log_writes st n blk V @ [(st, enc_head (V st) n blk)] @
     home_writes n blk V @ [(st, enc_head (enc_head (V st) n blk) 0 blk)]"

lemma fst_home_writes: "fst ` set (home_writes n blk V) = blk ` {..<n}"
  by (auto simp: home_writes_def image_image atLeast0LessThan)

lemma log_readyD:
  assumes "log_ready p s"
  shows "cinv p Map.empty {} s" "log_geom s" "0 \<le> lh_n s" "txn s (nat (lh_n s)) (lh_block s)"
    "pinned s = lh_block s ` {..<nat (lh_n s)}" "head_n (disk s (lstart s)) = 0"
    "lh_n s \<le> int LOGSIZE" "card (pinned s) < NBUF" "in_log s b \<Longrightarrow> b \<notin> pinned s"
    "nat (lh_n s) \<le> LOGSIZE"
proof -
  show r: "cinv p Map.empty {} s" "log_geom s" "0 \<le> lh_n s" "txn s (nat (lh_n s)) (lh_block s)"
    "pinned s = lh_block s ` {..<nat (lh_n s)}" "head_n (disk s (lstart s)) = 0"
    using assms by (simp_all add: log_ready_def)
  have n: "lh_n s < lsize s" "lsize s \<le> int LOGSIZE" using r(2-4) by (simp_all add: log_geom_def txn_def)
  then show "lh_n s \<le> int LOGSIZE" "nat (lh_n s) \<le> LOGSIZE" by simp_all
  have "card (pinned s) \<le> nat (lh_n s)"
    unfolding r(5) using card_image_le [of "{..<nat (lh_n s)}" "lh_block s"] by simp
  then show "card (pinned s) < NBUF" using n r(3) by (simp add: param_defs)
  show "b \<notin> pinned s" if "in_log s b" using r(4,5) that by (auto simp: txn_def)
qed

lemma home_inst:
  assumes "log_geom s" and "txn s n blk" and "\<And>t. t < n \<Longrightarrow> D (lblk (lstart s) t) = V (blk t)"
  shows "inst_writes (lstart s) n blk D = home_writes n blk V"
  using assms(3) by (simp add: inst_writes_def home_writes_def)

lemma txn_room: "txn s n blk \<Longrightarrow> t < n \<Longrightarrow> int t + 1 < lsize s"
  by (simp add: txn_def)

lemma log_writes_in_log:
  "log_geom s \<Longrightarrow> txn s n blk \<Longrightarrow> b \<in> fst ` set (log_writes (lstart s) n blk V) \<Longrightarrow> in_log s b"
  unfolding fst_log_writes by (metis imageE lblk_bounds(3) lessThan_iff txn_room)

text \<open>After the log and its header are written, the log holds the home blocks.\<close>

lemma logged:
  assumes g: "log_geom s" and T: "txn s n blk" and t: "t < n"
  shows "apply_writes D (log_writes (lstart s) n blk V @ [(lstart s, h)]) (lblk (lstart s) t) = V (blk t)"
proof -
  have n: "int n < lsize s" using T by (simp add: txn_def)
  then have "apply_writes D (log_writes (lstart s) n blk V) (lblk (lstart s) t) = V (blk t)"
    using apply_writes_inj [of "lblk (lstart s)" "[0..<n]" t D "\<lambda>t. V (blk t)"] lblk_inj [OF g n] t
    by (simp add: log_writes_def atLeast0LessThan)
  moreover have "lblk (lstart s) t \<noteq> lstart s" using lblk_bounds(4) [OF g, of t] n t by linarith
  ultimately show ?thesis by simp
qed

lemma header_unchanged:
  assumes "log_geom s" and "txn s n blk"
  shows "apply_writes D (log_writes (lstart s) n blk V) (lstart s) = D (lstart s)"
    "apply_writes D (home_writes n blk V) (lstart s) = D (lstart s)"
proof -
  have "lstart s \<notin> lblk (lstart s) ` {..<n}"
    using lblk_bounds(4) [OF assms(1)] txn_room [OF assms(2)] by (metis imageE lessThan_iff)
  then show "apply_writes D (log_writes (lstart s) n blk V) (lstart s) = D (lstart s)"
    by (intro apply_writes_other) (simp add: fst_log_writes)
  have "lstart s \<notin> blk ` {..<n}"
    using lstart_bounds(2) [OF assms(1)] assms(2) by (auto simp: txn_def)
  then show "apply_writes D (home_writes n blk V) (lstart s) = D (lstart s)"
    by (intro apply_writes_other) (simp add: fst_home_writes)
qed

lemma zero_head: "wrote s W t \<Longrightarrow> wrote (s\<lparr>lh_n := 0\<rparr>) W (t\<lparr>lh_n := 0\<rparr>)"
proof -
  assume w: "wrote s W t"
  have "wrote (s\<lparr>lh_n := 0, lh_block := lh_block s\<rparr>) W (t\<lparr>lh_n := 0, lh_block := lh_block s\<rparr>)"
    by (rule wrote_header [OF w])
  moreover have "t\<lparr>lh_n := 0, lh_block := lh_block s\<rparr> = t\<lparr>lh_n := 0\<rparr>"
    by (rule log.equality) (simp_all add: log_fields(7) [OF wroteD(5) [OF w]])
  moreover have "s\<lparr>lh_n := 0, lh_block := lh_block s\<rparr> = s\<lparr>lh_n := 0\<rparr>" by (rule log.equality) simp_all
  ultimately show ?thesis by (simp only:)
qed

lemma commit_rule:
  assumes r: "log_ready p s"
  shows "ok (seqs [write_log, write_head, install_trans, mods (\<lambda>s. s\<lparr>lh_n := 0\<rparr>), write_head]) s
    (\<lambda>_ t. cinv p Map.empty {} t \<and>
      wrote (s\<lparr>lh_n := 0\<rparr>) (commit_writes (lstart s) (nat (lh_n s)) (lh_block s) (bview s)) t)"
proof -
  let ?st = "lstart s" and ?n = "nat (lh_n s)" and ?blk = "lh_block s" and ?V = "bview s"
  let ?L = "log_writes ?st ?n ?blk ?V" and ?h = "enc_head (?V ?st) ?n ?blk"
  let ?R = "\<lambda>W t. cinv p Map.empty {} t \<and> wrote s W t"
  note R = log_readyD [OF r]
  have step: "log_geom t \<and> lstart t = ?st \<and> lh_n t = lh_n s \<and> lh_block t = ?blk \<and> txn t ?n ?blk \<and>
      card (pinned t) < NBUF" if "wrote s W t" for W t
  proof -
    note w = wroteD [OF that] note f = log_fields [OF w(5)]
    have "card (pinned t) < NBUF"
      unfolding w(4) using R(8) by (meson Diff_subset card_mono finite_pinned le_less_trans)
    then show ?thesis using R(2,4) f by simp
  qed
  have 1: "ok write_log s (\<lambda>_ t. ?R ?L t)"
    using write_log_rule [OF R(1,2,4) _ R(9) R(8)] R(5) by simp
  have 2: "ok write_head t (\<lambda>_ u. ?R (?L @ [(?st, ?h)]) u)" if t: "?R ?L t" for t
  proof -
    note S = step [OF conjunct2 [OF t]]
    have "bview t ?st = ?V ?st"
      using wroteD(1) [OF conjunct2 [OF t]] header_unchanged(1) [OF R(2,4)] by simp
    then have "ok write_head t (\<lambda>_ u. cinv p Map.empty {} u \<and> wrote t [(?st, ?h)] u)"
      using write_head_rule [of p t] S t R(3,7) by simp
    then show ?thesis by (rule ok_mono) (use wrote_trans [OF conjunct2 [OF t]] in blast)
  qed
  have 3: "ok install_trans t (\<lambda>_ u. ?R (?L @ [(?st, ?h)] @ home_writes ?n ?blk ?V) u)"
    if t: "?R (?L @ [(?st, ?h)]) t" for t
  proof -
    note S = step [OF conjunct2 [OF t]] note w = wroteD [OF conjunct2 [OF t]]
    have I: "inst_writes ?st ?n ?blk (bview t) = home_writes ?n ?blk ?V"
      unfolding w(1) by (rule home_inst [OF R(2,4)]) (rule logged [OF R(2,4)])
    have "fst ` set (?L @ [(?st, ?h)]) \<subseteq> {b. in_log s b}"
      using log_writes_in_log [OF R(2,4)] lstart_bounds(2) [OF R(2)] by auto
    then have "pinned t = pinned s" unfolding w(4) using R(9) by auto
    then have "\<forall>u < ?n. ?blk u \<in> pinned t" using R(5) by simp
    then have "ok install_trans t (\<lambda>_ u. cinv p Map.empty {} u \<and> wrote t (home_writes ?n ?blk ?V) u)"
      using install_rule [of p t] S t I by simp
    then show ?thesis by (rule ok_mono) (use wrote_trans [OF conjunct2 [OF t]] in auto)
  qed
  have 4: "ok write_head (t\<lparr>lh_n := 0\<rparr>) (\<lambda>_ u. cinv p Map.empty {} u \<and>
      wrote (s\<lparr>lh_n := 0\<rparr>) (commit_writes ?st ?n ?blk ?V) u)"
    if t: "?R (?L @ [(?st, ?h)] @ home_writes ?n ?blk ?V) t" for t
  proof -
    note S = step [OF conjunct2 [OF t]] note w = wroteD [OF conjunct2 [OF t]]
    have "bview t ?st = ?h" unfolding w(1) using header_unchanged(2) [OF R(2,4)] by simp
    then have "ok write_head (t\<lparr>lh_n := 0\<rparr>) (\<lambda>_ u. cinv p Map.empty {} u \<and>
        wrote (t\<lparr>lh_n := 0\<rparr>) [(?st, enc_head ?h 0 ?blk)] u)"
      using write_head_rule [of p "t\<lparr>lh_n := 0\<rparr>"] S t by simp
    then show ?thesis
      by (rule ok_mono) (use wrote_trans [OF zero_head [OF conjunct2 [OF t]]] in \<open>auto simp: commit_writes_def\<close>)
  qed
  show ?thesis
    unfolding seqs.simps
    by (rule ok_bndI [OF 1], rule ok_bndI [OF 2], assumption, rule ok_bndI [OF 3], assumption)
      (simp add: 4)
qed

subsection \<open>Recovering\<close>

definition recover_writes :: "uint \<Rightarrow> (uint \<Rightarrow> bytes) \<Rightarrow> (uint \<times> bytes) list" where
  "recover_writes st D =
     inst_writes st (nat (head_n (D st))) (head_block (D st)) D @ [(st, put32 (D st) 0 0)]"

text \<open>The header block names blocks the log can hold.\<close>

definition head_ok :: "'z log_scheme \<Rightarrow> bytes \<Rightarrow> bool" where
  "head_ok s h \<longleftrightarrow> head_n h \<le> int LOGSIZE \<and> txn s (nat (head_n h)) (head_block h)"

lemma enc_head_0 [simp]: "enc_head d 0 blk = put32 d 0 0"
  by (simp add: enc_head_def)

lemma unpinned_view:
  assumes "cinv p Map.empty {} s" and "b \<notin> pinned s"
  shows "bview s b = disk s b"
  using bview_disk [OF cinvD(2) [OF assms(1)] assms(2)] cinv_unlocked [OF assms(1)] by simp

lemma recover_rule:
  assumes c: "cinv p Map.empty {} s" and g: "log_geom s" and pin: "pinned s = {}"
    and h: "head_ok s (disk s (lstart s))"
  shows "ok recover_from_log s (\<lambda>_ t. cinv p Map.empty {} t \<and> lh_n t = 0 \<and>
    log_geom t \<and> lstart t = lstart s \<and> lsize t = lsize s \<and>
    pinned t = {} \<and> disk t = apply_writes (disk s) (recover_writes (lstart s) (disk s)) \<and>
    dwrites t = dwrites s @ recover_writes (lstart s) (disk s))"
proof -
  let ?st = "lstart s" and ?h = "disk s (lstart s)"
  let ?n = "nat (head_n ?h)" and ?blk = "\<lambda>i. if i < nat (head_n ?h) then head_block ?h i else lh_block s i"
  let ?s = "s\<lparr>lh_n := head_n ?h, lh_block := ?blk\<rparr>"
  have v: "bview s = disk s" using unpinned_view [OF c] pin by auto
  have H: "head_n ?h \<le> int LOGSIZE" "txn s ?n (head_block ?h)" using h by (simp_all add: head_ok_def)
  have T: "txn s ?n ?blk" using H(2) by (simp add: txn_def inj_on_def)
  have I: "inst_writes ?st ?n ?blk D = inst_writes ?st ?n (head_block ?h) D" for D
    by (simp add: inst_writes_def)
  have 1: "ok read_head s (\<lambda>_ t. cinv p Map.empty {} t \<and> bkeep ?s t)"
    by (rule read_head_rule [OF c g]) (use H(1) in \<open>simp_all add: v pin param_defs\<close>)
  have 2: "ok install_trans t (\<lambda>_ u. cinv p Map.empty {} u \<and> wrote ?s (inst_writes ?st ?n ?blk (disk s)) u)"
    if t: "cinv p Map.empty {} t \<and> bkeep ?s t" for t
  proof -
    note K = bkeepD [OF conjunct2 [OF t]] note f = log_fields [OF K(5)]
    have "ok install_trans t (\<lambda>_ u. cinv p Map.empty {} u \<and> wrote t (inst_writes ?st ?n ?blk (disk s)) u)"
      using install_rule [of p t] t f K(1,4) g T pin v by (simp add: param_defs)
    then show ?thesis by (rule ok_mono) (use keep_wrote [OF conjunct2 [OF t]] in blast)
  qed
  have 3: "ok write_head (t\<lparr>lh_n := 0\<rparr>) (\<lambda>_ u. cinv p Map.empty {} u \<and>
      wrote (?s\<lparr>lh_n := 0\<rparr>) (recover_writes ?st (disk s)) u)"
    if t: "cinv p Map.empty {} t \<and> wrote ?s (inst_writes ?st ?n ?blk (disk s)) t" for t
  proof -
    note w = wroteD [OF conjunct2 [OF t]] note f = log_fields [OF w(5)]
    have "?st \<notin> ?blk ` {..<?n}" using T lstart_bounds(2) [OF g] by (auto simp: txn_def)
    then have "bview t ?st = ?h"
      unfolding w(1) using v apply_writes_other [of ?st "inst_writes ?st ?n ?blk (disk s)"]
      by (simp add: fst_inst_writes)
    then have "ok write_head (t\<lparr>lh_n := 0\<rparr>) (\<lambda>_ u. cinv p Map.empty {} u \<and>
        wrote (t\<lparr>lh_n := 0\<rparr>) [(?st, put32 ?h 0 0)] u)"
      using write_head_rule [of p "t\<lparr>lh_n := 0\<rparr>"] t f w(4) g pin by (simp add: param_defs)
    then show ?thesis
      by (rule ok_mono) (use wrote_trans [OF zero_head [OF conjunct2 [OF t]]] I in
        \<open>auto simp: recover_writes_def\<close>)
  qed
  have 4: "cinv p Map.empty {} t \<and> lh_n t = 0 \<and> log_geom t \<and> lstart t = lstart s \<and> lsize t = lsize s \<and>
      pinned t = {} \<and> disk t = apply_writes (disk s) (recover_writes ?st (disk s)) \<and>
      dwrites t = dwrites s @ recover_writes ?st (disk s)"
    if t: "cinv p Map.empty {} t \<and> wrote (?s\<lparr>lh_n := 0\<rparr>) (recover_writes ?st (disk s)) t" for t
    using t wroteD [OF conjunct2 [OF t]] log_fields [OF wroteD(5) [OF conjunct2 [OF t]]] g pin by simp
  show ?thesis
    unfolding recover_from_log_def seqs.simps
    by (rule ok_bndI [OF 1], rule ok_bndI [OF 2], assumption, simp)
      (rule ok_mono [OF 3], assumption, rule 4)
qed

subsection \<open>Crashes\<close>

definition recovered :: "uint \<Rightarrow> (uint \<Rightarrow> bytes) \<Rightarrow> uint \<Rightarrow> bytes" where
  "recovered st D = apply_writes D (recover_writes st D)"

text \<open>
  The disks on which a machine may have to boot: the writes \<open>W\<close> cut off anywhere,
  and then any number of boots cut off during recovery.
\<close>

inductive crashed :: "uint \<Rightarrow> (uint \<Rightarrow> bytes) \<Rightarrow> (uint \<times> bytes) list \<Rightarrow> (uint \<Rightarrow> bytes) \<Rightarrow> bool"
  for st D W where
  crash_commit: "crashed st D W (apply_writes D (take k W))"
| crash_recovery: "crashed st D W E \<Longrightarrow> crashed st D W (apply_writes E (take k (recover_writes st E)))"

lemma get_put32_0: "length d = BSIZE \<Longrightarrow> get32 (put32 d 0 v) 0 = v"
  by (simp add: f32.get_put BSIZE_def)

lemma head_n_clear: "length d = BSIZE \<Longrightarrow> head_n (put32 d 0 0) = 0"
  by (simp add: head_n_def get_put32_0)

lemma nth_update_any: "j < length xs \<Longrightarrow> xs[i := x] ! j = (if i = j then x else xs ! j)"
  by (cases "i < length xs") auto

lemma put32_put32: "put32 (put32 d i v) i w = put32 d i w"
  by (rule nth_equalityI) (auto simp: put32_def nth_update_any)

lemma recover_clear:
  assumes "head_n (D st) = 0"
  shows "recover_writes st D = [(st, put32 (D st) 0 0)]"
  using assms by (simp add: recover_writes_def inst_writes_def)

lemma head_ok_clear: "log_geom s \<Longrightarrow> head_n h = 0 \<Longrightarrow> head_ok s h"
  by (simp add: head_ok_def txn_def log_geom_def)

text \<open>Recovery cut off after any number of its writes and run again from the start.\<close>

lemma recover_again:
  assumes g: "log_geom s" and h: "head_ok s (D (lstart s))" and len: "length (D (lstart s)) = BSIZE"
    and E: "E = apply_writes D (take k (recover_writes (lstart s) D))"
  shows "recovered (lstart s) E = recovered (lstart s) D"
    and "E (lstart s) = D (lstart s) \<or> E (lstart s) = put32 (D (lstart s)) 0 0"
proof -
  let ?st = "lstart s" and ?h = "D (lstart s)"
  let ?n = "nat (head_n ?h)" and ?blk = "head_block ?h"
  let ?I = "inst_writes ?st ?n ?blk D" and ?z = "put32 ?h 0 0"
  have T: "txn s ?n ?blk" using h by (simp add: head_ok_def)
  have st: "?st \<notin> ?blk ` {..<?n}" using T lstart_bounds(2) [OF g] by (auto simp: txn_def)
  have fI: "fst ` set (take j ?I) \<subseteq> ?blk ` {..<?n}" for j
    using fst_inst_writes [of ?st ?n ?blk D] set_take_subset [of j ?I] by fast
  have all: "recover_writes ?st D = ?I @ [(?st, ?z)]" by (simp add: recover_writes_def)
  have lenI: "length ?I = ?n" by (simp add: inst_writes_def)
  have "recovered ?st E = recovered ?st D \<and> (E ?st = ?h \<or> E ?st = ?z)"
  proof (cases "k \<le> ?n")
    case True
    then have E': "E = apply_writes D (take k ?I)" by (simp add: E all lenI)
    have Est: "E ?st = ?h" unfolding E' using fI st by (intro apply_writes_other) blast
    have "lblk ?st t \<notin> ?blk ` {..<?n}" if "t < ?n" for t
      using lblk_bounds(3) [OF g txn_room [OF T that]] T by (auto simp: txn_def)
    then have log: "E (lblk ?st t) = D (lblk ?st t)" if "t < ?n" for t
      unfolding E' using fI that by (intro apply_writes_other) blast
    then have R: "recover_writes ?st E = recover_writes ?st D"
      unfolding recover_writes_def Est by (simp add: inst_writes_def)
    have "apply_writes E ?I b = apply_writes D ?I b" for b
    proof (cases "b \<in> ?blk ` {..<?n}")
      case True
      then obtain t where "t < ?n" "b = ?blk t" by auto
      then show ?thesis
        using apply_writes_inj [of ?blk "[0..<?n]" t _ "\<lambda>t. D (lblk ?st t)"] T
        by (simp add: inst_writes_def txn_def atLeast0LessThan)
    next
      case False
      then show ?thesis
        using fI [of k] by (intro apply_writes_cong) (auto simp: E' intro!: apply_writes_other)
    qed
    then have "apply_writes E ?I = apply_writes D ?I" by blast
    then have "recovered ?st E = recovered ?st D" by (simp add: recovered_def R all)
    then show ?thesis using Est by simp
  next
    case False
    then have E': "E = (apply_writes D ?I)(?st := ?z)" by (simp add: E all lenI)
    then have "recover_writes ?st E = [(?st, put32 ?z 0 0)]"
      using recover_clear [of E ?st] head_n_clear [OF len] by simp
    then show ?thesis using E' by (simp add: recovered_def all put32_put32)
  qed
  then show "recovered ?st E = recovered ?st D" "E ?st = ?h \<or> E ?st = ?z" by simp_all
qed

text \<open>The invariant of the disks a crash during the commit of \<open>s\<close> can leave.\<close>

definition old_or_new :: "'z log_scheme \<Rightarrow> (uint \<Rightarrow> bytes) \<Rightarrow> bool" where
  "old_or_new s D \<longleftrightarrow> (\<forall>b. \<not> in_log s b \<longrightarrow> D b = disk s b) \<or> (\<forall>b. \<not> in_log s b \<longrightarrow> D b = bview s b)"

definition crash_ok :: "'z log_scheme \<Rightarrow> (uint \<Rightarrow> bytes) \<Rightarrow> bool" where
  "crash_ok s D \<longleftrightarrow> head_ok s (D (lstart s)) \<and> length (D (lstart s)) = BSIZE \<and>
     head_block (D (lstart s)) ` {..<nat (head_n (D (lstart s)))} \<subseteq> pinned s \<and>
     (\<forall>b. \<not> in_log s b \<longrightarrow> b \<notin> pinned s \<longrightarrow> D b = disk s b) \<and>
     old_or_new s (recovered (lstart s) D)"

text \<open>A clear header: recovery leaves the other blocks as they are.\<close>

lemma crash_ok_clear:
  assumes g: "log_geom s" and h: "head_n (D (lstart s)) = 0" "length (D (lstart s)) = BSIZE"
    and D: "\<And>b. \<not> in_log s b \<Longrightarrow> b \<notin> pinned s \<Longrightarrow> D b = disk s b" and on: "old_or_new s D"
  shows "crash_ok s D"
proof -
  have "recovered (lstart s) D = D(lstart s := put32 (D (lstart s)) 0 0)"
    using recover_clear [of D "lstart s"] h(1) by (simp add: recovered_def)
  moreover have "in_log s (lstart s)" by (rule lstart_bounds(2) [OF g])
  ultimately have "old_or_new s (recovered (lstart s) D)"
    using on by (auto simp: old_or_new_def)
  then show ?thesis using h D head_ok_clear [OF g h(1)] by (simp add: crash_ok_def)
qed

text \<open>What the three phases of the commit of \<open>s\<close> write, and where.\<close>

lemma commit_facts:
  assumes r: "log_ready p s"
  defines "st \<equiv> lstart s" and "n \<equiv> nat (lh_n s)" and "blk \<equiv> lh_block s" and "V \<equiv> bview s"
  shows "commit_writes st n blk V =
      log_writes st n blk V @ (st, enc_head (V st) n blk) # home_writes n blk V @
      [(st, put32 (enc_head (V st) n blk) 0 0)]"
    and "in_log s st" and "length (V b) = BSIZE" and "b \<notin> pinned s \<Longrightarrow> V b = disk s b"
    and "\<not> in_log s b \<Longrightarrow> b \<notin> fst ` set (take j (log_writes st n blk V))"
    and "st \<notin> fst ` set (take j (log_writes st n blk V))"
    and "b \<notin> pinned s \<Longrightarrow> b \<notin> fst ` set (take j (home_writes n blk V))"
    and "head_n (enc_head (V st) n blk) = int n" and "i < n \<Longrightarrow> head_block (enc_head (V st) n blk) i = blk i"
proof -
  note R = log_readyD [OF r]
  have sub: "b \<in> fst ` set (take j xs) \<Longrightarrow> b \<in> fst ` set xs" for b j and xs :: "(uint \<times> bytes) list"
    using set_take_subset [of j xs] by fast
  show len: "length (V b) = BSIZE" for b unfolding V_def by (rule length_bview [OF cinvD(2) [OF R(1)]])
  show "in_log s st" unfolding st_def by (rule lstart_bounds(2) [OF R(2)])
  show "V b = disk s b" if "b \<notin> pinned s" for b unfolding V_def by (rule unpinned_view [OF R(1) that])
  show "head_n (enc_head (V st) n blk) = int n" "i < n \<Longrightarrow> head_block (enc_head (V st) n blk) i = blk i"
    using head_enc [OF len R(10)] by (simp_all add: n_def)
  show "b \<notin> fst ` set (take j (log_writes st n blk V))" if "\<not> in_log s b"
    using that sub log_writes_in_log [OF R(2,4), of b V] unfolding st_def n_def blk_def by blast
  show "st \<notin> fst ` set (take j (log_writes st n blk V))"
    using sub fst_log_writes [of st n blk V] lblk_bounds(4) [OF R(2) txn_room [OF R(4)]]
    unfolding n_def st_def by (metis imageE lessThan_iff)
  show "b \<notin> fst ` set (take j (home_writes n blk V))" if "b \<notin> pinned s"
    using that sub fst_home_writes [of n blk V] R(5) unfolding n_def blk_def by blast
qed (simp add: commit_writes_def)

lemma log_or_home_other:
  assumes "log_ready p s" and "\<not> in_log s b"
  shows "apply_writes D (log_writes (lstart s) (nat (lh_n s)) (lh_block s) (bview s) @ [(lstart s, h)]) b = D b"
proof -
  have "b \<notin> fst ` set (log_writes (lstart s) (nat (lh_n s)) (lh_block s) (bview s))"
    using commit_facts(5) [OF assms, of "nat (lh_n s)"] by (simp add: log_writes_def)
  moreover have "b \<noteq> lstart s" using assms(2) commit_facts(2) [OF assms(1)] by blast
  ultimately show ?thesis by (intro apply_writes_other) auto
qed

lemma crash_commit_log:
  assumes r: "log_ready p s" and k: "k \<le> nat (lh_n s)"
  shows "crash_ok s (apply_writes (disk s)
    (take k (log_writes (lstart s) (nat (lh_n s)) (lh_block s) (bview s))))" (is "crash_ok s ?E")
proof -
  note R = log_readyD [OF r] and F = commit_facts [OF r]
  have "?E (lstart s) = disk s (lstart s)" by (rule apply_writes_other [OF F(6)])
  moreover have "?E b = disk s b" if "\<not> in_log s b" for b by (rule apply_writes_other [OF F(5) [OF that]])
  ultimately show ?thesis
    using R(6) F(3) [of "lstart s"] F(4) [OF R(9) [OF F(2)]]
    by (intro crash_ok_clear [OF R(2)]) (simp_all add: old_or_new_def)
qed

lemma crash_commit_home:
  assumes r: "log_ready p s"
  defines "st \<equiv> lstart s" and "n \<equiv> nat (lh_n s)" and "blk \<equiv> lh_block s" and "V \<equiv> bview s"
  defines "h \<equiv> enc_head (V st) n blk"
  assumes E: "E = apply_writes (apply_writes (disk s) (log_writes st n blk V @ [(st, h)]))
    (take j (home_writes n blk V))"
  shows "crash_ok s E"
proof -
  note R = log_readyD [OF r] and F = commit_facts [OF r, folded st_def n_def blk_def V_def, folded h_def]
  note R' = R [folded st_def n_def blk_def]
  have kept: "E b = apply_writes (disk s) (log_writes st n blk V @ [(st, h)]) b" if "b \<notin> pinned s" for b
    unfolding E by (rule apply_writes_other [OF F(7) [OF that]])
  have st: "E st = h" using kept [OF R(9) [OF F(2)]] by simp
  have "E (lblk st t) = V (blk t)" if "t < n" for t
    using kept [OF R(9)] lblk_bounds(3) [OF R(2) txn_room [OF R(4)]] logged [OF R(2,4)] that
    by (simp add: st_def n_def blk_def)
  then have I: "recover_writes st E = home_writes n blk V @ [(st, put32 h 0 0)]"
    by (simp add: recover_writes_def st F(8,9) inst_writes_def home_writes_def)
  have other: "E b = disk s b" if "\<not> in_log s b" "b \<notin> pinned s" for b
    using kept [OF that(2)] log_or_home_other [OF r that(1)] by (simp add: st_def n_def blk_def V_def)
  have "recovered st E b = V b" if "\<not> in_log s b" for b
  proof -
    have "recovered st E b = apply_writes E (home_writes n blk V) b"
      using that F(2) by (auto simp: recovered_def I)
    also have "\<dots> = V b"
      unfolding home_writes_def apply_writes_fun using other [OF that] F(4) [of b] R'(5)
      by (auto simp: atLeast0LessThan)
    finally show ?thesis .
  qed
  moreover have "head_ok s h" using R'(4,7,10) F(8,9) by (simp add: head_ok_def txn_def inj_on_def)
  ultimately show ?thesis
    using other F(3,8,9) R'(5) by (auto simp: crash_ok_def old_or_new_def st [unfolded st_def] st_def V_def h_def)
qed

lemma crash_commit_done:
  assumes r: "log_ready p s"
  defines "W \<equiv> commit_writes (lstart s) (nat (lh_n s)) (lh_block s) (bview s)"
  shows "crash_ok s (apply_writes (disk s) W)" "\<not> in_log s b \<Longrightarrow> apply_writes (disk s) W b = bview s b"
proof -
  note R = log_readyD [OF r] and F = commit_facts [OF r]
  let ?E = "apply_writes (disk s) W"
  have new: "?E b = bview s b" if "\<not> in_log s b" for b
  proof -
    have "b \<noteq> lstart s" using that F(2) by blast
    then have "?E b = apply_writes (apply_writes (disk s) (log_writes (lstart s) (nat (lh_n s)) (lh_block s) (bview s) @
        [(lstart s, enc_head (bview s (lstart s)) (nat (lh_n s)) (lh_block s))]))
        (home_writes (nat (lh_n s)) (lh_block s) (bview s)) b"
      by (simp add: W_def F(1))
    also have "\<dots> = bview s b"
      unfolding home_writes_def apply_writes_fun log_or_home_other [OF r that]
      using F(4) [of b] R(5) by (auto simp: atLeast0LessThan)
    finally show ?thesis .
  qed
  then show "\<not> in_log s b \<Longrightarrow> ?E b = bview s b" .
  have "?E (lstart s) = put32 (enc_head (bview s (lstart s)) (nat (lh_n s)) (lh_block s)) 0 0"
    by (simp add: W_def F(1))
  then show "crash_ok s ?E"
    using new F(3,4) by (intro crash_ok_clear [OF R(2)]) (auto simp: old_or_new_def head_n_clear)
qed

lemma crash_commit_ok:
  assumes r: "log_ready p s"
  shows "crash_ok s (apply_writes (disk s)
    (take k (commit_writes (lstart s) (nat (lh_n s)) (lh_block s) (bview s))))"
proof -
  let ?n = "nat (lh_n s)" and ?W = "commit_writes (lstart s) (nat (lh_n s)) (lh_block s) (bview s)"
  note F = commit_facts [OF r]
  have len: "length (log_writes (lstart s) ?n (lh_block s) (bview s)) = ?n"
    "length (home_writes ?n (lh_block s) (bview s)) = ?n" by (simp_all add: log_writes_def home_writes_def)
  consider "k \<le> ?n" | "?n < k" "k \<le> 2 * ?n + 1" | "length ?W \<le> k" using len by (force simp: F(1))
  then show ?thesis
  proof cases
    case 1
    then show ?thesis using crash_commit_log [OF r] by (simp add: F(1) len)
  next
    case 2
    then show ?thesis by (intro crash_commit_home [OF r, where j = "k - ?n - 1"]) (simp add: F(1) len take_Cons')
  next
    case 3
    then show ?thesis using crash_commit_done(1) [OF r] by simp
  qed
qed

lemma crash_recovery_ok:
  assumes g: "log_geom s" and D: "crash_ok s D"
  shows "crash_ok s (apply_writes D (take k (recover_writes (lstart s) D)))"
proof -
  let ?st = "lstart s" and ?E = "apply_writes D (take k (recover_writes (lstart s) D))"
  have h: "head_ok s (D ?st)" "length (D ?st) = BSIZE"
    and sub: "head_block (D ?st) ` {..<nat (head_n (D ?st))} \<subseteq> pinned s"
    using D by (simp_all add: crash_ok_def)
  note A = recover_again [of s D ?E k, OF g h refl]
  have "head_ok s (?E ?st) \<and> length (?E ?st) = BSIZE \<and>
      head_block (?E ?st) ` {..<nat (head_n (?E ?st))} \<subseteq> pinned s"
    using A(2) h sub head_n_clear [OF h(2)] head_ok_clear [OF g head_n_clear [OF h(2)]] by auto
  moreover have "fst ` set (take k (recover_writes ?st D)) \<subseteq> insert ?st (pinned s)"
    using set_take_subset [of k "recover_writes ?st D"] sub
    by (fastforce simp: recover_writes_def inst_writes_def)
  then have "?E b = D b" if "\<not> in_log s b" "b \<notin> pinned s" for b
    using that lstart_bounds(2) [OF g] by (intro apply_writes_other) auto
  ultimately show ?thesis using D A(1) by (simp add: crash_ok_def)
qed

lemma crashed_ok:
  assumes "log_ready p s"
    and "crashed (lstart s) (disk s) (commit_writes (lstart s) (nat (lh_n s)) (lh_block s) (bview s)) D"
  shows "crash_ok s D"
  using assms(2)
  by induction (simp_all add: crash_commit_ok [OF assms(1)] crash_recovery_ok [OF log_readyD(2) [OF assms(1)]])

subsection \<open>Booting\<close>

lemma readsb_rule:
  assumes c: "cinv p Map.empty {} s" and "1 < disksize s" and "card (pinned s) < NBUF"
  shows "ok (readsb 1) s (\<lambda>sb t. sb = decode_sb (bview s 1) \<and> cinv p Map.empty {} t \<and> bkeep s t)"
  unfolding readsb_def
proof (rule ok_bndI [OF bread_rule [OF c assms(2)]])
  fix b t assume "cinv p [1 \<mapsto> b] ({} - {1}) t \<and> bkeep s t"
  then have ct: "cinv p [1 \<mapsto> b] {} t" and k: "bkeep s t" by simp_all
  have "bdata (bufs t b) = bview s 1"
    using owns_data [OF cinvD(2) [OF ct] cinvD(3) [OF ct, of 1 b]] bkeepD(1) [OF k] by simp
  moreover have "ok (brelse b) t (\<lambda>_ u. cinv p Map.empty {} u \<and> bkeep s u)"
    by (rule ok_mono [OF brelse_rule [OF ct, of 1 b]]) (auto intro: bkeep_trans [OF k])
  ultimately show "ok (bnd (buf_get b bdata) (\<lambda>d. bnd (brelse b) (\<lambda>_. ret (decode_sb d)))) t
      (\<lambda>sb t. sb = decode_sb (bview s 1) \<and> cinv p Map.empty {} t \<and> bkeep s t)"
    by simp
qed (use assms(3) in simp_all)

text \<open>
  The boot state of the file system: the cache holds nothing dirty, and the super
  block on the disk \<open>D\<close> describes the log that \<open>s\<close> used.
\<close>

definition boot_disk :: "nat \<Rightarrow> 'z log_scheme \<Rightarrow> 'z log_scheme \<Rightarrow> bool" where
  "boot_disk p s u \<longleftrightarrow> cinv p Map.empty {} u \<and> pinned u = {} \<and> disksize u = disksize s \<and> 1 < disksize u \<and>
     sb_logstart (decode_sb (disk u 1)) = lstart s \<and> sint (sb_nlog (decode_sb (disk u 1))) = lsize s"

lemma initlog_rule:
  assumes b: "boot_disk p s u" and g: "log_geom s" and h: "head_ok s (disk u (lstart s))"
  shows "ok (initlog 1) u (\<lambda>_ v. cinv p Map.empty {} v \<and> log_geom v \<and> lh_n v = 0 \<and>
    lstart v = lstart s \<and> lsize v = lsize s \<and> pinned v = {} \<and>
    disk v = recovered (lstart s) (disk u) \<and> dwrites v = dwrites u @ recover_writes (lstart s) (disk u))"
proof -
  let ?set = "\<lambda>u. u\<lparr>lstart := lstart s, lsize := lsize s, ldev := 1\<rparr>"
  have B: "cinv p Map.empty {} u" "pinned u = {}" "disksize u = disksize s" "1 < disksize u"
    "sb_logstart (decode_sb (disk u 1)) = lstart s" "sint (sb_nlog (decode_sb (disk u 1))) = lsize s"
    using b unfolding boot_disk_def by blast+
  have 1: "ok (readsb 1) u (\<lambda>sb t. sb = decode_sb (disk u 1) \<and> cinv p Map.empty {} t \<and> bkeep u t)"
    using readsb_rule [OF B(1,4)] B(2) unpinned_view [OF B(1), of 1] by (simp add: param_defs)
  have 2: "ok recover_from_log (?set t) (\<lambda>_ v. cinv p Map.empty {} v \<and> log_geom v \<and> lh_n v = 0 \<and>
      lstart v = lstart s \<and> lsize v = lsize s \<and> pinned v = {} \<and>
      disk v = recovered (lstart s) (disk u) \<and> dwrites v = dwrites u @ recover_writes (lstart s) (disk u))"
    if t: "cinv p Map.empty {} t" and k: "bkeep u t" for t
  proof -
    note K = bkeepD [OF k]
    have gt: "log_geom (?set t)" using g K(6) B(3) by (simp add: log_geom_def)
    have "txn (?set t) n blk = txn s n blk" for n blk
      using K(6) B(3) by (simp add: txn_def in_log_def)
    then have ht: "head_ok (?set t) (disk (?set t) (lstart (?set t)))" using h K(2) by (simp add: head_ok_def)
    have c: "cinv p Map.empty {} (?set t)" and pin: "pinned (?set t) = {}" using t K(4) B(2) by simp_all
    show ?thesis
      by (rule ok_mono [OF recover_rule [OF c gt pin ht]]) (simp add: recovered_def K(2,3))
  qed
  show ?thesis
    by (simp add: initlog_def param_defs BSIZE_def) (rule ok_mono [OF 1], simp add: B(5,6) 2)
qed

end
