(* ===== verification/Samples.thy ===== *)
theory Samples
  imports Recovery
begin

unbundle bit_operations_syntax

text \<open>
  Concrete states for the instances of the theorems: the zeroed kernel data a
  program starts with, a cache as \<open>binit\<close> leaves it, and a small disk with a super
  block that places a 30-block log at block 2, as mkfs does.
\<close>

definition buf0 :: "nat \<Rightarrow> buf" where
  "buf0 i = \<lparr>bflags = 0, bdev = 0, blockno = 0, refcnt = 0,
     bprev = (if i = bhead then 0 else i + 1), bnext = (if i = 0 then bhead else i - 1), bdata = []\<rparr>"

definition sample_sb :: superblock where
  "sample_sb = \<lparr>sb_size = 1000, sb_nblocks = 941, sb_ninodes = 200, sb_nlog = 30, sb_logstart = 2,
     sb_inodestart = 32, sb_bmapstart = 58\<rparr>"

definition disk0 :: "uint \<Rightarrow> bytes" where
  "disk0 b = (if b = 1 then encode_sb sample_sb (replicate BSIZE 0) else replicate BSIZE 0)"

definition log0 :: log where
  "log0 = \<lparr>held = [], curproc = Some 0, ticks = 0, procs = (\<lambda>_. proc0), nextpid = 1, initproc = None,
     slocks = (\<lambda>_. \<lparr>slocked = False, slname = [], slpid = 0\<rparr>),
     mem = (\<lambda>_. 0), freelist = 0, use_lock = False, kend = 0,
     cons_locking = True, panicked = False, uart = True, uart_out = [], crt = (\<lambda>_. 0), crt_cursor = 0,
     in_buf = replicate 128 0, in_r = 0, in_w = 0, in_e = 0,
     kpgdir = 0, cr3 = 0, ts_esp0 = 0, ts_ss0 = 0, kdata = 0,
     bufs = buf0, disk = disk0, disksize = 1000, dwrites = [],
     lstart = 2, lsize = 30, outstanding = 0, committing = False, ldev = 1, lh_n = 0, lh_block = (\<lambda>_. 0)\<rparr>"

lemma path_down: "(\<And>i. i < n \<Longrightarrow> f (Suc i) = i) \<Longrightarrow> f a = n \<Longrightarrow> f 0 = c \<Longrightarrow> path f a (rev [0..<Suc n]) c"
proof (induction n arbitrary: a)
  case (Suc n)
  have "path f (Suc n) (rev [0..<Suc n]) c" by (rule Suc.IH) (use Suc.prems in auto)
  with Suc.prems show ?case by simp
qed simp

lemma path_up: "(\<And>i. m \<le> i \<Longrightarrow> i < n \<Longrightarrow> f i = Suc i) \<Longrightarrow> m \<le> n \<Longrightarrow> f a = m \<Longrightarrow> f n = c \<Longrightarrow> path f a [m..<Suc n] c"
proof (induction "n - m" arbitrary: m a)
  case (Suc k)
  have "path f m [Suc m..<Suc n] c" by (rule Suc.hyps(1)) (use Suc in auto)
  with Suc show ?case by (simp add: upt_conv_Cons del: upt_Suc)
qed simp

lemma bring_buf0: "bring buf0 (rev [0..<NBUF])"
proof -
  have N: "NBUF = Suc 29" "bhead = 30" by (simp_all add: bhead_def param_defs)
  have "path (\<lambda>i. bnext (buf0 i)) bhead (rev [0..<NBUF]) bhead"
    unfolding N(1) by (rule path_down) (simp_all add: buf0_def N(2))
  moreover have "path (\<lambda>i. bprev (buf0 i)) bhead [0..<NBUF] bhead"
    unfolding N(1) by (rule path_up) (simp_all add: buf0_def N(2))
  ultimately show ?thesis by (auto simp: bring_def links_def bhead_def)
qed

lemma length_disk0: "length (disk0 b) = BSIZE"
  by (simp add: disk0_def encode_sb_def)

lemma sb_disk0: "decode_sb (disk0 1) = sample_sb"
  by (simp add: disk0_def decode_encode_sb BSIZE_def)

lemma log0_sel [simp]:
  "held log0 = []" "curproc log0 = Some 0" "procs log0 = (\<lambda>_. proc0)" "bufs log0 = buf0" "disk log0 = disk0"
  "disksize log0 = 1000" "dwrites log0 = []" "lstart log0 = 2" "lsize log0 = 30" "ldev log0 = 1" "lh_n log0 = 0"
  "slocks log0 l = \<lparr>slocked = False, slname = [], slpid = 0\<rparr>" "outstanding log0 = 0" "\<not> committing log0"
  by (simp_all add: log0_def)

text \<open>A state whose buffers are unlocked and whose valid buffers are as on the disk, or dirty.\<close>

lemma cinv_sample:
  assumes "held s = []" "curproc s = Some p" "\<And>i. i < NBUF \<Longrightarrow> \<not> blocked s i"
    and "bring (bufs s) xs" "buf_uniq (bufs s)" "\<And>i. i < NBUF \<Longrightarrow> buf_ok s i (bufs s i)"
    and "\<And>b. length (disk s b) = BSIZE"
  shows "cinv p Map.empty {} s"
  using assms by (auto simp: cinv_def ready_def binv_def)

lemma cinv_log0: "cinv 0 Map.empty {} log0"
proof (rule cinv_sample)
  show "bring (bufs log0) (rev [0..<NBUF])" by (simp add: bring_buf0)
  show "buf_ok log0 i (bufs log0 i)" for i
    by (simp add: buf_ok_def blocked_def) (simp add: buf0_def bdirty_def bvalid_def)
qed (simp_all add: blocked_def buf_uniq_def is_block_def length_disk0 buf0_def)

lemma pinned_log0: "pinned log0 = {}"
  by (simp add: pinned_def is_block_def buf0_def)

text \<open>A transaction that has changed block 40: the buffer 0 holds it, dirty.\<close>

definition log1 :: log where
  "log1 = log0\<lparr>bufs := buf0(0 := (buf0 0)\<lparr>bflags := B_VALID OR B_DIRTY, bdev := 1, blockno := 40,
       bdata := replicate BSIZE 7\<rparr>), lh_n := 1, lh_block := (\<lambda>_. 40)\<rparr>"

lemma cinv_log1: "cinv 0 Map.empty {} log1"
proof (rule cinv_sample)
  show "bring (bufs log1) (rev [0..<NBUF])"
    by (simp add: log1_def bring_upd bring_buf0)
  show "buf_ok log1 i (bufs log1 i)" for i
    by (simp add: buf_ok_def blocked_def log1_def) (simp add: buf0_def bdirty_iff bvalid_iff bit_simps bit_flags)
qed (simp_all add: blocked_def buf_uniq_def is_block_def length_disk0 buf0_def log1_def)

lemma pinned_log1: "pinned log1 = {40}"
  by (auto simp: pinned_def is_block_def buf0_def log1_def bdirty_iff bit_simps bit_flags param_defs)

lemma bview_log1: "bview log1 b = (if b = 40 then replicate BSIZE 7 else disk0 b)"
proof -
  have 0: "(0 :: nat) < NBUF" by (simp add: param_defs)
  have "buf_uniq (bufs log1)" using cinv_log1 by (simp add: cinv_def binv_def)
  then have "bview log1 40 = bdata (bufs log1 0)"
    by (rule bview_hit [OF _ 0]) (simp_all add: log1_def is_block_def bvalid_iff bit_simps bit_flags)
  moreover have "bview log1 b = disk log1 b" if "b \<noteq> 40"
    using unpinned_view [OF cinv_log1, of b] that by (simp add: pinned_log1)
  ultimately show ?thesis by (simp add: log1_def)
qed

lemma log1_sel [simp]:
  "lh_n log1 = 1" "lh_block log1 = (\<lambda>_. 40)" "lstart log1 = 2" "lsize log1 = 30" "ldev log1 = 1"
  "disksize log1 = 1000" "disk log1 = disk0" "dwrites log1 = []"
  by (simp_all add: log1_def)

lemma ready_log1: "log_ready 0 log1"
  using cinv_log1
  by (auto simp: log_ready_def pinned_log1 log_geom_def txn_def in_log_def head_n_def disk0_def inj_on_def
      get32_def BSIZE_def param_defs)

end
