(* ===== verification/Block_Array.thy ===== *)
theory Block_Array
  imports Samples
begin

text \<open>
  The buffer cache seen from outside: the choice of buffers by \<open>bget\<close>, and the
  proof that reading and writing blocks through the cache is reading and writing
  an array of blocks.
\<close>

subsection \<open>The cache as an array of blocks\<close>

text \<open>A client that reads and writes single blocks through the cache, and the same on an array.\<close>

datatype block_op = BRead uint | BWrite uint bytes

fun op_block :: "block_op \<Rightarrow> uint" where
  "op_block (BRead b) = b"
| "op_block (BWrite b d) = b"

fun block_io :: "block_op \<Rightarrow> ('z bcache_scheme, bytes) kop" where
  "block_io (BRead b) =
     bnd (bread 1 b) (\<lambda>i. bnd (buf_get i bdata) (\<lambda>d. bnd (brelse i) (\<lambda>_. ret d)))"
| "block_io (BWrite b d) =
     bnd (bread 1 b) (\<lambda>i. bnd (seqs [buf_upd i (\<lambda>x. x\<lparr>bdata := d\<rparr>), bwrite i, brelse i]) (\<lambda>_. ret d))"

fun block_ios :: "block_op list \<Rightarrow> ('z bcache_scheme, bytes list) kop" where
  "block_ios [] = ret []"
| "block_ios (x # xs) = bnd (block_io x) (\<lambda>d. bnd (block_ios xs) (\<lambda>ds. ret (d # ds)))"

fun array_io :: "block_op \<Rightarrow> (uint \<Rightarrow> bytes) \<Rightarrow> bytes \<times> (uint \<Rightarrow> bytes)" where
  "array_io (BRead b) D = (D b, D)"
| "array_io (BWrite b d) D = (d, D(b := d))"

fun array_ios :: "block_op list \<Rightarrow> (uint \<Rightarrow> bytes) \<Rightarrow> bytes list \<times> (uint \<Rightarrow> bytes)" where
  "array_ios [] D = ([], D)"
| "array_ios (x # xs) D = (let (d, E) = array_io x D; (ds, F) = array_ios xs E in (d # ds, F))"

definition op_ok :: "'z bcache_scheme \<Rightarrow> block_op \<Rightarrow> bool" where
  "op_ok s x \<longleftrightarrow> op_block x < disksize s \<and> (\<forall>b d. x = BWrite b d \<longrightarrow> length d = BSIZE)"

definition clean_cache :: "nat \<Rightarrow> 'z bcache_scheme \<Rightarrow> bool" where
  "clean_cache p s \<longleftrightarrow> cinv p Map.empty {} s \<and> pinned s = {}"

lemma block_io_rule:
  assumes "clean_cache p s" and "op_ok s x"
  shows "ok (block_io x) s (\<lambda>d t. clean_cache p t \<and> disksize t = disksize s \<and> array_io x (bview s) = (d, bview t))"
proof -
  have c: "cinv p Map.empty {} s" and pin: "pinned s = {}" using assms(1) by (simp_all add: clean_cache_def)
  let ?b = "op_block x"
  have rd: "ok (bread 1 ?b) s (\<lambda>i t. cinv p [?b \<mapsto> i] ({} - {?b}) t \<and> bkeep s t)"
    using assms(2) pin by (intro bread_rule [OF c]) (simp_all add: op_ok_def param_defs)
  show ?thesis
  proof (cases x)
    case (BRead b)
    have "ok (bnd (buf_get i bdata) (\<lambda>d. bnd (brelse i) (\<lambda>_. ret d))) t
        (\<lambda>d u. clean_cache p u \<and> disksize u = disksize s \<and> (bview s b, bview s) = (d, bview u))"
      if T: "cinv p [b \<mapsto> i] {} t \<and> bkeep s t" for i t
    proof -
      have t: "cinv p [b \<mapsto> i] {} t" "bkeep s t" using T by simp_all
      have d: "bdata (bufs t i) = bview s b"
        using owns_data [OF cinvD(2) [OF t(1)] cinvD(3) [OF t(1), of b i]] bkeepD(1) [OF t(2)] by simp
      have "ok (brelse i) t (\<lambda>_ u. cinv p Map.empty {} u \<and> bkeep t u)"
        using brelse_rule [OF t(1), of b i] by simp
      then have "ok (brelse i) t (\<lambda>_ u. clean_cache p u \<and> disksize u = disksize s \<and> bview s = bview u)"
        by (rule ok_mono) (use bkeepD [OF t(2)] pin in \<open>auto simp: clean_cache_def dest: bkeepD\<close>)
      then show ?thesis by (simp add: d)
    qed
    with rd show ?thesis unfolding BRead block_io.simps array_io.simps
      by (intro ok_bndI [where P = "\<lambda>i t. cinv p [b \<mapsto> i] {} t \<and> bkeep s t"]) simp_all
  next
    case (BWrite b d)
    have len: "length d = BSIZE" using assms(2) BWrite by (simp add: op_ok_def)
    let ?Q = "\<lambda>u. clean_cache p u \<and> disksize u = disksize s \<and> bview u = (bview s)(b := d)"
    have "ok (bnd (seqs [buf_upd i (\<lambda>x. x\<lparr>bdata := d\<rparr>), bwrite i, brelse i]) (\<lambda>_. ret d)) t
        (\<lambda>e u. clean_cache p u \<and> disksize u = disksize s \<and> (d, (bview s)(b := d)) = (e, bview u))"
      if T: "cinv p [b \<mapsto> i] {} t \<and> bkeep s t" for i t
    proof -
      have t: "cinv p [b \<mapsto> i] {} t" "bkeep s t" using T by simp_all
      note K = bkeepD [OF t(2)]
      let ?t = "put_data i d t"
      have P: "cinv p [b \<mapsto> i] {b} ?t" "bview ?t = (bview s)(b := d)" "disksize ?t = disksize s" "pinned ?t = {}"
        using put_rule [OF t(1) _ len, of b i] K pin bframe_simps(10) [OF bframe_put [of t i d]] by simp_all
      have "ok (bnd (bwrite i) (\<lambda>_. brelse i)) ?t (\<lambda>_. ?Q)"
      proof (rule ok_bndI [OF bwrite_rule [OF P(1)]])
        fix u assume u: "cinv p [b \<mapsto> i] ({b} - {b}) u \<and> bview u = bview ?t \<and> disk u = (disk ?t)(b := bview ?t b) \<and>
          dwrites u = dwrites ?t @ [(b, bview ?t b)] \<and> pinned u = pinned ?t - {b} \<and> bframe ?t u"
        then have "disksize u = disksize s" using bframe_simps(10) [of ?t u] P(3) by simp
        moreover have "ok (brelse i) u (\<lambda>_ v. cinv p Map.empty {} v \<and> bkeep u v)"
          using brelse_rule [of p "[b \<mapsto> i]" "{}" u b i] u by simp
        ultimately show "ok (brelse i) u (\<lambda>_. ?Q)"
          using u P by (elim ok_mono) (auto simp: clean_cache_def dest: bkeepD)
      qed (use assms(2) BWrite P(3) in \<open>simp_all add: op_ok_def\<close>)
      moreover have "buf_upd i (\<lambda>x. x\<lparr>bdata := d\<rparr>) t = Ret () ?t" by (simp add: kcore put_data_def)
      ultimately show ?thesis by (simp add: ok_def bnd_apply ret_apply split: outcome.splits)
    qed
    with rd show ?thesis unfolding BWrite block_io.simps array_io.simps
      by (intro ok_bndI [where P = "\<lambda>i t. cinv p [b \<mapsto> i] {} t \<and> bkeep s t"]) simp_all
  qed
qed

text \<open>
  C4. The buffer cache is transparent: any sequence of reads and writes of single
  blocks through \<open>bread\<close>, \<open>bwrite\<close> and \<open>brelse\<close> returns, with the results and the
  final contents that the same sequence has on an array of blocks, whatever is
  cached and whichever buffers are recycled on the way; afterwards the disk holds
  those contents.
\<close>

theorem cache_transparent:
  fixes s :: "'z bcache_scheme"
  assumes "clean_cache p s" and "\<forall>x \<in> set xs. op_ok s x"
  shows "ok (block_ios xs) s (\<lambda>ds t. array_ios xs (disk s) = (ds, disk t))"
proof -
  have D: "bview t = disk t" if "clean_cache p t" for t :: "'z bcache_scheme"
    using that unpinned_view [of p t] by (intro ext) (simp add: clean_cache_def)
  have "ok (block_ios xs) s (\<lambda>ds t. clean_cache p t \<and> array_ios xs (bview s) = (ds, bview t))"
    using assms
  proof (induction xs arbitrary: s)
    case (Cons x xs)
    show ?case unfolding block_ios.simps
    proof (rule ok_bndI [OF block_io_rule [of p s x]])
      fix d and t :: "'z bcache_scheme" assume t: "clean_cache p t \<and> disksize t = disksize s \<and> array_io x (bview s) = (d, bview t)"
      then have "ok (block_ios xs) t (\<lambda>ds u. clean_cache p u \<and> array_ios xs (bview t) = (ds, bview u))"
        using Cons.prems(2) by - (rule Cons.IH, simp_all add: op_ok_def)
      then show "ok (bnd (block_ios xs) (\<lambda>ds. ret (d # ds))) t
          (\<lambda>ds u. clean_cache p u \<and> array_ios (x # xs) (bview s) = (ds, bview u))"
        by (simp, rule ok_mono) (use t in simp)
    qed (use Cons.prems in simp_all)
  qed simp
  then show ?thesis by (rule ok_mono) (use D assms(1) in auto)
qed

theorem cache_transparent_witness:
  "ok (block_ios [BRead 40, BWrite 40 (replicate BSIZE 7), BRead 40, BRead 41]) log0
     (\<lambda>ds t. array_ios [BRead 40, BWrite 40 (replicate BSIZE 7), BRead 40, BRead 41] (disk log0) = (ds, disk t))"
  by (rule cache_transparent [where p = 0])
    (simp_all add: clean_cache_def cinv_log0 pinned_log0 op_ok_def)

subsection \<open>The choice of buffers\<close>

text \<open>
  C9. \<open>bget\<close> on every branch, \<open>xs\<close> being the buffers in the order of their last
  release: a cached block is returned in its buffer with one more reference;
  otherwise the least recently released buffer that is neither referenced nor
  dirty is recycled for the block; when there is none, \<open>bget\<close> panics. And \<open>brelse\<close> of
  the last reference puts a buffer first in that order.
\<close>

theorem bget_least_recent:
  assumes "ready p s" and "bring (bufs s) xs" and "\<And>i. i < NBUF \<Longrightarrow> blocked s i \<Longrightarrow> refcnt (bufs s i) \<noteq> 0"
    and "\<And>i. i < NBUF \<Longrightarrow> is_block d b (bufs s i) \<Longrightarrow> \<not> blocked s i"
  shows "bget d b s = (case List.find (\<lambda>i. is_block d b (bufs s i)) xs of
      Some i \<Rightarrow> Ret i (take_buf p i ((bufs s i)\<lparr>refcnt := refcnt (bufs s i) + 1\<rparr>) s)
    | None \<Rightarrow> (case List.find (\<lambda>i. unused (bufs s i)) (rev xs) of
        Some i \<Rightarrow> Ret i (take_buf p i ((bufs s i)\<lparr>bdev := d, blockno := b, bflags := 0, refcnt := 1\<rparr>) s)
      | None \<Rightarrow> Panic ''bget: no buffers''))
    \<and> (\<forall>i < NBUF. mine p s i \<and> refcnt (bufs s i) = 1 \<longrightarrow>
        (\<exists>t. brelse i s = Ret () t \<and> bring (bufs t) (i # remove1 i xs)))"
proof (intro conjI allI impI)
  have set: "set xs = {..<NBUF}" using assms(2) by (simp add: bring_def)
  show "bget d b s = (case List.find (\<lambda>i. is_block d b (bufs s i)) xs of
      Some i \<Rightarrow> Ret i (take_buf p i ((bufs s i)\<lparr>refcnt := refcnt (bufs s i) + 1\<rparr>) s)
    | None \<Rightarrow> (case List.find (\<lambda>i. unused (bufs s i)) (rev xs) of
        Some i \<Rightarrow> Ret i (take_buf p i ((bufs s i)\<lparr>bdev := d, blockno := b, bflags := 0, refcnt := 1\<rparr>) s)
      | None \<Rightarrow> Panic ''bget: no buffers''))"
  proof (cases "List.find (\<lambda>i. is_block d b (bufs s i)) xs")
    case (Some i)
    then have "i < NBUF" "is_block d b (bufs s i)" using set by (auto simp: find_Some_iff)
    with Some show ?thesis using bget_hit [OF assms(1,2) assms(4) Some] by simp
  next
    case None
    show ?thesis
    proof (cases "List.find (\<lambda>i. unused (bufs s i)) (rev xs)")
      case (Some i)
      then have "i \<in> set (rev xs)" "unused (bufs s i)"
        unfolding find_Some_iff by (metis length_rev nth_mem)+
      then have "\<not> blocked s i" using assms(3) [of i] set by (auto simp: unused_def)
      with None Some show ?thesis using bget_miss [OF assms(1,2) _ None Some] by simp
    qed (use None bget_full [OF assms(1,2) None] in simp)
  qed
  fix i assume i: "i < NBUF" "mine p s i \<and> refcnt (bufs s i) = 1"
  then have "brelse i s = Ret () (give_buf i s)" by (intro brelse_apply [OF assms(1)]) blast+
  moreover have "bring (bufs (give_buf i s)) (i # remove1 i xs)"
    using bring_fronted [of "(bufs s)(i := (bufs s i)\<lparr>refcnt := 0\<rparr>)" xs i] assms(2) i
    by (simp add: give_buf_def bring_upd)
  ultimately show "\<exists>t. brelse i s = Ret () t \<and> bring (bufs t) (i # remove1 i xs)" by blast
qed

theorem bget_least_recent_witness:
  "bget 1 40 log0 = Ret 0 (take_buf 0 0 ((bufs log0 0)\<lparr>bdev := 1, blockno := 40, bflags := 0, refcnt := 1\<rparr>) log0)"
proof -
  let ?xs = "rev [0..<NBUF]"
  have n: "List.find (\<lambda>i. is_block 1 40 (bufs log0 i)) ?xs = None"
    by (simp add: find_None_iff is_block_def buf0_def)
  have u: "List.find (\<lambda>i. unused (bufs log0 i)) (rev ?xs) = Some 0"
    by (simp add: unused_def buf0_def bdirty_def param_defs upt_conv_Cons)
  have "ready 0 log0" "bring (bufs log0) ?xs" by (simp_all add: ready_def bring_buf0)
  from bget_least_recent [OF this, of 1 40] n u show ?thesis
    by (simp add: is_block_def blocked_def buf0_def)
qed

end
