(* ===== verification/Console_Input.thy ===== *)
theory Console_Input
  imports Console
begin

unbundle bit_operations_syntax

text \<open>
  The console input buffer as its users see it: the lines that are complete, which
  \<open>consoleread\<close> delivers, and the line being edited. The circular buffer with its
  three counters implements this pair; \<open>consoleintr\<close> is shown to do to it what the
  keys mean. The last part is about the numbers that \<open>cprintf\<close> prints.
\<close>

interpretation in_ring: ring INPUT_BUF
  by unfold_locales (simp_all add: INPUT_BUF_def)

definition pending :: "'z cons_scheme \<Rightarrow> bytes" where
  "pending s = ring_seq INPUT_BUF (in_buf s) (in_r s) (in_w s)"

definition editing :: "'z cons_scheme \<Rightarrow> bytes" where
  "editing s = ring_seq INPUT_BUF (in_buf s) (in_w s) (in_e s)"

definition inp_inv :: "'z cons_scheme \<Rightarrow> bool" where
  "inp_inv s \<longleftrightarrow> length (in_buf s) = INPUT_BUF \<and> unat (in_w s - in_r s) \<le> unat (in_e s - in_r s) \<and>
     unat (in_e s - in_r s) \<le> INPUT_BUF \<and> 10 \<notin> set (editing s)"

text \<open>What a key does to the complete input and the edited line.\<close>

definition key_spec :: "uint \<Rightarrow> bytes \<times> bytes \<Rightarrow> bytes \<times> bytes" where
  "key_spec c = (\<lambda>(q, ed).
     if c = Ctl CHR ''P'' then (q, ed)
     else if c = Ctl CHR ''U'' then (q, [])
     else if c = Ctl CHR ''H'' \<or> c = 0x7f then (q, butlast ed)
     else if c \<noteq> 0 \<and> length q + length ed < INPUT_BUF then
       (let c' = if c = 13 then 10 else c; ed' = ed @ [ucast c'] in
        if c' = 10 \<or> c' = Ctl CHR ''D'' \<or> length q + length ed' = INPUT_BUF then (q @ ed', []) else (q, ed'))
     else (q, ed))"

lemma inp_whole:
  assumes "inp_inv s"
  shows "ring_seq INPUT_BUF (in_buf s) (in_r s) (in_e s) = pending s @ editing s"
    "unat (in_e s - in_r s) = length (pending s) + length (editing s)"
proof -
  show a: "ring_seq INPUT_BUF (in_buf s) (in_r s) (in_e s) = pending s @ editing s"
    using assms unfolding pending_def editing_def inp_inv_def by (intro ring_seq_append) simp
  show "unat (in_e s - in_r s) = length (pending s) + length (editing s)"
    using arg_cong [OF a, of length] by simp
qed

text \<open>The operations on the counters.\<close>

lemma inp_backspace:
  assumes "inp_inv s" and "in_e s \<noteq> in_w s"
  defines "t \<equiv> s\<lparr>in_e := in_e s - 1\<rparr>"
  shows "inp_inv t" "pending t = pending s" "editing t = butlast (editing s)"
    "in_buf s ! (unat (in_e s - 1) mod INPUT_BUF) = last (editing s)" "editing s \<noteq> []"
proof -
  note W = inp_whole [OF assms(1)]
  show p: "pending t = pending s" by (simp add: t_def pending_def)
  show e: "editing t = butlast (editing s)"
    using assms(2) ring_seq_butlast [of "in_w s" "in_e s" INPUT_BUF "in_buf s"] by (simp add: t_def editing_def)
  show ne: "editing s \<noteq> []" using assms(2) by (simp add: editing_def)
  have re: "in_r s \<noteq> in_e s"
  proof
    assume "in_r s = in_e s"
    then have "length (editing s) = 0" using W(2) by simp
    with ne show False by simp
  qed
  have "ring_seq INPUT_BUF (in_buf s) (in_r s) (in_e s - 1) = butlast (pending s @ editing s)"
    using ring_seq_butlast [OF re] W(1) by metis
  then have "unat (in_e s - 1 - in_r s) = length (pending s) + length (editing s) - 1"
    by (metis length_ring_seq length_butlast length_append)
  moreover have "length (pending s) = unat (in_w s - in_r s)" by (simp add: pending_def)
  ultimately show "inp_inv t"
    using assms(1) W(2) ne e by (auto simp: inp_inv_def t_def dest: in_set_butlastD simp flip: length_greater_0_conv)
  have "in_e s - 1 - in_w s \<noteq> - 1" using assms(2) by (auto simp: algebra_simps)
  from ring_seq_snoc [OF this, of INPUT_BUF "in_buf s"]
  show "in_buf s ! (unat (in_e s - 1) mod INPUT_BUF) = last (editing s)"
    by (simp add: editing_def)
qed

lemma inp_put:
  fixes c :: uchar
  assumes "inp_inv s" and "unat (in_e s - in_r s) < INPUT_BUF"
  defines "t \<equiv> s\<lparr>in_buf := (in_buf s)[unat (in_e s) mod INPUT_BUF := c], in_e := in_e s + 1\<rparr>"
  shows "pending t = pending s" "editing t = editing s @ [c]"
    "unat (in_e t - in_r t) = Suc (unat (in_e s - in_r s))"
    "unat (in_w t - in_r t) \<le> unat (in_e t - in_r t)" "length (in_buf t) = INPUT_BUF"
proof -
  let ?b = "(in_buf s)[unat (in_e s) mod INPUT_BUF := c]"
  note W = inp_whole [OF assms(1)]
  have len: "length (in_buf s) = INPUT_BUF" using assms(1) by (simp add: inp_inv_def)
  have le: "unat (in_e s - in_w s) < INPUT_BUF" using W(2) assms(2) by (simp add: editing_def)
  have all: "ring_seq INPUT_BUF ?b (in_r s) (in_e s + 1) = pending s @ editing s @ [c]"
    using in_ring.seq_put [OF len assms(2)] W(1) by simp
  have ed: "ring_seq INPUT_BUF ?b (in_w s) (in_e s + 1) = editing s @ [c]"
    using in_ring.seq_put [OF len le] by (simp add: editing_def)
  show n: "unat (in_e t - in_r t) = Suc (unat (in_e s - in_r s))"
    using arg_cong [OF all, of length] W(2) by (simp add: t_def)
  show le: "unat (in_w t - in_r t) \<le> unat (in_e t - in_r t)"
    using n assms(1) by (simp add: t_def inp_inv_def)
  have "ring_seq INPUT_BUF ?b (in_r s) (in_w s) @ editing s @ [c] = pending s @ editing s @ [c]"
    using ring_seq_append [of "in_w s" "in_r s" "in_e s + 1" INPUT_BUF ?b] le all ed by (simp add: t_def)
  then show "pending t = pending s" by (simp add: t_def pending_def)
  show "editing t = editing s @ [c]" using ed by (simp add: t_def editing_def)
  show "length (in_buf t) = INPUT_BUF" by (simp add: t_def len)
qed

lemma inp_commit:
  assumes "length (in_buf s) = INPUT_BUF" "unat (in_w s - in_r s) \<le> unat (in_e s - in_r s)"
    "unat (in_e s - in_r s) \<le> INPUT_BUF"
  defines "t \<equiv> s\<lparr>in_w := in_e s\<rparr>"
  shows "inp_inv t" "pending t = pending s @ editing s" "editing t = []"
proof -
  show e: "editing t = []" by (simp add: t_def editing_def)
  then show "inp_inv t" using assms by (simp add: inp_inv_def t_def)
  show "pending t = pending s @ editing s"
    unfolding pending_def editing_def t_def using ring_seq_append [OF assms(2)] by simp
qed

text \<open>Output does not touch the input.\<close>

lemma put_out_inp:
  assumes "put_out s t"
  shows "pending t = pending s" "editing t = editing s" "inp_inv t = inp_inv s"
  using put_out_fields [OF assms] by (simp_all add: pending_def editing_def inp_inv_def)

definition same_input :: "'z cons_scheme \<Rightarrow> 'z cons_scheme \<Rightarrow> bool" where
  "same_input s t \<longleftrightarrow> screen_ok t \<and> held t = held s \<and> uart t = uart s"

lemma kill_line_rule:
  assumes "inp_inv s" "screen_ok s" "length (editing s) < n"
  shows "ok (kill_line n) s (\<lambda>_ t. inp_inv t \<and> same_input s t \<and> pending t = pending s \<and> editing t = [])"
  using assms
proof (induction n arbitrary: s)
  case (Suc n)
  show ?case
  proof (cases "in_e s = in_w s")
    case True
    then show ?thesis using Suc.prems by (simp add: editing_def same_input_def)
  next
    case False
    let ?t = "s\<lparr>in_e := in_e s - 1\<rparr>"
    note B = inp_backspace [OF Suc.prems(1) False]
    have "last (editing s) \<noteq> 10" using B(5) Suc.prems(1) by (metis inp_inv_def last_in_set)
    moreover have "ok (consputc BACKSPACE) ?t (\<lambda>_. put_out ?t)"
      using Suc.prems(2) by (intro consputc_out) (simp add: screen_ok_def)
    then have "ok (bnd (consputc BACKSPACE) (\<lambda>_. kill_line n)) ?t
        (\<lambda>_ t. inp_inv t \<and> same_input s t \<and> pending t = pending s \<and> editing t = [])"
    proof (rule ok_bndI)
      fix u assume u: "put_out ?t u"
      note P = put_out_inp [OF u] put_out_fields [OF u]
      have "length (butlast (editing s)) < n" using B(5) Suc.prems(3) by (cases "editing s") auto
      then have "ok (kill_line n) u (\<lambda>_ t. inp_inv t \<and> same_input u t \<and> pending t = pending u \<and> editing t = [])"
        using P B by (intro Suc.IH) simp_all
      then show "ok (kill_line n) u (\<lambda>_ t. inp_inv t \<and> same_input s t \<and> pending t = pending s \<and> editing t = [])"
        by (rule ok_mono) (use P B in \<open>simp add: same_input_def\<close>)
    qed
    ultimately show ?thesis using False B(4) by simp
  qed
qed simp

lemma ctl_codes:
  "Ctl CHR ''P'' = 16" "Ctl CHR ''U'' = 21" "Ctl CHR ''H'' = 8" "Ctl CHR ''D'' = 4"
  by (simp_all add: Ctl_def)

lemma console_put_rule:
  assumes I: "inp_inv s" "screen_ok s" "PTableLock \<notin> set (held s)" and c: "c < 256"
    and r: "in_e s - in_r s < of_nat INPUT_BUF"
  defines "ed \<equiv> editing s @ [ucast c]"
  shows "ok (seqs [
            mods (\<lambda>s. s\<lparr>in_buf := (in_buf s)[unat (in_e s) mod INPUT_BUF := ucast c]\<rparr>),
            mods (\<lambda>s. s\<lparr>in_e := in_e s + 1\<rparr>),
            consputc c,
            bnd (gets (\<lambda>s. c = 10 \<or> c = Ctl CHR ''D'' \<or> in_e s = in_r s + of_nat INPUT_BUF)) (\<lambda>b. whenk b (seqs [
              mods (\<lambda>s. s\<lparr>in_w := in_e s\<rparr>),
              wakeup (Some ChInput)]))]) s
    (\<lambda>_ t. inp_inv t \<and> same_input s t \<and> (pending t, editing t) =
      (if c = 10 \<or> c = Ctl CHR ''D'' \<or> length (pending s) + length ed = INPUT_BUF
       then (pending s @ ed, []) else (pending s, ed)))"
proof -
  let ?t = "s\<lparr>in_buf := (in_buf s)[unat (in_e s) mod INPUT_BUF := ucast c], in_e := in_e s + 1\<rparr>"
  have lt: "unat (in_e s - in_r s) < INPUT_BUF"
    using r by (simp add: word_less_nat_alt INPUT_BUF_def)
  note P = inp_put [OF I(1) lt, of "ucast c"] and W = inp_whole [OF I(1)]
  have full: "in_e ?t = in_r ?t + of_nat INPUT_BUF \<longleftrightarrow> length (pending s) + length ed = INPUT_BUF"
  proof -
    have "in_e ?t = in_r ?t + of_nat INPUT_BUF \<longleftrightarrow> in_e ?t - in_r ?t = of_nat INPUT_BUF" by (auto simp: algebra_simps)
    also have "\<dots> \<longleftrightarrow> unat (in_e ?t - in_r ?t) = INPUT_BUF"
      by (simp add: word_unat_eq_iff INPUT_BUF_def)
    finally show ?thesis using P(3) W(2) by (simp add: ed_def)
  qed
  have n10: "10 \<in> set ed \<longleftrightarrow> c = 10"
  proof -
    have "unat c < 256" using c by (simp add: word_less_nat_alt)
    then have "(ucast c :: uchar) = 10 \<longleftrightarrow> c = 10" by (simp add: word_unat_eq_iff unsigned_ucast_eq take_bit_nat_eq_self)
    then show ?thesis using I(1) by (auto simp: ed_def inp_inv_def)
  qed
  let ?b = "c = 10 \<or> c = Ctl CHR ''D'' \<or> length (pending s) + length ed = INPUT_BUF"
  have out: "ok (consputc c) ?t (\<lambda>_. put_out ?t)" using I(2) by (intro consputc_out) (simp add: screen_ok_def)
  let ?Q = "\<lambda>t. inp_inv t \<and> same_input s t \<and> (pending t, editing t) =
      (if ?b then (pending s @ ed, []) else (pending s, ed))"
  let ?fin = "bnd (gets (\<lambda>s. c = 10 \<or> c = Ctl CHR ''D'' \<or> in_e s = in_r s + of_nat INPUT_BUF)) (\<lambda>b. whenk b (seqs [
      mods (\<lambda>s. s\<lparr>in_w := in_e s\<rparr>), wakeup (Some ChInput)]))"
  have "ok (bnd (consputc c) (\<lambda>_. ?fin)) ?t (\<lambda>_. ?Q)"
  proof (rule ok_bndI [OF out])
    fix u assume u: "put_out ?t u"
    note f = put_out_fields [OF u] and p = put_out_inp [OF u]
    have cond: "(c = 10 \<or> c = Ctl CHR ''D'' \<or> in_e u = in_r u + of_nat INPUT_BUF) = ?b"
      using full f by simp
    have "ok (whenk ?b (seqs [mods (\<lambda>s. s\<lparr>in_w := in_e s\<rparr>), wakeup (Some ChInput)])) u (\<lambda>_. ?Q)"
    proof (cases ?b)
      case True
      have "length (in_buf u) = INPUT_BUF" "unat (in_w u - in_r u) \<le> unat (in_e u - in_r u)"
        "unat (in_e u - in_r u) \<le> INPUT_BUF" using f P lt by simp_all
      note C = inp_commit [OF this]
      then show ?thesis
        using True f(1,10,11) p(1,2) P(1,2) I(3)
        by (simp add: ok_whenk same_input_def screen_ok_def ed_def) (simp add: inp_inv_def pending_def editing_def)
    next
      case False
      have "inp_inv u" using False f P lt p n10 by (auto simp: inp_inv_def ed_def)
      then show ?thesis using False f(1,10,11) p P by (simp add: ok_whenk same_input_def ed_def)
    qed
    then show "ok ?fin u (\<lambda>_. ?Q)" unfolding ok_bnd ok_gets cond .
  qed
  then show ?thesis by simp
qed

lemma console_key_rule:
  assumes I: "inp_inv s" "screen_ok s" "PTableLock \<notin> set (held s)" and c: "c < 256"
  shows "ok (console_key c) s (\<lambda>d t. d = (c = Ctl CHR ''P'') \<and> inp_inv t \<and> same_input s t \<and>
    (pending t, editing t) = key_spec c (pending s, editing s))"
proof -
  note W = inp_whole [OF I(1)]
  have "length (editing s) < Suc INPUT_BUF" using W(2) I(1) by (simp add: inp_inv_def)
  note K = kill_line_rule [OF I(1,2) this]
  have r: "in_e s - in_r s < of_nat INPUT_BUF \<longleftrightarrow> length (pending s) + length (editing s) < INPUT_BUF"
    using W(2) by (simp add: word_less_nat_alt INPUT_BUF_def)
  have same: "same_input s s" using I(2) by (simp add: same_input_def)
  consider "c = Ctl CHR ''P''" | "c = Ctl CHR ''U''"
    | "c \<noteq> Ctl CHR ''P''" "c \<noteq> Ctl CHR ''U''" "c = Ctl CHR ''H'' \<or> c = 0x7f"
    | "c \<noteq> Ctl CHR ''P''" "c \<noteq> Ctl CHR ''U''" "\<not> (c = Ctl CHR ''H'' \<or> c = 0x7f)"
    by blast
  then show ?thesis
  proof cases
    case 1
    then show ?thesis using I same by (simp add: console_key_def key_spec_def)
  next
    case 2
    then show ?thesis
      using ok_mono [OF K, of "\<lambda>_ t. inp_inv t \<and> same_input s t \<and> (pending t, editing t) = (pending s, [])"]
      by (simp add: console_key_def key_spec_def ctl_codes)
  next
    case 3
    show ?thesis
    proof (cases "in_e s = in_w s")
      case True
      then show ?thesis using 3 I same by (simp add: console_key_def key_spec_def ok_whenk editing_def)
    next
      case False
      let ?t = "s\<lparr>in_e := in_e s - 1\<rparr>"
      note B = inp_backspace [OF I(1) False]
      have "ok (consputc BACKSPACE) ?t (\<lambda>_. put_out ?t)" using I(2) by (intro consputc_out) (simp add: screen_ok_def)
      then have "ok (consputc BACKSPACE) ?t (\<lambda>_ t. inp_inv t \<and> same_input s t \<and> pending t = pending s \<and>
          editing t = butlast (editing s))"
        by (rule ok_mono) (use B in \<open>auto simp: same_input_def put_out_inp put_out_fields\<close>)
      then show ?thesis using 3 False by (simp add: console_key_def key_spec_def ok_whenk)
    qed
  next
    case 4
    let ?c = "if c = 13 then 10 else c"
    have "?c < 256" using c by simp
    from console_put_rule [OF I this] show ?thesis
      using 4 r same I by (simp add: console_key_def key_spec_def ok_whenk Let_def)
  qed
qed

lemma console_keys_rule:
  assumes "inp_inv s" "screen_ok s" "PTableLock \<notin> set (held s)" "\<forall>c \<in> set cs. c < 256"
  shows "ok (console_keys cs d) s (\<lambda>_ t. inp_inv t \<and> same_input s t \<and>
    (pending t, editing t) = fold key_spec cs (pending s, editing s))"
  using assms
proof (induction cs arbitrary: s d)
  case (Cons c cs)
  from Cons.prems have c: "c < 256" by simp
  show ?case unfolding console_keys.simps
  proof (rule ok_bndI [OF console_key_rule [OF Cons.prems(1-3) c]])
    fix e t assume t: "e = (c = Ctl CHR ''P'') \<and> inp_inv t \<and> same_input s t \<and>
      (pending t, editing t) = key_spec c (pending s, editing s)"
    then have "ok (console_keys cs (d \<or> e)) t (\<lambda>_ u. inp_inv u \<and> same_input t u \<and>
        (pending u, editing u) = fold key_spec cs (pending t, editing t))"
      using Cons.prems by (intro Cons.IH) (auto simp: same_input_def)
    then show "ok (console_keys cs (d \<or> e)) t (\<lambda>_ u. inp_inv u \<and> same_input s u \<and>
        (pending u, editing u) = fold key_spec (c # cs) (pending s, editing s))"
      by (rule ok_mono) (use t in \<open>simp add: same_input_def\<close>)
  qed
qed (simp add: same_input_def)

text \<open>An empty console.\<close>

definition cons0 :: cons where
  "cons0 = \<lparr>held = [], curproc = Some 0, ticks = 0, procs = (\<lambda>_. proc0), nextpid = 1, initproc = None,
     slocks = (\<lambda>_. \<lparr>slocked = False, slname = [], slpid = 0\<rparr>),
     mem = (\<lambda>_. 0), freelist = 0, use_lock = False, kend = 0,
     cons_locking = True, panicked = False, uart = True, uart_out = [], crt = (\<lambda>_. 0), crt_cursor = 0,
     in_buf = replicate 128 0, in_r = 0, in_w = 0, in_e = 0\<rparr>"



subsection \<open>Printed numbers\<close>

lemma unat_neg: "sint x < 0 \<Longrightarrow> unat (- x) = nat (- sint x)" for x :: uint
proof -
  assume neg: "sint x < 0"
  have "uint (- x) = uint (of_int (- sint x) :: uint)" by simp
  also have "\<dots> = - sint x"
    using neg sint_greater_eq [of x] by (simp only: unsigned_of_int) (simp add: take_bit_int_eq_self)
  finally show ?thesis by (simp only: unat_eq_nat_uint)
qed



end
