(* ===== verification/Fs.thy ===== *)
theory Fs
  imports Log
begin

unbundle bit_operations_syntax

text \<open>
  The file system below the system calls (fs.c) and the console device functions
  it dispatches to (\<open>consoleread\<close>, \<open>consolewrite\<close> of console.c): block and inode
  allocation, the inode cache, file contents, directories and path names. The
  operations run over the log and the buffer cache; on-disk structures are read
  and written in the bytes of the buffers.

  A destination or source of file data is given by a function: \<open>put k bs\<close> stores
  the bytes \<open>bs\<close> at offset \<open>k\<close> of the destination, \<open>get k n\<close> loads \<open>n\<close> bytes at
  offset \<open>k\<close> of the source. For a pointer they access memory; a local variable of
  the C code, such as the directory entry in \<open>dirlookup\<close>, is a byte sequence.
\<close>

subsection \<open>On-disk structures (fs.h, stat.h, file.h)\<close>

definition ROOTINO :: uint where "ROOTINO = 1"
definition NDIRECT :: nat where "NDIRECT = 12"
definition NINDIRECT :: nat where "NINDIRECT = BSIZE div 4"
definition MAXFILE :: nat where "MAXFILE = NDIRECT + NINDIRECT"
definition IPB :: uint where "IPB = 8"
definition BPB :: nat where "BPB = BSIZE * 8"
definition DIRSIZ :: nat where "DIRSIZ = 14"
definition T_DIR :: ushort where "T_DIR = 1"
definition T_FILE :: ushort where "T_FILE = 2"
definition T_DEV :: ushort where "T_DEV = 3"
definition CONSOLE :: nat where "CONSOLE = 1"

record dinode =
  d_type :: ushort
  d_major :: ushort
  d_minor :: ushort
  d_nlink :: ushort
  d_size :: uint
  d_addrs :: "uint list"

definition decode_dinode :: "bytes \<Rightarrow> nat \<Rightarrow> dinode" where
  "decode_dinode d o' = \<lparr>d_type = get16 d o', d_major = get16 d (o' + 2), d_minor = get16 d (o' + 4),
     d_nlink = get16 d (o' + 6), d_size = get32 d (o' + 8),
     d_addrs = map (\<lambda>i. get32 d (o' + 12 + 4 * i)) [0..<NDIRECT + 1]\<rparr>"

definition encode_dinode :: "dinode \<Rightarrow> bytes \<Rightarrow> nat \<Rightarrow> bytes" where
  "encode_dinode di d o' =
     put_array put32 4 (o' + 12) (\<lambda>i. d_addrs di ! i) (NDIRECT + 1)
       (put32 (put16 (put16 (put16 (put16 d o' (d_type di)) (o' + 2) (d_major di)) (o' + 4) (d_minor di))
         (o' + 6) (d_nlink di)) (o' + 8) (d_size di))"

record dirent =
  de_inum :: ushort
  de_name :: bytes

definition decode_dirent :: "bytes \<Rightarrow> dirent" where
  "decode_dirent b = \<lparr>de_inum = get16 b 0, de_name = take DIRSIZ (drop 2 b)\<rparr>"

definition encode_dirent :: "dirent \<Rightarrow> bytes" where
  "encode_dirent de = put16 [0, 0] 0 (de_inum de) @ de_name de"

record inode =
  idev :: uint
  inum :: uint
  iref :: int
  ivalid :: bool
  itype :: ushort
  imajor :: ushort
  iminor :: ushort
  inlink :: ushort
  isize :: uint
  iaddrs :: "uint list"

text \<open>The entries of \<open>devsw\<close>: no functions, or those of the console.\<close>

datatype devfns = NoDev | ConsoleFns

record fs = log +
  sb :: superblock
  inodes :: "nat \<Rightarrow> inode"
  devsw :: "nat \<Rightarrow> devfns"

definition IBLOCK :: "uint \<Rightarrow> superblock \<Rightarrow> uint" where
  "IBLOCK i q = i div IPB + sb_inodestart q"

definition BBLOCK :: "uint \<Rightarrow> superblock \<Rightarrow> uint" where
  "BBLOCK b q = b div of_nat BPB + sb_bmapstart q"

definition dslot :: "uint \<Rightarrow> nat" where
  "dslot i = unat (i mod IPB) * 64"

definition inode_get :: "nat \<Rightarrow> (inode \<Rightarrow> 'a) \<Rightarrow> ('z fs_scheme, 'a) kop" where
  "inode_get i f = gets (\<lambda>s. f (inodes s i))"

definition inode_upd :: "nat \<Rightarrow> (inode \<Rightarrow> inode) \<Rightarrow> ('z fs_scheme, unit) kop" where
  "inode_upd i f = mods (\<lambda>s. s\<lparr>inodes := (inodes s)(i := f (inodes s i))\<rparr>)"

subsection \<open>Blocks\<close>

definition bzero :: "uint \<Rightarrow> uint \<Rightarrow> ('z fs_scheme, unit) kop" where
  "bzero dev bno = bnd (bread dev bno) (\<lambda>bp. seqs [
     buf_upd bp (\<lambda>x. x\<lparr>bdata := replicate BSIZE 0\<rparr>),
     log_write bp,
     brelse bp])"

definition bit_used :: "bytes \<Rightarrow> nat \<Rightarrow> bool" where
  "bit_used d bi \<longleftrightarrow> d ! (bi div 8) AND push_bit (bi mod 8) 1 \<noteq> 0"

definition mark_used :: "nat \<Rightarrow> bytes \<Rightarrow> bytes" where
  "mark_used bi d = d[bi div 8 := d ! (bi div 8) OR push_bit (bi mod 8) 1]"

definition mark_free :: "nat \<Rightarrow> bytes \<Rightarrow> bytes" where
  "mark_free bi d = d[bi div 8 := d ! (bi div 8) AND NOT (push_bit (bi mod 8) 1)]"

text \<open>The scan of one block of the free map, for the blocks from \<open>b\<close> below \<open>sz\<close>.\<close>

definition free_bit :: "bytes \<Rightarrow> uint \<Rightarrow> uint \<Rightarrow> nat option" where
  "free_bit d b sz = scan BPB (\<lambda>bi. b + of_nat bi < sz \<and> \<not> bit_used d bi)"

primrec balloc_loop :: "nat \<Rightarrow> uint \<Rightarrow> uint \<Rightarrow> ('z fs_scheme, uint) kop" where
  "balloc_loop 0 dev b = wild ''balloc''"
| "balloc_loop (Suc n) dev b =
     bnd (gets sb) (\<lambda>sb.
       if b < sb_size sb then
         bnd (bread dev (BBLOCK b sb)) (\<lambda>bp.
         bnd (buf_get bp bdata) (\<lambda>d. case free_bit d b (sb_size sb) of
           Some bi \<Rightarrow> bnd (seqs [
               buf_upd bp (\<lambda>x. x\<lparr>bdata := mark_used bi (bdata x)\<rparr>),
               log_write bp,
               brelse bp,
               bzero dev (b + of_nat bi)]) (\<lambda>_. ret (b + of_nat bi))
         | None \<Rightarrow> bnd (brelse bp) (\<lambda>_. balloc_loop n dev (b + of_nat BPB))))
       else panic ''balloc: out of blocks'')"

definition balloc :: "uint \<Rightarrow> ('z fs_scheme, uint) kop" where
  "balloc dev = balloc_loop (Suc (2 ^ 20)) dev 0"

definition bfree :: "uint \<Rightarrow> uint \<Rightarrow> ('z fs_scheme, unit) kop" where
  "bfree dev b =
     bnd (gets sb) (\<lambda>sb.
     bnd (bread dev (BBLOCK b sb)) (\<lambda>bp.
     bnd (buf_get bp bdata) (\<lambda>d.
       let bi = unat b mod BPB in
       if \<not> bit_used d bi then panic ''freeing free block''
       else seqs [
         buf_upd bp (\<lambda>x. x\<lparr>bdata := mark_free bi (bdata x)\<rparr>),
         log_write bp,
         brelse bp])))"

subsection \<open>The inode cache\<close>

definition iinit :: "uint \<Rightarrow> ('z fs_scheme, unit) kop" where
  "iinit dev = seqs [
     for_each [0..<NINODE] (\<lambda>i. initsleeplock (InodeLock i) ''inode''),
     bnd (readsb dev) (\<lambda>b. mods (\<lambda>s. s\<lparr>sb := b\<rparr>)),
     bnd (gets sb) (\<lambda>b. cprintf (Some (chars
         ''sb: size %d nblocks %d ninodes %d nlog %d logstart %d inodestart %d bmap start %d'' @ [10]))
       [ANum (sb_size b), ANum (sb_nblocks b), ANum (sb_ninodes b), ANum (sb_nlog b), ANum (sb_logstart b),
        ANum (sb_inodestart b), ANum (sb_bmapstart b)])]"

definition iget :: "uint \<Rightarrow> uint \<Rightarrow> ('z fs_scheme, nat) kop" where
  "iget dev ino =
     bnd (kacquire ICacheLock) (\<lambda>_.
     bnd (gets (\<lambda>s. scan NINODE (\<lambda>i. iref (inodes s i) > 0 \<and> idev (inodes s i) = dev \<and> inum (inodes s i) = ino))) (\<lambda>r.
     case r of
       Some i \<Rightarrow> bnd (seqs [inode_upd i (\<lambda>x. x\<lparr>iref := iref x + 1\<rparr>), krelease ICacheLock]) (\<lambda>_. ret i)
     | None \<Rightarrow> bnd (gets (\<lambda>s. scan NINODE (\<lambda>i. iref (inodes s i) = 0))) (\<lambda>r. case r of
         None \<Rightarrow> panic ''iget: no inodes''
       | Some i \<Rightarrow> bnd (seqs [
           inode_upd i (\<lambda>x. x\<lparr>idev := dev\<rparr>),
           inode_upd i (\<lambda>x. x\<lparr>inum := ino\<rparr>),
           inode_upd i (\<lambda>x. x\<lparr>iref := 1\<rparr>),
           inode_upd i (\<lambda>x. x\<lparr>ivalid := False\<rparr>),
           krelease ICacheLock]) (\<lambda>_. ret i))))"

primrec ialloc_loop :: "uint list \<Rightarrow> uint \<Rightarrow> ushort \<Rightarrow> ('z fs_scheme, nat) kop" where
  "ialloc_loop [] dev type = panic ''ialloc: no inodes''"
| "ialloc_loop (ino # inos) dev type =
     bnd (gets sb) (\<lambda>sb.
     bnd (bread dev (IBLOCK ino sb)) (\<lambda>bp.
     bnd (buf_get bp bdata) (\<lambda>d.
       if get16 d (dslot ino) = 0 then
         bnd (seqs [
           buf_upd bp (\<lambda>x. x\<lparr>bdata := take (dslot ino) (bdata x) @ replicate 64 0 @ drop (dslot ino + 64) (bdata x)\<rparr>),
           buf_upd bp (\<lambda>x. x\<lparr>bdata := put16 (bdata x) (dslot ino) type\<rparr>),
           log_write bp,
           brelse bp]) (\<lambda>_. iget dev ino)
       else bnd (brelse bp) (\<lambda>_. ialloc_loop inos dev type))))"

definition ialloc :: "uint \<Rightarrow> ushort \<Rightarrow> ('z fs_scheme, nat) kop" where
  "ialloc dev type = bnd (gets (\<lambda>s. sb_ninodes (sb s))) (\<lambda>n.
     ialloc_loop (map of_nat [1..<unat n]) dev type)"

definition iupdate :: "nat \<Rightarrow> ('z fs_scheme, unit) kop" where
  "iupdate ip =
     bnd (gets sb) (\<lambda>sb.
     bnd (inode_get ip (\<lambda>x. x)) (\<lambda>x.
     bnd (bread (idev x) (IBLOCK (inum x) sb)) (\<lambda>bp. seqs [
       buf_upd bp (\<lambda>b. b\<lparr>bdata := encode_dinode
         \<lparr>d_type = itype x, d_major = imajor x, d_minor = iminor x, d_nlink = inlink x,
          d_size = isize x, d_addrs = iaddrs x\<rparr> (bdata b) (dslot (inum x))\<rparr>),
       log_write bp,
       brelse bp])))"

definition idup :: "nat \<Rightarrow> ('z fs_scheme, nat) kop" where
  "idup ip = bnd (seqs [
     kacquire ICacheLock,
     inode_upd ip (\<lambda>x. x\<lparr>iref := iref x + 1\<rparr>),
     krelease ICacheLock]) (\<lambda>_. ret ip)"

text \<open>The part of \<open>ilock\<close> after the lock is taken, which also follows a wait for it.\<close>

definition ilock_load :: "nat \<Rightarrow> ('z fs_scheme, unit) kop" where
  "ilock_load ip =
     bnd (inode_get ip (\<lambda>x. x)) (\<lambda>x. whenk (\<not> ivalid x) (
       bnd (gets sb) (\<lambda>sb.
       bnd (bread (idev x) (IBLOCK (inum x) sb)) (\<lambda>bp.
       bnd (buf_get bp bdata) (\<lambda>d.
       let di = decode_dinode d (dslot (inum x)) in seqs [
         inode_upd ip (\<lambda>x. x\<lparr>itype := d_type di, imajor := d_major di, iminor := d_minor di,
           inlink := d_nlink di, isize := d_size di, iaddrs := d_addrs di\<rparr>),
         brelse bp,
         inode_upd ip (\<lambda>x. x\<lparr>ivalid := True\<rparr>),
         if d_type di = 0 then panic ''ilock: no type'' else ret ()])))))"

definition ilock :: "nat option \<Rightarrow> ('z fs_scheme, unit) kop" where
  "ilock ip = (case ip of None \<Rightarrow> panic ''ilock'' | Some i \<Rightarrow>
     bnd (inode_get i iref) (\<lambda>r. if r < 1 then panic ''ilock'' else seqs [
       acquiresleep (InodeLock i),
       ilock_load i]))"

definition ilock_resume :: "nat \<Rightarrow> nat \<Rightarrow> ('z fs_scheme, unit) kop" where
  "ilock_resume p i = seqs [acquiresleep_resume p (InodeLock i), ilock_load i]"

definition iunlock :: "nat option \<Rightarrow> ('z fs_scheme, unit) kop" where
  "iunlock ip = (case ip of None \<Rightarrow> panic ''iunlock'' | Some i \<Rightarrow>
     bnd (holdingsleep (InodeLock i)) (\<lambda>h.
     bnd (inode_get i iref) (\<lambda>r.
       if \<not> h \<or> r < 1 then panic ''iunlock'' else releasesleep (InodeLock i))))"

definition itrunc :: "nat \<Rightarrow> ('z fs_scheme, unit) kop" where
  "itrunc ip = seqs [
     for_each [0..<NDIRECT] (\<lambda>i.
       bnd (inode_get ip (\<lambda>x. (idev x, iaddrs x ! i))) (\<lambda>(dev, a). whenk (a \<noteq> 0) (seqs [
         bfree dev a,
         inode_upd ip (\<lambda>x. x\<lparr>iaddrs := (iaddrs x)[i := 0]\<rparr>)]))),
     bnd (inode_get ip (\<lambda>x. (idev x, iaddrs x ! NDIRECT))) (\<lambda>(dev, a). whenk (a \<noteq> 0) (
       bnd (bread dev a) (\<lambda>bp. seqs [
         for_each [0..<NINDIRECT] (\<lambda>j.
           bnd (buf_get bp (\<lambda>x. get32 (bdata x) (4 * j))) (\<lambda>b. whenk (b \<noteq> 0) (bfree dev b))),
         brelse bp,
         bfree dev a,
         inode_upd ip (\<lambda>x. x\<lparr>iaddrs := (iaddrs x)[NDIRECT := 0]\<rparr>)]))),
     inode_upd ip (\<lambda>x. x\<lparr>isize := 0\<rparr>),
     iupdate ip]"

definition iput :: "nat \<Rightarrow> ('z fs_scheme, unit) kop" where
  "iput ip = seqs [
     acquiresleep (InodeLock ip),
     bnd (inode_get ip (\<lambda>x. ivalid x \<and> inlink x = 0)) (\<lambda>b. whenk b (
       bnd (kacquire ICacheLock) (\<lambda>_.
       bnd (inode_get ip iref) (\<lambda>r.
       bnd (krelease ICacheLock) (\<lambda>_. whenk (r = 1) (seqs [
         itrunc ip,
         inode_upd ip (\<lambda>x. x\<lparr>itype := 0\<rparr>),
         iupdate ip,
         inode_upd ip (\<lambda>x. x\<lparr>ivalid := False\<rparr>)])))))),
     releasesleep (InodeLock ip),
     kacquire ICacheLock,
     inode_upd ip (\<lambda>x. x\<lparr>iref := iref x - 1\<rparr>),
     krelease ICacheLock]"

definition iunlockput :: "nat \<Rightarrow> ('z fs_scheme, unit) kop" where
  "iunlockput ip = seqs [iunlock (Some ip), iput ip]"

subsection \<open>File contents\<close>

definition bmap :: "nat \<Rightarrow> uint \<Rightarrow> ('z fs_scheme, uint) kop" where
  "bmap ip bn =
     bnd (inode_get ip idev) (\<lambda>dev.
       if bn < of_nat NDIRECT then
         bnd (inode_get ip (\<lambda>x. iaddrs x ! unat bn)) (\<lambda>addr. if addr \<noteq> 0 then ret addr else
         bnd (balloc dev) (\<lambda>addr.
         bnd (inode_upd ip (\<lambda>x. x\<lparr>iaddrs := (iaddrs x)[unat bn := addr]\<rparr>)) (\<lambda>_. ret addr)))
       else let bn = bn - of_nat NDIRECT in
       if bn < of_nat NINDIRECT then
         bnd (bnd (inode_get ip (\<lambda>x. iaddrs x ! NDIRECT)) (\<lambda>addr. if addr \<noteq> 0 then ret addr else
           bnd (balloc dev) (\<lambda>addr.
           bnd (inode_upd ip (\<lambda>x. x\<lparr>iaddrs := (iaddrs x)[NDIRECT := addr]\<rparr>)) (\<lambda>_. ret addr)))) (\<lambda>ind.
         bnd (bread dev ind) (\<lambda>bp.
         bnd (bnd (buf_get bp (\<lambda>x. get32 (bdata x) (4 * unat bn))) (\<lambda>addr. if addr \<noteq> 0 then ret addr else
           bnd (balloc dev) (\<lambda>addr. bnd (seqs [
             buf_upd bp (\<lambda>x. x\<lparr>bdata := put32 (bdata x) (4 * unat bn) addr\<rparr>),
             log_write bp]) (\<lambda>_. ret addr)))) (\<lambda>addr.
         bnd (brelse bp) (\<lambda>_. ret addr))))
       else panic ''bmap: out of range'')"

record stat =
  st_type :: ushort
  st_dev :: uint
  st_ino :: uint
  st_nlink :: ushort
  st_size :: uint

definition stati :: "nat \<Rightarrow> ('z fs_scheme, stat) kop" where
  "stati ip = inode_get ip (\<lambda>x. \<lparr>st_type = itype x, st_dev = idev x, st_ino = inum x,
     st_nlink = inlink x, st_size = isize x\<rparr>)"

subsection \<open>The console device\<close>

text \<open>
  The loop of \<open>consoleread\<close>, with \<open>k\<close> bytes stored and \<open>n\<close> to go: the return value and
  the bytes it has stored. Waiting for input is a switch; \<open>consoleread_resume\<close>
  continues in the loop after it.
\<close>

primrec consoleread_loop :: "(uint \<Rightarrow> bytes \<Rightarrow> ('z fs_scheme, unit) kop) \<Rightarrow> nat option \<Rightarrow> uint \<Rightarrow> uint \<Rightarrow> nat \<Rightarrow>
    ('z fs_scheme, int \<times> bytes) kop" where
  "consoleread_loop put ip target k 0 =
     bnd (seqs [krelease ConsLock, ilock ip]) (\<lambda>_. ret (sint k, []))"
| "consoleread_loop put ip target k (Suc n) =
     bnd (gets (\<lambda>s. in_r s = in_w s)) (\<lambda>empty. if empty then
       with_myproc (\<lambda>p. bnd (proc_get p killed) (\<lambda>kd. if kd then
           bnd (seqs [krelease ConsLock, ilock ip]) (\<lambda>_. ret (- 1, []))
         else sleep (Some ChInput) (Some ConsLock)))
     else
     bnd (gets (\<lambda>s. in_buf s ! (unat (in_r s) mod INPUT_BUF))) (\<lambda>c.
     bnd (mods (\<lambda>s. s\<lparr>in_r := in_r s + 1\<rparr>)) (\<lambda>_.
       if scast c = Ctl CHR ''D'' then
         bnd (seqs [
           whenk (of_nat (Suc n) < target) (mods (\<lambda>s. s\<lparr>in_r := in_r s - 1\<rparr>)),
           krelease ConsLock,
           ilock ip]) (\<lambda>_. ret (sint k, []))
       else bnd (put k [c]) (\<lambda>_.
         if c = 10 then bnd (seqs [krelease ConsLock, ilock ip]) (\<lambda>_. ret (sint (k + 1), [c]))
         else bnd (consoleread_loop put ip target (k + 1) n) (\<lambda>(r, cs). ret (r, c # cs))))))"

definition consoleread :: "(uint \<Rightarrow> bytes \<Rightarrow> ('z fs_scheme, unit) kop) \<Rightarrow> nat option \<Rightarrow> int \<Rightarrow> ('z fs_scheme, int \<times> bytes) kop" where
  "consoleread put ip n = bnd (seqs [
     iunlock ip,
     kacquire ConsLock]) (\<lambda>_.
     if n \<le> 0 then bnd (seqs [krelease ConsLock, ilock ip]) (\<lambda>_. ret (0, []))
     else consoleread_loop put ip (of_int n) 0 (nat n))"

definition consoleread_resume :: "nat \<Rightarrow> (uint \<Rightarrow> bytes \<Rightarrow> ('z fs_scheme, unit) kop) \<Rightarrow> nat option \<Rightarrow> uint \<Rightarrow> uint \<Rightarrow> nat \<Rightarrow>
    ('z fs_scheme, int \<times> bytes) kop" where
  "consoleread_resume p put ip target k n = bnd (sleep_resume p ConsLock) (\<lambda>_. consoleread_loop put ip target k n)"

definition consolewrite :: "(uint \<Rightarrow> nat \<Rightarrow> ('z fs_scheme, bytes) kop) \<Rightarrow> nat option \<Rightarrow> int \<Rightarrow> ('z fs_scheme, int) kop" where
  "consolewrite get ip n = bnd (seqs [
     iunlock ip,
     kacquire ConsLock,
     for_each [0..<nat n] (\<lambda>i. bnd (get (of_nat i) 1) (\<lambda>b. consputc (ucast (b ! 0)))),
     krelease ConsLock,
     ilock ip]) (\<lambda>_. ret n)"

definition consoleinit :: "('z fs_scheme, unit) kop" where
  "consoleinit = seqs [
     mods (\<lambda>s. s\<lparr>devsw := (devsw s)(CONSOLE := ConsoleFns)\<rparr>),
     mods (\<lambda>s. s\<lparr>cons_locking := True\<rparr>)]"

subsection \<open>Reading and writing\<close>

text \<open>
  The loops of \<open>readi\<close> and \<open>writei\<close>. Each round moves at least one byte, so \<open>n\<close>
  rounds are enough.
\<close>

definition chunk :: "uint \<Rightarrow> uint \<Rightarrow> uint" where
  "chunk left off = (if left < of_nat BSIZE - off mod of_nat BSIZE then left else of_nat BSIZE - off mod of_nat BSIZE)"

primrec readi_loop :: "nat \<Rightarrow> (uint \<Rightarrow> bytes \<Rightarrow> ('z fs_scheme, unit) kop) \<Rightarrow> nat \<Rightarrow> uint \<Rightarrow> uint \<Rightarrow> uint \<Rightarrow>
    ('z fs_scheme, bytes) kop" where
  "readi_loop 0 put ip off tot n = (if tot < n then wild ''readi'' else ret [])"
| "readi_loop (Suc fuel) put ip off tot n =
     (if tot < n then
        bnd (inode_get ip idev) (\<lambda>dev.
        bnd (bmap ip (off div of_nat BSIZE)) (\<lambda>addr.
        bnd (bread dev addr) (\<lambda>bp.
        bnd (buf_get bp bdata) (\<lambda>d.
        let m = chunk (n - tot) off; cs = take (unat m) (drop (unat (off mod of_nat BSIZE)) d) in
        bnd (put tot cs) (\<lambda>_.
        bnd (brelse bp) (\<lambda>_.
        bnd (readi_loop fuel put ip (off + m) (tot + m) n) (\<lambda>rest. ret (cs @ rest))))))))
      else ret [])"

text \<open>The result of \<open>readi\<close>, and the bytes it has stored.\<close>

definition readi :: "(uint \<Rightarrow> bytes \<Rightarrow> ('z fs_scheme, unit) kop) \<Rightarrow> nat \<Rightarrow> uint \<Rightarrow> uint \<Rightarrow> ('z fs_scheme, int \<times> bytes) kop" where
  "readi put ip off n =
     bnd (inode_get ip (\<lambda>x. x)) (\<lambda>x.
       if itype x = T_DEV then
         bnd (gets devsw) (\<lambda>ds.
           if sint (imajor x) < 0 \<or> sint (imajor x) \<ge> int NDEV \<or> ds (unat (imajor x)) = NoDev then ret (- 1, [])
           else consoleread put (Some ip) (sint n))
       else if off > isize x \<or> off + n < off then ret (- 1, [])
       else let n = (if off + n > isize x then isize x - off else n) in
         bnd (readi_loop (unat n) put ip off 0 n) (\<lambda>cs. ret (sint n, cs)))"

primrec writei_loop :: "nat \<Rightarrow> (uint \<Rightarrow> nat \<Rightarrow> ('z fs_scheme, bytes) kop) \<Rightarrow> nat \<Rightarrow> uint \<Rightarrow> uint \<Rightarrow> uint \<Rightarrow>
    ('z fs_scheme, uint) kop" where
  "writei_loop 0 get ip off tot n = (if tot < n then wild ''writei'' else ret off)"
| "writei_loop (Suc fuel) get ip off tot n =
     (if tot < n then
        bnd (inode_get ip idev) (\<lambda>dev.
        bnd (bmap ip (off div of_nat BSIZE)) (\<lambda>addr.
        bnd (bread dev addr) (\<lambda>bp.
        let m = chunk (n - tot) off; i = unat (off mod of_nat BSIZE) in
        bnd (get tot (unat m)) (\<lambda>cs.
        bnd (seqs [
          buf_upd bp (\<lambda>x. x\<lparr>bdata := take i (bdata x) @ cs @ drop (i + unat m) (bdata x)\<rparr>),
          log_write bp,
          brelse bp]) (\<lambda>_.
        writei_loop fuel get ip (off + m) (tot + m) n)))))
      else ret off)"

definition writei :: "(uint \<Rightarrow> nat \<Rightarrow> ('z fs_scheme, bytes) kop) \<Rightarrow> nat \<Rightarrow> uint \<Rightarrow> uint \<Rightarrow> ('z fs_scheme, int) kop" where
  "writei get ip off n =
     bnd (inode_get ip (\<lambda>x. x)) (\<lambda>x.
       if itype x = T_DEV then
         bnd (gets devsw) (\<lambda>ds.
           if sint (imajor x) < 0 \<or> sint (imajor x) \<ge> int NDEV \<or> ds (unat (imajor x)) = NoDev then ret (- 1)
           else consolewrite get (Some ip) (sint n))
       else if off > isize x \<or> off + n < off then ret (- 1)
       else if off + n > of_nat (MAXFILE * BSIZE) then ret (- 1)
       else bnd (writei_loop (unat n) get ip off 0 n) (\<lambda>off.
         bnd (inode_get ip isize) (\<lambda>sz.
         bnd (whenk (n > 0 \<and> off > sz) (seqs [
           inode_upd ip (\<lambda>x. x\<lparr>isize := off\<rparr>),
           iupdate ip])) (\<lambda>_. ret (sint n)))))"

subsection \<open>Directories\<close>

text \<open>Strings in arrays: the byte after the end of a sequence is the terminator.\<close>

definition hd0 :: "bytes \<Rightarrow> uchar" where
  "hd0 cs = (case cs of [] \<Rightarrow> 0 | c # _ \<Rightarrow> c)"

primrec strncmp_b :: "nat \<Rightarrow> bytes \<Rightarrow> bytes \<Rightarrow> int" where
  "strncmp_b 0 p q = 0"
| "strncmp_b (Suc n) p q =
     (if hd0 p \<noteq> 0 \<and> hd0 p = hd0 q then strncmp_b n (tl p) (tl q) else uint (hd0 p) - uint (hd0 q))"

definition namecmp :: "bytes \<Rightarrow> bytes \<Rightarrow> int" where
  "namecmp s t = strncmp_b DIRSIZ s t"

primrec strncpy_b :: "nat \<Rightarrow> bytes \<Rightarrow> bytes" where
  "strncpy_b 0 t = []"
| "strncpy_b (Suc n) t = (if hd0 t = 0 then replicate (Suc n) 0 else hd0 t # strncpy_b n (tl t))"

definition DESZ :: uint where "DESZ = 16"

text \<open>
  The loops over the entries of a directory, from offset \<open>off\<close>; the counter has
  32 bits, which bounds the number of entries. The result of \<open>dirlookup\<close> is the
  inode and the offset of its entry.
\<close>

primrec dirlookup_loop :: "nat \<Rightarrow> nat \<Rightarrow> bytes \<Rightarrow> uint \<Rightarrow> ('z fs_scheme, (nat \<times> uint) option) kop" where
  "dirlookup_loop 0 dp name off = wild ''dirlookup''"
| "dirlookup_loop (Suc n) dp name off =
     bnd (inode_get dp isize) (\<lambda>sz.
       if off < sz then
         bnd (readi to_local dp off DESZ) (\<lambda>(r, b).
           if r \<noteq> uint DESZ then panic ''dirlookup read''
           else let de = decode_dirent b in
             if de_inum de = 0 then dirlookup_loop n dp name (off + DESZ)
             else if namecmp name (de_name de) = 0 then
               bnd (inode_get dp idev) (\<lambda>dev. bnd (iget dev (ucast (de_inum de))) (\<lambda>ip. ret (Some (ip, off))))
             else dirlookup_loop n dp name (off + DESZ))
       else ret None)"

definition dirlookup :: "nat \<Rightarrow> bytes \<Rightarrow> ('z fs_scheme, (nat \<times> uint) option) kop" where
  "dirlookup dp name =
     bnd (inode_get dp itype) (\<lambda>ty.
       if ty \<noteq> T_DIR then panic ''dirlookup not DIR'' else dirlookup_loop (2 ^ 28 + 1) dp name 0)"

primrec dirlink_loop :: "nat \<Rightarrow> nat \<Rightarrow> uint \<Rightarrow> ('z fs_scheme, uint) kop" where
  "dirlink_loop 0 dp off = wild ''dirlink''"
| "dirlink_loop (Suc n) dp off =
     bnd (inode_get dp isize) (\<lambda>sz.
       if off < sz then
         bnd (readi to_local dp off DESZ) (\<lambda>(r, b).
           if r \<noteq> uint DESZ then panic ''dirlink read''
           else if de_inum (decode_dirent b) = 0 then ret off
           else dirlink_loop n dp (off + DESZ))
       else ret off)"

definition dirlink :: "nat \<Rightarrow> bytes \<Rightarrow> uint \<Rightarrow> ('z fs_scheme, int) kop" where
  "dirlink dp name ino =
     bnd (dirlookup dp name) (\<lambda>r. case r of
       Some (ip, _) \<Rightarrow> bnd (iput ip) (\<lambda>_. ret (- 1))
     | None \<Rightarrow>
       bnd (dirlink_loop (2 ^ 28 + 1) dp 0) (\<lambda>off.
       bnd (writei (from_local (encode_dirent \<lparr>de_inum = ucast ino, de_name = strncpy_b DIRSIZ name\<rparr>)) dp off DESZ) (\<lambda>r.
         if r \<noteq> uint DESZ then panic ''dirlink'' else ret 0)))"

subsection \<open>Paths\<close>

text \<open>
  A path is the byte sequence before its terminator. \<open>skipelem\<close> gives the rest of
  the path and the element copied to \<open>name\<close>, cut to \<open>DIRSIZ\<close> bytes.
\<close>

definition slash :: uchar where "slash = 47"

definition skipelem :: "bytes \<Rightarrow> (bytes \<times> bytes) option" where
  "skipelem pth =
     (let s = dropWhile (\<lambda>c. c = slash) pth in
      if s = [] then None
      else let elem = takeWhile (\<lambda>c. c \<noteq> slash) s in
        Some (dropWhile (\<lambda>c. c = slash) (dropWhile (\<lambda>c. c \<noteq> slash) s), take DIRSIZ elem))"

function namex_loop :: "nat \<Rightarrow> bytes \<Rightarrow> bool \<Rightarrow> bytes \<Rightarrow> ('z fs_scheme, (nat \<times> bytes) option) kop" where
  "namex_loop ip pth par name =
     (case skipelem pth of
        None \<Rightarrow> if par then bnd (iput ip) (\<lambda>_. ret None) else ret (Some (ip, name))
      | Some (rest, elem) \<Rightarrow>
          bnd (ilock (Some ip)) (\<lambda>_.
          bnd (inode_get ip itype) (\<lambda>ty.
            if ty \<noteq> T_DIR then bnd (iunlockput ip) (\<lambda>_. ret None)
            else if par \<and> rest = [] then bnd (iunlock (Some ip)) (\<lambda>_. ret (Some (ip, elem)))
            else bnd (dirlookup ip elem) (\<lambda>r. case r of
                None \<Rightarrow> bnd (iunlockput ip) (\<lambda>_. ret None)
              | Some (next, _) \<Rightarrow> bnd (iunlockput ip) (\<lambda>_. namex_loop next rest par elem)))))"
  by pat_completeness auto

lemma skipelem_shorter: "skipelem pth = Some (rest, elem) \<Longrightarrow> length rest < length pth"
proof -
  assume a: "skipelem pth = Some (rest, elem)"
  define s where "s = dropWhile (\<lambda>c. c = slash) pth"
  have s: "s \<noteq> []" "rest = dropWhile (\<lambda>c. c = slash) (dropWhile (\<lambda>c. c \<noteq> slash) s)"
    using a by (auto simp: skipelem_def Let_def s_def split: if_splits)
  have "hd s \<noteq> slash" using s(1) hd_dropWhile [of "\<lambda>c. c = slash" pth] by (simp add: s_def)
  then obtain c t where t: "s = c # t" "c \<noteq> slash" using s(1) by (cases s) auto
  have "length rest \<le> length t"
    unfolding s(2) t using t(2) by simp (meson length_dropWhile_le order_trans)
  also have "\<dots> < length s" by (simp add: t)
  also have "\<dots> \<le> length pth" by (simp add: s_def length_dropWhile_le)
  finally show ?thesis .
qed

termination namex_loop
  by (relation "measure (\<lambda>(ip, pth, par, name). length pth)") (auto dest: skipelem_shorter)

definition namex :: "bytes \<Rightarrow> bool \<Rightarrow> ('z fs_scheme, (nat \<times> bytes) option) kop" where
  "namex pth par =
     bnd (if hd0 pth = slash then iget ROOTDEV ROOTINO
          else with_myproc (\<lambda>p. bnd (proc_get p cwd) (\<lambda>c. case c of None \<Rightarrow> wild ''cwd'' | Some i \<Rightarrow> idup i))) (\<lambda>ip.
     namex_loop ip pth par [])"

definition namei :: "bytes \<Rightarrow> ('z fs_scheme, nat option) kop" where
  "namei pth = bnd (namex pth False) (\<lambda>r. ret (map_option fst r))"

definition nameiparent :: "bytes \<Rightarrow> ('z fs_scheme, (nat \<times> bytes) option) kop" where
  "nameiparent pth = namex pth True"

end
