(* ===== verification/File.thy ===== *)
theory File
  imports Fs Ring
begin

unbundle bit_operations_syntax

text \<open>
  Open files (file.c) and pipes (pipe.c). A pipe lives in a page from \<open>kalloc\<close>; its
  structure is kept in \<open>pipes\<close> under the address of that page, and freeing the page
  ends it. A process that waits in a pipe gives up the CPU; the \<open>_resume\<close>
  definitions continue in the loop after it is woken.
\<close>

datatype fdtype = FD_NONE | FD_PIPE | FD_INODE

record kfile =
  ftype :: fdtype
  fref :: int
  freadable :: bool
  fwritable :: bool
  fpipe :: uint
  fip :: nat
  foff :: uint

definition PIPESIZE :: nat where "PIPESIZE = 512"

record pipe =
  pdata :: bytes
  nread :: uint
  nwrite :: uint
  readopen :: bool
  writeopen :: bool

record files = fs +
  ftable :: "nat \<Rightarrow> kfile"
  pipes :: "uint \<Rightarrow> pipe"

definition file_get :: "nat \<Rightarrow> (kfile \<Rightarrow> 'a) \<Rightarrow> ('z files_scheme, 'a) kop" where
  "file_get i f = gets (\<lambda>s. f (ftable s i))"

definition file_upd :: "nat \<Rightarrow> (kfile \<Rightarrow> kfile) \<Rightarrow> ('z files_scheme, unit) kop" where
  "file_upd i f = mods (\<lambda>s. s\<lparr>ftable := (ftable s)(i := f (ftable s i))\<rparr>)"

definition pipe_get :: "uint \<Rightarrow> (pipe \<Rightarrow> 'a) \<Rightarrow> ('z files_scheme, 'a) kop" where
  "pipe_get p f = gets (\<lambda>s. f (pipes s p))"

definition pipe_upd :: "uint \<Rightarrow> (pipe \<Rightarrow> pipe) \<Rightarrow> ('z files_scheme, unit) kop" where
  "pipe_upd p f = mods (\<lambda>s. s\<lparr>pipes := (pipes s)(p := f (pipes s p))\<rparr>)"

subsection \<open>Pipes\<close>

definition pipeclose :: "uint \<Rightarrow> bool \<Rightarrow> ('z files_scheme, unit) kop" where
  "pipeclose p writable = seqs [
     kacquire (PipeLock p),
     if writable then seqs [pipe_upd p (\<lambda>x. x\<lparr>writeopen := False\<rparr>), wakeup (Some (ChPipeR p))]
     else seqs [pipe_upd p (\<lambda>x. x\<lparr>readopen := False\<rparr>), wakeup (Some (ChPipeW p))],
     bnd (pipe_get p (\<lambda>x. \<not> readopen x \<and> \<not> writeopen x)) (\<lambda>b.
       if b then seqs [krelease (PipeLock p), kfree p] else krelease (PipeLock p))]"

text \<open>The loop of \<open>pipewrite\<close>, with \<open>i\<close> bytes of \<open>n\<close> written and \<open>k\<close> to go.\<close>

primrec pipewrite_loop :: "nat \<Rightarrow> uint \<Rightarrow> uint \<Rightarrow> uint \<Rightarrow> int \<Rightarrow> ('z files_scheme, int) kop" where
  "pipewrite_loop 0 p addr i n =
     bnd (seqs [wakeup (Some (ChPipeR p)), krelease (PipeLock p)]) (\<lambda>_. ret n)"
| "pipewrite_loop (Suc k) p addr i n =
     bnd (pipe_get p (\<lambda>x. nwrite x = nread x + of_nat PIPESIZE)) (\<lambda>full. if full then
       bnd (pipe_get p readopen) (\<lambda>ro. with_myproc (\<lambda>me. bnd (proc_get me killed) (\<lambda>kd.
         if \<not> ro \<or> kd then bnd (krelease (PipeLock p)) (\<lambda>_. ret (- 1))
         else bnd (wakeup (Some (ChPipeR p))) (\<lambda>_. sleep (Some (ChPipeW p)) (Some (PipeLock p))))))
     else
       bnd (ldb (addr + i)) (\<lambda>c.
       bnd (pipe_upd p (\<lambda>x. x\<lparr>pdata := (pdata x)[unat (nwrite x) mod PIPESIZE := c], nwrite := nwrite x + 1\<rparr>)) (\<lambda>_.
       pipewrite_loop k p addr (i + 1) n)))"

definition pipewrite :: "uint \<Rightarrow> uint \<Rightarrow> int \<Rightarrow> ('z files_scheme, int) kop" where
  "pipewrite p addr n = bnd (kacquire (PipeLock p)) (\<lambda>_. pipewrite_loop (nat n) p addr 0 n)"

definition pipewrite_resume :: "nat \<Rightarrow> nat \<Rightarrow> uint \<Rightarrow> uint \<Rightarrow> uint \<Rightarrow> int \<Rightarrow> ('z files_scheme, int) kop" where
  "pipewrite_resume me k p addr i n = bnd (sleep_resume me (PipeLock p)) (\<lambda>_. pipewrite_loop k p addr i n)"

primrec piperead_copy :: "nat \<Rightarrow> uint \<Rightarrow> uint \<Rightarrow> uint \<Rightarrow> ('z files_scheme, uint) kop" where
  "piperead_copy 0 p addr i = ret i"
| "piperead_copy (Suc k) p addr i =
     bnd (pipe_get p (\<lambda>x. nread x = nwrite x)) (\<lambda>empty. if empty then ret i else
     bnd (pipe_get p (\<lambda>x. pdata x ! (unat (nread x) mod PIPESIZE))) (\<lambda>c.
     bnd (pipe_upd p (\<lambda>x. x\<lparr>nread := nread x + 1\<rparr>)) (\<lambda>_.
     bnd (stb (addr + i) c) (\<lambda>_. piperead_copy k p addr (i + 1)))))"

definition piperead_loop :: "uint \<Rightarrow> uint \<Rightarrow> int \<Rightarrow> ('z files_scheme, int) kop" where
  "piperead_loop p addr n =
     bnd (pipe_get p (\<lambda>x. nread x = nwrite x \<and> writeopen x)) (\<lambda>wait. if wait then
       with_myproc (\<lambda>me. bnd (proc_get me killed) (\<lambda>kd.
         if kd then bnd (krelease (PipeLock p)) (\<lambda>_. ret (- 1))
         else sleep (Some (ChPipeR p)) (Some (PipeLock p))))
     else
       bnd (piperead_copy (nat n) p addr 0) (\<lambda>i.
       bnd (seqs [wakeup (Some (ChPipeW p)), krelease (PipeLock p)]) (\<lambda>_. ret (sint i))))"

definition piperead :: "uint \<Rightarrow> uint \<Rightarrow> int \<Rightarrow> ('z files_scheme, int) kop" where
  "piperead p addr n = bnd (kacquire (PipeLock p)) (\<lambda>_. piperead_loop p addr n)"

definition piperead_resume :: "nat \<Rightarrow> uint \<Rightarrow> uint \<Rightarrow> int \<Rightarrow> ('z files_scheme, int) kop" where
  "piperead_resume me p addr n = bnd (sleep_resume me (PipeLock p)) (\<lambda>_. piperead_loop p addr n)"

subsection \<open>Open files\<close>

definition filealloc :: "('z files_scheme, nat option) kop" where
  "filealloc =
     bnd (kacquire FTableLock) (\<lambda>_.
     bnd (gets (\<lambda>s. scan NFILE (\<lambda>i. fref (ftable s i) = 0))) (\<lambda>r.
     bnd (case r of None \<Rightarrow> ret () | Some i \<Rightarrow> file_upd i (\<lambda>f. f\<lparr>fref := 1\<rparr>)) (\<lambda>_.
     bnd (krelease FTableLock) (\<lambda>_. ret r))))"

definition filedup :: "nat \<Rightarrow> ('z files_scheme, nat) kop" where
  "filedup f = bnd (seqs [
     kacquire FTableLock,
     bnd (file_get f fref) (\<lambda>r. if r < 1 then panic ''filedup'' else ret ()),
     file_upd f (\<lambda>x. x\<lparr>fref := fref x + 1\<rparr>),
     krelease FTableLock]) (\<lambda>_. ret f)"

definition fileclose :: "nat \<Rightarrow> ('z files_scheme, unit) kop" where
  "fileclose f =
     bnd (kacquire FTableLock) (\<lambda>_.
     bnd (file_get f fref) (\<lambda>r. if r < 1 then panic ''fileclose'' else
     bnd (file_upd f (\<lambda>x. x\<lparr>fref := fref x - 1\<rparr>)) (\<lambda>_.
       if r - 1 > 0 then krelease FTableLock
       else bnd (file_get f (\<lambda>x. x)) (\<lambda>ff. seqs [
         file_upd f (\<lambda>x. x\<lparr>fref := 0, ftype := FD_NONE\<rparr>),
         krelease FTableLock,
         (case ftype ff of
            FD_PIPE \<Rightarrow> pipeclose (fpipe ff) (fwritable ff)
          | FD_INODE \<Rightarrow> seqs [begin_op, iput (fip ff), end_op]
          | FD_NONE \<Rightarrow> ret ())]))))"

text \<open>\<open>pipealloc\<close>: the two files, or \<open>None\<close> for the return value \<open>-1\<close>.\<close>

definition pipealloc_bad :: "uint \<Rightarrow> nat option \<Rightarrow> nat option \<Rightarrow> ('z files_scheme, (nat \<times> nat) option) kop" where
  "pipealloc_bad p f0 f1 = bnd (seqs [
     whenk (p \<noteq> 0) (kfree p),
     (case f0 of None \<Rightarrow> ret () | Some f \<Rightarrow> fileclose f),
     (case f1 of None \<Rightarrow> ret () | Some f \<Rightarrow> fileclose f)]) (\<lambda>_. ret None)"

definition pipealloc :: "('z files_scheme, (nat \<times> nat) option) kop" where
  "pipealloc =
     bnd filealloc (\<lambda>f0. case f0 of None \<Rightarrow> pipealloc_bad 0 None None | Some i \<Rightarrow>
     bnd filealloc (\<lambda>f1. case f1 of None \<Rightarrow> pipealloc_bad 0 f0 None | Some j \<Rightarrow>
     bnd kalloc (\<lambda>p. if p = 0 then pipealloc_bad 0 f0 f1 else
     bnd (seqs [
       pipe_upd p (\<lambda>x. x\<lparr>readopen := True\<rparr>),
       pipe_upd p (\<lambda>x. x\<lparr>writeopen := True\<rparr>),
       pipe_upd p (\<lambda>x. x\<lparr>nwrite := 0\<rparr>),
       pipe_upd p (\<lambda>x. x\<lparr>nread := 0\<rparr>),
       file_upd i (\<lambda>f. f\<lparr>ftype := FD_PIPE, freadable := True, fwritable := False, fpipe := p\<rparr>),
       file_upd j (\<lambda>f. f\<lparr>ftype := FD_PIPE, freadable := False, fwritable := True, fpipe := p\<rparr>)])
       (\<lambda>_. ret (Some (i, j))))))"

text \<open>A \<open>struct stat\<close> in memory.\<close>

definition st_half :: "uint \<Rightarrow> ushort \<Rightarrow> ('z files_scheme, unit) kop" where
  "st_half va v = st_bytes [ucast v, ucast (drop_bit 8 v)] va"

definition store_stat :: "uint \<Rightarrow> stat \<Rightarrow> ('z files_scheme, unit) kop" where
  "store_stat a st = seqs [
     stw (a + 4) (st_dev st),
     stw (a + 8) (st_ino st),
     st_half a (st_type st),
     st_half (a + 12) (st_nlink st),
     stw (a + 16) (st_size st)]"

definition filestat :: "nat \<Rightarrow> uint \<Rightarrow> ('z files_scheme, int) kop" where
  "filestat f a =
     bnd (file_get f (\<lambda>x. x)) (\<lambda>x.
       if ftype x = FD_INODE then bnd (seqs [
         ilock (Some (fip x)),
         bnd (stati (fip x)) (store_stat a),
         iunlock (Some (fip x))]) (\<lambda>_. ret 0)
       else ret (- 1))"

definition fileread :: "nat \<Rightarrow> uint \<Rightarrow> int \<Rightarrow> ('z files_scheme, int) kop" where
  "fileread f addr n =
     bnd (file_get f (\<lambda>x. x)) (\<lambda>x.
       if \<not> freadable x then ret (- 1)
       else case ftype x of
         FD_PIPE \<Rightarrow> piperead (fpipe x) addr n
       | FD_INODE \<Rightarrow>
           bnd (ilock (Some (fip x))) (\<lambda>_.
           bnd (readi (to_mem addr) (fip x) (foff x) (of_int n)) (\<lambda>(r, _).
           bnd (whenk (r > 0) (file_upd f (\<lambda>x. x\<lparr>foff := foff x + of_int r\<rparr>))) (\<lambda>_.
           bnd (iunlock (Some (fip x))) (\<lambda>_. ret r))))
       | FD_NONE \<Rightarrow> panic ''fileread'')"

text \<open>The largest write in one transaction, and the loop of \<open>filewrite\<close>: each round writes a byte at least.\<close>

definition write_max :: int where "write_max = (int MAXOPBLOCKS - 1 - 1 - 2) div 2 * 512"

primrec filewrite_loop :: "nat \<Rightarrow> nat \<Rightarrow> uint \<Rightarrow> int \<Rightarrow> int \<Rightarrow> ('z files_scheme, int) kop" where
  "filewrite_loop 0 f addr i n = (if i < n then wild ''filewrite'' else ret (if i = n then n else - 1))"
| "filewrite_loop (Suc k) f addr i n =
     (if i < n then
        let n1 = (if n - i > write_max then write_max else n - i) in
        bnd begin_op (\<lambda>_.
        bnd (file_get f (\<lambda>x. x)) (\<lambda>x.
        bnd (ilock (Some (fip x))) (\<lambda>_.
        bnd (writei (from_mem (addr + of_int i)) (fip x) (foff x) (of_int n1)) (\<lambda>r.
        bnd (seqs [
          whenk (r > 0) (file_upd f (\<lambda>x. x\<lparr>foff := foff x + of_int r\<rparr>)),
          iunlock (Some (fip x)),
          end_op]) (\<lambda>_.
          if r < 0 then ret (if i = n then n else - 1)
          else if r \<noteq> n1 then panic ''short filewrite''
          else filewrite_loop k f addr (i + r) n)))))
      else ret (if i = n then n else - 1))"

definition filewrite :: "nat \<Rightarrow> uint \<Rightarrow> int \<Rightarrow> ('z files_scheme, int) kop" where
  "filewrite f addr n =
     bnd (file_get f (\<lambda>x. x)) (\<lambda>x.
       if \<not> fwritable x then ret (- 1)
       else case ftype x of
         FD_PIPE \<Rightarrow> pipewrite (fpipe x) addr n
       | FD_INODE \<Rightarrow> filewrite_loop (nat n) f addr 0 n
       | FD_NONE \<Rightarrow> panic ''filewrite'')"

end
