(* ===== verification/Proc.thy ===== *)
theory Proc
  imports File
begin

unbundle bit_operations_syntax

text \<open>
  Processes (proc.c): creation, \<open>fork\<close>, \<open>exit\<close>, \<open>wait\<close>, \<open>kill\<close>, the execution-time
  bookkeeping this version adds, and the scheduler with its three policies, which
  the code selects by preprocessor macros.

  \<open>p->tf\<close> and \<open>p->context\<close> point into the kernel stack of the process; the process
  record holds the structures themselves. \<open>k_trapret\<close> and \<open>k_forkret\<close> are the
  addresses of the code, \<open>initcode_start\<close> and \<open>initcode_size\<close> the linker's symbols,
  \<open>first\<close> the static variable of \<open>forkret\<close>.
\<close>

datatype policy = DEFAULT | FRR | FCFS

record kern = files +
  k_trapret :: uint
  k_forkret :: uint
  initcode_start :: uint
  initcode_size :: uint
  first :: bool

definition TF_SIZE :: uint where "TF_SIZE = 76"
definition CTXT_SIZE :: uint where "CTXT_SIZE = 20"

text \<open>\<open>safestrcpy\<close> between arrays of 16 bytes.\<close>

definition safestrcpy_b :: "nat \<Rightarrow> bytes \<Rightarrow> bytes" where
  "safestrcpy_b n t = take (n - 1) (takeWhile (\<lambda>c. c \<noteq> 0) t)"

subsection \<open>Creating processes\<close>

definition allocproc :: "('z kern_scheme, nat option) kop" where
  "allocproc =
     bnd (kacquire PTableLock) (\<lambda>_.
     bnd (gets (\<lambda>s. scan NPROC (\<lambda>i. pstate (procs s i) = UNUSED))) (\<lambda>r. case r of
       None \<Rightarrow> bnd (krelease PTableLock) (\<lambda>_. ret None)
     | Some i \<Rightarrow>
         bnd (seqs [
           proc_upd i (\<lambda>p. p\<lparr>pstate := EMBRYO\<rparr>),
           bnd (gets nextpid) (\<lambda>n. proc_upd i (\<lambda>p. p\<lparr>pid := n\<rparr>)),
           mods (\<lambda>s. s\<lparr>nextpid := nextpid s + 1\<rparr>),
           proc_upd i (\<lambda>p. p\<lparr>running_t := 0\<rparr>),
           bnd (gets ticks) (\<lambda>t. proc_upd i (\<lambda>p. p\<lparr>ctime := t\<rparr>)),
           proc_upd i (\<lambda>p. p\<lparr>waiting_t := 0\<rparr>),
           proc_upd i (\<lambda>p. p\<lparr>pidtimes := 0\<rparr>),
           krelease PTableLock]) (\<lambda>_.
         bnd kalloc (\<lambda>ks.
         bnd (proc_upd i (\<lambda>p. p\<lparr>kstack := ks\<rparr>)) (\<lambda>_.
           if ks = 0 then bnd (proc_upd i (\<lambda>p. p\<lparr>pstate := UNUSED\<rparr>)) (\<lambda>_. ret None)
           else bnd (seqs [
             bnd (gets k_trapret) (\<lambda>a. mem_st (ks + KSTACKSIZE - TF_SIZE - 4) a),
             bnd (gets k_forkret) (\<lambda>a. proc_upd i (\<lambda>p. p\<lparr>pcontext :=
               \<lparr>cx_edi = 0, cx_esi = 0, cx_ebx = 0, cx_ebp = 0, cx_eip = a\<rparr>\<rparr>))]) (\<lambda>_. ret (Some i)))))))"

definition user_seg :: "nat \<Rightarrow> ushort" where
  "user_seg g = of_nat (g * 8) OR DPL_USER"

definition tf_zero :: trapframe where
  "tf_zero = \<lparr>tf_edi = 0, tf_esi = 0, tf_ebp = 0, tf_oesp = 0, tf_ebx = 0, tf_edx = 0, tf_ecx = 0, tf_eax = 0,
     tf_gs = 0, tf_fs = 0, tf_es = 0, tf_ds = 0, tf_trapno = 0, tf_err = 0, tf_eip = 0, tf_cs = 0,
     tf_eflags = 0, tf_esp = 0, tf_ss = 0\<rparr>"

definition userinit :: "('z kern_scheme, unit) kop" where
  "userinit =
     bnd allocproc (\<lambda>r.
     bnd (mods (\<lambda>s. s\<lparr>initproc := r\<rparr>)) (\<lambda>_. case r of None \<Rightarrow> wild ''userinit'' | Some i \<Rightarrow>
     bnd setupkvm (\<lambda>pgd.
     bnd (proc_upd i (\<lambda>p. p\<lparr>pgdir := pgd\<rparr>)) (\<lambda>_.
       if pgd = 0 then panic ''userinit: out of memory?''
       else seqs [
         bnd (gets (\<lambda>s. (initcode_start s, initcode_size s))) (\<lambda>(a, n). inituvm pgd a n),
         proc_upd i (\<lambda>p. p\<lparr>psz := PGSIZE\<rparr>),
         bnd (gets ticks) (\<lambda>t. proc_upd i (\<lambda>p. p\<lparr>ctime := t\<rparr>)),
         proc_upd i (\<lambda>p. p\<lparr>ptf := tf_zero
           \<lparr>tf_cs := user_seg SEG_UCODE, tf_ds := user_seg SEG_UDATA, tf_es := user_seg SEG_UDATA,
            tf_ss := user_seg SEG_UDATA, tf_eflags := FL_IF, tf_esp := PGSIZE, tf_eip := 0\<rparr>\<rparr>),
         proc_upd i (\<lambda>p. p\<lparr>slot := 0\<rparr>),
         proc_upd i (\<lambda>p. p\<lparr>pname := safestrcpy_b 16 (chars ''initcode'')\<rparr>),
         bnd (namei (chars ''/'')) (\<lambda>d. proc_upd i (\<lambda>p. p\<lparr>cwd := d\<rparr>)),
         kacquire PTableLock,
         proc_upd i (\<lambda>p. p\<lparr>pstate := RUNNABLE\<rparr>),
         krelease PTableLock]))))"

definition growproc :: "int \<Rightarrow> ('z kern_scheme, int) kop" where
  "growproc n = with_myproc (\<lambda>me.
     bnd (proc_get me (\<lambda>p. (pgdir p, psz p))) (\<lambda>(pgd, sz).
     bnd (if n > 0 then bnd (allocuvm pgd sz (sz + of_int n)) (\<lambda>r. ret (if r = 0 then None else Some r))
          else if n < 0 then bnd (deallocuvm pgd sz (sz + of_int n)) (\<lambda>r. ret (if r = 0 then None else Some r))
          else ret (Some sz)) (\<lambda>r. case r of
       None \<Rightarrow> ret (- 1)
     | Some sz \<Rightarrow> bnd (seqs [
         proc_upd me (\<lambda>p. p\<lparr>psz := sz\<rparr>),
         switchuvm (Some me)]) (\<lambda>_. ret 0))))"

definition fork :: "('z kern_scheme, int) kop" where
  "fork = with_myproc (\<lambda>me.
     bnd allocproc (\<lambda>r. case r of None \<Rightarrow> ret (- 1) | Some np \<Rightarrow>
     bnd (proc_get me (\<lambda>p. (pgdir p, psz p))) (\<lambda>(pgd, sz).
     bnd (copyuvm pgd sz) (\<lambda>d.
     bnd (proc_upd np (\<lambda>p. p\<lparr>pgdir := d\<rparr>)) (\<lambda>_.
       if d = 0 then
         bnd (proc_get np kstack) (\<lambda>ks.
         bnd (seqs [
           kfree ks,
           proc_upd np (\<lambda>p. p\<lparr>kstack := 0\<rparr>),
           proc_upd np (\<lambda>p. p\<lparr>pstate := UNUSED\<rparr>)]) (\<lambda>_. ret (- 1)))
       else
         bnd (seqs [
           proc_upd np (\<lambda>p. p\<lparr>psz := sz\<rparr>),
           proc_upd np (\<lambda>p. p\<lparr>parent := Some me\<rparr>),
           bnd (proc_get me ptf) (\<lambda>tf. proc_upd np (\<lambda>p. p\<lparr>ptf := tf\<lparr>tf_eax := 0\<rparr>\<rparr>)),
           for_each [0..<NOFILE] (\<lambda>i. bnd (proc_get me (\<lambda>p. ofile p i)) (\<lambda>f. case f of
             None \<Rightarrow> ret ()
           | Some f \<Rightarrow> bnd (filedup f) (\<lambda>f. proc_upd np (\<lambda>p. p\<lparr>ofile := (ofile p)(i := Some f)\<rparr>)))),
           bnd (proc_get me cwd) (\<lambda>c. case c of None \<Rightarrow> wild ''cwd''
           | Some d \<Rightarrow> bnd (idup d) (\<lambda>d. proc_upd np (\<lambda>p. p\<lparr>cwd := Some d\<rparr>))),
           bnd (proc_get me pname) (\<lambda>nm. proc_upd np (\<lambda>p. p\<lparr>pname := safestrcpy_b 16 nm\<rparr>))]) (\<lambda>_.
         bnd (proc_get np pid) (\<lambda>i.
         bnd (seqs [
           kacquire PTableLock,
           proc_upd np (\<lambda>p. p\<lparr>pstate := RUNNABLE\<rparr>),
           krelease PTableLock]) (\<lambda>_. ret i))))))))"

subsection \<open>Ending processes\<close>

text \<open>
  A store to one of the parent's ten-entry arrays of execution times, indexed by
  the difference of the pids.
\<close>

definition put_time :: "int \<Rightarrow> uint \<Rightarrow> uint list \<Rightarrow> uint list option" where
  "put_time i v ts = (if 0 \<le> i \<and> i < int (length ts) then Some (ts[nat i := v]) else None)"

definition exit_times :: "nat \<Rightarrow> nat \<Rightarrow> ('z kern_scheme, unit) kop" where
  "exit_times me p =
     bnd (proc_get me (\<lambda>x. x)) (\<lambda>c.
     bnd (proc_get p (\<lambda>x. x)) (\<lambda>x.
     let i = pid c - pid x - 1 in
     case (put_time i (waiting_t c) (pwaiting_t x), put_time i (running_t c) (prunning_t x),
           put_time i (turnaround_t c) (pturnaround_t x)) of
       (Some w, Some r, Some t) \<Rightarrow> proc_upd p (\<lambda>x. x\<lparr>pwaiting_t := w, prunning_t := r, pturnaround_t := t\<rparr>)
     | _ \<Rightarrow> wild ''exit times''))"

definition proc_chan :: "nat option \<Rightarrow> chan option" where
  "proc_chan p = map_option ChProc p"

definition exit :: "('z kern_scheme, 'a) kop" where
  "exit = with_myproc (\<lambda>me.
     bnd (gets initproc) (\<lambda>ini. if ini = Some me then panic ''init exiting'' else
     bnd (seqs [
       for_each [0..<NOFILE] (\<lambda>fd. bnd (proc_get me (\<lambda>p. ofile p fd)) (\<lambda>f. case f of
         None \<Rightarrow> ret ()
       | Some f \<Rightarrow> seqs [fileclose f, proc_upd me (\<lambda>p. p\<lparr>ofile := (ofile p)(fd := None)\<rparr>)])),
       begin_op,
       bnd (proc_get me cwd) (\<lambda>c. case c of None \<Rightarrow> wild ''cwd'' | Some d \<Rightarrow> iput d),
       end_op,
       proc_upd me (\<lambda>p. p\<lparr>cwd := None\<rparr>),
       kacquire PTableLock,
       bnd (proc_get me parent) (\<lambda>pa. wakeup1 (proc_chan pa)),
       for_each [0..<NPROC] (\<lambda>p. seqs [
         bnd (proc_get me parent) (\<lambda>pa. whenk (pa = Some p) (exit_times me p)),
         bnd (proc_get p (\<lambda>x. (parent x, pstate x))) (\<lambda>(pa, st). whenk (pa = Some me) (seqs [
           proc_upd p (\<lambda>x. x\<lparr>parent := ini\<rparr>),
           whenk (st = ZOMBIE) (wakeup1 (proc_chan ini))]))]),
       proc_upd me (\<lambda>p. p\<lparr>pstate := ZOMBIE\<rparr>)]) (\<lambda>_. sched)))"

text \<open>One pass of the loop of \<open>wait\<close> over the table; \<open>wait_resume\<close> continues after the sleep.\<close>

definition wait_loop :: "nat \<Rightarrow> ('z kern_scheme, int) kop" where
  "wait_loop me =
     bnd (gets (\<lambda>s. scan NPROC (\<lambda>i. parent (procs s i) = Some me \<and> pstate (procs s i) = ZOMBIE))) (\<lambda>r. case r of
       Some p \<Rightarrow>
         bnd (proc_get p (\<lambda>x. x)) (\<lambda>x.
         bnd (seqs [
           kfree (kstack x),
           proc_upd p (\<lambda>x. x\<lparr>kstack := 0\<rparr>),
           freevm (pgdir x),
           proc_upd p (\<lambda>x. x\<lparr>pid := 0, parent := None, pname := [], killed := False, ctime := 0, pstate := UNUSED\<rparr>),
           krelease PTableLock]) (\<lambda>_. ret (pid x)))
     | None \<Rightarrow>
         bnd (gets (\<lambda>s. \<exists>i < NPROC. parent (procs s i) = Some me)) (\<lambda>havekids.
         bnd (proc_get me killed) (\<lambda>kd.
           if \<not> havekids \<or> kd then bnd (krelease PTableLock) (\<lambda>_. ret (- 1))
           else sleep (Some (ChProc me)) (Some PTableLock))))"

definition wait :: "('z kern_scheme, int) kop" where
  "wait = with_myproc (\<lambda>me. bnd (kacquire PTableLock) (\<lambda>_. wait_loop me))"

definition wait_resume :: "nat \<Rightarrow> ('z kern_scheme, int) kop" where
  "wait_resume me = bnd (sleep_resume me PTableLock) (\<lambda>_. wait_loop me)"

definition kill :: "int \<Rightarrow> ('z kern_scheme, int) kop" where
  "kill pd =
     bnd (kacquire PTableLock) (\<lambda>_.
     bnd (gets (\<lambda>s. scan NPROC (\<lambda>i. pid (procs s i) = pd))) (\<lambda>r. case r of
       Some i \<Rightarrow> bnd (seqs [
         proc_upd i (\<lambda>p. p\<lparr>killed := True\<rparr>),
         bnd (proc_get i pstate) (\<lambda>st. whenk (st = SLEEPING) (proc_upd i (\<lambda>p. p\<lparr>pstate := RUNNABLE\<rparr>))),
         krelease PTableLock]) (\<lambda>_. ret 0)
     | None \<Rightarrow> bnd (krelease PTableLock) (\<lambda>_. ret (- 1))))"

subsection \<open>Execution times\<close>

definition time_at :: "int \<Rightarrow> uint list \<Rightarrow> ('z kern_scheme, int) kop" where
  "time_at i ts = (if 0 \<le> i \<and> i < int (length ts) then ret (sint (ts ! nat i)) else wild ''times'')"

definition waittime :: "('z kern_scheme, int) kop" where
  "waittime = with_myproc (\<lambda>me. bnd (proc_get me (\<lambda>p. p)) (\<lambda>p. time_at (pidtimes p) (pwaiting_t p)))"

definition runtime :: "('z kern_scheme, int) kop" where
  "runtime = with_myproc (\<lambda>me. bnd (proc_get me (\<lambda>p. p)) (\<lambda>p. time_at (pidtimes p) (prunning_t p)))"

definition turntime :: "('z kern_scheme, int) kop" where
  "turntime = with_myproc (\<lambda>me. bnd (proc_get me (\<lambda>p. p)) (\<lambda>p.
     bnd (time_at (pidtimes p) (pturnaround_t p)) (\<lambda>t.
     bnd (proc_upd me (\<lambda>p. p\<lparr>pidtimes := pidtimes p + 1\<rparr>)) (\<lambda>_. ret t))))"

subsection \<open>Scheduling\<close>

definition yield :: "('z kern_scheme, unit) kop" where
  "yield = bnd (seqs [
     kacquire PTableLock,
     with_myproc (\<lambda>me. proc_upd me (\<lambda>p. p\<lparr>pstate := RUNNABLE\<rparr>))]) (\<lambda>_. sched)"

definition yield_resume :: "('z kern_scheme, unit) kop" where
  "yield_resume = krelease PTableLock"

definition forkret :: "('z kern_scheme, unit) kop" where
  "forkret = seqs [
     krelease PTableLock,
     bnd (gets first) (\<lambda>f. whenk f (seqs [
       mods (\<lambda>s. s\<lparr>first := False\<rparr>),
       iinit ROOTDEV,
       initlog ROOTDEV]))]"

text \<open>
  The body of the scheduler's loop over the table, at entry \<open>p\<close>, up to the switch:
  \<open>None\<close> when it goes on with the next entry, otherwise the process to run. The
  variable \<open>firstCome\<close> of the FCFS policy is declared in the body.
\<close>

definition sched_pick :: "policy \<Rightarrow> (nat \<Rightarrow> proc) \<Rightarrow> nat \<Rightarrow> nat option" where
  "sched_pick pol ps p = (case pol of
     DEFAULT \<Rightarrow> if pstate (ps p) \<noteq> RUNNABLE then None else Some p
   | FRR \<Rightarrow> if pstate (ps p) \<noteq> RUNNABLE then None else Some p
   | FCFS \<Rightarrow>
       (let firstCome = None in
        if pstate (ps p) \<noteq> RUNNABLE then None
        else let firstCome = (if pid (ps p) > 1 then (case firstCome of
               Some f \<Rightarrow> if sint (ctime (ps p)) < sint (ctime (ps f)) then Some p else firstCome
             | None \<Rightarrow> Some p) else firstCome) in
          Some (case firstCome of Some f \<Rightarrow> f | None \<Rightarrow> p)))"

definition sched_run :: "nat \<Rightarrow> ('z kern_scheme, unit) kop" where
  "sched_run p = seqs [
     mods (\<lambda>s. s\<lparr>curproc := Some p\<rparr>),
     switchuvm (Some p),
     proc_upd p (\<lambda>x. x\<lparr>pstate := RUNNING\<rparr>)]"

definition sched_back :: "('z kern_scheme, unit) kop" where
  "sched_back = seqs [switchkvm, mods (\<lambda>s. s\<lparr>curproc := None\<rparr>)]"

text \<open>
  The scheduler from entry \<open>p\<close> of the table to the next switch to a process, with
  the entry it will go on with; passes over the table without a runnable process
  repeat, and \<open>n\<close> bounds their entries.
\<close>

primrec scheduler_from :: "nat \<Rightarrow> policy \<Rightarrow> nat \<Rightarrow> ('z kern_scheme, nat \<times> nat) kop" where
  "scheduler_from 0 pol p = wild ''scheduler''"
| "scheduler_from (Suc n) pol p =
     (if p < NPROC then
        bnd (gets (\<lambda>s. sched_pick pol (procs s) p)) (\<lambda>r. case r of
          None \<Rightarrow> scheduler_from n pol (p + 1)
        | Some q \<Rightarrow> bnd (sched_run q) (\<lambda>_. ret (q, q + 1)))
      else bnd (seqs [krelease PTableLock, kacquire PTableLock]) (\<lambda>_. scheduler_from n pol 0))"

definition scheduler_start :: "('z kern_scheme, unit) kop" where
  "scheduler_start = seqs [mods (\<lambda>s. s\<lparr>curproc := None\<rparr>), kacquire PTableLock]"

end
