(* ===== verification/Exec.thy ===== *)
theory Exec
  imports Proc
begin

unbundle bit_operations_syntax

text \<open>
  Loading a program (exec.c, elf.h and \<open>loaduvm\<close> of vm.c). The path and the argument
  strings are the byte sequences at the user addresses that the system call has
  checked.
\<close>

definition ELF_MAGIC :: uint where "ELF_MAGIC = 0x464C457F"
definition ELF_PROG_LOAD :: uint where "ELF_PROG_LOAD = 1"

record elfhdr =
  e_magic :: uint
  e_elf :: bytes
  e_type :: ushort
  e_machine :: ushort
  e_version :: uint
  e_entry :: uint
  e_phoff :: uint
  e_shoff :: uint
  e_flags :: uint
  e_ehsize :: ushort
  e_phentsize :: ushort
  e_phnum :: ushort
  e_shentsize :: ushort
  e_shnum :: ushort
  e_shstrndx :: ushort

record proghdr =
  p_type :: uint
  p_off :: uint
  p_vaddr :: uint
  p_paddr :: uint
  p_filesz :: uint
  p_memsz :: uint
  p_flags :: uint
  p_align :: uint

definition ELFSZ :: uint where "ELFSZ = 52"
definition PHSZ :: uint where "PHSZ = 32"

definition decode_elf :: "bytes \<Rightarrow> elfhdr" where
  "decode_elf b = \<lparr>e_magic = get32 b 0, e_elf = take 12 (drop 4 b), e_type = get16 b 16, e_machine = get16 b 18,
     e_version = get32 b 20, e_entry = get32 b 24, e_phoff = get32 b 28, e_shoff = get32 b 32, e_flags = get32 b 36,
     e_ehsize = get16 b 40, e_phentsize = get16 b 42, e_phnum = get16 b 44, e_shentsize = get16 b 46,
     e_shnum = get16 b 48, e_shstrndx = get16 b 50\<rparr>"

definition decode_ph :: "bytes \<Rightarrow> proghdr" where
  "decode_ph b = \<lparr>p_type = get32 b 0, p_off = get32 b 4, p_vaddr = get32 b 8, p_paddr = get32 b 12,
     p_filesz = get32 b 16, p_memsz = get32 b 20, p_flags = get32 b 24, p_align = get32 b 28\<rparr>"

subsection \<open>Loading segments\<close>

primrec loaduvm_loop :: "nat \<Rightarrow> uint \<Rightarrow> uint \<Rightarrow> nat \<Rightarrow> uint \<Rightarrow> uint \<Rightarrow> uint \<Rightarrow> ('z kern_scheme, int) kop" where
  "loaduvm_loop 0 pgd addr ip offset i sz = wild ''loaduvm''"
| "loaduvm_loop (Suc k) pgd addr ip offset i sz =
     (if i < sz then
        bnd (walkpgdir pgd (addr + i) False) (\<lambda>pte. if pte = 0 then panic ''loaduvm: address should exist'' else
        bnd (mem_ld pte) (\<lambda>e.
        let pa = PTE_ADDR e; n = (if sz - i < PGSIZE then sz - i else PGSIZE) in
        bnd (readi (to_mem (P2V pa)) ip (offset + i) n) (\<lambda>(r, _).
          if of_int r \<noteq> n then ret (- 1) else loaduvm_loop k pgd addr ip offset (i + PGSIZE) sz)))
      else ret 0)"

definition loaduvm :: "uint \<Rightarrow> uint \<Rightarrow> nat \<Rightarrow> uint \<Rightarrow> uint \<Rightarrow> ('z kern_scheme, int) kop" where
  "loaduvm pgd addr ip offset sz =
     (if addr mod PGSIZE \<noteq> 0 then panic ''loaduvm: addr must be page aligned''
      else loaduvm_loop (Suc (2 ^ 20)) pgd addr ip offset 0 sz)"

text \<open>The loop of \<open>exec\<close> over the program headers: the size of the image, \<open>None\<close> for \<open>goto bad\<close>.\<close>

primrec exec_load :: "nat \<Rightarrow> nat \<Rightarrow> uint \<Rightarrow> uint \<Rightarrow> uint \<Rightarrow> ('z kern_scheme, uint option) kop" where
  "exec_load 0 ip pgd off sz = ret (Some sz)"
| "exec_load (Suc n) ip pgd off sz =
     bnd (readi to_local ip off PHSZ) (\<lambda>(r, b). if r \<noteq> uint PHSZ then ret None else
     let ph = decode_ph b in
     if p_type ph \<noteq> ELF_PROG_LOAD then exec_load n ip pgd (off + PHSZ) sz
     else if p_memsz ph < p_filesz ph then ret None
     else if p_vaddr ph + p_memsz ph < p_vaddr ph then ret None
     else bnd (allocuvm pgd sz (p_vaddr ph + p_memsz ph)) (\<lambda>sz. if sz = 0 then ret None
     else if p_vaddr ph mod PGSIZE \<noteq> 0 then ret None
     else bnd (loaduvm pgd (p_vaddr ph) ip (p_off ph) (p_filesz ph)) (\<lambda>r. if r < 0 then ret None
     else exec_load n ip pgd (off + PHSZ) sz)))"

subsection \<open>The user stack\<close>

text \<open>
  The loop that pushes the argument strings: the stack pointer and the addresses
  of the strings, which it stores in \<open>ustack\<close> from entry 3.
\<close>

fun exec_push :: "uint \<Rightarrow> bytes list \<Rightarrow> nat \<Rightarrow> uint \<Rightarrow> ('z kern_scheme, (uint \<times> uint list) option) kop" where
  "exec_push pgd [] argc usp = ret (Some (usp, []))"
| "exec_push pgd (a # argv) argc usp =
     (if argc \<ge> MAXARG then ret None
      else let usp = (usp - (of_nat (length a) + 1)) AND NOT 3 in
        bnd (copyout pgd usp (from_local (a @ [0])) (of_nat (length a) + 1)) (\<lambda>r. if r < 0 then ret None else
        bnd (exec_push pgd argv (argc + 1) usp) (\<lambda>x. ret (map_option (\<lambda>(usp', us). (usp', usp # us)) x))))"

definition exec_ustack :: "uint list \<Rightarrow> uint \<Rightarrow> uint list" where
  "exec_ustack us usp =
     (let argc = of_nat (length us) in [0xffffffff, argc, usp - (argc + 1) * 4] @ us @ [0])"

definition prog_name :: "bytes \<Rightarrow> bytes" where
  "prog_name pth = rev (takeWhile (\<lambda>c. c \<noteq> slash) (rev pth))"

definition exec_bad :: "uint \<Rightarrow> nat option \<Rightarrow> ('z kern_scheme, int) kop" where
  "exec_bad pgd ip = bnd (seqs [
     whenk (pgd \<noteq> 0) (freevm pgd),
     (case ip of None \<Rightarrow> ret () | Some i \<Rightarrow> seqs [iunlockput i, end_op])]) (\<lambda>_. ret (- 1))"

text \<open>The part of \<open>exec\<close> after the image is loaded.\<close>

definition exec_commit :: "nat \<Rightarrow> bytes \<Rightarrow> bytes list \<Rightarrow> uint \<Rightarrow> uint \<Rightarrow> uint \<Rightarrow> ('z kern_scheme, int) kop" where
  "exec_commit me pth argv entry pgd sz =
     (let sz = PGROUNDUP sz in
      bnd (allocuvm pgd sz (sz + 2 * PGSIZE)) (\<lambda>sz. if sz = 0 then exec_bad pgd None else
      bnd (clearpteu pgd (sz - 2 * PGSIZE)) (\<lambda>_.
      bnd (exec_push pgd argv 0 sz) (\<lambda>r. case r of None \<Rightarrow> exec_bad pgd None | Some (usp, us) \<Rightarrow>
      let ustack = exec_ustack us usp; n = of_nat (length us); usp = usp - (3 + n + 1) * 4 in
      bnd (copyout pgd usp (from_local (concat (map word_bytes ustack))) ((3 + n + 1) * 4)) (\<lambda>r.
        if r < 0 then exec_bad pgd None else
      bnd (proc_upd me (\<lambda>p. p\<lparr>pname := safestrcpy_b 16 (prog_name pth)\<rparr>)) (\<lambda>_.
      bnd (proc_get me pgdir) (\<lambda>oldpgdir.
      bnd (seqs [
        proc_upd me (\<lambda>p. p\<lparr>pgdir := pgd\<rparr>),
        proc_upd me (\<lambda>p. p\<lparr>psz := sz\<rparr>),
        proc_upd me (\<lambda>p. p\<lparr>ptf := (ptf p)\<lparr>tf_eip := entry\<rparr>\<rparr>),
        proc_upd me (\<lambda>p. p\<lparr>ptf := (ptf p)\<lparr>tf_esp := usp\<rparr>\<rparr>),
        switchuvm (Some me),
        freevm oldpgdir]) (\<lambda>_. ret 0))))))))"

definition exec :: "bytes \<Rightarrow> bytes list \<Rightarrow> ('z kern_scheme, int) kop" where
  "exec pth argv = with_myproc (\<lambda>me.
     bnd begin_op (\<lambda>_.
     bnd (namei pth) (\<lambda>r. case r of
       None \<Rightarrow> bnd (seqs [end_op, cprintf (Some (chars ''exec: fail'' @ [10])) []]) (\<lambda>_. ret (- 1))
     | Some ip \<Rightarrow>
     bnd (ilock (Some ip)) (\<lambda>_.
     bnd (readi to_local ip 0 ELFSZ) (\<lambda>(r, b). if r \<noteq> uint ELFSZ then exec_bad 0 (Some ip) else
     let elf = decode_elf b in
     if e_magic elf \<noteq> ELF_MAGIC then exec_bad 0 (Some ip) else
     bnd setupkvm (\<lambda>pgd. if pgd = 0 then exec_bad 0 (Some ip) else
     bnd (exec_load (unat (e_phnum elf)) ip pgd (e_phoff elf) 0) (\<lambda>r. case r of
       None \<Rightarrow> exec_bad pgd (Some ip)
     | Some sz \<Rightarrow>
     bnd (seqs [iunlockput ip, end_op]) (\<lambda>_.
     exec_commit me pth argv (e_entry elf) pgd sz))))))))"

end
