(* ===== verification/Sysfile.thy ===== *)
theory Sysfile
  imports Exec
begin

unbundle bit_operations_syntax

text \<open>
  System call arguments (the first half of syscall.c) and the file system calls
  (sysfile.c). A function that returns a status and stores its result through a
  pointer gives the result as an option, \<open>None\<close> for the status \<open>-1\<close>. A path that
  \<open>argstr\<close> has checked is loaded from user memory as a byte sequence.
\<close>

definition O_RDONLY :: uint where "O_RDONLY = 0"
definition O_WRONLY :: uint where "O_WRONLY = 1"
definition O_RDWR :: uint where "O_RDWR = 2"
definition O_CREATE :: uint where "O_CREATE = 0x200"

subsection \<open>Arguments\<close>

definition fetchint :: "uint \<Rightarrow> ('z kern_scheme, uint option) kop" where
  "fetchint addr = with_myproc (\<lambda>me. bnd (proc_get me psz) (\<lambda>sz.
     if addr \<ge> sz \<or> addr + 4 > sz then ret None else bnd (ldw addr) (\<lambda>v. ret (Some v))))"

primrec fetchstr_loop :: "nat \<Rightarrow> uint \<Rightarrow> nat \<Rightarrow> ('z kern_scheme, nat option) kop" where
  "fetchstr_loop 0 s k = ret None"
| "fetchstr_loop (Suc n) s k = bnd (ldb s) (\<lambda>c. if c = 0 then ret (Some k) else fetchstr_loop n (s + 1) (k + 1))"

definition fetchstr :: "uint \<Rightarrow> ('z kern_scheme, nat option) kop" where
  "fetchstr addr = with_myproc (\<lambda>me. bnd (proc_get me psz) (\<lambda>sz.
     if addr \<ge> sz then ret None else fetchstr_loop (unat (sz - addr)) addr 0))"

definition argint :: "nat \<Rightarrow> ('z kern_scheme, uint option) kop" where
  "argint n = with_myproc (\<lambda>me. bnd (proc_get me (\<lambda>p. tf_esp (ptf p))) (\<lambda>esp. fetchint (esp + 4 + 4 * of_nat n)))"

definition argptr :: "nat \<Rightarrow> int \<Rightarrow> ('z kern_scheme, uint option) kop" where
  "argptr n sz = with_myproc (\<lambda>me.
     bnd (argint n) (\<lambda>r. case r of None \<Rightarrow> ret None | Some i \<Rightarrow>
     bnd (proc_get me psz) (\<lambda>psz.
       if sz < 0 \<or> i \<ge> psz \<or> i + of_int sz > psz then ret None else ret (Some i))))"

definition argstr :: "nat \<Rightarrow> ('z kern_scheme, bytes option) kop" where
  "argstr n =
     bnd (argint n) (\<lambda>r. case r of None \<Rightarrow> ret None | Some a \<Rightarrow>
     bnd (fetchstr a) (\<lambda>r. case r of None \<Rightarrow> ret None | Some len \<Rightarrow>
     bnd (ld_bytes len a) (\<lambda>cs. ret (Some cs))))"

text \<open>\<open>oret m f\<close> returns \<open>-1\<close> when the argument function \<open>m\<close> has failed.\<close>

definition oret :: "('s, 'a option) kop \<Rightarrow> ('a \<Rightarrow> ('s, int) kop) \<Rightarrow> ('s, int) kop" where
  "oret m f = bnd m (\<lambda>r. case r of None \<Rightarrow> ret (- 1) | Some x \<Rightarrow> f x)"

subsection \<open>File descriptors\<close>

definition argfd :: "nat \<Rightarrow> ('z kern_scheme, (nat \<times> nat) option) kop" where
  "argfd n =
     bnd (argint n) (\<lambda>r. case r of None \<Rightarrow> ret None | Some fd \<Rightarrow>
       if sint fd < 0 \<or> sint fd \<ge> int NOFILE then ret None
       else with_myproc (\<lambda>me. bnd (proc_get me (\<lambda>p. ofile p (unat fd))) (\<lambda>f. case f of
         None \<Rightarrow> ret None | Some f \<Rightarrow> ret (Some (unat fd, f)))))"

definition fdalloc :: "nat \<Rightarrow> ('z kern_scheme, nat option) kop" where
  "fdalloc f = with_myproc (\<lambda>me.
     bnd (proc_get me (\<lambda>p. scan NOFILE (\<lambda>fd. ofile p fd = None))) (\<lambda>r. case r of
       None \<Rightarrow> ret None
     | Some fd \<Rightarrow> bnd (proc_upd me (\<lambda>p. p\<lparr>ofile := (ofile p)(fd := Some f)\<rparr>)) (\<lambda>_. ret (Some fd))))"

definition fdclear :: "nat \<Rightarrow> ('z kern_scheme, unit) kop" where
  "fdclear fd = with_myproc (\<lambda>me. proc_upd me (\<lambda>p. p\<lparr>ofile := (ofile p)(fd := None)\<rparr>))"

definition sys_dup :: "('z kern_scheme, int) kop" where
  "sys_dup = oret (argfd 0) (\<lambda>(_, f). oret (fdalloc f) (\<lambda>fd. bnd (filedup f) (\<lambda>_. ret (int fd))))"

definition sys_read :: "('z kern_scheme, int) kop" where
  "sys_read = oret (argfd 0) (\<lambda>(_, f). oret (argint 2) (\<lambda>n. oret (argptr 1 (sint n)) (\<lambda>p. fileread f p (sint n))))"

definition sys_write :: "('z kern_scheme, int) kop" where
  "sys_write = oret (argfd 0) (\<lambda>(_, f). oret (argint 2) (\<lambda>n. oret (argptr 1 (sint n)) (\<lambda>p. filewrite f p (sint n))))"

definition sys_close :: "('z kern_scheme, int) kop" where
  "sys_close = oret (argfd 0) (\<lambda>(fd, f). bnd (seqs [fdclear fd, fileclose f]) (\<lambda>_. ret 0))"

definition STATSZ :: int where "STATSZ = 20"

definition sys_fstat :: "('z kern_scheme, int) kop" where
  "sys_fstat = oret (argfd 0) (\<lambda>(_, f). oret (argptr 1 STATSZ) (\<lambda>st. filestat f st))"

subsection \<open>Links\<close>

definition sys_link_bad :: "nat \<Rightarrow> ('z kern_scheme, int) kop" where
  "sys_link_bad ip = bnd (seqs [
     ilock (Some ip),
     inode_upd ip (\<lambda>x. x\<lparr>inlink := inlink x - 1\<rparr>),
     iupdate ip,
     iunlockput ip,
     end_op]) (\<lambda>_. ret (- 1))"

definition sys_link :: "('z kern_scheme, int) kop" where
  "sys_link = oret (argstr 0) (\<lambda>old. oret (argstr 1) (\<lambda>new.
     bnd begin_op (\<lambda>_.
     bnd (namei old) (\<lambda>r. case r of None \<Rightarrow> bnd end_op (\<lambda>_. ret (- 1)) | Some ip \<Rightarrow>
     bnd (ilock (Some ip)) (\<lambda>_.
     bnd (inode_get ip itype) (\<lambda>ty. if ty = T_DIR then bnd (seqs [iunlockput ip, end_op]) (\<lambda>_. ret (- 1)) else
     bnd (seqs [
       inode_upd ip (\<lambda>x. x\<lparr>inlink := inlink x + 1\<rparr>),
       iupdate ip,
       iunlock (Some ip)]) (\<lambda>_.
     bnd (nameiparent new) (\<lambda>r. case r of None \<Rightarrow> sys_link_bad ip | Some (dp, name) \<Rightarrow>
     bnd (ilock (Some dp)) (\<lambda>_.
     bnd (inode_get dp idev) (\<lambda>d.
     bnd (inode_get ip (\<lambda>x. (idev x, inum x))) (\<lambda>(d', i).
     bnd (if d \<noteq> d' then ret (- 1) else dirlink dp name i) (\<lambda>r.
       if r < 0 then bnd (iunlockput dp) (\<lambda>_. sys_link_bad ip)
       else bnd (seqs [iunlockput dp, iput ip, end_op]) (\<lambda>_. ret 0)))))))))))))"

primrec isdirempty_loop :: "nat \<Rightarrow> nat \<Rightarrow> uint \<Rightarrow> ('z kern_scheme, bool) kop" where
  "isdirempty_loop 0 dp off = wild ''isdirempty''"
| "isdirempty_loop (Suc n) dp off =
     bnd (inode_get dp isize) (\<lambda>sz.
       if off < sz then
         bnd (readi to_local dp off DESZ) (\<lambda>(r, b).
           if r \<noteq> uint DESZ then panic ''isdirempty: readi''
           else if de_inum (decode_dirent b) \<noteq> 0 then ret False
           else isdirempty_loop n dp (off + DESZ))
       else ret True)"

definition isdirempty :: "nat \<Rightarrow> ('z kern_scheme, bool) kop" where
  "isdirempty dp = isdirempty_loop (2 ^ 28) dp (2 * DESZ)"

definition sys_unlink_bad :: "nat \<Rightarrow> ('z kern_scheme, int) kop" where
  "sys_unlink_bad dp = bnd (seqs [iunlockput dp, end_op]) (\<lambda>_. ret (- 1))"

definition sys_unlink :: "('z kern_scheme, int) kop" where
  "sys_unlink = oret (argstr 0) (\<lambda>pth.
     bnd begin_op (\<lambda>_.
     bnd (nameiparent pth) (\<lambda>r. case r of None \<Rightarrow> bnd end_op (\<lambda>_. ret (- 1)) | Some (dp, name) \<Rightarrow>
     bnd (ilock (Some dp)) (\<lambda>_.
     if namecmp name (chars ''.'') = 0 \<or> namecmp name (chars ''..'') = 0 then sys_unlink_bad dp else
     bnd (dirlookup dp name) (\<lambda>r. case r of None \<Rightarrow> sys_unlink_bad dp | Some (ip, off) \<Rightarrow>
     bnd (ilock (Some ip)) (\<lambda>_.
     bnd (inode_get ip (\<lambda>x. (itype x, inlink x))) (\<lambda>(ty, nl). if sint nl < 1 then panic ''unlink: nlink < 1'' else
     bnd (if ty = T_DIR then isdirempty ip else ret True) (\<lambda>e.
     if \<not> e then bnd (iunlockput ip) (\<lambda>_. sys_unlink_bad dp) else
     bnd (writei (from_local (encode_dirent \<lparr>de_inum = 0, de_name = replicate DIRSIZ 0\<rparr>)) dp off DESZ) (\<lambda>r.
     if r \<noteq> uint DESZ then panic ''unlink: writei'' else
     bnd (seqs [
       whenk (ty = T_DIR) (seqs [inode_upd dp (\<lambda>x. x\<lparr>inlink := inlink x - 1\<rparr>), iupdate dp]),
       iunlockput dp,
       inode_upd ip (\<lambda>x. x\<lparr>inlink := inlink x - 1\<rparr>),
       iupdate ip,
       iunlockput ip,
       end_op]) (\<lambda>_. ret 0))))))))))"

subsection \<open>Creating and opening\<close>

definition create :: "bytes \<Rightarrow> ushort \<Rightarrow> ushort \<Rightarrow> ushort \<Rightarrow> ('z kern_scheme, nat option) kop" where
  "create pth ty major minor =
     bnd (nameiparent pth) (\<lambda>r. case r of None \<Rightarrow> ret None | Some (dp, name) \<Rightarrow>
     bnd (ilock (Some dp)) (\<lambda>_.
     bnd (dirlookup dp name) (\<lambda>r. case r of
       Some (ip, _) \<Rightarrow>
         bnd (seqs [iunlockput dp, ilock (Some ip)]) (\<lambda>_.
         bnd (inode_get ip itype) (\<lambda>t. if ty = T_FILE \<and> t = T_FILE then ret (Some ip)
           else bnd (iunlockput ip) (\<lambda>_. ret None)))
     | None \<Rightarrow>
         bnd (inode_get dp (\<lambda>x. (idev x, inum x))) (\<lambda>(dev, dino).
         bnd (ialloc dev ty) (\<lambda>ip.
         bnd (seqs [
           ilock (Some ip),
           inode_upd ip (\<lambda>x. x\<lparr>imajor := major, iminor := minor, inlink := 1\<rparr>),
           iupdate ip]) (\<lambda>_.
         bnd (inode_get ip inum) (\<lambda>ino.
         bnd (seqs [
           whenk (ty = T_DIR) (seqs [
             inode_upd dp (\<lambda>x. x\<lparr>inlink := inlink x + 1\<rparr>),
             iupdate dp,
             bnd (dirlink ip (chars ''.'') ino) (\<lambda>r. if r < 0 then panic ''create dots'' else ret ()),
             bnd (dirlink ip (chars ''..'') dino) (\<lambda>r. if r < 0 then panic ''create dots'' else ret ())]),
           bnd (dirlink dp name ino) (\<lambda>r. if r < 0 then panic ''create: dirlink'' else ret ()),
           iunlockput dp]) (\<lambda>_. ret (Some ip)))))))))"

definition open_inode :: "bytes \<Rightarrow> uint \<Rightarrow> ('z kern_scheme, nat option) kop" where
  "open_inode pth omode =
     (if omode AND O_CREATE \<noteq> 0 then create pth T_FILE 0 0
      else bnd (namei pth) (\<lambda>r. case r of None \<Rightarrow> ret None | Some ip \<Rightarrow>
        bnd (ilock (Some ip)) (\<lambda>_.
        bnd (inode_get ip itype) (\<lambda>ty. if ty = T_DIR \<and> omode \<noteq> O_RDONLY
          then bnd (iunlockput ip) (\<lambda>_. ret None) else ret (Some ip)))))"

definition sys_open :: "('z kern_scheme, int) kop" where
  "sys_open = oret (argstr 0) (\<lambda>pth. oret (argint 1) (\<lambda>omode.
     bnd begin_op (\<lambda>_.
     bnd (open_inode pth omode) (\<lambda>r. case r of None \<Rightarrow> bnd end_op (\<lambda>_. ret (- 1)) | Some ip \<Rightarrow>
     bnd filealloc (\<lambda>f.
     bnd (case f of None \<Rightarrow> ret None | Some f \<Rightarrow> fdalloc f) (\<lambda>fd. case (f, fd) of
       (Some f, Some fd) \<Rightarrow> bnd (seqs [
         iunlock (Some ip),
         end_op,
         file_upd f (\<lambda>x. x\<lparr>ftype := FD_INODE, fip := ip, foff := 0,
           freadable := (omode AND O_WRONLY = 0),
           fwritable := (omode AND O_WRONLY \<noteq> 0 \<or> omode AND O_RDWR \<noteq> 0)\<rparr>)]) (\<lambda>_. ret (int fd))
     | _ \<Rightarrow> bnd (seqs [
         (case f of None \<Rightarrow> ret () | Some f \<Rightarrow> fileclose f),
         iunlockput ip,
         end_op]) (\<lambda>_. ret (- 1))))))))"

definition finish_create :: "nat option \<Rightarrow> ('z kern_scheme, int) kop" where
  "finish_create r = (case r of
     None \<Rightarrow> bnd end_op (\<lambda>_. ret (- 1))
   | Some ip \<Rightarrow> bnd (seqs [iunlockput ip, end_op]) (\<lambda>_. ret 0))"

definition sys_mkdir :: "('z kern_scheme, int) kop" where
  "sys_mkdir = bnd begin_op (\<lambda>_.
     bnd (argstr 0) (\<lambda>r. case r of None \<Rightarrow> finish_create None
     | Some pth \<Rightarrow> bnd (create pth T_DIR 0 0) finish_create))"

definition sys_mknod :: "('z kern_scheme, int) kop" where
  "sys_mknod = bnd begin_op (\<lambda>_.
     bnd (argstr 0) (\<lambda>r. case r of None \<Rightarrow> finish_create None | Some pth \<Rightarrow>
     bnd (argint 1) (\<lambda>r. case r of None \<Rightarrow> finish_create None | Some major \<Rightarrow>
     bnd (argint 2) (\<lambda>r. case r of None \<Rightarrow> finish_create None | Some minor \<Rightarrow>
     bnd (create pth T_DEV (ucast major) (ucast minor)) finish_create))))"

definition sys_chdir :: "('z kern_scheme, int) kop" where
  "sys_chdir = with_myproc (\<lambda>me. bnd begin_op (\<lambda>_.
     bnd (argstr 0) (\<lambda>r.
     bnd (case r of None \<Rightarrow> ret None | Some pth \<Rightarrow> namei pth) (\<lambda>r. case r of
       None \<Rightarrow> bnd end_op (\<lambda>_. ret (- 1))
     | Some ip \<Rightarrow>
       bnd (ilock (Some ip)) (\<lambda>_.
       bnd (inode_get ip itype) (\<lambda>ty.
       if ty \<noteq> T_DIR then bnd (seqs [iunlockput ip, end_op]) (\<lambda>_. ret (- 1))
       else bnd (seqs [
         iunlock (Some ip),
         bnd (proc_get me cwd) (\<lambda>c. case c of None \<Rightarrow> wild ''cwd'' | Some d \<Rightarrow> iput d),
         end_op,
         proc_upd me (\<lambda>p. p\<lparr>cwd := Some ip\<rparr>)]) (\<lambda>_. ret 0)))))))"

subsection \<open>Programs and pipes\<close>

primrec exec_args :: "nat \<Rightarrow> uint \<Rightarrow> ('z kern_scheme, bytes list option) kop" where
  "exec_args 0 a = ret None"
| "exec_args (Suc n) a =
     bnd (fetchint a) (\<lambda>r. case r of None \<Rightarrow> ret None | Some u \<Rightarrow>
       if u = 0 then ret (Some []) else
     bnd (fetchstr u) (\<lambda>r. case r of None \<Rightarrow> ret None | Some len \<Rightarrow>
     bnd (ld_bytes len u) (\<lambda>cs.
     bnd (exec_args n (a + 4)) (\<lambda>r. ret (map_option (\<lambda>l. cs # l) r)))))"

definition sys_exec :: "('z kern_scheme, int) kop" where
  "sys_exec = oret (argstr 0) (\<lambda>pth. oret (argint 1) (\<lambda>uargv.
     oret (exec_args MAXARG uargv) (\<lambda>argv. exec pth argv)))"

definition sys_pipe_bad :: "nat option \<Rightarrow> nat \<Rightarrow> nat \<Rightarrow> ('z kern_scheme, int) kop" where
  "sys_pipe_bad fd0 f0 f1 = bnd (seqs [
     (case fd0 of None \<Rightarrow> ret () | Some fd \<Rightarrow> fdclear fd),
     fileclose f0,
     fileclose f1]) (\<lambda>_. ret (- 1))"

definition sys_pipe :: "('z kern_scheme, int) kop" where
  "sys_pipe = oret (argptr 0 8) (\<lambda>fd. oret pipealloc (\<lambda>(f0, f1).
     bnd (fdalloc f0) (\<lambda>r0. case r0 of None \<Rightarrow> sys_pipe_bad None f0 f1 | Some fd0 \<Rightarrow>
     bnd (fdalloc f1) (\<lambda>r1. case r1 of None \<Rightarrow> sys_pipe_bad r0 f0 f1 | Some fd1 \<Rightarrow>
     bnd (seqs [stw fd (of_nat fd0), stw (fd + 4) (of_nat fd1)]) (\<lambda>_. ret 0)))))"

end
