(* ===== verification/Syscall.thy ===== *)
theory Syscall
  imports Sysfile
begin

unbundle bit_operations_syntax

text \<open>
  The process system calls (sysproc.c) and the dispatch of system calls by number
  (syscall.c, syscall.h).
\<close>

subsection \<open>Process system calls\<close>

definition sys_fork :: "('z kern_scheme, int) kop" where "sys_fork = fork"

definition sys_exit :: "('z kern_scheme, int) kop" where "sys_exit = exit"

definition sys_wait :: "('z kern_scheme, int) kop" where "sys_wait = wait"

definition sys_kill :: "('z kern_scheme, int) kop" where
  "sys_kill = oret (argint 0) (\<lambda>pd. kill (sint pd))"

definition sys_getpid :: "('z kern_scheme, int) kop" where
  "sys_getpid = with_myproc (\<lambda>me. proc_get me pid)"

definition sys_sbrk :: "('z kern_scheme, int) kop" where
  "sys_sbrk = oret (argint 0) (\<lambda>n. with_myproc (\<lambda>me.
     bnd (proc_get me psz) (\<lambda>addr.
     bnd (growproc (sint n)) (\<lambda>r. if r < 0 then ret (- 1) else ret (sint addr)))))"

text \<open>The loop of \<open>sys_sleep\<close> compares in unsigned arithmetic; \<open>sys_sleep_resume\<close> goes on in it.\<close>

definition sys_sleep_loop :: "uint \<Rightarrow> uint \<Rightarrow> ('z kern_scheme, int) kop" where
  "sys_sleep_loop ticks0 n =
     bnd (gets ticks) (\<lambda>t. if t - ticks0 < n then
       with_myproc (\<lambda>me. bnd (proc_get me killed) (\<lambda>kd.
         if kd then bnd (krelease TicksLock) (\<lambda>_. ret (- 1))
         else sleep (Some ChTicks) (Some TicksLock)))
     else bnd (krelease TicksLock) (\<lambda>_. ret 0))"

definition sys_sleep :: "('z kern_scheme, int) kop" where
  "sys_sleep = oret (argint 0) (\<lambda>n.
     bnd (kacquire TicksLock) (\<lambda>_. bnd (gets ticks) (\<lambda>ticks0. sys_sleep_loop ticks0 n)))"

definition sys_sleep_resume :: "nat \<Rightarrow> uint \<Rightarrow> uint \<Rightarrow> ('z kern_scheme, int) kop" where
  "sys_sleep_resume me ticks0 n = bnd (sleep_resume me TicksLock) (\<lambda>_. sys_sleep_loop ticks0 n)"

definition sys_uptime :: "('z kern_scheme, int) kop" where
  "sys_uptime = bnd (kacquire TicksLock) (\<lambda>_. bnd (gets ticks) (\<lambda>xticks.
     bnd (krelease TicksLock) (\<lambda>_. ret (sint xticks))))"

definition sys_getyear :: "('z kern_scheme, int) kop" where "sys_getyear = ret 1975"

definition sys_runtime :: "('z kern_scheme, int) kop" where "sys_runtime = runtime"

definition sys_waittime :: "('z kern_scheme, int) kop" where "sys_waittime = waittime"

definition sys_turntime :: "('z kern_scheme, int) kop" where "sys_turntime = turntime"

subsection \<open>Dispatch\<close>

definition SYS_fork :: nat where "SYS_fork = 1"
definition SYS_exit :: nat where "SYS_exit = 2"
definition SYS_wait :: nat where "SYS_wait = 3"
definition SYS_pipe :: nat where "SYS_pipe = 4"
definition SYS_read :: nat where "SYS_read = 5"
definition SYS_kill :: nat where "SYS_kill = 6"
definition SYS_exec :: nat where "SYS_exec = 7"
definition SYS_fstat :: nat where "SYS_fstat = 8"
definition SYS_chdir :: nat where "SYS_chdir = 9"
definition SYS_dup :: nat where "SYS_dup = 10"
definition SYS_getpid :: nat where "SYS_getpid = 11"
definition SYS_sbrk :: nat where "SYS_sbrk = 12"
definition SYS_sleep :: nat where "SYS_sleep = 13"
definition SYS_uptime :: nat where "SYS_uptime = 14"
definition SYS_open :: nat where "SYS_open = 15"
definition SYS_write :: nat where "SYS_write = 16"
definition SYS_mknod :: nat where "SYS_mknod = 17"
definition SYS_unlink :: nat where "SYS_unlink = 18"
definition SYS_link :: nat where "SYS_link = 19"
definition SYS_mkdir :: nat where "SYS_mkdir = 20"
definition SYS_close :: nat where "SYS_close = 21"
definition SYS_getyear :: nat where "SYS_getyear = 22"
definition SYS_runtime :: nat where "SYS_runtime = 23"
definition SYS_waittime :: nat where "SYS_waittime = 24"
definition SYS_turntime :: nat where "SYS_turntime = 25"

text \<open>The table, as the list of its designated initialisers; the other entries are null.\<close>

definition syscalls :: "(nat \<times> ('z kern_scheme, int) kop) list" where
  "syscalls = [
     (SYS_fork, sys_fork), (SYS_exit, sys_exit), (SYS_wait, sys_wait), (SYS_pipe, sys_pipe),
     (SYS_read, sys_read), (SYS_kill, sys_kill), (SYS_exec, sys_exec), (SYS_fstat, sys_fstat),
     (SYS_chdir, sys_chdir), (SYS_dup, sys_dup), (SYS_getpid, sys_getpid), (SYS_sbrk, sys_sbrk),
     (SYS_sleep, sys_sleep), (SYS_uptime, sys_uptime), (SYS_open, sys_open), (SYS_write, sys_write),
     (SYS_mknod, sys_mknod), (SYS_unlink, sys_unlink), (SYS_link, sys_link), (SYS_mkdir, sys_mkdir),
     (SYS_close, sys_close), (SYS_getyear, sys_getyear), (SYS_runtime, sys_runtime),
     (SYS_waittime, sys_waittime), (SYS_turntime, sys_turntime)]"

definition NSYSCALLS :: int where "NSYSCALLS = 26"

definition syscall :: "('z kern_scheme, unit) kop" where
  "syscall = with_myproc (\<lambda>me. bnd (proc_get me (\<lambda>p. tf_eax (ptf p))) (\<lambda>eax.
     let num = sint eax in
     bnd (case (if num > 0 \<and> num < NSYSCALLS then map_of syscalls (nat num) else None) of
         Some f \<Rightarrow> f
       | None \<Rightarrow> bnd (proc_get me (\<lambda>p. (pid p, pname p))) (\<lambda>(pd, nm).
           bnd (cprintf (Some (chars ''%d %s: unknown sys call %d'' @ [10])) [ANum (of_int pd), AStr (Some nm), ANum eax])
             (\<lambda>_. ret (- 1)))) (\<lambda>r.
     proc_upd me (\<lambda>p. p\<lparr>ptf := (ptf p)\<lparr>tf_eax := of_int r\<rparr>\<rparr>))))"

end
