(* ===== verification/Kbd.thy ===== *)
theory Kbd
  imports Console
begin

unbundle bit_operations_syntax

text \<open>
  The keyboard driver (kbd.c, kbd.h): from scan codes to characters. The static
  variable \<open>shift\<close> is passed and returned.
\<close>

definition SHIFT :: uint where "SHIFT = 1"
definition CTL :: uint where "CTL = 2"
definition ALT :: uint where "ALT = 4"
definition CAPSLOCK :: uint where "CAPSLOCK = 8"
definition NUMLOCK :: uint where "NUMLOCK = 16"
definition SCROLLLOCK :: uint where "SCROLLLOCK = 32"
definition E0ESC :: uint where "E0ESC = 64"

text \<open>A table of 256 bytes, from its leading entries and its designated ones.\<close>

definition table :: "uchar list \<Rightarrow> (uint \<times> uchar) list \<Rightarrow> uint \<Rightarrow> uchar" where
  "table xs ds i = (case map_of ds i of Some c \<Rightarrow> c | None \<Rightarrow> if unat i < length xs then xs ! unat i else 0)"

definition shiftcode :: "uint \<Rightarrow> uint" where
  "shiftcode d = ucast (table [] [(0x1D, ucast CTL), (0x2A, ucast SHIFT), (0x36, ucast SHIFT), (0x38, ucast ALT),
     (0x9D, ucast CTL), (0xB8, ucast ALT)] d)"

definition togglecode :: "uint \<Rightarrow> uint" where
  "togglecode d = ucast (table [] [(0x3A, ucast CAPSLOCK), (0x45, ucast NUMLOCK), (0x46, ucast SCROLLLOCK)] d)"

text \<open>The special keys: up, down, page up, page down, left, right, home, end, insert, delete.\<close>

definition special_keys :: "(uint \<times> uchar) list" where
  "special_keys = [(0xC8, 0xE2), (0xD0, 0xE3), (0xC9, 0xE6), (0xD1, 0xE7), (0xCB, 0xE4), (0xCD, 0xE5),
     (0x97, 0xE0), (0xCF, 0xE1), (0xD2, 0xE8), (0xD3, 0xE9)]"

definition normalmap :: "uint \<Rightarrow> uchar" where
  "normalmap = table
     ([0, 0x1B] @ chars ''1234567890-='' @ [8, 9] @ chars ''qwertyuiop[]'' @ [10, 0] @ chars ''asdfghjkl;'' @
      [39, 96, 0, 92] @ chars ''zxcvbnm,./'' @ [0] @ chars ''*'' @ [0] @ chars '' '' @ replicate 13 0 @
      chars ''789-456+1230.'' @ [0, 0, 0, 0])
     ([(0x9C, 10), (0xB5, 47)] @ special_keys)"

definition shiftmap :: "uint \<Rightarrow> uchar" where
  "shiftmap = table
     ([0, 0x1B] @ chars ''!@#$%^&*()_+'' @ [8, 9] @ chars ''QWERTYUIOP{}'' @ [10, 0] @ chars ''ASDFGHJKL:'' @
      [34, 126, 0, 124] @ chars ''ZXCVBNM<>?'' @ [0] @ chars ''*'' @ [0] @ chars '' '' @ replicate 13 0 @
      chars ''789-456+1230.'' @ [0, 0, 0, 0])
     ([(0x9C, 10), (0xB5, 47)] @ special_keys)"

definition ctls :: "string \<Rightarrow> uchar list" where
  "ctls cs = map (\<lambda>c. c - 64) (chars cs)"

definition ctlmap :: "uint \<Rightarrow> uchar" where
  "ctlmap = table
     (replicate 16 0 @ ctls ''QWERTYUIOP'' @ [0, 0, 13, 0] @ ctls ''ASDFGHJKL'' @ [0, 0, 0, 0] @ ctls [CHR 0x5C] @
      ctls ''ZXCVBNM'' @ [0, 0] @ ctls ''/'' @ [0, 0])
     ([(0x9C, 13), (0xB5, 47 - 64)] @ special_keys)"

definition charcode :: "uint \<Rightarrow> uint \<Rightarrow> uchar" where
  "charcode i = (if i = 0 then normalmap else if i = 1 then shiftmap else ctlmap)"

text \<open>\<open>kbdgetc\<close> on the byte in the controller's buffer: the new \<open>shift\<close> and the character.\<close>

definition key_char :: "uint \<Rightarrow> uint \<Rightarrow> uint" where
  "key_char shift d =
     (let c = ucast (charcode (shift AND (CTL OR SHIFT)) d) in
      if shift AND CAPSLOCK \<noteq> 0 then
        if 97 \<le> c \<and> c \<le> 122 then c + 65 - 97
        else if 65 \<le> c \<and> c \<le> 90 then c + 97 - 65 else c
      else c)"

definition kbdgetc :: "uint \<Rightarrow> uchar \<Rightarrow> uint \<times> uint" where
  "kbdgetc shift code =
     (let d = ucast code in
      if d = 0xE0 then (shift OR E0ESC, 0)
      else if d AND 0x80 \<noteq> 0 then
        let d = (if shift AND E0ESC \<noteq> 0 then d else d AND 0x7F) in
        (shift AND NOT (shiftcode d OR E0ESC), 0)
      else
        let (d, shift) = (if shift AND E0ESC \<noteq> 0 then (d OR 0x80, shift AND NOT E0ESC) else (d, shift));
            shift = (shift OR shiftcode d) XOR togglecode d in
        (shift, key_char shift d))"

text \<open>\<open>consoleintr(kbdgetc)\<close> takes the characters of all the bytes in the buffer.\<close>

fun kbd_chars :: "uint \<Rightarrow> uchar list \<Rightarrow> uint \<times> uint list" where
  "kbd_chars shift [] = (shift, [])"
| "kbd_chars shift (b # bs) =
     (let (shift, c) = kbdgetc shift b; (shift, cs) = kbd_chars shift bs in (shift, c # cs))"

end
