(* ===== verification/Trap.thy ===== *)
theory Trap
  imports Syscall Kbd
begin

unbundle bit_operations_syntax

text \<open>
  Traps and interrupts (trap.c, traps.h): system calls, the clock with its policy
  of giving up the CPU, the keyboard and the serial port, faults. The devices'
  data are arguments: the scan codes in the keyboard controller, the bytes
  received by the serial port, the register \<open>cr2\<close>. The disk of memide.c has no
  interrupts. Acknowledging an interrupt (\<open>lapiceoi\<close>) has no effect on the state.
  With one CPU \<open>cpuid()\<close> is 0.
\<close>

definition T_SYSCALL :: uint where "T_SYSCALL = 64"
definition T_IRQ0 :: uint where "T_IRQ0 = 32"
definition IRQ_TIMER :: uint where "IRQ_TIMER = 0"
definition IRQ_KBD :: uint where "IRQ_KBD = 1"
definition IRQ_COM1 :: uint where "IRQ_COM1 = 4"
definition IRQ_IDE :: uint where "IRQ_IDE = 14"
definition IRQ_SPURIOUS :: uint where "IRQ_SPURIOUS = 31"

lemmas trapno_defs = T_SYSCALL_def T_IRQ0_def IRQ_TIMER_def IRQ_KBD_def IRQ_COM1_def IRQ_IDE_def IRQ_SPURIOUS_def

record machine = kern +
  kbd_shift :: uint

definition ideintr :: "('z machine_scheme, unit) kop" where "ideintr = ret ()"

definition kbdintr :: "uchar list \<Rightarrow> ('z machine_scheme, unit) kop" where
  "kbdintr codes =
     bnd (gets (\<lambda>s. kbd_chars (kbd_shift s) codes)) (\<lambda>(sh, cs).
     bnd (mods (\<lambda>s. s\<lparr>kbd_shift := sh\<rparr>)) (\<lambda>_. consoleintr cs))"

definition uartintr :: "uchar list \<Rightarrow> ('z machine_scheme, unit) kop" where
  "uartintr bs = bnd (gets uart) (\<lambda>u. consoleintr (if u then map ucast bs else []))"

subsection \<open>The parts of trap\<close>

definition clock_tick :: "('z machine_scheme, unit) kop" where
  "clock_tick = seqs [
     kacquire TicksLock,
     mods (\<lambda>s. s\<lparr>ticks := ticks s + 1\<rparr>),
     wakeup (Some ChTicks),
     krelease TicksLock]"

definition from_user :: "trapframe \<Rightarrow> bool" where
  "from_user tf = (tf_cs tf AND 3 = DPL_USER)"

text \<open>Exit of a process that has been killed, with the times it has had.\<close>

definition exit_if_killed :: "trapframe \<Rightarrow> ('z machine_scheme, unit) kop" where
  "exit_if_killed tf = bnd myproc (\<lambda>p. case p of None \<Rightarrow> ret () | Some me \<Rightarrow>
     bnd (proc_get me killed) (\<lambda>kd. whenk (kd \<and> from_user tf) (seqs [
       bnd (gets ticks) (\<lambda>t. proc_upd me (\<lambda>x. x\<lparr>turnaround_t := t - ctime x\<rparr>)),
       proc_upd me (\<lambda>x. x\<lparr>waiting_t := turnaround_t x - running_t x\<rparr>),
       exit])))"

text \<open>What a clock tick does to the running process under each policy.\<close>

definition tick_policy :: "policy \<Rightarrow> nat \<Rightarrow> ('z machine_scheme, unit) kop" where
  "tick_policy pol me = (case pol of
     DEFAULT \<Rightarrow> yield
   | FRR \<Rightarrow> seqs [
       proc_upd me (\<lambda>p. p\<lparr>slot := slot p + 1\<rparr>),
       bnd (proc_get me slot) (\<lambda>n. if n \<ge> QUANTA
         then seqs [proc_upd me (\<lambda>p. p\<lparr>slot := 0\<rparr>), yield]
         else proc_upd me (\<lambda>p. p\<lparr>running_t := running_t p + 1\<rparr>))]
   | FCFS \<Rightarrow> proc_upd me (\<lambda>p. p\<lparr>running_t := running_t p + 1\<rparr>))"

definition clock_yield :: "policy \<Rightarrow> trapframe \<Rightarrow> ('z machine_scheme, unit) kop" where
  "clock_yield pol tf = bnd myproc (\<lambda>p. case p of None \<Rightarrow> ret () | Some me \<Rightarrow>
     bnd (proc_get me pstate) (\<lambda>st.
       whenk (st = RUNNING \<and> tf_trapno tf = T_IRQ0 + IRQ_TIMER) (tick_policy pol me)))"

definition trap_syscall :: "trapframe \<Rightarrow> ('z machine_scheme, unit) kop" where
  "trap_syscall tf = with_myproc (\<lambda>me. seqs [
     bnd (proc_get me killed) (\<lambda>kd. whenk kd exit),
     proc_upd me (\<lambda>p. p\<lparr>ptf := tf\<rparr>),
     syscall,
     bnd (proc_get me killed) (\<lambda>kd. whenk kd exit)])"

definition trap_device :: "trapframe \<Rightarrow> uint \<Rightarrow> uchar list \<Rightarrow> uchar list \<Rightarrow> ('z machine_scheme, unit) kop" where
  "trap_device tf cr2 codes bs =
     (let n = tf_trapno tf in
      if n = T_IRQ0 + IRQ_TIMER then clock_tick
      else if n = T_IRQ0 + IRQ_IDE then ideintr
      else if n = T_IRQ0 + IRQ_IDE + 1 then ret ()
      else if n = T_IRQ0 + IRQ_KBD then kbdintr codes
      else if n = T_IRQ0 + IRQ_COM1 then uartintr bs
      else if n = T_IRQ0 + 7 \<or> n = T_IRQ0 + IRQ_SPURIOUS then
        cprintf (Some (chars ''cpu%d: spurious interrupt at %x:%x'' @ [10])) [ANum 0, ANum (ucast (tf_cs tf)), ANum (tf_eip tf)]
      else bnd myproc (\<lambda>p. if p = None \<or> tf_cs tf AND 3 = 0 then
          bnd (cprintf (Some (chars ''unexpected trap %d from cpu %d eip %x (cr2=0x%x)'' @ [10]))
            [ANum n, ANum 0, ANum (tf_eip tf), ANum cr2]) (\<lambda>_. panic ''trap'')
        else with_myproc (\<lambda>me. proc_upd me (\<lambda>x. x\<lparr>killed := True\<rparr>))))"

text \<open>\<open>trap_resume\<close> is the rest of \<open>trap\<close> when a process that has yielded runs again.\<close>

definition trap :: "policy \<Rightarrow> trapframe \<Rightarrow> uint \<Rightarrow> uchar list \<Rightarrow> uchar list \<Rightarrow> ('z machine_scheme, unit) kop" where
  "trap pol tf cr2 codes bs =
     (if tf_trapno tf = T_SYSCALL then trap_syscall tf
      else seqs [
        trap_device tf cr2 codes bs,
        exit_if_killed tf,
        clock_yield pol tf,
        exit_if_killed tf])"

definition trap_resume :: "trapframe \<Rightarrow> ('z machine_scheme, unit) kop" where
  "trap_resume tf = seqs [yield_resume, exit_if_killed tf]"

end
