(* ===== verification/Discipline.thy ===== *)
theory Discipline
  imports Trap
begin

unbundle bit_operations_syntax

text \<open>
  Two disciplines the kernel's code keeps on every path, error returns included,
  proved for every function from the spin locks up to \<open>trap\<close>:
  \<^item> locks: a function returns with the locks it was called with, and whenever it
    gives up the CPU it holds \<open>ptable.lock\<close> and nothing else;
  \<^item> well-formed state, \<open>kinv\<close>: arrays have their declared sizes; processes in use
    have distinct positive process numbers below \<open>nextpid\<close>; a process that may run
    has a kernel stack and a page table; the running process is the current one
    of the CPU.

  \<open>tri c h m h' V\<close> says it of one function: called with the locks \<open>h\<close> in a well-formed
  state with \<open>c\<close> the current process it returns, if it does, with the locks \<open>h'\<close>, a result in \<open>V\<close>, a
  well-formed state and the same current process, and switches only as above. It also leaves the processes
  under construction alone, which the functions that create a process rely on.
  The rules in \<open>tri\<close> follow the syntax of the models.
\<close>

subsection \<open>Well-formed states\<close>

definition arrays_ok :: "'z files_scheme \<Rightarrow> bool" where
  "arrays_ok s \<longleftrightarrow> (\<forall>i. length (bdata (bufs s i)) = BSIZE) \<and> (\<forall>b. length (disk s b) = BSIZE) \<and>
     (\<forall>i. length (iaddrs (inodes s i)) = NDIRECT + 1) \<and> (\<forall>p. length (pdata (pipes s p)) = PIPESIZE) \<and>
     length (in_buf s) = INPUT_BUF"

definition times_ok :: "proc \<Rightarrow> bool" where
  "times_ok p \<longleftrightarrow> length (pwaiting_t p) = 10 \<and> length (prunning_t p) = 10 \<and> length (pturnaround_t p) = 10 \<and>
     length (pname p) < 16"

text \<open>A process that runs, or will when the scheduler picks it, has its memory.\<close>

definition alive :: "procstate \<Rightarrow> bool" where
  "alive st \<longleftrightarrow> st = SLEEPING \<or> st = RUNNABLE \<or> st = RUNNING"

definition loaded :: "proc \<Rightarrow> bool" where
  "loaded p \<longleftrightarrow> (alive (pstate p) \<longrightarrow> kstack p \<noteq> 0 \<and> pgdir p \<noteq> 0)"

definition pids_ok :: "(nat \<Rightarrow> proc) \<Rightarrow> int \<Rightarrow> bool" where
  "pids_ok ps next \<longleftrightarrow> 0 < next \<and>
     (\<forall>i < NPROC. pstate (ps i) \<noteq> UNUSED \<longrightarrow> 0 < pid (ps i) \<and> pid (ps i) < next) \<and>
     (\<forall>i < NPROC. \<forall>j < NPROC. i \<noteq> j \<longrightarrow> pstate (ps i) \<noteq> UNUSED \<longrightarrow> pstate (ps j) \<noteq> UNUSED \<longrightarrow> pid (ps i) \<noteq> pid (ps j))"

definition ptable_ok :: "(nat \<Rightarrow> proc) \<Rightarrow> int \<Rightarrow> bool" where
  "ptable_ok ps next \<longleftrightarrow> pids_ok ps next \<and> (\<forall>i < NPROC. times_ok (ps i) \<and> loaded (ps i))"

text \<open>Of the processes only \<open>c\<close> is running.\<close>

definition only_running :: "nat option \<Rightarrow> (nat \<Rightarrow> proc) \<Rightarrow> bool" where
  "only_running c ps \<longleftrightarrow> (\<forall>i < NPROC. pstate (ps i) = RUNNING \<longleftrightarrow> c = Some i) \<and> (\<forall>i. c = Some i \<longrightarrow> i < NPROC)"

definition kinv :: "'z files_scheme \<Rightarrow> bool" where
  "kinv s \<longleftrightarrow> arrays_ok s \<and> ptable_ok (procs s) (nextpid s) \<and> only_running (curproc s) (procs s)"

text \<open>After a switch no process is running.\<close>

definition kswitched :: "'z files_scheme \<Rightarrow> bool" where
  "kswitched s \<longleftrightarrow> held s = [PTableLock] \<and> arrays_ok s \<and> ptable_ok (procs s) (nextpid s) \<and> only_running None (procs s)"

text \<open>The processes under construction, with their kernel stacks and page tables.\<close>

type_synonym embryo = "nat \<times> uint \<times> uint"

definition embryos :: "(nat \<Rightarrow> proc) \<Rightarrow> embryo set" where
  "embryos ps = {(i, k, d). i < NPROC \<and> pstate (ps i) = EMBRYO \<and> kstack (ps i) = k \<and> pgdir (ps i) = d}"

definition kst :: "embryo set \<Rightarrow> nat option \<Rightarrow> lock list \<Rightarrow> 'z files_scheme \<Rightarrow> bool" where
  "kst E c h s \<longleftrightarrow> held s = h \<and> curproc s = c \<and> kinv s \<and> E \<subseteq> embryos (procs s)"

lemma kst_iff:
  "kst E c h s \<longleftrightarrow> held s = h \<and> curproc s = c \<and> arrays_ok s \<and> ptable_ok (procs s) (nextpid s) \<and> only_running c (procs s) \<and>
     E \<subseteq> embryos (procs s)"
  by (auto simp: kst_def kinv_def)

lemmas kst_simps = kst_iff arrays_ok_def

subsection \<open>Triples\<close>

definition hp :: "('z files_scheme \<Rightarrow> bool) \<Rightarrow> ('z files_scheme, 'a) kop \<Rightarrow> ('a \<Rightarrow> 'z files_scheme \<Rightarrow> bool) \<Rightarrow> bool" where
  "hp P m Q \<longleftrightarrow> (\<forall>s. P s \<longrightarrow> (case m s of Ret x t \<Rightarrow> Q x t | Switch t \<Rightarrow> kswitched t | _ \<Rightarrow> True))"

definition tri :: "nat option \<Rightarrow> lock list \<Rightarrow> ('z files_scheme, 'a) kop \<Rightarrow> lock list \<Rightarrow> ('a \<Rightarrow> bool) \<Rightarrow> bool" where
  "tri c h m h' V \<longleftrightarrow> (\<forall>E. hp (kst E c h) m (\<lambda>x t. kst E c h' t \<and> V x))"

named_theorems tri "rules for the discipline"

lemma hp_bnd: "hp P m R \<Longrightarrow> (\<And>x. hp (R x) (f x) Q) \<Longrightarrow> hp P (bnd m f) Q"
  by (fastforce simp: hp_def bnd_apply split: outcome.splits)

lemma hp_conseq: "hp P m Q \<Longrightarrow> (\<And>s. P' s \<Longrightarrow> P s) \<Longrightarrow> (\<And>x s. Q x s \<Longrightarrow> Q' x s) \<Longrightarrow> hp P' m Q'"
  by (fastforce simp: hp_def split: outcome.splits)

lemma triD: "tri c h m h' V \<Longrightarrow> hp (kst E c h) m (\<lambda>x t. kst E c h' t \<and> V x)"
  by (simp add: tri_def)

lemma tri_conseq: "tri c h m h' V \<Longrightarrow> (\<And>x. V x \<Longrightarrow> W x) \<Longrightarrow> tri c h m h' W"
  by (auto simp: tri_def elim!: hp_conseq)

lemma tri_bndV:
  assumes "tri c h m h1 V" and "\<And>x. V x \<Longrightarrow> tri c h1 (f x) h2 W"
  shows "tri c h (bnd m f) h2 W"
  unfolding tri_def
proof
  fix E
  show "hp (kst E c h) (bnd m f) (\<lambda>x t. kst E c h2 t \<and> W x)"
  proof (rule hp_bnd [OF triD [OF assms(1)]])
    fix x
    show "hp (\<lambda>t. kst E c h1 t \<and> V x) (f x) (\<lambda>x t. kst E c h2 t \<and> W x)"
      using assms(2) [of x] by (fastforce simp: tri_def hp_def)
  qed
qed

lemma tri_bnd [tri]: "tri c h m h1 (\<lambda>_. True) \<Longrightarrow> (\<And>x. tri c h1 (f x) h2 W) \<Longrightarrow> tri c h (bnd m f) h2 W"
  by (rule tri_bndV)

lemma tri_ret [tri]: "h = h' \<Longrightarrow> V x \<Longrightarrow> tri c h (ret x) h' V"
  by (simp add: tri_def hp_def ret_apply)

lemma tri_gets [tri]: "h = h' \<Longrightarrow> tri c h (gets f) h' (\<lambda>_. True)"
  by (simp add: tri_def hp_def)

lemma tri_panic [tri]: "tri c h (panic e) h' V"
  and tri_wild [tri]: "tri c h (wild e) h' V"
  by (simp_all add: tri_def hp_def)

lemma tri_mods [tri]: "h = h' \<Longrightarrow> (\<And>E s. kst E c h s \<Longrightarrow> kst E c h (g s)) \<Longrightarrow> tri c h (mods g) h' (\<lambda>_. True)"
  by (simp add: tri_def hp_def)

lemma tri_if [tri]: "(b \<Longrightarrow> tri c h m h' V) \<Longrightarrow> (\<not> b \<Longrightarrow> tri c h n h' V) \<Longrightarrow> tri c h (if b then m else n) h' V"
  by simp

lemma tri_whenk [tri]: "(b \<Longrightarrow> tri c h m h' (\<lambda>_. True)) \<Longrightarrow> h = h' \<Longrightarrow> tri c h (whenk b m) h' (\<lambda>_. True)"
  by (simp add: whenk_def tri_ret)

lemma tri_seqs [tri]: "h = h' \<Longrightarrow> tri c h (seqs []) h' (\<lambda>_. True)"
  "tri c h m h1 (\<lambda>_. True) \<Longrightarrow> tri c h1 (seqs ms) h' (\<lambda>_. True) \<Longrightarrow> tri c h (seqs (m # ms)) h' (\<lambda>_. True)"
  by (auto intro: tri)

lemma tri_for_each [tri]: "h = h' \<Longrightarrow> (\<And>i. i \<in> set is \<Longrightarrow> tri c h (f i) h (\<lambda>_. True)) \<Longrightarrow> tri c h (for_each is f) h' (\<lambda>_. True)"
  by (induction "is") (auto intro!: tri)

lemma tri_option [tri]:
  "(x = None \<Longrightarrow> tri c h m h' V) \<Longrightarrow> (\<And>y. x = Some y \<Longrightarrow> tri c h (f y) h' V) \<Longrightarrow> tri c h (case x of None \<Rightarrow> m | Some y \<Rightarrow> f y) h' V"
  by (cases x) auto

lemma tri_prod [tri]: "(\<And>a b. x = (a, b) \<Longrightarrow> tri c h (f a b) h' V) \<Longrightarrow> tri c h (case x of (a, b) \<Rightarrow> f a b) h' V"
  by (cases x) auto

lemma tri_list [tri]:
  "(x = [] \<Longrightarrow> tri c h m h' V) \<Longrightarrow> (\<And>y ys. x = y # ys \<Longrightarrow> tri c h (f y ys) h' V) \<Longrightarrow>
   tri c h (case x of [] \<Rightarrow> m | y # ys \<Rightarrow> f y ys) h' V"
  by (cases x) auto

lemma tri_let [tri]: "tri c h (f x) h' V \<Longrightarrow> tri c h (let y = x in f y) h' V"
  by simp

subsection \<open>Updates of the tables\<close>

text \<open>The parts of a process that \<open>kinv\<close> depends on.\<close>

definition core :: "proc \<Rightarrow> _" where
  "core p = (pstate p, pid p, kstack p, pgdir p, length (pwaiting_t p), length (prunning_t p), length (pturnaround_t p))"

lemma kst_core:
  assumes "kst E c h s" and "core q = core (procs s i)" and "length (pname (procs s i)) < 16 \<Longrightarrow> length (pname q) < 16"
  shows "kst E c h (s\<lparr>procs := (procs s)(i := q)\<rparr>)"
proof -
  have c: "pstate q = pstate (procs s i)" "pid q = pid (procs s i)" "kstack q = kstack (procs s i)"
    "pgdir q = pgdir (procs s i)" "i < NPROC \<Longrightarrow> times_ok q"
    using assms by (auto simp: core_def times_ok_def kst_def kinv_def ptable_ok_def)
  define ps where "ps = (procs s)(i := q)"
  have p: "pstate (ps j) = pstate (procs s j)" "pid (ps j) = pid (procs s j)" "kstack (ps j) = kstack (procs s j)"
    "pgdir (ps j) = pgdir (procs s j)" "times_ok (procs s j) \<Longrightarrow> j < NPROC \<Longrightarrow> times_ok (ps j)" for j
    using c by (simp_all add: ps_def)
  have "ptable_ok ps (nextpid s)" "only_running c ps" "embryos ps = embryos (procs s)"
    using assms(1) unfolding kst_simps ptable_ok_def pids_ok_def only_running_def embryos_def loaded_def p
    by (auto intro: p(5))
  then show ?thesis using assms(1) by (simp add: kst_simps ps_def)
qed

lemma tri_proc_upd [tri]:
  "h = h' \<Longrightarrow> (\<And>p. core (f p) = core p) \<Longrightarrow> (\<And>p. length (pname p) < 16 \<Longrightarrow> length (pname (f p)) < 16) \<Longrightarrow>
   tri c h (proc_upd i f) h' (\<lambda>_. True)"
  by (simp add: tri_def hp_def proc_upd_apply kst_core)

lemma tri_proc_get [tri]: "h = h' \<Longrightarrow> tri c h (proc_get i f) h' (\<lambda>_. True)"
  by (simp add: tri_def hp_def proc_get_apply)

lemma tri_myproc [tri]: "tri c h (f c) h' V \<Longrightarrow> tri c h (bnd myproc f) h' V"
  by (simp add: tri_def hp_def myproc_apply bnd_apply kst_def)

lemma tri_with_myproc [tri]: "(\<And>p. c = Some p \<Longrightarrow> tri c h (f p) h' V) \<Longrightarrow> tri c h (with_myproc f) h' V"
  by (auto simp: tri_def hp_def with_myproc_apply kst_def split: option.split)

lemma tri_kacquire [tri]: "l # h = h' \<Longrightarrow> tri c h (kacquire l) h' (\<lambda>_. True)"
  by (auto simp: tri_def hp_def kacquire_apply kst_simps)

lemma tri_krelease [tri]: "remove1 l h = h' \<Longrightarrow> tri c h (krelease l) h' (\<lambda>_. True)"
  by (auto simp: tri_def hp_def krelease_apply kst_simps)

lemma tri_sl_upd [tri]: "h = h' \<Longrightarrow> tri c h (sl_upd l f) h' (\<lambda>_. True)"
  by (simp add: tri_def hp_def sl_upd_apply kst_simps)

lemma tri_buf_upd [tri]:
  "h = h' \<Longrightarrow> (\<And>x. length (bdata x) = BSIZE \<Longrightarrow> length (bdata (f x)) = BSIZE) \<Longrightarrow> tri c h (buf_upd i f) h' (\<lambda>_. True)"
  by (simp add: tri_def hp_def buf_upd_def kst_simps)

lemma tri_inode_upd [tri]:
  "h = h' \<Longrightarrow> (\<And>x. length (iaddrs x) = NDIRECT + 1 \<Longrightarrow> length (iaddrs (f x)) = NDIRECT + 1) \<Longrightarrow>
   tri c h (inode_upd i f) h' (\<lambda>_. True)"
  by (simp add: tri_def hp_def inode_upd_def kst_simps)

lemma tri_pipe_upd [tri]:
  "h = h' \<Longrightarrow> (\<And>x. length (pdata x) = PIPESIZE \<Longrightarrow> length (pdata (f x)) = PIPESIZE) \<Longrightarrow> tri c h (pipe_upd i f) h' (\<lambda>_. True)"
  by (simp add: tri_def hp_def pipe_upd_def kst_simps)

lemma tri_file_upd [tri]: "h = h' \<Longrightarrow> tri c h (file_upd i f) h' (\<lambda>_. True)"
  by (simp add: tri_def hp_def file_upd_def kst_simps)

lemma tri_tables [tri]: "h = h' \<Longrightarrow> tri c h (buf_get b f1) h' (\<lambda>_. True)" "h = h' \<Longrightarrow> tri c h (inode_get b f2) h' (\<lambda>_. True)"
  "h = h' \<Longrightarrow> tri c h (pipe_get p f3) h' (\<lambda>_. True)" "h = h' \<Longrightarrow> tri c h (file_get b f4) h' (\<lambda>_. True)"
  by (simp_all add: tri_def hp_def buf_get_def inode_get_def pipe_get_def file_get_def)

lemma tri_buf_get_data: "tri c h (buf_get b bdata) h (\<lambda>d. length d = BSIZE)"
  by (simp add: tri_def hp_def buf_get_def kst_simps)

subsection \<open>Changes of state of a process\<close>

lemma ptable_state:
  assumes "ptable_ok ps n" "alive (pstate (ps i))" "st \<noteq> UNUSED" "st \<noteq> EMBRYO"
  shows "ptable_ok (ps(i := (ps i)\<lparr>pstate := st\<rparr>)) n"
  using assms by (auto simp: ptable_ok_def pids_ok_def times_ok_def loaded_def alive_def)

lemma embryos_state:
  "alive (pstate (ps i)) \<Longrightarrow> st \<noteq> EMBRYO \<Longrightarrow> embryos (ps(i := (ps i)\<lparr>pstate := st\<rparr>)) = embryos ps"
  by (auto simp: embryos_def alive_def split: if_splits)

lemma kst_wake:
  assumes "kst E c h s" "pstate (procs s i) = SLEEPING"
  shows "kst E c h (s\<lparr>procs := (procs s)(i := (procs s i)\<lparr>pstate := RUNNABLE\<rparr>)\<rparr>)"
proof -
  have "ptable_ok ((procs s)(i := (procs s i)\<lparr>pstate := RUNNABLE\<rparr>)) (nextpid s)"
    using assms by (intro ptable_state) (auto simp: kst_simps alive_def)
  moreover have "embryos ((procs s)(i := (procs s i)\<lparr>pstate := RUNNABLE\<rparr>)) = embryos (procs s)"
    using assms by (intro embryos_state) (auto simp: alive_def)
  moreover have "only_running c ((procs s)(i := (procs s i)\<lparr>pstate := RUNNABLE\<rparr>))"
    using assms by (auto simp: kst_simps only_running_def)
  ultimately show ?thesis using assms(1) by (simp add: kst_simps)
qed

lemma kst_running: "kst E (Some i) h s \<Longrightarrow> i < NPROC \<and> pstate (procs s i) = RUNNING"
  by (auto simp: kst_simps only_running_def)

text \<open>The current process stops running.\<close>

definition leaving :: "nat \<Rightarrow> 'z files_scheme \<Rightarrow> bool" where
  "leaving i s \<longleftrightarrow> curproc s = Some i \<and> arrays_ok s \<and> ptable_ok (procs s) (nextpid s) \<and> only_running None (procs s)"

lemma kst_leave:
  assumes "kst E (Some i) h s" "st \<noteq> UNUSED" "st \<noteq> EMBRYO" "st \<noteq> RUNNING"
  shows "leaving i (s\<lparr>procs := (procs s)(i := (procs s i)\<lparr>pstate := st\<rparr>)\<rparr>)"
proof -
  have r: "pstate (procs s i) = RUNNING" using kst_running assms(1) by blast
  have "ptable_ok ((procs s)(i := (procs s i)\<lparr>pstate := st\<rparr>)) (nextpid s)"
    using assms r by (intro ptable_state) (auto simp: kst_simps alive_def)
  then show ?thesis using assms r by (auto simp: leaving_def kst_simps only_running_def)
qed

lemma hp_sched: "hp (leaving i) sched Q"
  by (auto simp: hp_def sched_def kops kcore leaving_def kswitched_def length_Suc_conv split: option.splits)

lemma tri_leave:
  assumes "st \<noteq> UNUSED" "st \<noteq> EMBRYO" "st \<noteq> RUNNING"
  shows "tri (Some i) h (bnd (proc_upd i (\<lambda>p. p\<lparr>pstate := st\<rparr>)) (\<lambda>_. sched)) h' V"
  unfolding tri_def
  by (intro allI hp_bnd [OF _ hp_sched [of i]]) (use assms in \<open>auto simp: hp_def proc_upd_apply intro!: kst_leave\<close>)

lemma tri_wake [tri]:
  "h = h' \<Longrightarrow> tri c h (bnd (proc_get i (\<lambda>p. pstate p = SLEEPING \<and> P p)) (\<lambda>b. whenk b (proc_upd i (\<lambda>p. p\<lparr>pstate := RUNNABLE\<rparr>)))) h'
     (\<lambda>_. True)"
  by (auto simp: tri_def hp_def kops kcore kst_wake)

subsection \<open>The kernel core\<close>

lemma tri_fall_asleep:
  "tri (Some i) h (bnd (proc_upd i (\<lambda>p. p\<lparr>chan := ch\<rparr>)) (\<lambda>_.
     bnd (proc_upd i (\<lambda>p. p\<lparr>pstate := SLEEPING\<rparr>)) (\<lambda>_. sched))) h' V"
  by (rule tri_bnd [OF tri_proc_upd [OF refl] tri_leave]) (simp_all add: core_def alive_def)

lemma tri_sleep [tri]: "tri c h (sleep ch lk) h' V"
  unfolding sleep_def
proof (rule tri_myproc, intro tri_option)
  fix i l assume "c = Some i" "lk = Some l"
  show "tri c h (bnd (seqs [whenk (l \<noteq> PTableLock) (seqs [kacquire PTableLock, krelease l]),
      proc_upd i (\<lambda>p. p\<lparr>chan := ch\<rparr>), proc_upd i (\<lambda>p. p\<lparr>pstate := SLEEPING\<rparr>)]) (\<lambda>_. sched)) h' V"
    unfolding \<open>c = Some i\<close>
    by (cases "l = PTableLock")
      (simp_all add: whenk_def bnd_assoc tri_fall_asleep tri_bnd [OF tri_kacquire [OF refl] tri_bnd [OF tri_krelease [OF refl] tri_fall_asleep]])
qed (intro tri)+

lemma tri_sleep_resume: "tri c [PTableLock] (sleep_resume i l) [l] (\<lambda>_. True)"
  unfolding sleep_resume_def
  by (cases "l = PTableLock") (simp_all add: whenk_def, (rule tri refl | simp add: core_def)+)

lemma tri_wakeup1 [tri]: "h = h' \<Longrightarrow> tri c h (wakeup1 ch) h' (\<lambda>_. True)"
  unfolding wakeup1_def by (intro tri_for_each tri_wake) simp_all

lemma tri_wakeup [tri]: "h = h' \<Longrightarrow> tri c h (wakeup ch) h' (\<lambda>_. True)"
  unfolding wakeup_def by (rule tri refl | simp)+

lemma tri_initsleeplock [tri]: "h = h' \<Longrightarrow> tri c h (initsleeplock l nm) h' (\<lambda>_. True)"
  unfolding initsleeplock_def by (rule tri refl | simp)+

lemma tri_acquiresleep_loop: "remove1 (SleepLk l) h = h' \<Longrightarrow> tri c h (acquiresleep_loop l) h' (\<lambda>_. True)"
  unfolding acquiresleep_loop_def by (rule tri refl | simp)+

lemma tri_acquiresleep [tri]: "h = h' \<Longrightarrow> tri c h (acquiresleep l) h' (\<lambda>_. True)"
  unfolding acquiresleep_def by (rule tri tri_acquiresleep_loop refl | simp)+

lemma tri_acquiresleep_resume: "tri c [PTableLock] (acquiresleep_resume p l) [] (\<lambda>_. True)"
  unfolding acquiresleep_resume_def by (rule tri tri_sleep_resume tri_acquiresleep_loop refl | simp)+

lemma tri_releasesleep [tri]: "h = h' \<Longrightarrow> tri c h (releasesleep l) h' (\<lambda>_. True)"
  unfolding releasesleep_def by (rule tri refl | simp)+

lemma tri_holdingsleep [tri]: "h = h' \<Longrightarrow> tri c h (holdingsleep l) h' (\<lambda>_. True)"
  unfolding holdingsleep_def by (rule tri refl | simp)+

subsection \<open>Processes under construction\<close>

lemma hp_tri: "tri cu h m h1 V \<Longrightarrow> (\<And>x. V x \<Longrightarrow> hp (kst E cu h1) (f x) Q) \<Longrightarrow> hp (kst E cu h) (bnd m f) Q"
  by (rule hp_bnd [OF triD]) (auto simp: hp_def)

lemma hp_tri_last: "tri cu h m h1 V \<Longrightarrow> (\<And>x s. V x \<Longrightarrow> kst E cu h1 s \<Longrightarrow> Q x s) \<Longrightarrow> hp (kst E cu h) m Q"
  by (rule hp_conseq [OF triD]) auto

definition fresh :: "nat \<Rightarrow> embryo set \<Rightarrow> bool" where
  "fresh i E \<longleftrightarrow> (\<forall>k d. (i, k, d) \<notin> E)"

text \<open>A change to an embryo: it stays one, is given up or becomes runnable.\<close>

lemma kst_embryo:
  assumes "kst (insert (i, k, d) E) cu h s" "fresh i E"
    and q: "pid q = pid (procs s i)" "times_ok q" "loaded q" "pstate q \<noteq> RUNNING"
  shows "kst (if pstate q = EMBRYO then insert (i, kstack q, pgdir q) E else E) cu h (s\<lparr>procs := (procs s)(i := q)\<rparr>)"
proof -
  from assms(1) have i: "i < NPROC" "pstate (procs s i) = EMBRYO" "E \<subseteq> embryos (procs s)"
    by (auto simp: kst_iff embryos_def)
  have "ptable_ok ((procs s)(i := q)) (nextpid s)"
    using assms(1) q i unfolding kst_iff ptable_ok_def pids_ok_def by auto
  moreover have "only_running cu ((procs s)(i := q))"
    using assms(1) q i unfolding kst_iff only_running_def by auto
  moreover have "E \<subseteq> embryos ((procs s)(i := q))"
    using i(3) assms(2) by (auto simp: embryos_def fresh_def)
  moreover have "pstate q = EMBRYO \<Longrightarrow> (i, kstack q, pgdir q) \<in> embryos ((procs s)(i := q))"
    using i by (simp add: embryos_def)
  ultimately show ?thesis using assms(1) by (simp add: kst_iff arrays_ok_def)
qed

lemma kst_times: "kst E cu h s \<Longrightarrow> i < NPROC \<Longrightarrow> times_ok (procs s i)"
  by (simp add: kst_iff ptable_ok_def)

lemma kst_embryoD: "kst (insert (i, k, d) E) cu h s \<Longrightarrow> i < NPROC \<and> pstate (procs s i) = EMBRYO \<and> kstack (procs s i) = k \<and>
    pgdir (procs s i) = d \<and> times_ok (procs s i)"
  by (auto simp: kst_iff embryos_def ptable_ok_def)

lemma hp_embryo:
  assumes "fresh i E"
    and "\<And>p. pstate p = EMBRYO \<Longrightarrow> kstack p = k \<Longrightarrow> pgdir p = d \<Longrightarrow> times_ok p \<Longrightarrow>
      pid (f p) = pid p \<and> times_ok (f p) \<and> loaded (f p) \<and> pstate (f p) \<noteq> RUNNING \<and>
      (if pstate (f p) = EMBRYO then insert (i, kstack (f p), pgdir (f p)) E else E) = E'"
  shows "hp (kst (insert (i, k, d) E) cu h) (proc_upd i f) (\<lambda>_. kst E' cu h)"
  unfolding hp_def proc_upd_apply
proof (intro allI impI, simp)
  fix s :: "'a files_scheme" assume a: "kst (insert (i, k, d) E) cu h s"
  from assms(2) [of "procs s i"] kst_embryoD [OF a] kst_embryo [OF a assms(1), of "f (procs s i)"]
  show "kst E' cu h (s\<lparr>procs := (procs s)(i := f (procs s i))\<rparr>)" by auto
qed

lemma hp_embryo_kstack:
  "fresh i E \<Longrightarrow> hp (kst (insert (i, k, d) E) cu h) (proc_upd i (\<lambda>p. p\<lparr>kstack := k'\<rparr>)) (\<lambda>_. kst (insert (i, k', d) E) cu h)"
  by (rule hp_embryo) (simp_all add: times_ok_def loaded_def alive_def)

lemma hp_embryo_pgdir:
  "fresh i E \<Longrightarrow> hp (kst (insert (i, k, d) E) cu h) (proc_upd i (\<lambda>p. p\<lparr>pgdir := d'\<rparr>)) (\<lambda>_. kst (insert (i, k, d') E) cu h)"
  by (rule hp_embryo) (simp_all add: times_ok_def loaded_def alive_def)

lemma hp_embryo_unused:
  "fresh i E \<Longrightarrow> hp (kst (insert (i, k, d) E) cu h) (proc_upd i (\<lambda>p. p\<lparr>pstate := UNUSED\<rparr>)) (\<lambda>_. kst E cu h)"
  by (rule hp_embryo) (simp_all add: times_ok_def loaded_def alive_def)

lemma hp_embryo_runnable:
  "fresh i E \<Longrightarrow> k \<noteq> 0 \<Longrightarrow> d \<noteq> 0 \<Longrightarrow>
   hp (kst (insert (i, k, d) E) cu h) (proc_upd i (\<lambda>p. p\<lparr>pstate := RUNNABLE\<rparr>)) (\<lambda>_. kst E cu h)"
  by (rule hp_embryo) (simp_all add: times_ok_def loaded_def)

text \<open>The entry that \<open>allocproc\<close> finds becomes an embryo with the next process number.\<close>

lemma kst_alloc:
  assumes "kst E cu h s" "i < NPROC" "pstate (procs s i) = UNUSED"
    and q: "pstate q = EMBRYO" "pid q = nextpid s" "times_ok q"
  shows "kst (insert (i, kstack q, pgdir q) E) cu h (s\<lparr>nextpid := nextpid s + 1, procs := (procs s)(i := q)\<rparr>) \<and> fresh i E"
proof -
  have E: "fresh i E" using assms(1,3) by (auto simp: kst_iff embryos_def fresh_def)
  have P: "pids_ok (procs s) (nextpid s)" using assms(1) by (simp add: kst_iff ptable_ok_def)
  then have b: "0 < pid (procs s j) \<and> pid (procs s j) < nextpid s" if "j < NPROC" "pstate (procs s j) \<noteq> UNUSED" for j
    using that by (simp add: pids_ok_def)
  have "pids_ok ((procs s)(i := q)) (nextpid s + 1)"
    unfolding pids_ok_def
  proof (intro conjI allI impI)
    show "0 < nextpid s + 1" using P by (simp add: pids_ok_def)
    show "0 < pid (((procs s)(i := q)) j)" "pid (((procs s)(i := q)) j) < nextpid s + 1"
      if "j < NPROC" "pstate (((procs s)(i := q)) j) \<noteq> UNUSED" for j
      using b [of j] that P q(2) by (auto simp: pids_ok_def)
    show "pid (((procs s)(i := q)) j) \<noteq> pid (((procs s)(i := q)) k)"
      if "j < NPROC" "k < NPROC" "j \<noteq> k" "pstate (((procs s)(i := q)) j) \<noteq> UNUSED" "pstate (((procs s)(i := q)) k) \<noteq> UNUSED" for j k
    proof (cases "j = i \<or> k = i")
      case True
      then show ?thesis using that b [of j] b [of k] q(2) by auto
    next
      case False
      then show ?thesis using that P by (simp add: pids_ok_def)
    qed
  qed
  then have "ptable_ok ((procs s)(i := q)) (nextpid s + 1)"
    using assms(1) q by (simp add: kst_iff ptable_ok_def loaded_def alive_def)
  moreover have "only_running cu ((procs s)(i := q))"
    using assms(1,3) q unfolding kst_iff only_running_def by auto
  moreover have "insert (i, kstack q, pgdir q) E \<subseteq> embryos ((procs s)(i := q))"
    using assms(1,2) E q by (auto simp: kst_iff embryos_def fresh_def)
  ultimately show ?thesis using assms(1) E by (simp add: kst_iff arrays_ok_def)
qed

text \<open>The current process gets another page table.\<close>

lemma tri_pgdir:
  assumes "d \<noteq> 0"
  shows "tri (Some i) h (proc_upd i (\<lambda>p. p\<lparr>pgdir := d\<rparr>)) h (\<lambda>_. True)"
  unfolding tri_def hp_def proc_upd_apply
proof (intro allI impI, simp)
  fix E and s :: "'a files_scheme" assume a: "kst E (Some i) h s"
  let ?ps = "(procs s)(i := (procs s i)\<lparr>pgdir := d\<rparr>)"
  have "ptable_ok ?ps (nextpid s)" using a assms by (auto simp: kst_iff ptable_ok_def pids_ok_def times_ok_def loaded_def)
  moreover have "only_running (Some i) ?ps" using a by (auto simp: kst_iff only_running_def)
  moreover have "embryos ?ps = embryos (procs s)" using kst_running [OF a] by (auto simp: embryos_def split: if_splits)
  ultimately show "kst E (Some i) h (s\<lparr>procs := ?ps\<rparr>)" using a by (simp add: kst_iff arrays_ok_def)
qed

subsection \<open>Functions that leave a part of the state alone\<close>

definition leaves :: "('s \<Rightarrow> 'b) \<Rightarrow> ('s, 'a) kop \<Rightarrow> bool" where
  "leaves f m \<longleftrightarrow> (\<forall>s. case m s of Ret x t \<Rightarrow> f t = f s | Switch t \<Rightarrow> f t = f s | _ \<Rightarrow> True)"

named_theorems leaves "functions that leave a part of the state alone"

lemma leavesD: "leaves f m \<Longrightarrow> m s = Ret x t \<Longrightarrow> f t = f s"
  by (auto simp: leaves_def dest!: spec [of _ s])

lemma leaves_basic [leaves]: "leaves f (ret x)" "leaves f (gets g)" "leaves f (panic e)" "leaves f (wild e)"
  "(\<And>s. f (u s) = f s) \<Longrightarrow> leaves f (mods u)"
  by (simp_all add: leaves_def ret_apply)

lemma leaves_bnd [leaves]: "leaves f m \<Longrightarrow> (\<And>x. leaves f (g x)) \<Longrightarrow> leaves f (bnd m g)"
  by (fastforce simp: leaves_def bnd_apply split: outcome.splits)

lemma leaves_if [leaves]: "leaves f m \<Longrightarrow> leaves f n \<Longrightarrow> leaves f (if b then m else n)"
  "leaves f k \<Longrightarrow> leaves f (whenk b k)"
  by (simp_all add: whenk_def leaves_basic)

lemma leaves_seqs [leaves]: "leaves f (seqs [])" "leaves f m \<Longrightarrow> leaves f (seqs ms) \<Longrightarrow> leaves f (seqs (m # ms))"
  by (auto intro: leaves)

lemma leaves_for_each [leaves]: "(\<And>i. leaves f (g i)) \<Longrightarrow> leaves f (for_each is g)"
  by (induction "is") (auto intro: leaves)

end
