(* ===== verification/Lower_Discipline.thy ===== *)
theory Lower_Discipline
  imports Discipline
begin

unbundle bit_operations_syntax

text \<open>
  The discipline of the lower layers: page allocation, console, virtual memory,
  buffer cache, log.
\<close>

text \<open>A test of a flag that decides on taking a lock and on releasing it.\<close>

lemma tri_flag: "tri cu h (f True) h' V \<Longrightarrow> tri cu h (f False) h' V \<Longrightarrow> tri cu h (bnd (gets g) f) h' V"
  by (rule tri_bndV [OF tri_gets [OF refl]]) (metis (full_types))

lemma tri_eq: "tri cu h m h1 V \<Longrightarrow> h1 = h' \<Longrightarrow> tri cu h m h' V"
  by simp

lemma whenk_bool [simp]: "whenk True m = m" "whenk False m = ret ()"
  by (simp_all add: whenk_def)

subsection \<open>Pages (kalloc.c)\<close>

lemma tri_kfree [tri]: "h = h' \<Longrightarrow> tri cu h (kfree v) h' (\<lambda>_. True)"
  unfolding kfree_def whenk_bool
  by (rule tri_bnd [OF tri_gets [OF refl]], rule tri_if, rule tri_panic, rule tri_flag)
    (simp_all only: whenk_bool, (rule tri refl | simp add: kst_simps)+)

lemma tri_kalloc [tri]: "h = h' \<Longrightarrow> tri cu h kalloc h' (\<lambda>_. True)"
  unfolding kalloc_def
  by (rule tri_flag) (simp_all only: whenk_bool, (rule tri refl | simp add: kst_simps)+)

subsection \<open>The console (console.c)\<close>

lemma tri_uartputc [tri]: "h = h' \<Longrightarrow> tri cu h (uartputc c) h' (\<lambda>_. True)"
  unfolding uartputc_def by (rule tri refl | simp add: kst_simps core_def)+

lemma tri_cgaputc [tri]: "h = h' \<Longrightarrow> tri cu h (cgaputc c) h' (\<lambda>_. True)"
  unfolding cgaputc_def by (rule tri refl | simp add: kst_simps core_def)+

lemma tri_consputc [tri]: "h = h' \<Longrightarrow> tri cu h (consputc c) h' (\<lambda>_. True)"
  unfolding consputc_def by (rule tri refl | simp add: kst_simps core_def)+

lemma tri_printint [tri]: "h = h' \<Longrightarrow> tri cu h (printint xx base sg) h' (\<lambda>_. True)"
  unfolding printint_def by (rule tri refl | simp add: kst_simps core_def)+

lemma tri_carg [tri]:
  "(\<And>n. x = ANum n \<Longrightarrow> tri cu h (f n) h' V) \<Longrightarrow> (\<And>a. x = AStr a \<Longrightarrow> tri cu h (g a) h' V) \<Longrightarrow>
   tri cu h (case x of ANum n \<Rightarrow> f n | AStr a \<Rightarrow> g a) h' V"
  by (cases x) auto

lemma tri_cprintf_loop [tri]: "h = h' \<Longrightarrow> tri cu h (cprintf_loop fmt args :: ('z files_scheme, unit) kop) h' (\<lambda>_. True)"
proof (induction fmt arbitrary: args rule: length_induct)
  case (1 fmt)
  have IH: "length f < length fmt \<Longrightarrow> tri cu h' (cprintf_loop f as :: ('z files_scheme, unit) kop) h' (\<lambda>_. True)" for f as
    using 1 by blast
  have "tri cu h' (cprintf_loop fmt args :: ('z files_scheme, unit) kop) h' (\<lambda>_. True)"
  proof (cases "(fmt, args)" rule: cprintf_loop.cases)
    case (1 as)
    then show ?thesis by (simp only: prod.inject cprintf_loop.simps) (rule tri refl | simp)+
  next
    case (2 x as)
    then show ?thesis by (simp only: prod.inject cprintf_loop.simps) (rule tri refl | simp)+
  next
    case (3 x y f as)
    then have f: "fmt = x # y # f" by simp
    have l: "length f < length fmt" "length (y # f) < length fmt" by (simp_all add: f)
    show ?thesis unfolding f cprintf_loop.simps
      by (rule tri refl IH [OF l(1)] IH [OF l(2)] | simp)+
  qed
  then show ?case using 1 by simp
qed

lemma tri_cprintf [tri]: "h = h' \<Longrightarrow> tri cu h (cprintf fmt args) h' (\<lambda>_. True)"
  unfolding cprintf_def
  by (rule tri_flag) (simp_all only: whenk_bool, (rule tri refl | simp add: kst_simps)+)

lemma tri_procdump [tri]: "h = h' \<Longrightarrow> tri cu h procdump h' (\<lambda>_. True)"
  unfolding procdump_def by (rule tri refl | simp add: kst_simps core_def)+

lemma tri_kill_line [tri]: "h = h' \<Longrightarrow> tri cu h (kill_line n) h' (\<lambda>_. True)"
  by (induction n) (simp_all only: kill_line.simps, (rule tri refl | simp add: kst_simps core_def)+)

lemma tri_console_key [tri]: "h = h' \<Longrightarrow> tri cu h (console_key c) h' (\<lambda>_. True)"
  unfolding console_key_def by (rule tri refl | simp add: kst_simps core_def)+

lemma tri_console_keys [tri]: "h = h' \<Longrightarrow> tri cu h (console_keys cs d) h' (\<lambda>_. True)"
  by (induction cs arbitrary: d) (simp_all only: console_keys.simps, (rule tri refl | simp add: kst_simps core_def)+)

lemma tri_consoleintr [tri]: "h = h' \<Longrightarrow> tri cu h (consoleintr cs) h' (\<lambda>_. True)"
  unfolding consoleintr_def by (rule tri refl | simp add: kst_simps core_def)+

subsection \<open>Virtual memory (vm.c)\<close>

lemma tri_mem_ld [tri]: "h = h' \<Longrightarrow> tri cu h (mem_ld a) h' (\<lambda>_. True)"
  unfolding mem_ld_def by (rule tri refl | simp add: kst_simps core_def)+

lemma tri_mem_st [tri]: "h = h' \<Longrightarrow> tri cu h (mem_st a v) h' (\<lambda>_. True)"
  unfolding mem_st_def by (rule tri refl | simp add: kst_simps core_def)+

lemma tri_mem_set [tri]: "h = h' \<Longrightarrow> tri cu h (mem_set a v n) h' (\<lambda>_. True)"
  unfolding mem_set_def by (rule tri refl | simp add: kst_simps core_def)+

lemma tri_mem_move [tri]: "h = h' \<Longrightarrow> tri cu h (mem_move dst src n) h' (\<lambda>_. True)"
  unfolding mem_move_def by (rule tri refl | simp add: kst_simps core_def)+

lemma tri_walkpgdir [tri]: "h = h' \<Longrightarrow> tri cu h (walkpgdir pgd va alloc) h' (\<lambda>_. True)"
  unfolding walkpgdir_def by (rule tri refl | simp add: kst_simps core_def)+

lemma tri_mappages_loop [tri]: "h = h' \<Longrightarrow> tri cu h (mappages_loop n pgd a la pa perm) h' (\<lambda>_. True)"
  by (induction n arbitrary: a pa) (simp_all only: mappages_loop.simps, (rule tri refl | simp add: kst_simps core_def)+)

lemma tri_mappages [tri]: "h = h' \<Longrightarrow> tri cu h (mappages pgd va sz pa perm) h' (\<lambda>_. True)"
  unfolding mappages_def by (rule tri refl | simp add: kst_simps core_def)+

lemma tri_deallocuvm_loop [tri]: "h = h' \<Longrightarrow> tri cu h (deallocuvm_loop n pgd a oldsz) h' (\<lambda>_. True)"
  by (induction n arbitrary: a) (simp_all only: deallocuvm_loop.simps, (rule tri refl | simp add: kst_simps core_def)+)

lemma tri_deallocuvm [tri]: "h = h' \<Longrightarrow> tri cu h (deallocuvm pgd oldsz newsz) h' (\<lambda>_. True)"
  unfolding deallocuvm_def by (rule tri refl | simp add: kst_simps core_def)+

lemma tri_freevm [tri]: "h = h' \<Longrightarrow> tri cu h (freevm pgd) h' (\<lambda>_. True)"
  unfolding freevm_def by (rule tri refl | simp add: kst_simps core_def)+

lemma tri_kmap_loop [tri]: "h = h' \<Longrightarrow> tri cu h (kmap_loop pgd ks) h' (\<lambda>_. True)"
  by (induction ks) (simp_all only: kmap_loop.simps, (rule tri refl | simp add: kst_simps core_def)+)

lemma tri_setupkvm [tri]: "h = h' \<Longrightarrow> tri cu h setupkvm h' (\<lambda>_. True)"
  unfolding setupkvm_def by (rule tri refl | simp add: kst_simps core_def)+

lemma tri_switchkvm [tri]: "h = h' \<Longrightarrow> tri cu h switchkvm h' (\<lambda>_. True)"
  unfolding switchkvm_def by (rule tri refl | simp add: kst_simps core_def)+

lemma tri_kvmalloc [tri]: "h = h' \<Longrightarrow> tri cu h kvmalloc h' (\<lambda>_. True)"
  unfolding kvmalloc_def by (rule tri refl | simp add: kst_simps core_def)+

lemma tri_switchuvm [tri]: "h = h' \<Longrightarrow> tri cu h (switchuvm p) h' (\<lambda>_. True)"
  unfolding switchuvm_def by (rule tri refl | simp add: kst_simps core_def)+

lemma tri_inituvm [tri]: "h = h' \<Longrightarrow> tri cu h (inituvm pgd init sz) h' (\<lambda>_. True)"
  unfolding inituvm_def by (rule tri refl | simp add: kst_simps core_def)+

lemma tri_allocuvm_loop [tri]: "h = h' \<Longrightarrow> tri cu h (allocuvm_loop n pgd a oldsz newsz) h' (\<lambda>_. True)"
  by (induction n arbitrary: a) (simp_all only: allocuvm_loop.simps, (rule tri refl | simp add: kst_simps core_def)+)

lemma tri_allocuvm [tri]: "h = h' \<Longrightarrow> tri cu h (allocuvm pgd oldsz newsz) h' (\<lambda>_. True)"
  unfolding allocuvm_def by (rule tri refl | simp add: kst_simps core_def)+

lemma tri_clearpteu [tri]: "h = h' \<Longrightarrow> tri cu h (clearpteu pgd uva) h' (\<lambda>_. True)"
  unfolding clearpteu_def by (rule tri refl | simp add: kst_simps core_def)+

lemma tri_copyuvm_loop [tri]: "h = h' \<Longrightarrow> tri cu h (copyuvm_loop n pgd d i sz) h' (\<lambda>_. True)"
  by (induction n arbitrary: i) (simp_all only: copyuvm_loop.simps, (rule tri refl | simp add: kst_simps core_def)+)

lemma tri_copyuvm [tri]: "h = h' \<Longrightarrow> tri cu h (copyuvm pgd sz) h' (\<lambda>_. True)"
  unfolding copyuvm_def by (rule tri refl | simp add: kst_simps core_def)+

lemma tri_uva2ka [tri]: "h = h' \<Longrightarrow> tri cu h (uva2ka pgd uva) h' (\<lambda>_. True)"
  unfolding uva2ka_def by (rule tri refl | simp add: kst_simps core_def)+

lemma tri_vaddr [tri]: "h = h' \<Longrightarrow> tri cu h (vaddr va) h' (\<lambda>_. True)"
  unfolding vaddr_def by (rule tri refl | simp add: kst_simps core_def)+

lemma tri_ldb [tri]: "h = h' \<Longrightarrow> tri cu h (ldb va) h' (\<lambda>_. True)"
  unfolding ldb_def by (rule tri refl | simp add: kst_simps core_def)+

lemma tri_stb [tri]: "h = h' \<Longrightarrow> tri cu h (stb va v) h' (\<lambda>_. True)"
  unfolding stb_def by (rule tri refl | simp add: kst_simps core_def)+

lemma tri_ld_bytes_len: "tri cu h (ld_bytes n va) h (\<lambda>cs. length cs = n)"
proof (induction n arbitrary: va)
  case 0
  show ?case by (simp add: tri_ret)
next
  case (Suc n)
  show ?case unfolding ld_bytes.simps
    by (rule tri_bnd [OF tri_ldb [OF refl] tri_bndV [OF Suc.IH tri_ret [OF refl]]]) simp
qed

lemma tri_ld_bytes [tri]: "h = h' \<Longrightarrow> tri cu h (ld_bytes n va) h' (\<lambda>_. True)"
  by (simp add: tri_conseq [OF tri_ld_bytes_len])

lemma tri_st_bytes [tri]: "h = h' \<Longrightarrow> tri cu h (st_bytes cs va) h' (\<lambda>_. True)"
  by (induction cs arbitrary: va) (simp_all only: st_bytes.simps, (rule tri refl | simp add: kst_simps core_def)+)

lemma tri_ldw [tri]: "h = h' \<Longrightarrow> tri cu h (ldw va) h' (\<lambda>_. True)"
  unfolding ldw_def by (rule tri refl | simp add: kst_simps core_def)+

lemma tri_stw [tri]: "h = h' \<Longrightarrow> tri cu h (stw va v) h' (\<lambda>_. True)"
  unfolding stw_def by (rule tri refl | simp add: kst_simps core_def)+

lemma tri_to_mem [tri]: "h = h' \<Longrightarrow> tri cu h (to_mem dst k cs) h' (\<lambda>_. True)"
  unfolding to_mem_def by (rule tri refl | simp add: kst_simps core_def)+

lemma tri_from_mem [tri]: "h = h' \<Longrightarrow> tri cu h (from_mem src k n) h' (\<lambda>_. True)"
  unfolding from_mem_def by (rule tri refl | simp add: kst_simps core_def)+

lemma tri_to_local [tri]: "h = h' \<Longrightarrow> tri cu h (to_local k cs) h' (\<lambda>_. True)"
  unfolding to_local_def by (rule tri refl | simp add: kst_simps core_def)+

lemma tri_from_local [tri]: "h = h' \<Longrightarrow> tri cu h (from_local b k n) h' (\<lambda>_. True)"
  unfolding from_local_def by (rule tri refl | simp add: kst_simps core_def)+

lemma tri_mem_put [tri]: "h = h' \<Longrightarrow> tri cu h (mem_put a cs) h' (\<lambda>_. True)"
  unfolding mem_put_def by (rule tri refl | simp add: kst_simps core_def)+

lemma tri_copyout_loop:
  assumes get: "\<And>k n. tri cu h (get k n) h (\<lambda>_. True)"
  shows "tri cu h (copyout_loop n pgd va get buf len) h (\<lambda>_. True)"
  by (induction n arbitrary: va buf len) (simp_all only: copyout_loop.simps, (rule tri refl get | simp)+)

lemma tri_copyout [tri]:
  "(\<And>k n. tri cu h (get k n) h (\<lambda>_. True)) \<Longrightarrow> h = h' \<Longrightarrow> tri cu h (copyout pgd va get len) h' (\<lambda>_. True)"
  unfolding copyout_def by (simp add: tri_copyout_loop)

lemma tri_from_mem_len: "tri cu h (from_mem src k n) h (\<lambda>cs. length cs = n)"
  by (simp add: from_mem_def tri_ld_bytes_len)

lemma tri_from_local_len: "unat k + n \<le> length b \<Longrightarrow> tri cu h (from_local b k n) h (\<lambda>cs. length cs = n)"
  by (simp add: from_local_def tri_ret)

subsection \<open>The buffer cache (bio.c, memide.c)\<close>

lemma tri_disk_get: "tri cu h (gets (\<lambda>s. disk s b)) h (\<lambda>d. length d = BSIZE)"
  by (simp add: tri_def hp_def kst_simps)

lemma tri_iderw [tri]: "h = h' \<Longrightarrow> tri cu h (iderw b) h' (\<lambda>_. True)"
  unfolding iderw_def
  by (rule tri_bndV [OF tri_disk_get] tri refl | simp add: kst_simps)+

lemma tri_link_front [tri]: "h = h' \<Longrightarrow> tri cu h (link_front b) h' (\<lambda>_. True)"
  unfolding link_front_def by (rule tri refl | simp add: kst_simps core_def)+

lemma tri_binit [tri]: "h = h' \<Longrightarrow> tri cu h binit h' (\<lambda>_. True)"
  unfolding binit_def by (rule tri refl | simp add: kst_simps core_def)+

lemma tri_bwalk [tri]: "h = h' \<Longrightarrow> tri cu h (bwalk k dir P b) h' (\<lambda>_. True)"
  by (induction k arbitrary: b) (simp_all only: bwalk.simps, (rule tri refl | simp add: kst_simps core_def)+)

lemma tri_bget [tri]: "h = h' \<Longrightarrow> tri cu h (bget dev bno) h' (\<lambda>_. True)"
  unfolding bget_def by (rule tri refl | simp add: kst_simps core_def)+

lemma tri_bread [tri]: "h = h' \<Longrightarrow> tri cu h (bread dev bno) h' (\<lambda>_. True)"
  unfolding bread_def by (rule tri refl | simp add: kst_simps core_def)+

lemma tri_bwrite [tri]: "h = h' \<Longrightarrow> tri cu h (bwrite b) h' (\<lambda>_. True)"
  unfolding bwrite_def by (rule tri refl | simp add: kst_simps core_def)+

lemma tri_to_front [tri]: "h = h' \<Longrightarrow> tri cu h (to_front b) h' (\<lambda>_. True)"
  unfolding to_front_def by (rule tri refl | simp add: kst_simps core_def)+

lemma tri_brelse [tri]: "h = h' \<Longrightarrow> tri cu h (brelse b) h' (\<lambda>_. True)"
  unfolding brelse_def by (rule tri refl | simp add: kst_simps core_def)+

subsection \<open>The log (log.c)\<close>

lemma tri_readsb [tri]: "h = h' \<Longrightarrow> tri cu h (readsb dev) h' (\<lambda>_. True)"
  unfolding readsb_def by (rule tri refl | simp add: kst_simps core_def)+

lemma tri_copy_data [tri]: "h = h' \<Longrightarrow> tri cu h (copy_data b b') h' (\<lambda>_. True)"
  unfolding copy_data_def by (rule tri_bndV [OF tri_buf_get_data] tri_buf_upd | simp)+

lemma tri_install_trans [tri]: "h = h' \<Longrightarrow> tri cu h install_trans h' (\<lambda>_. True)"
  unfolding install_trans_def by (rule tri refl | simp add: kst_simps core_def)+

lemma tri_read_head [tri]: "h = h' \<Longrightarrow> tri cu h read_head h' (\<lambda>_. True)"
  unfolding read_head_def by (rule tri refl | simp add: kst_simps core_def)+

lemma tri_write_head [tri]: "h = h' \<Longrightarrow> tri cu h write_head h' (\<lambda>_. True)"
  unfolding write_head_def by (rule tri refl | simp add: kst_simps core_def)+

lemma tri_recover_from_log [tri]: "h = h' \<Longrightarrow> tri cu h recover_from_log h' (\<lambda>_. True)"
  unfolding recover_from_log_def by (rule tri refl | simp add: kst_simps core_def)+

lemma tri_initlog [tri]: "h = h' \<Longrightarrow> tri cu h (initlog dev) h' (\<lambda>_. True)"
  unfolding initlog_def by (rule tri refl | simp add: kst_simps core_def)+

lemma tri_begin_op_loop: "remove1 LogLock h = h' \<Longrightarrow> tri cu h begin_op_loop h' (\<lambda>_. True)"
  unfolding begin_op_loop_def by (rule tri refl | simp add: kst_simps core_def)+

lemma tri_begin_op [tri]: "h = h' \<Longrightarrow> tri cu h begin_op h' (\<lambda>_. True)"
  unfolding begin_op_def by (rule tri tri_begin_op_loop refl | simp)+

lemma tri_begin_op_resume: "tri cu [PTableLock] (begin_op_resume p) [] (\<lambda>_. True)"
  unfolding begin_op_resume_def by (rule tri tri_sleep_resume tri_acquiresleep_resume tri_begin_op_loop refl | simp)+

lemma tri_write_log [tri]: "h = h' \<Longrightarrow> tri cu h write_log h' (\<lambda>_. True)"
  unfolding write_log_def by (rule tri refl | simp add: kst_simps core_def)+

lemma tri_commit [tri]: "h = h' \<Longrightarrow> tri cu h commit h' (\<lambda>_. True)"
  unfolding commit_def by (rule tri refl | simp add: kst_simps core_def)+

lemma tri_end_op [tri]: "h = h' \<Longrightarrow> tri cu h end_op h' (\<lambda>_. True)"
  unfolding end_op_def by (rule tri refl | simp add: kst_simps core_def)+

lemma tri_log_write [tri]: "h = h' \<Longrightarrow> tri cu h (log_write b) h' (\<lambda>_. True)"
  unfolding log_write_def by (rule tri refl | simp add: kst_simps core_def)+

end
