(* ===== verification/Fs_Format.thy ===== *)
theory Fs_Format
  imports Fs
begin

unbundle bit_operations_syntax

text \<open>
  The formats of the file system: inodes and directory entries in their blocks,
  names of fixed width, the bits of the free map and the elements of a path.
\<close>

lemma length_marks [simp]: "length (mark_used bi d) = length d" "length (mark_free bi d) = length d"
  by (simp_all add: mark_used_def mark_free_def)

text \<open>An unused inode of the cache.\<close>

definition inode0 :: inode where
  "inode0 = \<lparr>idev = 0, inum = 0, iref = 0, ivalid = False, itype = 0, imajor = 0, iminor = 0, inlink = 0, isize = 0,
     iaddrs = replicate 13 0\<rparr>"

subsection \<open>Inodes on disk\<close>

lemma length_dinode [simp]: "length (encode_dinode di d o') = length d" "length (d_addrs (decode_dinode d o')) = NDIRECT + 1"
  by (simp_all add: encode_dinode_def decode_dinode_def f32.length_put_array)

lemma length_encode_dirent [simp]: "length (de_name de) = DIRSIZ \<Longrightarrow> length (encode_dirent de) = unat DESZ"
  by (simp add: encode_dirent_def DIRSIZ_def DESZ_def)

lemma decode_encode_dinode:
  assumes "length (d_addrs di) = NDIRECT + 1" "off + 64 \<le> length d"
  shows "decode_dinode (encode_dinode di d off) off = di"
proof -
  define e where "e = put32 (put16 (put16 (put16 (put16 d off (d_type di)) (off + 2) (d_major di)) (off + 4) (d_minor di))
         (off + 6) (d_nlink di)) (off + 8) (d_size di)"
  have len: "length e = length d" by (simp add: e_def)
  have enc: "encode_dinode di d off = put_array put32 4 (off + 12) (\<lambda>i. d_addrs di ! i) (NDIRECT + 1) e"
    by (simp only: encode_dinode_def e_def)
  have arr: "get32 (encode_dinode di d off) (off + 12 + 4 * i) = d_addrs di ! i" if "i < NDIRECT + 1" for i
    unfolding enc by (rule f32.get_put_array [OF that]) (use assms(2) len in \<open>simp add: NDIRECT_def\<close>)
  have f: "get16 (encode_dinode di d off) k = get16 e k" if "k + 2 \<le> off + 12" for k
    unfolding enc by (rule f16.get_cong) (use that in \<open>auto intro!: f32.put_array_nth\<close>)
  have g: "get32 (encode_dinode di d off) (off + 8) = get32 e (off + 8)"
    unfolding enc by (rule f32.get_put_array_other) simp
  have h: "get16 (put32 b (off + 8) v) k = get16 b k" if "k + 2 \<le> off + 8" for k v b
    by (rule f16.get_cong) (use that in \<open>auto intro!: f32.put_nth\<close>)
  have addrs: "map (\<lambda>i. get32 (encode_dinode di d off) (off + 12 + 4 * i)) [0..<NDIRECT + 1] = d_addrs di"
    using assms(1) arr by (intro nth_equalityI) (auto simp del: upt_Suc)
  show ?thesis
    unfolding decode_dinode_def addrs
    using assms(2) by (simp add: f g e_def h f16.get_put f16.get_put_other f32.get_put)
qed

lemma encode_dinode_nth:
  assumes "k < off \<or> off + 64 \<le> k"
  shows "encode_dinode di d off ! k = d ! k"
  using assms
proof
  assume "k < off"
  then show ?thesis unfolding encode_dinode_def by (simp add: f32.put_array_nth f32.put_nth f16.put_nth)
next
  assume "off + 64 \<le> k"
  then show ?thesis unfolding encode_dinode_def
    by (subst f32.put_array_nth) (simp_all add: NDIRECT_def f32.put_nth f16.put_nth)
qed

lemma decode_dinode_cong:
  assumes "\<And>k. off \<le> k \<Longrightarrow> k < off + 64 \<Longrightarrow> d ! k = e ! k"
  shows "decode_dinode d off = decode_dinode e off"
proof -
  have "get16 d k = get16 e k" if "off \<le> k" "k + 2 \<le> off + 64" for k
    by (rule f16.get_cong) (use that assms in auto)
  moreover have "get32 d k = get32 e k" if "off \<le> k" "k + 4 \<le> off + 64" for k
    by (rule f32.get_cong) (use that assms in auto)
  ultimately show ?thesis by (auto simp: decode_dinode_def NDIRECT_def)
qed

lemma dslot_apart: "i mod IPB \<noteq> j mod IPB \<Longrightarrow> dslot i + 64 \<le> dslot j \<or> dslot j + 64 \<le> dslot i"
proof -
  assume "i mod IPB \<noteq> j mod IPB"
  then have "unat (i mod IPB) < unat (j mod IPB) \<or> unat (j mod IPB) < unat (i mod IPB)"
    by (simp add: linorder_neq_iff word_less_nat_alt)
  then show ?thesis by (auto simp: dslot_def)
qed

lemma dinode_slots:
  assumes "length (d_addrs di) = NDIRECT + 1" and "length d = BSIZE"
  shows "decode_dinode (encode_dinode di d (dslot i)) (dslot j) =
     (if i mod IPB = j mod IPB then di else decode_dinode d (dslot j))"
proof (cases "i mod IPB = j mod IPB")
  case True
  then have s: "dslot j = dslot i" by (simp add: dslot_def)
  have "unat (i mod 8) < 8" using word_mod_less_divisor [of "8 :: uint" i] by (simp add: word_less_nat_alt)
  then have "dslot i + 64 \<le> length d" using assms(2) by (simp add: dslot_def IPB_def BSIZE_def)
  then show ?thesis using True s decode_encode_dinode [OF assms(1)] by simp
next
  case False
  have "decode_dinode (encode_dinode di d (dslot i)) (dslot j) = decode_dinode d (dslot j)"
    by (rule decode_dinode_cong, rule encode_dinode_nth) (use dslot_apart [OF False] in auto)
  then show ?thesis using False by simp
qed



subsection \<open>Names\<close>

text \<open>The string that a sequence of bytes holds, and its first \<open>DIRSIZ\<close> bytes.\<close>

definition cname :: "bytes \<Rightarrow> bytes" where
  "cname b = takeWhile (\<lambda>c. c \<noteq> 0) b"

lemma hd0_cases: "(hd0 p = 0 \<longleftrightarrow> cname p = []) \<and> (hd0 p \<noteq> 0 \<longrightarrow> cname p = hd0 p # cname (tl p))"
  by (cases p) (auto simp: hd0_def cname_def)

lemma strncmp_b_iff: "strncmp_b n p q = 0 \<longleftrightarrow> take n (cname p) = take n (cname q)"
proof (induction n arbitrary: p q)
  case 0
  show ?case by simp
next
  case (Suc n)
  show ?case
    using Suc.IH [of "tl p" "tl q"] hd0_cases [of p] hd0_cases [of q]
    by (cases "hd0 p = 0"; cases "hd0 q = 0") (auto simp: unsigned_eq_0_iff)
qed

lemma cname_strncpy_b: "cname (strncpy_b n t) = take n (cname t)"
proof (induction n arbitrary: t)
  case 0
  show ?case by (simp add: cname_def)
next
  case (Suc n)
  show ?case
    using Suc.IH [of "tl t"] hd0_cases [of t] by (cases "hd0 t = 0") (auto simp: cname_def)
qed

lemma length_strncpy [simp]: "length (strncpy_b n t) = n"
  by (induction n arbitrary: t) simp_all

lemma decode_encode_dirent:
  "length (de_name de) = DIRSIZ \<Longrightarrow> decode_dirent (encode_dirent de) = de"
proof -
  assume l: "length (de_name de) = DIRSIZ"
  have p: "put16 [0, 0] 0 v = [ucast v, ucast (drop_bit 8 v)]" for v by (simp add: put16_def)
  have g: "get16 (x # y # cs) 0 = ucast x OR push_bit 8 (ucast y)" for x y cs by (simp add: get16_def)
  have "get16 (encode_dirent de) 0 = de_inum de" unfolding encode_dirent_def p append_Cons append_Nil g by (rule ucast_parts16)
  moreover have "take DIRSIZ (drop 2 (encode_dirent de)) = de_name de"
    unfolding encode_dirent_def p using l by (simp add: numeral_2_eq_2)
  ultimately show ?thesis by (simp add: decode_dirent_def)
qed

text \<open>
  C25. A directory entry that \<open>dirlink\<close> has written for \<open>name\<close> is found by exactly the names
  it should be: read back, it has the inode number it was given, and \<open>dirlookup\<close>'s
  comparison of a name \<open>s\<close> with it succeeds when the strings \<open>s\<close> and \<open>name\<close> agree in their
  first \<open>DIRSIZ\<close> bytes, and only then.
\<close>
theorem dirent_roundtrip:
  "de_inum (decode_dirent (encode_dirent \<lparr>de_inum = n, de_name = strncpy_b DIRSIZ name\<rparr>)) = n \<and>
   (namecmp s (de_name (decode_dirent (encode_dirent \<lparr>de_inum = n, de_name = strncpy_b DIRSIZ name\<rparr>))) = 0 \<longleftrightarrow>
     take DIRSIZ (cname s) = take DIRSIZ (cname name))"
  by (simp add: decode_encode_dirent namecmp_def strncmp_b_iff cname_strncpy_b)

subsection \<open>Paths\<close>

text \<open>A reference for paths: the non-empty pieces between slashes.\<close>

fun pieces :: "bytes \<Rightarrow> bytes list" where
  "pieces [] = [[]]"
| "pieces (c # cs) = (if c = slash then [] # pieces cs else (c # hd (pieces cs)) # tl (pieces cs))"

definition elements :: "bytes \<Rightarrow> bytes list" where
  "elements pth = filter (\<lambda>e. e \<noteq> []) (pieces pth)"

text \<open>The elements \<open>skipelem\<close> delivers when it is called until the path is used up.\<close>

function skip_all :: "bytes \<Rightarrow> bytes list" where
  "skip_all pth = (case skipelem pth of None \<Rightarrow> [] | Some (rest, elem) \<Rightarrow> elem # skip_all rest)"
  by pat_completeness auto

termination skip_all
  by (relation "measure length") (auto dest: skipelem_shorter)

declare skip_all.simps [simp del]

lemma pieces_nonempty [simp]: "pieces cs \<noteq> []"
  by (cases cs) auto

lemma elements_slash [simp]: "elements (slash # cs) = elements cs"
  by (simp add: elements_def)

lemma elements_Nil [simp]: "elements [] = []"
  by (simp add: elements_def)

lemma elements_strip: "elements (dropWhile (\<lambda>c. c = slash) cs) = elements cs"
  by (induction cs) simp_all

lemma pieces_word:
  "c \<noteq> slash \<Longrightarrow> elements (c # cs) = (c # takeWhile (\<lambda>c. c \<noteq> slash) cs) # elements (dropWhile (\<lambda>c. c \<noteq> slash) cs)"
proof -
  have "hd (pieces cs) = takeWhile (\<lambda>c. c \<noteq> slash) cs \<and>
      filter (\<lambda>e. e \<noteq> []) (tl (pieces cs)) = elements (dropWhile (\<lambda>c. c \<noteq> slash) cs)" for cs
    by (induction cs) (simp_all add: elements_def)
  moreover assume "c \<noteq> slash"
  ultimately show ?thesis by (simp add: elements_def)
qed

text \<open>
  C26. Path parsing. Calling \<open>skipelem\<close> until it fails, as \<open>namex\<close> does, terminates and
  delivers exactly the non-empty pieces of the path between slashes, in order,
  each cut to the \<open>DIRSIZ\<close> bytes a directory entry can hold.
\<close>
theorem skipelem_elements: "skip_all pth = map (take DIRSIZ) (elements pth)"
proof (induction pth rule: skip_all.induct)
  case (1 pth)
  define s where "s = dropWhile (\<lambda>c. c = slash) pth"
  show ?case
  proof (cases s)
    case Nil
    then have "skipelem pth = None" by (simp add: skipelem_def s_def)
    moreover have "elements pth = []" using elements_strip [of pth] unfolding s_def [symmetric] Nil by simp
    ultimately show ?thesis by (simp add: skip_all.simps)
  next
    case (Cons c cs)
    have c: "c \<noteq> slash" using Cons hd_dropWhile [of "\<lambda>c. c = slash" pth] by (simp add: s_def)
    define rest where "rest = dropWhile (\<lambda>c. c = slash) (dropWhile (\<lambda>c. c \<noteq> slash) cs)"
    have sk: "skipelem pth = Some (rest, take DIRSIZ (c # takeWhile (\<lambda>c. c \<noteq> slash) cs))"
      using Cons c by (simp add: skipelem_def s_def [symmetric] rest_def Let_def)
    have "elements pth = elements (c # cs)" using elements_strip [of pth] unfolding s_def [symmetric] Cons by simp
    then have "elements pth = (c # takeWhile (\<lambda>c. c \<noteq> slash) cs) # elements rest"
      using pieces_word [OF c] elements_strip [of "dropWhile (\<lambda>c. c \<noteq> slash) cs"] by (simp add: rest_def)
    then show ?thesis using "1.IH" [OF sk refl] by (simp add: skip_all.simps [of pth] sk)
  qed
qed

end
