(* ===== verification/Fs_Discipline.thy ===== *)
theory Fs_Discipline
  imports Lower_Discipline Fs_Format
begin

unbundle bit_operations_syntax

text \<open>
  The discipline of the file system, of open files and of pipes. Functions that
  copy data take its destination or source as an argument; their rules assume the
  discipline of these arguments.
\<close>

subsection \<open>The file system (fs.c)\<close>

lemma dslot_le: "dslot i + 64 \<le> BSIZE"
proof -
  have "unat (i mod 8) < 8" using word_mod_less_divisor [of "8 :: uint" i] by (simp add: word_less_nat_alt)
  then show ?thesis by (simp add: dslot_def IPB_def BSIZE_def)
qed


lemma tri_bzero [tri]: "h = h' \<Longrightarrow> tri cu h (bzero dev bno) h' (\<lambda>_. True)"
  unfolding bzero_def by (rule tri refl | simp add: kst_simps core_def)+

lemma tri_balloc_loop [tri]: "h = h' \<Longrightarrow> tri cu h (balloc_loop n dev b) h' (\<lambda>_. True)"
  by (induction n arbitrary: b) (simp_all only: balloc_loop.simps, (rule tri refl | simp add: kst_simps core_def)+)

lemma tri_balloc [tri]: "h = h' \<Longrightarrow> tri cu h (balloc dev) h' (\<lambda>_. True)"
  unfolding balloc_def by (rule tri refl | simp add: kst_simps core_def)+

lemma tri_bfree [tri]: "h = h' \<Longrightarrow> tri cu h (bfree dev b) h' (\<lambda>_. True)"
  unfolding bfree_def by (rule tri refl | simp add: kst_simps core_def)+

lemma tri_iinit [tri]: "h = h' \<Longrightarrow> tri cu h (iinit dev) h' (\<lambda>_. True)"
  unfolding iinit_def by (rule tri refl | simp add: kst_simps core_def)+

lemma tri_iget [tri]: "h = h' \<Longrightarrow> tri cu h (iget dev ino) h' (\<lambda>_. True)"
  unfolding iget_def by (rule tri refl | simp add: kst_simps core_def)+

lemma tri_ialloc_loop [tri]: "h = h' \<Longrightarrow> tri cu h (ialloc_loop inos dev type) h' (\<lambda>_. True)"
  by (induction inos) (simp_all only: ialloc_loop.simps, (rule tri refl | simp add: dslot_le)+)

lemma tri_ialloc [tri]: "h = h' \<Longrightarrow> tri cu h (ialloc dev type) h' (\<lambda>_. True)"
  unfolding ialloc_def by (rule tri refl | simp add: kst_simps core_def)+

lemma tri_iupdate [tri]: "h = h' \<Longrightarrow> tri cu h (iupdate ip) h' (\<lambda>_. True)"
  unfolding iupdate_def by (rule tri refl | simp add: kst_simps core_def)+

lemma tri_idup [tri]: "h = h' \<Longrightarrow> tri cu h (idup ip) h' (\<lambda>_. True)"
  unfolding idup_def by (rule tri refl | simp add: kst_simps core_def)+

lemma tri_ilock_load [tri]: "h = h' \<Longrightarrow> tri cu h (ilock_load ip) h' (\<lambda>_. True)"
  unfolding ilock_load_def by (rule tri refl | simp add: kst_simps core_def)+

lemma tri_ilock [tri]: "h = h' \<Longrightarrow> tri cu h (ilock ip) h' (\<lambda>_. True)"
  unfolding ilock_def by (rule tri refl | simp add: kst_simps core_def)+

lemma tri_ilock_resume: "tri cu [PTableLock] (ilock_resume p i) [] (\<lambda>_. True)"
  unfolding ilock_resume_def by (rule tri tri_sleep_resume tri_acquiresleep_resume tri_ilock_load refl | simp)+

lemma tri_iunlock [tri]: "h = h' \<Longrightarrow> tri cu h (iunlock ip) h' (\<lambda>_. True)"
  unfolding iunlock_def by (rule tri refl | simp add: kst_simps core_def)+

lemma tri_itrunc [tri]: "h = h' \<Longrightarrow> tri cu h (itrunc ip) h' (\<lambda>_. True)"
  unfolding itrunc_def by (rule tri refl | simp add: kst_simps core_def)+

lemma tri_iput [tri]: "h = h' \<Longrightarrow> tri cu h (iput ip) h' (\<lambda>_. True)"
  unfolding iput_def by (rule tri refl | simp add: kst_simps core_def)+

lemma tri_iunlockput [tri]: "h = h' \<Longrightarrow> tri cu h (iunlockput ip) h' (\<lambda>_. True)"
  unfolding iunlockput_def by (rule tri refl | simp add: kst_simps core_def)+

lemma tri_bmap [tri]: "h = h' \<Longrightarrow> tri cu h (bmap ip bn) h' (\<lambda>_. True)"
  unfolding bmap_def by (rule tri refl | simp add: kst_simps core_def)+

lemma tri_stati [tri]: "h = h' \<Longrightarrow> tri cu h (stati ip) h' (\<lambda>_. True)"
  unfolding stati_def by (rule tri refl | simp add: kst_simps core_def)+

lemma tri_consoleread_loop:
  assumes put: "\<And>k cs h. tri cu h (put k cs) h (\<lambda>_. True)"
  shows "tri cu h (consoleread_loop put ip target k n) (remove1 ConsLock h) (\<lambda>_. True)"
proof (induction n arbitrary: k)
  case 0
  then show ?case by (simp only: consoleread_loop.simps) (rule tri refl put | simp)+
next
  case (Suc n)
  show ?case unfolding consoleread_loop.simps by (rule tri refl put Suc.IH | simp add: kst_simps)+
qed

lemma tri_consoleread:
  "(\<And>k cs h. tri cu h (put k cs) h (\<lambda>_. True)) \<Longrightarrow> h = h' \<Longrightarrow> tri cu h (consoleread put ip n) h' (\<lambda>_. True)"
  unfolding consoleread_def by (rule tri tri_eq [OF tri_consoleread_loop] refl | simp)+

lemma tri_consoleread_resume:
  "(\<And>k cs h. tri cu h (put k cs) h (\<lambda>_. True)) \<Longrightarrow>
   tri cu [PTableLock] (consoleread_resume p put ip target k n) [] (\<lambda>_. True)"
  unfolding consoleread_resume_def by (rule tri tri_sleep_resume tri_eq [OF tri_consoleread_loop] refl | simp)+

text \<open>A source of \<open>N\<close> bytes delivers as many bytes as it is asked for.\<close>

definition source :: "nat option \<Rightarrow> nat \<Rightarrow> (uint \<Rightarrow> nat \<Rightarrow> ('z files_scheme, bytes) kop) \<Rightarrow> bool" where
  "source cu N get \<longleftrightarrow> (\<forall>k n h. unat k + n \<le> N \<longrightarrow> tri cu h (get k n) h (\<lambda>cs. length cs = n))"

lemma sourceD: "source cu N get \<Longrightarrow> unat k + n \<le> N \<Longrightarrow> tri cu h (get k n) h (\<lambda>cs. length cs = n)"
  by (simp add: source_def)

lemma source_from [tri]: "source cu N (from_mem src)" "N \<le> length b \<Longrightarrow> source cu N (from_local b)"
  by (simp_all add: source_def tri_from_mem_len tri_from_local_len)

lemma unat_of_nat_le: "unat (of_nat i :: uint) \<le> i"
  by (simp add: unat_of_nat)

lemma tri_consolewrite:
  assumes "source cu N get" "nat n \<le> N" "h = h'"
  shows "tri cu h (consolewrite get ip n) h' (\<lambda>_. True)"
proof -
  have get: "tri cu h (get (of_nat i) 1) h (\<lambda>_. True)" if "i \<in> set [0..<nat n]" for i h
    using that assms(2) unat_of_nat_le [of i] by (intro tri_conseq [OF sourceD [OF assms(1)]]) auto
  show ?thesis
    unfolding consolewrite_def assms(3) by (rule tri refl get | assumption | simp)+
qed

lemma tri_consoleinit [tri]: "h = h' \<Longrightarrow> tri cu h consoleinit h' (\<lambda>_. True)"
  unfolding consoleinit_def by (rule tri refl | simp add: kst_simps core_def)+

lemma tri_readi_loop:
  assumes put: "\<And>k cs h. tri cu h (put k cs) h (\<lambda>_. True)"
  shows "tri cu h (readi_loop fuel put ip off tot n) h (\<lambda>_. True)"
proof (induction fuel arbitrary: off tot)
  case 0
  then show ?case by (simp only: readi_loop.simps) (rule tri refl put | simp)+
next
  case (Suc fuel)
  show ?case unfolding readi_loop.simps by (rule tri refl put Suc.IH | simp add: kst_simps)+
qed

lemma tri_readi [tri]:
  "(\<And>k cs h. tri cu h (put k cs) h (\<lambda>_. True)) \<Longrightarrow> h = h' \<Longrightarrow> tri cu h (readi put ip off n) h' (\<lambda>_. True)"
  unfolding readi_def by (rule tri tri_consoleread tri_eq [OF tri_readi_loop] refl | simp)+

lemma chunk_le: "unat (chunk l off) \<le> unat l" "unat (off mod of_nat BSIZE) + unat (chunk l off) \<le> BSIZE"
proof -
  have B: "(of_nat BSIZE :: uint) = 512" "BSIZE = 512" by (simp_all add: BSIZE_def)
  have m: "unat (off mod 512) < 512" using word_mod_less_divisor [of "512 :: uint" off] by (simp add: word_less_nat_alt)
  then have s: "unat (512 - off mod 512) = 512 - unat (off mod 512)"
    by (simp add: unat_sub word_le_nat_alt)
  show "unat (chunk l off) \<le> unat l" by (auto simp: chunk_def word_less_nat_alt B)
  show "unat (off mod of_nat BSIZE) + unat (chunk l off) \<le> BSIZE"
    using m s by (auto simp: chunk_def B word_less_nat_alt)
qed

lemma unat_chunk_total: "tot \<le> n \<Longrightarrow> unat tot + unat (chunk (n - tot) off) \<le> unat n"
  using chunk_le(1) [of "n - tot" off] by (simp add: unat_sub word_le_nat_alt)

lemma chunk_total: "tot \<le> n \<Longrightarrow> tot + chunk (n - tot) off \<le> n"
proof -
  assume t: "tot \<le> n"
  have "unat n < 2 ^ 32" using unsigned_less [of n] by simp
  with unat_chunk_total [OF t, of off] show ?thesis by (simp add: word_le_nat_alt unat_word_ariths)
qed

lemma tri_writei_loop:
  assumes src: "source cu (unat n) get" and "tot \<le> n"
  shows "tri cu h (writei_loop fuel get ip off tot n) h (\<lambda>_. True)"
  using assms(2)
proof (induction fuel arbitrary: off tot)
  case 0
  show ?case by (simp only: writei_loop.simps) (rule tri refl | simp)+
next
  case (Suc k)
  let ?m = "chunk (n - tot) off"
  note get = sourceD [OF src unat_chunk_total [OF Suc.prems]]
  note IH = Suc.IH [OF chunk_total [OF Suc.prems]]
  show ?case
    unfolding writei_loop.simps Let_def
    by (rule tri_bndV [OF get] IH tri refl | simp add: chunk_le(2) | (use chunk_le(2) [of off "n - tot"] in simp))+
qed

lemma nat_sint_le: "nat (sint (n :: uint)) \<le> unat n"
proof -
  have "sint n \<le> uint n"
    unfolding sint_uint by (rule signed_take_bit_int_less_eq_self_iff [THEN iffD2]) (rule order_trans [OF _ unsigned_greater_eq], simp)
  then show ?thesis by (metis nat_mono unat_eq_nat_uint)
qed

lemma tri_writei [tri]:
  assumes src: "source cu (unat n) get" and "h = h'"
  shows "tri cu h (writei get ip off n) h' (\<lambda>_. True)"
  unfolding writei_def
  by (rule tri tri_consolewrite [OF src nat_sint_le] tri_eq [OF tri_writei_loop [OF src]] refl | simp add: assms)+

lemma tri_dirlookup_loop [tri]: "h = h' \<Longrightarrow> tri cu h (dirlookup_loop n dp name off) h' (\<lambda>_. True)"
  by (induction n arbitrary: off) (simp_all only: dirlookup_loop.simps, (rule tri refl | simp add: kst_simps core_def)+)

lemma tri_dirlookup [tri]: "h = h' \<Longrightarrow> tri cu h (dirlookup dp name) h' (\<lambda>_. True)"
  unfolding dirlookup_def by (rule tri refl | simp add: kst_simps core_def)+

lemma tri_dirlink_loop [tri]: "h = h' \<Longrightarrow> tri cu h (dirlink_loop n dp off) h' (\<lambda>_. True)"
  by (induction n arbitrary: off) (simp_all only: dirlink_loop.simps, (rule tri refl | simp add: kst_simps core_def)+)

lemma tri_dirlink [tri]: "h = h' \<Longrightarrow> tri cu h (dirlink dp name ino) h' (\<lambda>_. True)"
  unfolding dirlink_def by (rule tri refl | simp add: kst_simps core_def)+

lemma tri_namex_loop [tri]:
  "h = h' \<Longrightarrow> tri cu h (namex_loop ip pth par name :: ('z files_scheme, _) kop) h' (\<lambda>_. True)"
proof (induction pth arbitrary: ip name rule: length_induct)
  case (1 pth)
  have IH: "tri cu h (namex_loop i rest par nm :: ('z files_scheme, _) kop) h (\<lambda>_. True)"
    if "skipelem pth = Some (rest, elem)" for i rest elem nm
    using 1 skipelem_shorter [OF that] by simp
  show ?case
    unfolding namex_loop.simps [of ip] "1.prems" [symmetric]
    by (rule tri refl IH | assumption | (simp; fail))+
qed

lemma tri_namex [tri]: "h = h' \<Longrightarrow> tri cu h (namex pth par) h' (\<lambda>_. True)"
  unfolding namex_def by (rule tri refl | simp add: kst_simps core_def)+

lemma tri_namei [tri]: "h = h' \<Longrightarrow> tri cu h (namei pth) h' (\<lambda>_. True)"
  unfolding namei_def by (rule tri refl | simp add: kst_simps core_def)+

lemma tri_nameiparent [tri]: "h = h' \<Longrightarrow> tri cu h (nameiparent pth) h' (\<lambda>_. True)"
  unfolding nameiparent_def by (rule tri refl | simp add: kst_simps core_def)+

subsection \<open>Files and pipes (file.c, pipe.c)\<close>

lemma tri_fdtype [tri]:
  "(x = FD_NONE \<Longrightarrow> tri cu h a h' V) \<Longrightarrow> (x = FD_PIPE \<Longrightarrow> tri cu h b h' V) \<Longrightarrow> (x = FD_INODE \<Longrightarrow> tri cu h d h' V) \<Longrightarrow>
   tri cu h (case x of FD_NONE \<Rightarrow> a | FD_PIPE \<Rightarrow> b | FD_INODE \<Rightarrow> d) h' V"
  by (cases x) auto

lemma tri_pipeclose [tri]: "h = h' \<Longrightarrow> tri cu h (pipeclose p writable) h' (\<lambda>_. True)"
  unfolding pipeclose_def by (rule tri refl | simp add: kst_simps core_def)+

lemma tri_pipewrite_loop: "remove1 (PipeLock p) h = h' \<Longrightarrow> tri cu h (pipewrite_loop k p addr i n) h' (\<lambda>_. True)"
  by (induction k arbitrary: i) (simp_all only: pipewrite_loop.simps, (rule tri refl | simp add: kst_simps core_def)+)

lemma tri_pipewrite [tri]: "h = h' \<Longrightarrow> tri cu h (pipewrite p addr n) h' (\<lambda>_. True)"
  unfolding pipewrite_def by (rule tri tri_pipewrite_loop refl | simp)+

lemma tri_pipewrite_resume: "tri cu [PTableLock] (pipewrite_resume me k p addr i n) [] (\<lambda>_. True)"
  unfolding pipewrite_resume_def by (rule tri tri_sleep_resume tri_acquiresleep_resume tri_pipewrite_loop refl | simp)+

lemma tri_piperead_copy [tri]: "h = h' \<Longrightarrow> tri cu h (piperead_copy k p addr i) h' (\<lambda>_. True)"
  by (induction k arbitrary: i) (simp_all only: piperead_copy.simps, (rule tri refl | simp add: kst_simps core_def)+)

lemma tri_piperead_loop: "remove1 (PipeLock p) h = h' \<Longrightarrow> tri cu h (piperead_loop p addr n) h' (\<lambda>_. True)"
  unfolding piperead_loop_def by (rule tri refl | simp add: kst_simps core_def)+

lemma tri_piperead [tri]: "h = h' \<Longrightarrow> tri cu h (piperead p addr n) h' (\<lambda>_. True)"
  unfolding piperead_def by (rule tri tri_piperead_loop refl | simp)+

lemma tri_piperead_resume: "tri cu [PTableLock] (piperead_resume me p addr n) [] (\<lambda>_. True)"
  unfolding piperead_resume_def by (rule tri tri_sleep_resume tri_acquiresleep_resume tri_piperead_loop refl | simp)+

lemma tri_filealloc [tri]: "h = h' \<Longrightarrow> tri cu h filealloc h' (\<lambda>_. True)"
  unfolding filealloc_def by (rule tri refl | simp add: kst_simps core_def)+

lemma tri_filedup [tri]: "h = h' \<Longrightarrow> tri cu h (filedup f) h' (\<lambda>_. True)"
  unfolding filedup_def by (rule tri refl | simp add: kst_simps core_def)+

lemma tri_fileclose [tri]: "h = h' \<Longrightarrow> tri cu h (fileclose f) h' (\<lambda>_. True)"
  unfolding fileclose_def by (rule tri refl | simp add: kst_simps core_def)+

lemma tri_pipealloc_bad [tri]: "h = h' \<Longrightarrow> tri cu h (pipealloc_bad p f0 f1) h' (\<lambda>_. True)"
  unfolding pipealloc_bad_def by (rule tri refl | simp add: kst_simps core_def)+

lemma tri_pipealloc [tri]: "h = h' \<Longrightarrow> tri cu h pipealloc h' (\<lambda>_. True)"
  unfolding pipealloc_def by (rule tri refl | simp add: kst_simps core_def)+

lemma tri_st_half [tri]: "h = h' \<Longrightarrow> tri cu h (st_half va v) h' (\<lambda>_. True)"
  unfolding st_half_def by (rule tri refl | simp add: kst_simps core_def)+

lemma tri_store_stat [tri]: "h = h' \<Longrightarrow> tri cu h (store_stat a st) h' (\<lambda>_. True)"
  unfolding store_stat_def by (rule tri refl | simp add: kst_simps core_def)+

lemma tri_filestat [tri]: "h = h' \<Longrightarrow> tri cu h (filestat f a) h' (\<lambda>_. True)"
  unfolding filestat_def by (rule tri refl | simp add: kst_simps core_def)+

lemma tri_fileread [tri]: "h = h' \<Longrightarrow> tri cu h (fileread f addr n) h' (\<lambda>_. True)"
  unfolding fileread_def by (rule tri refl | simp add: kst_simps core_def)+

lemma tri_filewrite_loop [tri]: "h = h' \<Longrightarrow> tri cu h (filewrite_loop k f addr i n) h' (\<lambda>_. True)"
  by (induction k arbitrary: i) (simp_all only: filewrite_loop.simps, (rule tri refl | simp add: kst_simps core_def)+)

lemma tri_filewrite [tri]: "h = h' \<Longrightarrow> tri cu h (filewrite f addr n) h' (\<lambda>_. True)"
  unfolding filewrite_def by (rule tri refl | simp add: kst_simps core_def)+

end
