(* ===== verification/Kernel_Discipline.thy ===== *)
theory Kernel_Discipline
  imports Fs_Discipline
begin

unbundle bit_operations_syntax

text \<open>
  The discipline of processes, program loading, system calls and traps, and the
  theorems about \<open>trap\<close> as a whole.
\<close>

subsection \<open>Processes (proc.c)\<close>

lemma hp_state: "hp P' n Q \<Longrightarrow> (\<And>s. P s \<Longrightarrow> m s = n (g s)) \<Longrightarrow> (\<And>s. P s \<Longrightarrow> P' (g s)) \<Longrightarrow> hp P m Q"
  by (simp add: hp_def)

lemma hp_ex: "(\<And>x. hp (P x) m Q) \<Longrightarrow> hp (\<lambda>s. \<exists>x. P x s) m Q"
  and hp_conj: "(b \<Longrightarrow> hp P' m Q) \<Longrightarrow> hp (\<lambda>s. P' s \<and> b) m Q"
  by (auto simp: hp_def)

lemma hpD: "hp P m Q \<Longrightarrow> P s \<Longrightarrow> case m s of Ret x t \<Rightarrow> Q x t | Switch t \<Rightarrow> kswitched t | _ \<Rightarrow> True"
  by (simp add: hp_def)

lemma hp_ret: "(\<And>s. P s \<Longrightarrow> Q x s) \<Longrightarrow> hp P (ret x) Q"
  by (simp add: hp_def ret_apply)

text \<open>The result of \<open>allocproc\<close>: an embryo with a kernel stack.\<close>

definition new_embryo :: "embryo set \<Rightarrow> nat option \<Rightarrow> lock list \<Rightarrow> nat option \<Rightarrow> 'z files_scheme \<Rightarrow> bool" where
  "new_embryo E cu h r t \<longleftrightarrow> (case r of None \<Rightarrow> kst E cu h t
     | Some i \<Rightarrow> \<exists>k d. kst (insert (i, k, d) E) cu h t \<and> k \<noteq> 0 \<and> fresh i E)"

definition alloc_entry :: "nat \<Rightarrow> 'z files_scheme \<Rightarrow> 'z files_scheme" where
  "alloc_entry i s = s\<lparr>nextpid := nextpid s + 1, procs := (procs s)(i := (procs s i)\<lparr>pstate := EMBRYO,
     pid := nextpid s, running_t := 0, ctime := ticks s, waiting_t := 0, pidtimes := 0\<rparr>)\<rparr>"

lemma kst_alloc_entry:
  assumes "kst E cu h s" "i < NPROC" "pstate (procs s i) = UNUSED"
  shows "\<exists>k d. kst (insert (i, k, d) E) cu h (alloc_entry i s) \<and> fresh i E"
  using kst_alloc [OF assms, of "(procs s i)\<lparr>pstate := EMBRYO, pid := nextpid s, running_t := 0,
     ctime := ticks s, waiting_t := 0, pidtimes := 0\<rparr>"] kst_times [OF assms(1,2)]
  by (auto simp: alloc_entry_def times_ok_def)

text \<open>The rest of \<open>allocproc\<close> when it has taken entry \<open>i\<close>.\<close>

definition alloc_finish :: "nat \<Rightarrow> ('z kern_scheme, nat option) kop" where
  "alloc_finish i =
     bnd (krelease PTableLock) (\<lambda>_.
     bnd kalloc (\<lambda>ks.
     bnd (proc_upd i (\<lambda>p. p\<lparr>kstack := ks\<rparr>)) (\<lambda>_.
       if ks = 0 then bnd (proc_upd i (\<lambda>p. p\<lparr>pstate := UNUSED\<rparr>)) (\<lambda>_. ret None)
       else bnd (seqs [
         bnd (gets k_trapret) (\<lambda>a. mem_st (ks + KSTACKSIZE - TF_SIZE - 4) a),
         bnd (gets k_forkret) (\<lambda>a. proc_upd i (\<lambda>p. p\<lparr>pcontext :=
           \<lparr>cx_edi = 0, cx_esi = 0, cx_ebx = 0, cx_ebp = 0, cx_eip = a\<rparr>\<rparr>))]) (\<lambda>_. ret (Some i)))))"

lemma bnd_steps: "bnd (gets f) g s = g (f s) s" "bnd (mods u) g' s = g' () (u s)"
  "bnd (proc_upd i v) g1 t = g1 () (t\<lparr>procs := (procs t)(i := v (procs t i))\<rparr>)"
  "bnd (kacquire l) g1 t = (if l \<in> set (held t) then Panic ''acquire'' else g1 () (t\<lparr>held := l # held t\<rparr>))"
  by (simp_all add: kops kcore)

lemma allocproc_apply:
  "allocproc s = (if PTableLock \<in> set (held s) then Panic ''acquire'' else
     case scan NPROC (\<lambda>i. pstate (procs s i) = UNUSED) of
       None \<Rightarrow> Ret None s
     | Some i \<Rightarrow> alloc_finish i (alloc_entry i (s\<lparr>held := PTableLock # held s\<rparr>)))"
proof (cases "scan NPROC (\<lambda>i. pstate (procs s i) = UNUSED)")
  case None
  then show ?thesis by (simp add: allocproc_def kops kcore)
next
  case (Some i)
  then show ?thesis
    by (simp add: allocproc_def alloc_finish_def alloc_entry_def bnd_assoc bnd_steps)
qed

lemma hp_alloc_finish:
  assumes "fresh i E"
  shows "hp (kst (insert (i, k, d) E) cu (PTableLock # h)) (alloc_finish i) (new_embryo E cu h)"
  unfolding alloc_finish_def
proof (rule hp_tri [OF tri_krelease [OF refl]], rule hp_tri [OF tri_kalloc [OF refl]],
    rule hp_bnd [OF hp_embryo_kstack [OF assms]])
  fix ks :: uint
  let ?h = "remove1 PTableLock (PTableLock # h)"
  have 1: "hp (kst (insert (i, 0, d) E) cu ?h) (bnd (proc_upd i (\<lambda>p. p\<lparr>pstate := UNUSED\<rparr>)) (\<lambda>_. ret None)) (new_embryo E cu h)"
    by (intro hp_bnd [OF hp_embryo_unused [OF assms] hp_ret]) (simp add: new_embryo_def)
  have 2: "hp (kst (insert (i, ks, d) E) cu ?h) (bnd (seqs [
        bnd (gets k_trapret) (\<lambda>a. mem_st (ks + KSTACKSIZE - TF_SIZE - 4) a),
        bnd (gets k_forkret) (\<lambda>a. proc_upd i (\<lambda>p. p\<lparr>pcontext :=
          \<lparr>cx_edi = 0, cx_esi = 0, cx_ebx = 0, cx_ebp = 0, cx_eip = a\<rparr>\<rparr>))]) (\<lambda>_. ret (Some i))) (new_embryo E cu h)"
    if "ks \<noteq> 0"
    by (rule hp_tri [OF _ hp_ret], (rule tri refl | simp add: core_def)+) (use that assms in \<open>auto simp: new_embryo_def\<close>)
  show "hp (kst (insert (i, ks, d) E) cu ?h)
     (if ks = 0 then bnd (proc_upd i (\<lambda>p. p\<lparr>pstate := UNUSED\<rparr>)) (\<lambda>_. ret None)
      else bnd (seqs [
        bnd (gets k_trapret) (\<lambda>a. mem_st (ks + KSTACKSIZE - TF_SIZE - 4) a),
        bnd (gets k_forkret) (\<lambda>a. proc_upd i (\<lambda>p. p\<lparr>pcontext :=
          \<lparr>cx_edi = 0, cx_esi = 0, cx_ebx = 0, cx_ebp = 0, cx_eip = a\<rparr>\<rparr>))]) (\<lambda>_. ret (Some i))) (new_embryo E cu h)"
    using 1 2 by (cases "ks = 0") simp_all
qed

lemma hp_allocproc: "hp (kst E cu h) allocproc (new_embryo E cu h)"
  unfolding hp_def
proof (intro allI impI)
  fix s :: "'a kern_scheme" assume k: "kst E cu h s"
  then have h: "held s = h" by (simp add: kst_iff)
  show "case allocproc s of Ret x t \<Rightarrow> new_embryo E cu h x t | Switch t \<Rightarrow> kswitched t | _ \<Rightarrow> True"
  proof (cases "PTableLock \<in> set h \<or> scan NPROC (\<lambda>i. pstate (procs s i) = UNUSED) = None")
    case True
    then show ?thesis using k h by (auto simp: allocproc_apply new_embryo_def)
  next
    case False
    then obtain i where i: "scan NPROC (\<lambda>i. pstate (procs s i) = UNUSED) = Some i" by auto
    let ?s = "s\<lparr>held := PTableLock # h\<rparr>"
    have "kst E cu (PTableLock # h) ?s" using k by (simp add: kst_iff arrays_ok_def)
    from kst_alloc_entry [OF this, of i] scan_SomeD [OF i]
    obtain k d where "kst (insert (i, k, d) E) cu (PTableLock # h) (alloc_entry i ?s)" "fresh i E" by auto
    from hpD [OF hp_alloc_finish [OF this(2)] this(1)] show ?thesis
      using False by (simp add: allocproc_apply i h)
  qed
qed

lemma hp_new_embryo:
  assumes "hp (kst E cu h) (f None) Q"
    and "\<And>i k d. k \<noteq> 0 \<Longrightarrow> fresh i E \<Longrightarrow> hp (kst (insert (i, k, d) E) cu h) (f (Some i)) Q"
  shows "hp (kst E cu h) (bnd allocproc f) Q"
  by (rule hp_bnd [OF hp_allocproc]) (use assms in \<open>auto simp: new_embryo_def hp_def split: option.splits\<close>)

text \<open>The last steps of \<open>fork\<close> and \<open>userinit\<close>.\<close>

lemma hp_make_runnable:
  assumes "fresh i E" "k \<noteq> 0" "d \<noteq> 0"
  shows "hp (kst (insert (i, k, d) E) cu h)
     (seqs [kacquire PTableLock, proc_upd i (\<lambda>p. p\<lparr>pstate := RUNNABLE\<rparr>), krelease PTableLock]) (\<lambda>_. kst E cu h)"
  unfolding seqs.simps
  by (rule hp_tri [OF tri_kacquire [OF refl]], rule hp_bnd [OF hp_embryo_runnable [OF assms]])
    (rule hp_tri_last [where V = "\<lambda>_. True"], (rule tri refl | simp)+)

lemma length_safestrcpy_b [simp]: "0 < n \<Longrightarrow> length (safestrcpy_b n t) < n"
  by (simp add: safestrcpy_b_def)

lemma tri_growproc [tri]: "h = h' \<Longrightarrow> tri cu h (growproc n) h' (\<lambda>_. True)"
  unfolding growproc_def by (rule tri refl | simp add: core_def)+

lemma tri_fork [tri]: "h = h' \<Longrightarrow> tri cu h fork h' (\<lambda>_. True)"
proof -
  assume "h = h'"
  have "tri cu h fork h (\<lambda>_. True)"
    unfolding fork_def
  proof (rule tri_with_myproc, unfold tri_def, intro allI, rule hp_new_embryo, goal_cases)
    case (1 me E)
    show ?case by (simp add: hp_ret)
  next
    case (2 me E np k d)
    then have fr: "fresh np E" "k \<noteq> 0" by simp_all
    show ?case
      unfolding option.case
    proof (rule hp_tri [OF tri_proc_get [OF refl]], clarify, rule hp_tri [OF tri_copyuvm [OF refl]],
        rule hp_bnd [OF hp_embryo_pgdir [OF fr(1)]], goal_cases)
      case (1 pgd sz d' u)
      show ?case
      proof (cases "d' = 0")
        case True
        then show ?thesis
          by (simp add: bnd_assoc)
            (rule hp_tri [OF tri_proc_get [OF refl]], rule hp_tri [OF tri_kfree [OF refl]],
              rule hp_bnd [OF hp_embryo_kstack [OF fr(1)]], rule hp_bnd [OF hp_embryo_unused [OF fr(1)]], simp add: hp_ret)
      next
        case False
        then show ?thesis
          apply (simp only: if_False)
          apply (rule hp_tri)
           apply ((rule tri refl | simp add: core_def)+)[1]
          apply (rule hp_tri [OF tri_proc_get [OF refl]], rule hp_bnd [OF hp_make_runnable [OF fr False]])
          apply (simp add: hp_ret)
          done
      qed
    qed
  qed
  then show ?thesis by (simp add: \<open>h = h'\<close>)
qed

lemma seqs_split7:
  "seqs [a1, a2, a3, a4, a5, a6, a7, x, y, z] = bnd (seqs [a1, a2, a3, a4, a5, a6, a7]) (\<lambda>_. seqs [x, y, z])"
  by (simp add: bnd_assoc)

lemma tri_userinit [tri]: "h = h' \<Longrightarrow> tri cu h userinit h' (\<lambda>_. True)"
proof -
  assume "h = h'"
  have "tri cu h userinit h (\<lambda>_. True)"
    unfolding userinit_def tri_def
  proof (intro allI, rule hp_new_embryo, goal_cases)
    case (1 E)
    show ?case
      by (rule hp_tri [OF tri_mods [OF refl]], simp_all add: kst_simps) (simp add: hp_def)
  next
    case (2 E i k d)
    then have fr: "fresh i E" "k \<noteq> 0" by simp_all
    show ?case
      apply (rule hp_tri [OF tri_mods [OF refl]], simp add: kst_simps)
      apply (unfold option.case)
      apply (rule hp_tri [OF tri_setupkvm [OF refl]], rule hp_bnd [OF hp_embryo_pgdir [OF fr(1)]])
      subgoal for u d' u'
      proof (cases "d' = 0")
        case False
        have post: "hp (kst (insert (i, k, d') E) cu h)
            (seqs [kacquire PTableLock, proc_upd i (\<lambda>p. p\<lparr>pstate := RUNNABLE\<rparr>), krelease PTableLock]) (\<lambda>x t. kst E cu h t \<and> True)"
          using hp_make_runnable [OF fr False] by simp
        show ?thesis
          by (simp only: if_False False seqs_split7) (rule hp_tri [OF _ post], (rule tri refl | simp add: core_def)+)
      qed (simp add: hp_def)
      done
  qed
  then show ?thesis by (simp add: \<open>h = h'\<close>)
qed

lemma tri_proc_get_times: "i < NPROC \<Longrightarrow> tri cu h (proc_get i (\<lambda>x. x)) h times_ok"
  by (auto simp: tri_def hp_def proc_get_apply kst_times)

lemma tri_proc_upd_times:
  "i < NPROC \<Longrightarrow> (\<And>p. times_ok p \<Longrightarrow> core (f p) = core p \<and> length (pname (f p)) < 16) \<Longrightarrow>
   tri cu h (proc_upd i f) h (\<lambda>_. True)"
  by (simp add: tri_def hp_def proc_upd_apply kst_core kst_times)

lemma put_time_length: "put_time i v ts = Some us \<Longrightarrow> length us = length ts"
  by (auto simp: put_time_def split: if_splits)

lemma tri_exit_times: "p < NPROC \<Longrightarrow> tri cu h (exit_times me p) h (\<lambda>_. True)"
  unfolding exit_times_def
  apply (rule tri_bnd [OF tri_proc_get [OF refl]], rule tri_bndV [OF tri_proc_get_times], assumption)
  apply (auto simp: Let_def times_ok_def core_def split: option.split dest!: put_time_length
    intro!: tri_wild tri_proc_upd_times)
  done

lemma bnd_with_myproc: "bnd (with_myproc f) g = with_myproc (\<lambda>p. bnd (f p) g)"
  by (rule ext) (simp add: with_myproc_apply bnd_apply split: option.split)

lemma tri_yield [tri]: "tri cu h yield h' V"
  unfolding yield_def
  by (simp add: bnd_assoc bnd_with_myproc)
    (rule tri_bnd [OF tri_kacquire [OF refl]], rule tri_with_myproc, auto intro: tri_leave)

lemma tri_yield_resume: "tri cu [PTableLock] yield_resume [] (\<lambda>_. True)"
  unfolding yield_resume_def by (rule tri refl | simp)+

lemma tri_forkret: "tri cu [PTableLock] forkret [] (\<lambda>_. True)"
  unfolding forkret_def by (rule tri refl | simp add: kst_simps)+

lemma tri_exit [tri]: "tri cu h exit h' V"
  unfolding exit_def
proof (rule tri_with_myproc, rule tri_bnd [OF tri_gets [OF refl]], goal_cases)
  case (1 me ini)
  show ?case
    unfolding \<open>cu = Some me\<close>
    apply (rule tri_if [OF tri_panic])
    apply (simp only: seqs.simps bnd_assoc bnd_ret_left)
    apply (rule tri_leave tri refl tri_exit_times | simp add: core_def)+
    done
qed

text \<open>\<open>wait\<close> gives back the entry of a zombie.\<close>

lemma leaves_kfree [leaves]: "leaves procs (kfree v)"
  unfolding kfree_def kacquire_def krelease_def by (intro leaves) (simp_all add: leaves_def)

lemma leaves_walkpgdir [leaves]: "leaves procs (walkpgdir pgd va False)"
  unfolding walkpgdir_def mem_ld_def Let_def by (simp, intro leaves)

lemma leaves_deallocuvm_loop [leaves]: "leaves procs (deallocuvm_loop n pgd a oldsz)"
  by (induction n arbitrary: a) (simp_all only: deallocuvm_loop.simps mem_ld_def mem_st_def, (intro leaves; simp)+)

lemma leaves_freevm [leaves]: "leaves procs (freevm pgd)"
  unfolding freevm_def deallocuvm_def mem_ld_def by (intro leaves)

lemma kst_reap:
  assumes "kst E cu h s" "pstate (procs s i) = ZOMBIE" "times_ok q" "pstate q = UNUSED"
  shows "kst E cu h (s\<lparr>procs := (procs s)(i := q)\<rparr>)"
proof -
  let ?ps = "(procs s)(i := q)"
  have "ptable_ok ?ps (nextpid s)" using assms by (auto simp: kst_iff ptable_ok_def pids_ok_def loaded_def alive_def)
  moreover have "only_running cu ?ps" using assms by (auto simp: kst_iff only_running_def)
  moreover have "embryos ?ps = embryos (procs s)" using assms by (auto simp: embryos_def split: if_splits)
  ultimately show ?thesis using assms by (simp add: kst_iff arrays_ok_def)
qed

definition zombie :: "embryo set \<Rightarrow> nat option \<Rightarrow> lock list \<Rightarrow> nat \<Rightarrow> 'z files_scheme \<Rightarrow> bool" where
  "zombie E cu h p s \<longleftrightarrow> kst E cu h s \<and> p < NPROC \<and> pstate (procs s p) = ZOMBIE"

lemma hp_zombie: "tri cu h m h V \<Longrightarrow> leaves procs m \<Longrightarrow> hp (zombie E cu h p) m (\<lambda>_. zombie E cu h p)"
  unfolding hp_def zombie_def tri_def leaves_def
  by (intro allI impI) (fastforce split: outcome.splits)

lemma hp_zombie_kstack: "hp (zombie E cu h p) (proc_upd p (\<lambda>x. x\<lparr>kstack := k\<rparr>)) (\<lambda>_. zombie E cu h p)"
proof -
  have "kst E cu h (s\<lparr>procs := (procs s)(p := (procs s p)\<lparr>kstack := k\<rparr>)\<rparr>)"
    if "zombie E cu h p s" for s :: "'a files_scheme"
  proof -
    let ?ps = "(procs s)(p := (procs s p)\<lparr>kstack := k\<rparr>)"
    have "ptable_ok ?ps (nextpid s)" using that
      by (auto simp: zombie_def kst_iff ptable_ok_def pids_ok_def times_ok_def loaded_def alive_def)
    moreover have "only_running cu ?ps" using that by (auto simp: zombie_def kst_iff only_running_def)
    moreover have "embryos ?ps = embryos (procs s)" using that by (auto simp: zombie_def embryos_def split: if_splits)
    ultimately show ?thesis using that by (simp add: zombie_def kst_iff arrays_ok_def)
  qed
  then show ?thesis by (auto simp: hp_def proc_upd_apply) (auto simp: zombie_def)
qed

lemma hp_zombie_unused:
  "(\<And>x. times_ok x \<Longrightarrow> times_ok (f x) \<and> pstate (f x) = UNUSED) \<Longrightarrow>
   hp (zombie E cu h p) (proc_upd p f) (\<lambda>_. kst E cu h)"
  by (auto simp: hp_def proc_upd_apply zombie_def kst_times intro!: kst_reap)

lemma tri_wait_loop: "remove1 PTableLock h = h' \<Longrightarrow> tri cu h (wait_loop me) h' (\<lambda>_. True)"
proof -
  assume h: "remove1 PTableLock h = h'"
  have reap: "hp (zombie E cu h p) (bnd (proc_get p (\<lambda>x. x)) (\<lambda>x. bnd (seqs [
           kfree (kstack x),
           proc_upd p (\<lambda>x. x\<lparr>kstack := 0\<rparr>),
           freevm (pgdir x),
           proc_upd p (\<lambda>x. x\<lparr>pid := 0, parent := None, pname := [], killed := False, ctime := 0, pstate := UNUSED\<rparr>),
           krelease PTableLock]) (\<lambda>_. ret (pid x)))) (\<lambda>x t. kst E cu h' t \<and> True)" for E p
    apply (simp only: seqs.simps bnd_assoc bnd_ret_left)
    apply (rule hp_bnd [OF hp_zombie [OF tri_proc_get [OF refl]]])
     apply (simp add: leaves_def proc_get_apply)
    apply (rule hp_bnd [OF hp_zombie [OF tri_kfree [OF refl] leaves_kfree]])
    apply (rule hp_bnd [OF hp_zombie_kstack], rule hp_bnd [OF hp_zombie [OF tri_freevm [OF refl] leaves_freevm]])
    apply (rule hp_bnd [OF hp_zombie_unused], simp add: times_ok_def)
    apply (rule hp_tri [OF tri_krelease [OF h]], simp add: hp_ret)
    done
  have none: "tri cu h (bnd (gets (\<lambda>s. \<exists>i < NPROC. parent (procs s i) = Some me)) (\<lambda>havekids.
         bnd (proc_get me killed) (\<lambda>kd.
           if \<not> havekids \<or> kd then bnd (krelease PTableLock) (\<lambda>_. ret (- 1))
           else sleep (Some (ChProc me)) (Some PTableLock)))) h' (\<lambda>_. True)"
    by (rule tri refl | simp add: h)+
  show ?thesis
    unfolding tri_def wait_loop_def
  proof (intro allI, goal_cases)
    case (1 E)
    show ?case
    proof (rule hp_bnd [where R = "\<lambda>r s. kst E cu h s \<and>
        (\<forall>i. r = Some i \<longrightarrow> i < NPROC \<and> pstate (procs s i) = ZOMBIE)"], goal_cases)
      case 1
      show ?case by (auto simp: hp_def dest: scan_SomeD)
    next
      case (2 r)
      show ?case
      proof (cases r)
        case None
        then show ?thesis using triD [OF none, of E] by simp
      next
        case (Some p)
        then show ?thesis using hp_conseq [OF reap [of E p]] by (simp add: zombie_def)
      qed
    qed
  qed
qed

lemma tri_wait [tri]: "h = h' \<Longrightarrow> tri cu h wait h' (\<lambda>_. True)"
  unfolding wait_def by (rule tri tri_wait_loop refl | simp)+

lemma tri_wait_resume: "tri cu [PTableLock] (wait_resume me) [] (\<lambda>_. True)"
  unfolding wait_resume_def by (rule tri tri_sleep_resume tri_wait_loop refl | simp)+

lemma tri_wake_st [tri]:
  "h = h' \<Longrightarrow> tri cu h (bnd (proc_get i pstate) (\<lambda>st. whenk (st = SLEEPING) (proc_upd i (\<lambda>p. p\<lparr>pstate := RUNNABLE\<rparr>)))) h'
     (\<lambda>_. True)"
  by (auto simp: tri_def hp_def kops kcore kst_wake)

lemma tri_kill [tri]: "h = h' \<Longrightarrow> tri cu h (kill pd) h' (\<lambda>_. True)"
  unfolding kill_def by (rule tri_wake_st tri refl | simp add: core_def)+

lemma tri_times [tri]: "h = h' \<Longrightarrow> tri cu h (time_at i ts) h' (\<lambda>_. True)"
  unfolding time_at_def by (rule tri refl | simp)+

lemma tri_exec_times [tri]: "h = h' \<Longrightarrow> tri cu h waittime h' (\<lambda>_. True)" "h = h' \<Longrightarrow> tri cu h runtime h' (\<lambda>_. True)"
  "h = h' \<Longrightarrow> tri cu h turntime h' (\<lambda>_. True)"
  unfolding waittime_def runtime_def turntime_def by (rule tri refl | simp add: core_def)+

subsection \<open>Programs (exec.c)\<close>

lemma tri_loaduvm_loop [tri]: "h = h' \<Longrightarrow> tri cu h (loaduvm_loop k pgd addr ip offset i sz) h' (\<lambda>_. True)"
  by (induction k arbitrary: i) (simp_all only: loaduvm_loop.simps, (rule tri refl | simp add: kst_simps core_def)+)

lemma tri_loaduvm [tri]: "h = h' \<Longrightarrow> tri cu h (loaduvm pgd addr ip offset sz) h' (\<lambda>_. True)"
  unfolding loaduvm_def by (rule tri refl | simp add: kst_simps core_def)+

lemma tri_exec_load [tri]: "h = h' \<Longrightarrow> tri cu h (exec_load n ip pgd off sz) h' (\<lambda>_. True)"
  by (induction n arbitrary: off sz) (simp_all only: exec_load.simps, (rule tri refl | simp add: kst_simps core_def)+)

lemma tri_exec_push [tri]: "tri cu h (exec_push pgd argv argc usp) h (\<lambda>_. True)"
proof (induction argv arbitrary: argc usp)
  case Nil
  show ?case by (simp only: exec_push.simps) (rule tri refl | simp)+
next
  case (Cons a argv)
  show ?case unfolding exec_push.simps by (rule tri refl Cons.IH | simp)+
qed

lemma tri_exec_bad [tri]: "h = h' \<Longrightarrow> tri cu h (exec_bad pgd ip) h' (\<lambda>_. True)"
  unfolding exec_bad_def by (rule tri refl | simp add: kst_simps core_def)+

lemma tri_exec_commit:
  assumes "pgd \<noteq> 0"
  shows "tri (Some me) h (exec_commit me pth argv entry pgd sz) h (\<lambda>_. True)"
  unfolding exec_commit_def
  by (rule tri_pgdir [OF assms] tri refl | simp add: core_def)+

lemma tri_exec [tri]: "h = h' \<Longrightarrow> tri cu h (exec pth argv) h' (\<lambda>_. True)"
  unfolding exec_def
  by (rule tri refl | rule tri_exec_commit, assumption | simp)+

subsection \<open>File system calls (syscall.c, sysfile.c)\<close>

lemma tri_oret [tri]: "tri cu h m h1 (\<lambda>_. True) \<Longrightarrow> h1 = h' \<Longrightarrow> (\<And>x. tri cu h1 (f x) h' (\<lambda>_. True)) \<Longrightarrow> tri cu h (oret m f) h' (\<lambda>_. True)"
  unfolding oret_def by (rule tri refl | simp)+

lemma tri_fetchint [tri]: "h = h' \<Longrightarrow> tri cu h (fetchint addr) h' (\<lambda>_. True)"
  unfolding fetchint_def by (rule tri refl | simp add: kst_simps core_def)+

lemma tri_fetchstr_loop [tri]: "h = h' \<Longrightarrow> tri cu h (fetchstr_loop n a k) h' (\<lambda>_. True)"
  by (induction n arbitrary: a k) (simp_all only: fetchstr_loop.simps, (rule tri refl | simp add: kst_simps core_def)+)

lemma tri_fetchstr [tri]: "h = h' \<Longrightarrow> tri cu h (fetchstr addr) h' (\<lambda>_. True)"
  unfolding fetchstr_def by (rule tri refl | simp add: kst_simps core_def)+

lemma tri_argint [tri]: "h = h' \<Longrightarrow> tri cu h (argint n) h' (\<lambda>_. True)"
  unfolding argint_def by (rule tri refl | simp add: kst_simps core_def)+

lemma tri_argptr [tri]: "h = h' \<Longrightarrow> tri cu h (argptr n sz) h' (\<lambda>_. True)"
  unfolding argptr_def by (rule tri refl | simp add: kst_simps core_def)+

lemma tri_argstr [tri]: "h = h' \<Longrightarrow> tri cu h (argstr n) h' (\<lambda>_. True)"
  unfolding argstr_def by (rule tri refl | simp add: kst_simps core_def)+

lemma tri_argfd [tri]: "h = h' \<Longrightarrow> tri cu h (argfd n) h' (\<lambda>_. True)"
  unfolding argfd_def by (rule tri refl | simp add: kst_simps core_def)+

lemma tri_fdalloc [tri]: "h = h' \<Longrightarrow> tri cu h (fdalloc f) h' (\<lambda>_. True)"
  unfolding fdalloc_def by (rule tri refl | simp add: kst_simps core_def)+

lemma tri_fdclear [tri]: "h = h' \<Longrightarrow> tri cu h (fdclear fd) h' (\<lambda>_. True)"
  unfolding fdclear_def by (rule tri refl | simp add: kst_simps core_def)+

lemma tri_sys_dup [tri]: "h = h' \<Longrightarrow> tri cu h sys_dup h' (\<lambda>_. True)"
  unfolding sys_dup_def by (rule tri refl | simp add: kst_simps core_def)+

lemma tri_sys_read [tri]: "h = h' \<Longrightarrow> tri cu h sys_read h' (\<lambda>_. True)"
  unfolding sys_read_def by (rule tri refl | simp add: kst_simps core_def)+

lemma tri_sys_write [tri]: "h = h' \<Longrightarrow> tri cu h sys_write h' (\<lambda>_. True)"
  unfolding sys_write_def by (rule tri refl | simp add: kst_simps core_def)+

lemma tri_sys_close [tri]: "h = h' \<Longrightarrow> tri cu h sys_close h' (\<lambda>_. True)"
  unfolding sys_close_def by (rule tri refl | simp add: kst_simps core_def)+

lemma tri_sys_fstat [tri]: "h = h' \<Longrightarrow> tri cu h sys_fstat h' (\<lambda>_. True)"
  unfolding sys_fstat_def by (rule tri refl | simp add: kst_simps core_def)+

lemma tri_sys_link_bad [tri]: "h = h' \<Longrightarrow> tri cu h (sys_link_bad ip) h' (\<lambda>_. True)"
  unfolding sys_link_bad_def by (rule tri refl | simp add: kst_simps core_def)+

lemma tri_sys_link [tri]: "h = h' \<Longrightarrow> tri cu h sys_link h' (\<lambda>_. True)"
  unfolding sys_link_def by (rule tri refl | simp add: kst_simps core_def)+

lemma tri_isdirempty_loop [tri]: "h = h' \<Longrightarrow> tri cu h (isdirempty_loop n dp off) h' (\<lambda>_. True)"
  by (induction n arbitrary: off) (simp_all only: isdirempty_loop.simps, (rule tri refl | simp add: kst_simps core_def)+)

lemma tri_isdirempty [tri]: "h = h' \<Longrightarrow> tri cu h (isdirempty dp) h' (\<lambda>_. True)"
  unfolding isdirempty_def by (rule tri refl | simp add: kst_simps core_def)+

lemma tri_sys_unlink_bad [tri]: "h = h' \<Longrightarrow> tri cu h (sys_unlink_bad dp) h' (\<lambda>_. True)"
  unfolding sys_unlink_bad_def by (rule tri refl | simp add: kst_simps core_def)+

lemma tri_sys_unlink [tri]: "h = h' \<Longrightarrow> tri cu h sys_unlink h' (\<lambda>_. True)"
  unfolding sys_unlink_def by (rule tri refl | simp add: kst_simps core_def)+

lemma tri_create [tri]: "h = h' \<Longrightarrow> tri cu h (create pth ty major minor) h' (\<lambda>_. True)"
  unfolding create_def by (rule tri refl | simp add: kst_simps core_def)+

lemma tri_open_inode [tri]: "h = h' \<Longrightarrow> tri cu h (open_inode pth omode) h' (\<lambda>_. True)"
  unfolding open_inode_def by (rule tri refl | simp add: kst_simps core_def)+

lemma tri_sys_open [tri]: "h = h' \<Longrightarrow> tri cu h sys_open h' (\<lambda>_. True)"
  unfolding sys_open_def by (rule tri refl | simp add: kst_simps core_def)+

lemma tri_finish_create [tri]: "h = h' \<Longrightarrow> tri cu h (finish_create r) h' (\<lambda>_. True)"
  unfolding finish_create_def by (rule tri refl | simp add: kst_simps core_def)+

lemma tri_sys_mkdir [tri]: "h = h' \<Longrightarrow> tri cu h sys_mkdir h' (\<lambda>_. True)"
  unfolding sys_mkdir_def by (rule tri refl | simp add: kst_simps core_def)+

lemma tri_sys_mknod [tri]: "h = h' \<Longrightarrow> tri cu h sys_mknod h' (\<lambda>_. True)"
  unfolding sys_mknod_def by (rule tri refl | simp add: kst_simps core_def)+

lemma tri_sys_chdir [tri]: "h = h' \<Longrightarrow> tri cu h sys_chdir h' (\<lambda>_. True)"
  unfolding sys_chdir_def by (rule tri refl | simp add: kst_simps core_def)+

lemma tri_exec_args [tri]: "tri cu h (exec_args n a) h (\<lambda>_. True)"
proof (induction n arbitrary: a)
  case 0
  show ?case by (simp only: exec_args.simps) (rule tri refl | simp)+
next
  case (Suc n)
  show ?case unfolding exec_args.simps by (rule tri refl Suc.IH | simp)+
qed

lemma tri_sys_exec [tri]: "h = h' \<Longrightarrow> tri cu h sys_exec h' (\<lambda>_. True)"
  unfolding sys_exec_def by (rule tri refl | simp add: kst_simps core_def)+

lemma tri_sys_pipe_bad [tri]: "h = h' \<Longrightarrow> tri cu h (sys_pipe_bad fd0 f0 f1) h' (\<lambda>_. True)"
  unfolding sys_pipe_bad_def by (rule tri refl | simp add: kst_simps core_def)+

lemma tri_sys_pipe [tri]: "h = h' \<Longrightarrow> tri cu h sys_pipe h' (\<lambda>_. True)"
  unfolding sys_pipe_def by (rule tri refl | simp add: kst_simps core_def)+

subsection \<open>System calls (sysproc.c, syscall.c)\<close>

lemma tri_sys_fork [tri]: "h = h' \<Longrightarrow> tri cu h sys_fork h' (\<lambda>_. True)"
  unfolding sys_fork_def by (rule tri refl | simp add: kst_simps core_def)+

lemma tri_sys_exit [tri]: "tri cu h sys_exit h' V"
  unfolding sys_exit_def by (rule tri)

lemma tri_sys_wait [tri]: "h = h' \<Longrightarrow> tri cu h sys_wait h' (\<lambda>_. True)"
  unfolding sys_wait_def by (rule tri refl | simp add: kst_simps core_def)+

lemma tri_sys_kill [tri]: "h = h' \<Longrightarrow> tri cu h sys_kill h' (\<lambda>_. True)"
  unfolding sys_kill_def by (rule tri refl | simp add: kst_simps core_def)+

lemma tri_sys_getpid [tri]: "h = h' \<Longrightarrow> tri cu h sys_getpid h' (\<lambda>_. True)"
  unfolding sys_getpid_def by (rule tri refl | simp add: kst_simps core_def)+

lemma tri_sys_sbrk [tri]: "h = h' \<Longrightarrow> tri cu h sys_sbrk h' (\<lambda>_. True)"
  unfolding sys_sbrk_def by (rule tri refl | simp add: kst_simps core_def)+

lemma tri_sys_sleep_loop: "remove1 TicksLock h = h' \<Longrightarrow> tri cu h (sys_sleep_loop t0 n) h' (\<lambda>_. True)"
  unfolding sys_sleep_loop_def by (rule tri refl | simp add: kst_simps core_def)+

lemma tri_sys_sleep [tri]: "h = h' \<Longrightarrow> tri cu h sys_sleep h' (\<lambda>_. True)"
  unfolding sys_sleep_def by (rule tri tri_sys_sleep_loop refl | simp)+

lemma tri_sys_sleep_resume: "tri cu [PTableLock] (sys_sleep_resume me t0 n) [] (\<lambda>_. True)"
  unfolding sys_sleep_resume_def by (rule tri tri_sleep_resume tri_acquiresleep_resume tri_sys_sleep_loop refl | simp)+

lemma tri_sys_uptime [tri]: "h = h' \<Longrightarrow> tri cu h sys_uptime h' (\<lambda>_. True)"
  unfolding sys_uptime_def by (rule tri refl | simp add: kst_simps core_def)+

lemma tri_sys_getyear [tri]: "h = h' \<Longrightarrow> tri cu h sys_getyear h' (\<lambda>_. True)"
  unfolding sys_getyear_def by (rule tri refl | simp add: kst_simps core_def)+

lemma tri_sys_runtime [tri]: "h = h' \<Longrightarrow> tri cu h sys_runtime h' (\<lambda>_. True)"
  unfolding sys_runtime_def by (rule tri refl | simp add: kst_simps core_def)+

lemma tri_sys_waittime [tri]: "h = h' \<Longrightarrow> tri cu h sys_waittime h' (\<lambda>_. True)"
  unfolding sys_waittime_def by (rule tri refl | simp add: kst_simps core_def)+

lemma tri_sys_turntime [tri]: "h = h' \<Longrightarrow> tri cu h sys_turntime h' (\<lambda>_. True)"
  unfolding sys_turntime_def by (rule tri refl | simp add: kst_simps core_def)+

lemma map_of_all: "map_of kvs k = Some v \<Longrightarrow> list_all (\<lambda>(_, v). P v) kvs \<Longrightarrow> P v"
  by (auto dest!: map_of_SomeD simp: list_all_iff)

lemma tri_syscalls: "map_of syscalls n = Some f \<Longrightarrow> tri cu h f h (\<lambda>_. True)"
  by (erule map_of_all) (simp add: syscalls_def tri)

lemma tri_syscall [tri]: "h = h' \<Longrightarrow> tri cu h syscall h' (\<lambda>_. True)"
  unfolding syscall_def by (rule tri refl tri_syscalls | simp add: core_def split: if_splits)+

subsection \<open>Traps (trap.c)\<close>

lemma tri_policy [tri]:
  "(x = DEFAULT \<Longrightarrow> tri cu h a h' V) \<Longrightarrow> (x = FRR \<Longrightarrow> tri cu h b h' V) \<Longrightarrow> (x = FCFS \<Longrightarrow> tri cu h d h' V) \<Longrightarrow>
   tri cu h (case x of DEFAULT \<Rightarrow> a | FRR \<Rightarrow> b | FCFS \<Rightarrow> d) h' V"
  by (cases x) auto

lemma tri_ideintr [tri]: "h = h' \<Longrightarrow> tri cu h ideintr h' (\<lambda>_. True)"
  unfolding ideintr_def by (rule tri refl | simp add: kst_simps core_def)+

lemma tri_kbdintr [tri]: "h = h' \<Longrightarrow> tri cu h (kbdintr codes) h' (\<lambda>_. True)"
  unfolding kbdintr_def by (rule tri refl | simp add: kst_simps core_def)+

lemma tri_uartintr [tri]: "h = h' \<Longrightarrow> tri cu h (uartintr bs) h' (\<lambda>_. True)"
  unfolding uartintr_def by (rule tri refl | simp add: kst_simps core_def)+

lemma tri_clock_tick [tri]: "h = h' \<Longrightarrow> tri cu h clock_tick h' (\<lambda>_. True)"
  unfolding clock_tick_def by (rule tri refl | simp add: kst_simps core_def)+

lemma tri_exit_if_killed [tri]: "h = h' \<Longrightarrow> tri cu h (exit_if_killed tf) h' (\<lambda>_. True)"
  unfolding exit_if_killed_def by (rule tri refl | simp add: kst_simps core_def)+

lemma tri_tick_policy [tri]: "h = h' \<Longrightarrow> tri cu h (tick_policy pol me) h' (\<lambda>_. True)"
  unfolding tick_policy_def by (rule tri refl | simp add: kst_simps core_def)+

lemma tri_clock_yield [tri]: "h = h' \<Longrightarrow> tri cu h (clock_yield pol tf) h' (\<lambda>_. True)"
  unfolding clock_yield_def by (rule tri refl | simp add: kst_simps core_def)+

lemma tri_trap_syscall [tri]: "h = h' \<Longrightarrow> tri cu h (trap_syscall tf) h' (\<lambda>_. True)"
  unfolding trap_syscall_def by (rule tri refl | simp add: kst_simps core_def)+

lemma tri_trap_device [tri]: "h = h' \<Longrightarrow> tri cu h (trap_device tf cr2 codes bs) h' (\<lambda>_. True)"
  unfolding trap_device_def by (rule tri refl | simp add: kst_simps core_def)+

lemma tri_trap [tri]: "h = h' \<Longrightarrow> tri cu h (trap pol tf cr2 codes bs) h' (\<lambda>_. True)"
  unfolding trap_def by (rule tri refl | simp add: kst_simps core_def)+

lemma tri_trap_resume: "tri cu [PTableLock] (trap_resume tf) [] (\<lambda>_. True)"
  unfolding trap_resume_def by (rule tri tri_yield_resume refl | simp)+

subsection \<open>The discipline of the kernel\<close>

text \<open>A state to try the theorems on: \<open>init\<close> runs, every other entry of the table is free.\<close>

definition machine0 :: machine where
  "machine0 = \<lparr>held = [], curproc = Some 0, ticks = 0,
     procs = (\<lambda>_. proc0)(0 := proc0\<lparr>pstate := RUNNING, pid := 1, kstack := 0x80400000, pgdir := 0x80401000\<rparr>),
     nextpid = 2, initproc = Some 0, slocks = (\<lambda>_. \<lparr>slocked = False, slname = [], slpid = 0\<rparr>),
     mem = (\<lambda>_. 0), freelist = 0, use_lock = True, kend = 0x80200000,
     cons_locking = True, panicked = False, uart = False, uart_out = [], crt = (\<lambda>_. 0), crt_cursor = 0,
     in_buf = replicate 128 0, in_r = 0, in_w = 0, in_e = 0,
     kpgdir = 0x80402000, cr3 = 0x401000, ts_esp0 = 0x80401000, ts_ss0 = 16, kdata = 0x80108000,
     bufs = (\<lambda>_. \<lparr>bflags = 0, bdev = 0, blockno = 0, refcnt = 0, bprev = NBUF, bnext = NBUF, bdata = replicate 512 0\<rparr>),
     disk = (\<lambda>_. replicate 512 0), disksize = 1000, dwrites = [],
     lstart = 2, lsize = 30, outstanding = 0, committing = False, ldev = 1, lh_n = 0, lh_block = (\<lambda>_. 0),
     sb = \<lparr>sb_size = 1000, sb_nblocks = 941, sb_ninodes = 200, sb_nlog = 30, sb_logstart = 2, sb_inodestart = 32,
       sb_bmapstart = 58\<rparr>,
     inodes = (\<lambda>_. inode0), devsw = (\<lambda>_. NoDev),
     ftable = (\<lambda>_. \<lparr>ftype = FD_NONE, fref = 0, freadable = False, fwritable = False, fpipe = 0, fip = 0, foff = 0\<rparr>),
     pipes = (\<lambda>_. \<lparr>pdata = replicate 512 0, nread = 0, nwrite = 0, readopen = False, writeopen = False\<rparr>),
     k_trapret = 0, k_forkret = 0, initcode_start = 0, initcode_size = 0, first = True, kbd_shift = 0\<rparr>"

lemma machine0_sel [simp]: "held machine0 = []" "curproc machine0 = Some 0" "nextpid machine0 = 2"
  "procs machine0 = (\<lambda>_. proc0)(0 := proc0\<lparr>pstate := RUNNING, pid := 1, kstack := 0x80400000, pgdir := 0x80401000\<rparr>)"
  by (simp_all add: machine0_def)

lemma arrays_machine0: "arrays_ok machine0"
  by (simp add: machine0_def arrays_ok_def inode0_def BSIZE_def NDIRECT_def PIPESIZE_def INPUT_BUF_def)

lemma kinv_machine0: "kinv machine0"
  by (simp add: kinv_def arrays_machine0 ptable_ok_def pids_ok_def times_ok_def loaded_def alive_def only_running_def
    proc0_def NPROC_def)

lemma kinv_kst: "kinv s \<Longrightarrow> kst {} (curproc s) (held s) s"
  by (simp add: kst_def)

lemma trap_kst:
  assumes "kinv s"
  shows "case trap pol tf cr2 codes bs s of Ret x t \<Rightarrow> kst {} (curproc s) (held s) t | Switch t \<Rightarrow> kswitched t | _ \<Rightarrow> True"
  using hpD [OF triD [OF tri_trap [OF refl]] kinv_kst [OF assms], of pol tf cr2 codes bs]
  by (simp split: outcome.splits)







text \<open>What is asked of the part of a function that runs when its process gets the CPU back.\<close>

definition resumes :: "('z files_scheme, 'a) kop \<Rightarrow> 'z files_scheme \<Rightarrow> bool" where
  "resumes m s \<longleftrightarrow> (case m s of Ret _ t \<Rightarrow> held t = [] \<and> kinv t \<and> curproc t = curproc s | Switch t \<Rightarrow> kswitched t | _ \<Rightarrow> True)"

lemma resumesI:
  assumes "\<And>cu. tri cu [PTableLock] m [] (\<lambda>_. True)" "kinv s" "held s = [PTableLock]"
  shows "resumes m s"
  using hpD [OF triD [OF assms(1)] kinv_kst [OF assms(2), unfolded assms(3)]]
  by (simp add: resumes_def kst_def split: outcome.splits)


definition resumed0 :: machine where
  "resumed0 = machine0\<lparr>held := [PTableLock]\<rparr>"

lemma kinv_resumed0: "kinv resumed0" "held resumed0 = [PTableLock]"
  using kinv_machine0 by (simp_all add: resumed0_def kinv_def arrays_ok_def)


end
