(* ===== verification/Scheduling.thy ===== *)
theory Scheduling
  imports Kernel_Discipline
begin

text \<open>
  The scheduler (proc.c): which process it runs, that it can always run it, and
  that no runnable process waits for ever. The last part shows what the FCFS
  policy amounts to.
\<close>

subsection \<open>The choice\<close>

lemma sched_pick_iff: "sched_pick pol ps p = (if pstate (ps p) = RUNNABLE then Some p else None)"
  by (cases pol) (simp_all add: sched_pick_def Let_def)

text \<open>The order in which the loop visits the table from entry \<open>p\<close>.\<close>

definition round_from :: "nat \<Rightarrow> nat list" where
  "round_from p = [p..<NPROC] @ [0..<p]"

definition next_runnable :: "nat \<Rightarrow> (nat \<Rightarrow> proc) \<Rightarrow> nat option" where
  "next_runnable p ps = List.find (\<lambda>i. pstate (ps i) = RUNNABLE) (round_from p)"

text \<open>The state in which process \<open>q\<close> goes on.\<close>

definition dispatched :: "nat \<Rightarrow> 'z kern_scheme \<Rightarrow> 'z kern_scheme" where
  "dispatched q s = s\<lparr>curproc := Some q, ts_ss0 := of_nat SEG_KDATA * 8, ts_esp0 := kstack (procs s q) + KSTACKSIZE,
     cr3 := V2P (pgdir (procs s q)), procs := (procs s)(q := (procs s q)\<lparr>pstate := RUNNING\<rparr>)\<rparr>"

definition sched_ready :: "'z files_scheme \<Rightarrow> bool" where
  "sched_ready s \<longleftrightarrow> kinv s \<and> held s = [PTableLock] \<and> curproc s = None"

lemma sched_run_apply:
  assumes "sched_ready s" "q < NPROC" "pstate (procs s q) = RUNNABLE"
  shows "sched_run q s = Ret () (dispatched q s)"
proof -
  have "loaded (procs s q)" using assms by (simp add: sched_ready_def kinv_def ptable_ok_def)
  then have "kstack (procs s q) \<noteq> 0" "pgdir (procs s q) \<noteq> 0" using assms(3) by (simp_all add: loaded_def alive_def)
  then show ?thesis by (simp add: sched_run_def switchuvm_def dispatched_def kops kcore)
qed

lemma kinv_dispatched:
  assumes "sched_ready s" "q < NPROC" "pstate (procs s q) = RUNNABLE"
  shows "kinv (dispatched q s)"
proof -
  have "ptable_ok ((procs s)(q := (procs s q)\<lparr>pstate := RUNNING\<rparr>)) (nextpid s)"
    using assms by (intro ptable_state) (auto simp: sched_ready_def kinv_def alive_def)
  moreover have "only_running (Some q) ((procs s)(q := (procs s q)\<lparr>pstate := RUNNING\<rparr>))"
    using assms by (auto simp: sched_ready_def kinv_def only_running_def)
  ultimately show ?thesis using assms(1) by (simp add: sched_ready_def kinv_def dispatched_def arrays_ok_def)
qed

subsection \<open>The loop over the table\<close>

lemma scheduler_found:
  assumes "q < NPROC" "pstate (procs s q) = RUNNABLE" "p + k = q" "\<And>i. p \<le> i \<Longrightarrow> i < q \<Longrightarrow> pstate (procs s i) \<noteq> RUNNABLE"
  shows "scheduler_from (Suc k + n) pol p s = bnd (sched_run q) (\<lambda>_. ret (q, q + 1)) s"
  using assms(3,4)
proof (induction k arbitrary: p)
  case 0
  then show ?case using assms(1,2) by (simp add: bnd_apply sched_pick_iff)
next
  case (Suc k)
  have "pstate (procs s p) \<noteq> RUNNABLE" "p < NPROC" using Suc.prems assms(1) by auto
  then show ?case using Suc.IH [of "Suc p"] Suc.prems by (simp add: bnd_apply sched_pick_iff)
qed

lemma scheduler_wrap:
  assumes "held s = [PTableLock]" "p + k = NPROC" "\<And>i. p \<le> i \<Longrightarrow> i < NPROC \<Longrightarrow> pstate (procs s i) \<noteq> RUNNABLE"
  shows "scheduler_from (Suc k + n) pol p s = scheduler_from n pol 0 s"
  using assms(2,3)
proof (induction k arbitrary: p)
  case 0
  have e: "s\<lparr>held := [PTableLock]\<rparr> = s" using assms(1) by simp
  show ?case using 0 assms(1) by (simp add: kops kcore e)
next
  case (Suc k)
  have "pstate (procs s p) \<noteq> RUNNABLE" "p < NPROC" using Suc.prems by auto
  then show ?case using Suc.IH [of "Suc p"] Suc.prems by (simp add: bnd_apply sched_pick_iff)
qed

lemma next_runnable_cases:
  assumes "next_runnable p ps = Some q" "p \<le> NPROC"
  obtains (later) "p \<le> q" "q < NPROC" "pstate (ps q) = RUNNABLE" "\<And>i. p \<le> i \<Longrightarrow> i < q \<Longrightarrow> pstate (ps i) \<noteq> RUNNABLE"
    | (wrap) "q < p" "q < NPROC" "pstate (ps q) = RUNNABLE" "\<And>i. p \<le> i \<Longrightarrow> i < NPROC \<Longrightarrow> pstate (ps i) \<noteq> RUNNABLE"
      "\<And>i. i < q \<Longrightarrow> pstate (ps i) \<noteq> RUNNABLE"
proof -
  let ?R = "\<lambda>i. pstate (ps i) = RUNNABLE"
  from assms(1) obtain k where k: "k < length (round_from p)" "?R (round_from p ! k)" "q = round_from p ! k"
    "\<And>j. j < k \<Longrightarrow> \<not> ?R (round_from p ! j)"
    by (auto simp: next_runnable_def find_Some_iff)
  have len: "length (round_from p) = NPROC" using assms(2) by (simp add: round_from_def)
  have at: "round_from p ! j = (if j < NPROC - p then p + j else j - (NPROC - p))" if "j < NPROC" for j
    using that assms(2) by (auto simp: round_from_def nth_append)
  show thesis
  proof (cases "k < NPROC - p")
    case True
    have q: "q = p + k" using k(1,3) at len True by simp
    show thesis
    proof (rule later)
      show "p \<le> q" "q < NPROC" "?R q" using q True k(2,3) by auto
      show "\<not> ?R i" if "p \<le> i" "i < q" for i
      proof -
        have j: "i - p < k" "i - p < NPROC" "i - p < NPROC - p" using that q True by auto
        have "round_from p ! (i - p) = i" unfolding at [OF j(2)] using j(3) that(1) by simp
        then show ?thesis using k(4) [OF j(1)] by simp
      qed
    qed
  next
    case False
    have q: "q = k - (NPROC - p)" using k(1,3) at len False by simp
    show thesis
    proof (rule wrap)
      show "q < p" "q < NPROC" "?R q" using q False k len assms(2) by auto
      show "\<not> ?R i" if "p \<le> i" "i < NPROC" for i
      proof -
        have j: "i - p < k" "i - p < NPROC" "i - p < NPROC - p" using that False by auto
        have "round_from p ! (i - p) = i" unfolding at [OF j(2)] using j(3) that(1) by simp
        then show ?thesis using k(4) [OF j(1)] by simp
      qed
      show "\<not> ?R i" if "i < q" for i
      proof -
        have j: "NPROC - p + i < k" "NPROC - p + i < NPROC" "\<not> NPROC - p + i < NPROC - p" using that q k(1) len by auto
        have "round_from p ! (NPROC - p + i) = i" unfolding at [OF j(2)] using j(3) by simp
        then show ?thesis using k(4) [OF j(1)] by simp
      qed
    qed
  qed
qed

text \<open>\<open>2 * NPROC + 2\<close> steps of the loop reach the next runnable process.\<close>

definition sched_fuel :: nat where "sched_fuel = 2 * NPROC + 2"

lemma scheduler_next:
  assumes "sched_ready s" "p \<le> NPROC" "next_runnable p (procs s) = Some q"
  shows "scheduler_from sched_fuel pol p s = Ret (q, q + 1) (dispatched q s)"
  using assms(3,2)
proof (cases rule: next_runnable_cases)
  case later
  have "sched_fuel = Suc (q - p) + (sched_fuel - Suc (q - p))" using later(2) by (simp add: sched_fuel_def)
  then have "scheduler_from sched_fuel pol p s = bnd (sched_run q) (\<lambda>_. ret (q, q + 1)) s"
    using scheduler_found [of q s p "q - p"] later by (metis le_add_diff_inverse)
  then show ?thesis using sched_run_apply [OF assms(1) later(2,3)] by (simp add: kops)
next
  case wrap
  have "sched_fuel = Suc (NPROC - p) + (Suc q + (sched_fuel - (Suc (NPROC - p) + Suc q)))"
    using wrap(2) assms(2) by (simp add: sched_fuel_def)
  then have "scheduler_from sched_fuel pol p s = scheduler_from (Suc q + (sched_fuel - (Suc (NPROC - p) + Suc q))) pol 0 s"
    using scheduler_wrap [of s p "NPROC - p"] wrap(4) assms(1,2) by (metis le_add_diff_inverse sched_ready_def)
  also have "\<dots> = bnd (sched_run q) (\<lambda>_. ret (q, q + 1)) s"
    using wrap by (intro scheduler_found) auto
  finally show ?thesis using sched_run_apply [OF assms(1) wrap(2,3)] by (simp add: kops)
qed

lemma next_runnable_bound: "next_runnable p ps = Some q \<Longrightarrow> p \<le> NPROC \<Longrightarrow> q < NPROC \<and> pstate (ps q) = RUNNABLE"
  by (erule next_runnable_cases) auto

lemma next_runnable_exists:
  assumes "r < NPROC" "pstate (ps r) = RUNNABLE"
  shows "\<exists>q. next_runnable p ps = Some q"
proof -
  have "r \<in> set (round_from p)" using assms(1) by (auto simp: round_from_def)
  then have "next_runnable p ps \<noteq> None" using assms(2) by (auto simp: next_runnable_def find_None_iff)
  then show ?thesis by auto
qed

subsection \<open>Dispatching\<close>

lemma dispatched_sel [simp]: "curproc (dispatched q s) = Some q" "pstate (procs (dispatched q s) q) = RUNNING"
  "held (dispatched q s) = held s" "cr3 (dispatched q s) = V2P (pgdir (procs s q))"
  by (simp_all add: dispatched_def)

lemma sched_back_ready:
  assumes "kswitched t"
  shows "sched_ready (t\<lparr>cr3 := V2P (kpgdir t), curproc := None\<rparr>)" "sched_back t = Ret () (t\<lparr>cr3 := V2P (kpgdir t), curproc := None\<rparr>)"
  using assms by (simp_all add: sched_ready_def kswitched_def kinv_def arrays_ok_def sched_back_def switchkvm_def kops)

text \<open>
  C19. A context switch always completes. When \<open>trap\<close> has given up the CPU in state \<open>t\<close>
  and some process is runnable, the scheduler returns from the switch, finds the
  first runnable process \<open>q\<close> at or after entry \<open>p\<close> in the cyclic order of the table and
  resumes it: no panic of \<open>switchuvm\<close>, at most two passes. In the new state \<open>q\<close> is the
  current and the only running process, its page table is loaded, \<open>ptable.lock\<close> is
  held and the state is consistent again.
\<close>
theorem switch_completes:
  assumes "kinv s" and "trap pol tf cr2 codes bs s = Switch t" and "r < NPROC" and "pstate (procs t r) = RUNNABLE"
    and "p \<le> NPROC"
  shows "\<exists>u q v. sched_back t = Ret () u \<and> next_runnable p (procs t) = Some q \<and>
     scheduler_from sched_fuel pol p u = Ret (q, q + 1) v \<and> kinv v \<and> held v = [PTableLock] \<and>
     curproc v = Some q \<and> pstate (procs v q) = RUNNING \<and> cr3 v = V2P (pgdir (procs t q))"
proof -
  have "kswitched t" using trap_kst [OF assms(1), of pol tf cr2 codes bs] assms(2) by simp
  note b = sched_back_ready [OF this]
  let ?u = "t\<lparr>cr3 := V2P (kpgdir t), curproc := None\<rparr>"
  obtain q where q: "next_runnable p (procs t) = Some q" using next_runnable_exists assms(3,4) by blast
  have qb: "q < NPROC" "pstate (procs ?u q) = RUNNABLE" using next_runnable_bound [OF q assms(5)] by simp_all
  have v: "scheduler_from sched_fuel pol p ?u = Ret (q, q + 1) (dispatched q ?u)"
    using q by (intro scheduler_next b(1) assms(5)) simp
  have "kinv (dispatched q ?u) \<and> held (dispatched q ?u) = [PTableLock]"
    using kinv_dispatched [OF b(1) qb] b(1) by (simp add: sched_ready_def)
  then show ?thesis using b(2) q v by auto
qed

subsection \<open>The clock\<close>

text \<open>The state after a tick, before the policy acts on the running process.\<close>

definition ticked :: "'z kcore_scheme \<Rightarrow> 'z kcore_scheme" where
  "ticked s = s\<lparr>ticks := ticks s + 1, procs := woken (Some ChTicks) (procs s)\<rparr>"

definition proc_set :: "nat \<Rightarrow> (proc \<Rightarrow> proc) \<Rightarrow> 'z kcore_scheme \<Rightarrow> 'z kcore_scheme" where
  "proc_set p f s = s\<lparr>procs := (procs s)(p := f (procs s p))\<rparr>"

text \<open>What a tick does to the running process \<open>p\<close> under each policy.\<close>

definition tick_result :: "policy \<Rightarrow> nat \<Rightarrow> 'z kcore_scheme \<Rightarrow> (unit, 'z kcore_scheme) outcome" where
  "tick_result pol p s = (case pol of
     DEFAULT \<Rightarrow> Switch (proc_set p (\<lambda>x. x\<lparr>pstate := RUNNABLE\<rparr>) s\<lparr>held := [PTableLock]\<rparr>)
   | FRR \<Rightarrow> if slot (procs s p) + 1 \<ge> QUANTA
       then Switch (proc_set p (\<lambda>x. x\<lparr>slot := 0, pstate := RUNNABLE\<rparr>) s\<lparr>held := [PTableLock]\<rparr>)
       else Ret () (proc_set p (\<lambda>x. x\<lparr>slot := slot x + 1, running_t := running_t x + 1\<rparr>) s)
   | FCFS \<Rightarrow> Ret () (proc_set p (\<lambda>x. x\<lparr>running_t := running_t x + 1\<rparr>) s))"

lemma clock_tick_apply: "held s = [] \<Longrightarrow> clock_tick s = Ret () (ticked s)"
  by (simp add: clock_tick_def kops kcore ticked_def)

lemma exit_if_killed_skip: "curproc s = Some p \<Longrightarrow> \<not> killed (procs s p) \<Longrightarrow> exit_if_killed tf s = Ret () s"
  by (simp add: exit_if_killed_def kops kcore)

lemma clock_yield_apply:
  assumes "held s = []" "curproc s = Some p" "pstate (procs s p) = RUNNING" "tf_trapno tf = T_IRQ0 + IRQ_TIMER"
  shows "clock_yield pol tf s = tick_result pol p s"
  using assms
  by (cases pol) (simp_all add: clock_yield_def tick_policy_def tick_result_def yield_def proc_set_def kops kcore)

lemma clock_trap:
  assumes "held s = []" "curproc s = Some p" "pstate (procs s p) = RUNNING" "\<not> killed (procs s p)"
    "tf_trapno tf = T_IRQ0 + IRQ_TIMER"
  shows "trap pol tf cr2 codes bs s = tick_result pol p (ticked s)"
proof -
  let ?s = "ticked s"
  have t: "held ?s = []" "curproc ?s = Some p" "pstate (procs ?s p) = RUNNING" "\<not> killed (procs ?s p)"
    using assms by (simp_all add: ticked_def pstate_woken)
  have e: "exit_if_killed tf ?s = Ret () ?s" by (rule exit_if_killed_skip [OF t(2,4)])
  have y: "clock_yield pol tf ?s = tick_result pol p ?s" by (rule clock_yield_apply [OF t(1-3) assms(5)])
  have f: "exit_if_killed tf u = Ret () u" if "tick_result pol p ?s = Ret x u" for x u
    using that t by (intro exit_if_killed_skip [of _ p])
      (auto simp: tick_result_def proc_set_def split: policy.splits if_splits)
  have d: "trap_device tf cr2 codes bs s = Ret () ?s"
    using assms(1,5) by (simp add: trap_device_def clock_tick_apply)
  show ?thesis
    using assms(5) f by (simp add: trap_def bnd_apply ret_apply d e y trapno_defs split: outcome.split)
qed

text \<open>Process \<open>p\<close> is running and has used \<open>k\<close> ticks of its quantum.\<close>

definition in_quantum :: "nat \<Rightarrow> int \<Rightarrow> 'z kcore_scheme \<Rightarrow> bool" where
  "in_quantum p k s \<longleftrightarrow> held s = [] \<and> curproc s = Some p \<and> pstate (procs s p) = RUNNING \<and> \<not> killed (procs s p) \<and>
     slot (procs s p) = k"

lemma running_t_woken [simp]: "running_t (woken ch ps i) = running_t (ps i)"
  by (simp add: woken_def)

lemma frr_tick:
  assumes "in_quantum p k s" "k + 1 < QUANTA" "tf_trapno tf = T_IRQ0 + IRQ_TIMER"
  obtains t where "trap FRR tf cr2 codes bs s = Ret () t" "in_quantum p (k + 1) t"
    "running_t (procs t p) = running_t (procs s p) + 1" "ticks t = ticks s + 1"
proof -
  let ?t = "proc_set p (\<lambda>x. x\<lparr>slot := slot x + 1, running_t := running_t x + 1\<rparr>) (ticked s)"
  have "trap FRR tf cr2 codes bs s = tick_result FRR p (ticked s)"
    using assms by (intro clock_trap) (simp_all add: in_quantum_def)
  also have "\<dots> = Ret () ?t" using assms(1,2) by (simp add: tick_result_def in_quantum_def ticked_def)
  finally have "trap FRR tf cr2 codes bs s = Ret () ?t" .
  moreover have "in_quantum p (k + 1) ?t" "running_t (procs ?t p) = running_t (procs s p) + 1" "ticks ?t = ticks s + 1"
    using assms(1) by (simp_all add: in_quantum_def proc_set_def ticked_def pstate_woken)
  ultimately show thesis by (rule that)
qed

lemma frr_ticks:
  assumes "in_quantum p 0 s" "tf_trapno tf = T_IRQ0 + IRQ_TIMER" "int n < QUANTA"
  shows "\<exists>t. for_each (replicate n ()) (\<lambda>_. trap FRR tf cr2 codes bs) s = Ret () t \<and> in_quantum p (int n) t \<and>
    running_t (procs t p) = running_t (procs s p) + of_nat n \<and> ticks t = ticks s + of_nat n"
  using assms(3)
proof (induction n)
  case 0
  then show ?case using assms(1) by (simp add: ret_apply)
next
  case (Suc n)
  then obtain t where t: "for_each (replicate n ()) (\<lambda>_. trap FRR tf cr2 codes bs) s = Ret () t" "in_quantum p (int n) t"
    "running_t (procs t p) = running_t (procs s p) + of_nat n" "ticks t = ticks s + of_nat n" by auto
  obtain u where "trap FRR tf cr2 codes bs t = Ret () u" "in_quantum p (int n + 1) u"
    "running_t (procs u p) = running_t (procs t p) + 1" "ticks u = ticks t + 1"
    by (rule frr_tick [OF t(2) _ assms(2), of cr2 codes bs]) (use Suc.prems in simp_all)
  moreover have "replicate (Suc n) () = replicate n () @ [()]" by (simp flip: replicate_append_same)
  ultimately show ?case using t by (simp only: for_each_append) (auto simp: bnd_apply ret_apply algebra_simps)
qed

text \<open>
  C20. Under the FRR policy a process that begins a quantum in user mode keeps the CPU
  for exactly \<open>QUANTA\<close> clock ticks, unless it gives it up itself: after fewer ticks it
  still runs, and at the last one it goes back to the runnable processes with its
  count reset. Its running time is charged for every tick but the last.
\<close>
theorem frr_quantum:
  assumes "in_quantum p 0 s" and "tf_trapno tf = T_IRQ0 + IRQ_TIMER"
  shows "(\<forall>n. int n < QUANTA \<longrightarrow> (\<exists>t. for_each (replicate n ()) (\<lambda>_. trap FRR tf cr2 codes bs) s = Ret () t \<and>
       in_quantum p (int n) t \<and> running_t (procs t p) = running_t (procs s p) + of_nat n)) \<and>
     (\<exists>t. for_each (replicate (nat QUANTA) ()) (\<lambda>_. trap FRR tf cr2 codes bs) s = Switch t \<and>
       pstate (procs t p) = RUNNABLE \<and> slot (procs t p) = 0 \<and>
       running_t (procs t p) = running_t (procs s p) + of_int (QUANTA - 1) \<and> ticks t = ticks s + of_int QUANTA)"
proof (intro conjI allI impI)
  fix n assume "int n < QUANTA"
  from frr_ticks [OF assms this]
  show "\<exists>t. for_each (replicate n ()) (\<lambda>_. trap FRR tf cr2 codes bs) s = Ret () t \<and>
       in_quantum p (int n) t \<and> running_t (procs t p) = running_t (procs s p) + of_nat n" by blast
next
  obtain t where t: "for_each (replicate 4 ()) (\<lambda>_. trap FRR tf cr2 codes bs) s = Ret () t" "in_quantum p 4 t"
    "running_t (procs t p) = running_t (procs s p) + 4" "ticks t = ticks s + 4"
    using frr_ticks [OF assms, of 4 cr2 codes bs] by (auto simp: QUANTA_def)
  let ?u = "proc_set p (\<lambda>x. x\<lparr>slot := 0, pstate := RUNNABLE\<rparr>) (ticked t)\<lparr>held := [PTableLock]\<rparr>"
  have "trap FRR tf cr2 codes bs t = tick_result FRR p (ticked t)"
    using t(2) assms(2) by (intro clock_trap) (simp_all add: in_quantum_def)
  also have "\<dots> = Switch ?u" using t(2) by (simp add: tick_result_def in_quantum_def ticked_def QUANTA_def)
  finally have "trap FRR tf cr2 codes bs t = Switch ?u" .
  moreover have "replicate (nat QUANTA) () = replicate 4 () @ [()]" by (simp add: QUANTA_def numeral_eq_Suc)
  ultimately have "for_each (replicate (nat QUANTA) ()) (\<lambda>_. trap FRR tf cr2 codes bs) s = Switch ?u"
    using t(1) by (simp only: for_each_append) (simp add: bnd_apply)
  moreover have "pstate (procs ?u p) = RUNNABLE \<and> slot (procs ?u p) = 0 \<and>
      running_t (procs ?u p) = running_t (procs s p) + of_int (QUANTA - 1) \<and> ticks ?u = ticks s + of_int QUANTA"
    using t by (simp add: proc_set_def ticked_def QUANTA_def)
  ultimately show "\<exists>t. for_each (replicate (nat QUANTA) ()) (\<lambda>_. trap FRR tf cr2 codes bs) s = Switch t \<and>
       pstate (procs t p) = RUNNABLE \<and> slot (procs t p) = 0 \<and>
       running_t (procs t p) = running_t (procs s p) + of_int (QUANTA - 1) \<and> ticks t = ticks s + of_int QUANTA" by blast
qed

lemma in_quantum0: "in_quantum 0 0 machine0"
  by (simp add: in_quantum_def proc0_def)

theorem frr_quantum_witness:
  "in_quantum 0 0 machine0 \<and> (\<exists>t. for_each (replicate 5 ()) (\<lambda>_. trap FRR (tf_zero\<lparr>tf_trapno := 32\<rparr>) 0 [] []) machine0 = Switch t \<and>
     running_t (procs t 0) = 4)"
  using frr_quantum [OF in_quantum0, of "tf_zero\<lparr>tf_trapno := 32\<rparr>" 0 "[]" "[]"] in_quantum0
  by (auto simp: trapno_defs QUANTA_def proc0_def)

text \<open>A context switch on the machine above: the clock makes \<open>init\<close> yield, and it is run again.\<close>

definition yielded0 :: machine where
  "yielded0 = proc_set 0 (\<lambda>x. x\<lparr>pstate := RUNNABLE\<rparr>) (ticked machine0)\<lparr>held := [PTableLock]\<rparr>"

lemma trap_yielded0: "trap DEFAULT (tf_zero\<lparr>tf_trapno := 32\<rparr>) 0 [] [] machine0 = Switch yielded0"
proof -
  have "trap DEFAULT (tf_zero\<lparr>tf_trapno := 32\<rparr>) 0 [] [] machine0 = tick_result DEFAULT 0 (ticked machine0)"
    by (rule clock_trap) (simp_all add: proc0_def trapno_defs)
  then show ?thesis by (simp add: tick_result_def yielded0_def)
qed

lemma runnable_yielded0: "pstate (procs yielded0 0) = RUNNABLE"
  by (simp add: yielded0_def proc_set_def)

theorem switch_completes_witness:
  "trap DEFAULT (tf_zero\<lparr>tf_trapno := 32\<rparr>) 0 [] [] machine0 = Switch yielded0 \<and>
   (\<exists>u q v. sched_back yielded0 = Ret () u \<and> scheduler_from sched_fuel DEFAULT 1 u = Ret (q, q + 1) v \<and> curproc v = Some q)"
  using switch_completes [OF kinv_machine0 trap_yielded0 _ runnable_yielded0, of 1] trap_yielded0
  by (auto simp: NPROC_def)

subsection \<open>No starvation\<close>

text \<open>The number of entries the loop visits from entry \<open>p\<close> before it reaches \<open>r\<close>.\<close>

definition gap :: "nat \<Rightarrow> nat \<Rightarrow> nat" where
  "gap p r = (if p \<le> r then r - p else NPROC - p + r)"

lemma next_runnable_gap:
  assumes "next_runnable p ps = Some q" "p \<le> NPROC" "r < NPROC" "pstate (ps r) = RUNNABLE" "q \<noteq> r"
  shows "gap (q + 1) r < gap p r"
  using assms(1,2)
proof (cases rule: next_runnable_cases)
  case later
  then show ?thesis using assms(2-5) by (auto simp: gap_def not_le)
next
  case wrap
  have "r < p" using wrap(4) [of r] assms(3,4) by (meson not_le)
  moreover have "q < r" using wrap(5) [of r] assms(4,5) by (meson linorder_neqE_nat)
  ultimately show ?thesis using assms(2) by (simp add: gap_def)
qed

lemma gap_bound: "p \<le> NPROC \<Longrightarrow> r < NPROC \<Longrightarrow> gap p r < NPROC"
  by (auto simp: gap_def)

text \<open>
  C18. No runnable process starves, under any of the policies. Let the scheduler be
  entered again and again, the \<open>k\<close>-th time in state \<open>s k\<close> at entry \<open>p k\<close> of the table, where
  it goes on after the process it ran last; in between the processes it ran do what
  they like. If \<open>r\<close> stays runnable until it is chosen, one of the first \<open>NPROC\<close> rounds
  runs it.
\<close>
theorem scheduler_no_starvation:
  assumes "r < NPROC" and "p 0 \<le> NPROC"
    and "\<And>k. sched_ready (s k)" and "\<And>k. pstate (procs (s k) r) = RUNNABLE"
    and "\<And>k q p' t. scheduler_from sched_fuel pol (p k) (s k) = Ret (q, p') t \<Longrightarrow> p (Suc k) = p'"
  shows "\<exists>k < NPROC. \<exists>t. scheduler_from sched_fuel pol (p k) (s k) = Ret (r, r + 1) t \<and> curproc t = Some r \<and>
     pstate (procs t r) = RUNNING"
proof (rule ccontr)
  assume no: "\<not> ?thesis"
  have step: "p (Suc k) \<le> NPROC \<and> gap (p (Suc k)) r < gap (p k) r" if "p k \<le> NPROC" "k < NPROC" for k
  proof -
    obtain q where q: "next_runnable (p k) (procs (s k)) = Some q" using next_runnable_exists assms(1,4) by blast
    have r: "scheduler_from sched_fuel pol (p k) (s k) = Ret (q, q + 1) (dispatched q (s k))"
      by (rule scheduler_next [OF assms(3) that(1) q])
    have "q \<noteq> r" using no r that(2) by (metis dispatched_sel(1,2))
    moreover have "q < NPROC" using next_runnable_bound [OF q that(1)] by simp
    ultimately show ?thesis
      using next_runnable_gap [OF q that(1) assms(1,4)] assms(5) [OF r] by simp
  qed
  have "p k \<le> NPROC \<and> gap (p k) r + k < NPROC" if "k \<le> NPROC" for k
    using that
  proof (induction k)
    case 0
    then show ?case using assms(1,2) gap_bound by simp
  next
    case (Suc k)
    then show ?case using step [of k] by simp
  qed
  from this [of NPROC] show False by simp
qed

text \<open>A run to try it on: entry 0 is the only runnable process.\<close>

definition ready0 :: machine where
  "ready0 = yielded0\<lparr>curproc := None\<rparr>"

lemma ready_ready0: "sched_ready ready0" "pstate (procs ready0 0) = RUNNABLE"
proof -
  have "kswitched yielded0" using trap_kst [OF kinv_machine0, of DEFAULT "tf_zero\<lparr>tf_trapno := 32\<rparr>" 0 "[]" "[]"]
    by (simp add: trap_yielded0)
  then show "sched_ready ready0" by (simp add: sched_ready_def ready0_def kswitched_def kinv_def arrays_ok_def)
  show "pstate (procs ready0 0) = RUNNABLE" by (simp add: ready0_def runnable_yielded0)
qed

lemma next_ready0: "p \<le> NPROC \<Longrightarrow> next_runnable p (procs ready0) = Some 0"
proof -
  assume p: "p \<le> NPROC"
  obtain q where q: "next_runnable p (procs ready0) = Some q"
    using next_runnable_exists [of 0 "procs ready0" p] ready_ready0(2) by (auto simp: NPROC_def)
  have "pstate (procs ready0 i) \<noteq> RUNNABLE" if "i \<noteq> 0" for i
    using that by (simp add: ready0_def yielded0_def proc_set_def ticked_def pstate_woken proc0_def)
  then have "q = 0" using next_runnable_bound [OF q p] by blast
  then show ?thesis using q by simp
qed

theorem scheduler_no_starvation_witness:
  "sched_ready ready0 \<and> (\<exists>k < NPROC. \<exists>t. scheduler_from sched_fuel FRR (if k = 0 then 64 else 1) ready0 = Ret (0, 0 + 1) t \<and> curproc t = Some 0 \<and>
     pstate (procs t 0) = RUNNING)"
proof -
  let ?p = "\<lambda>k :: nat. if k = 0 then 64 else 1 :: nat"
  have r: "scheduler_from sched_fuel FRR (?p k) ready0 = Ret (0, 1) (dispatched 0 ready0)" for k
    using scheduler_next [OF ready_ready0(1) _ next_ready0, of "?p k" FRR] by (simp add: NPROC_def)
  have "\<exists>k < NPROC. \<exists>t. scheduler_from sched_fuel FRR (?p k) ((\<lambda>_. ready0) k) = Ret (0, 0 + 1) t \<and> curproc t = Some 0 \<and>
      pstate (procs t 0) = RUNNING"
    by (rule scheduler_no_starvation) (use r ready_ready0 in \<open>auto simp: NPROC_def\<close>)
  then show ?thesis by (rule conjI [OF ready_ready0(1)])
qed

subsection \<open>The FCFS policy\<close>

text \<open>
  C21. The FCFS policy does not look at creation times: the variable that should hold the
  process created first is declared, and so reset, in each step of the loop over the
  table. The scheduler with FCFS behaves in every state as the default one, which
  runs the next runnable process in table order.
\<close>
theorem fcfs_is_table_order: "scheduler_from n FCFS p = scheduler_from n DEFAULT p"
proof (induction n arbitrary: p)
  case 0
  show ?case by simp
next
  case (Suc n)
  show ?case by (simp only: scheduler_from.simps Suc.IH sched_pick_iff)
qed

end
