(* ===== verification/Crash_Safety.thy ===== *)
theory Crash_Safety
  imports Samples
begin

text \<open>
  The properties of the log as a whole: \<open>commit\<close> installs the transaction and
  leaves an empty log, and a crash at any point of it, followed by any number of
  crashes during recovery, loses no atomicity.
\<close>

lemma log_ready_committed:
  assumes r: "log_ready p s"
    and w: "wrote (s\<lparr>lh_n := 0\<rparr>) (commit_writes (lstart s) (nat (lh_n s)) (lh_block s) (bview s)) t"
    and c: "cinv p Map.empty {} t"
  shows "log_ready p t" "pinned t = {}" "lh_n t = 0" "lstart t = lstart s" "lsize t = lsize s"
    "outstanding t = outstanding s" "committing t = committing s" "bframe (s\<lparr>lh_n := 0\<rparr>) t"
    "dwrites t = dwrites s @ commit_writes (lstart s) (nat (lh_n s)) (lh_block s) (bview s)"
    "\<not> in_log s b \<Longrightarrow> disk t b = bview s b" "\<not> in_log s b \<Longrightarrow> bview t b = bview s b"
proof -
  let ?W = "commit_writes (lstart s) (nat (lh_n s)) (lh_block s) (bview s)"
  note R = log_readyD [OF r] and F = commit_facts [OF r]
  note w' = wroteD [OF w] note f = log_fields [OF w'(5)]
  show pin: "pinned t = {}"
    using w'(4) R(5) by (auto simp: commit_writes_def image_Un fst_home_writes)
  show n: "lh_n t = 0" "lstart t = lstart s" "lsize t = lsize s" "outstanding t = outstanding s"
    "committing t = committing s" using f by simp_all
  have D: "disk t = apply_writes (disk s) ?W" using w'(2) by simp
  show "bframe (s\<lparr>lh_n := 0\<rparr>) t" "dwrites t = dwrites s @ ?W" using w'(3,5) by simp_all
  show d: "disk t b = bview s b" if "\<not> in_log s b" for b using crash_commit_done(2) [OF r that] D by simp
  then show "bview t b = bview s b" if "\<not> in_log s b" using that unpinned_view [OF c] pin by simp
  have "disk t (lstart s) = put32 (enc_head (bview s (lstart s)) (nat (lh_n s)) (lh_block s)) 0 0"
    unfolding D F(1) by simp
  then have "head_n (disk t (lstart t)) = 0" using head_n_clear F(3) by (simp add: n)
  moreover have "txn t 0 blk" for blk using R(2) n(3) by (simp add: txn_def log_geom_def)
  ultimately show "log_ready p t" using c f R(2) pin n by (simp add: log_ready_def)
qed

text \<open>
  Starting with a transaction in the cache, \<open>commit\<close> of log.c returns: every
  block outside the log then has on the disk, and in the cache, the contents the
  transaction gave it; no buffer stays dirty; and the log is empty and ready for
  the next transaction.
\<close>

theorem commit_installs:
  assumes "log_ready p s" and "0 < lh_n s"
  shows "ok commit s (\<lambda>_ t. log_ready p t \<and> lh_n t = 0 \<and> pinned t = {} \<and>
    (\<forall>b. \<not> in_log s b \<longrightarrow> disk t b = bview s b \<and> bview t b = bview s b))"
proof -
  have "ok commit s (\<lambda>_ t. cinv p Map.empty {} t \<and>
      wrote (s\<lparr>lh_n := 0\<rparr>) (commit_writes (lstart s) (nat (lh_n s)) (lh_block s) (bview s)) t)"
    using commit_rule [OF assms(1)] assms(2) by (simp add: commit_def whenk_def)
  then show ?thesis
    by (rule ok_mono) (intro conjI; use log_ready_committed [OF assms(1)] in blast)
qed

theorem commit_installs_witness:
  "ok commit log1 (\<lambda>_ t. log_ready 0 t \<and> lh_n t = 0 \<and> pinned t = {} \<and>
    (\<forall>b. \<not> in_log log1 b \<longrightarrow> disk t b = bview log1 b \<and> bview t b = bview log1 b))"
  by (rule commit_installs [OF ready_log1]) simp

text \<open>
  The super block on the disk of \<open>s\<close> places the log where \<open>s\<close> has it, and no
  transaction changes it; \<open>u\<close> is a machine that has just booted, its cache empty.
\<close>

definition log_placed :: "'z log_scheme \<Rightarrow> bool" where
  "log_placed s \<longleftrightarrow> 1 < disksize s \<and> sb_logstart (decode_sb (disk s 1)) = lstart s \<and>
     sint (sb_nlog (decode_sb (disk s 1))) = lsize s \<and> \<not> in_log s 1 \<and> 1 \<notin> pinned s"

definition booted :: "nat \<Rightarrow> 'z log_scheme \<Rightarrow> 'z log_scheme \<Rightarrow> bool" where
  "booted p s u \<longleftrightarrow> cinv p Map.empty {} u \<and> pinned u = {} \<and> disksize u = disksize s"

lemma booted_disk:
  assumes "log_placed s" and "booted p s u" and "crash_ok s (disk u)"
  shows "boot_disk p s u"
  using assms by (simp add: log_placed_def booted_def boot_disk_def crash_ok_def)

text \<open>
  Crash safety of \<open>commit\<close>. Let the machine stop after any number of the disk writes of a
  \<open>commit\<close>, and let it then boot and stop during recovery any number of times.
  \<open>initlog\<close> at the next boot returns, and afterwards either every block outside
  the log is as it was before the transaction, or every block is as the
  transaction left it.
\<close>

theorem commit_crash_safe:
  assumes "log_ready p s" and "0 < lh_n s" and "log_placed s" and "commit s = Ret () t"
    and "crashed (lstart s) (disk s) (drop (length (dwrites s)) (dwrites t)) (disk u)"
    and "booted q s u"
  shows "ok (initlog 1) u (\<lambda>_ v. lh_n v = 0 \<and>
    ((\<forall>b. \<not> in_log s b \<longrightarrow> disk v b = disk s b) \<or> (\<forall>b. \<not> in_log s b \<longrightarrow> disk v b = bview s b)))"
proof -
  have "ok commit s (\<lambda>_ t. cinv p Map.empty {} t \<and>
      wrote (s\<lparr>lh_n := 0\<rparr>) (commit_writes (lstart s) (nat (lh_n s)) (lh_block s) (bview s)) t)"
    using commit_rule [OF assms(1)] assms(2) by (simp add: commit_def whenk_def)
  then have "dwrites t = dwrites s @ commit_writes (lstart s) (nat (lh_n s)) (lh_block s) (bview s)"
    using assms(4) log_ready_committed(9) [OF assms(1)] by (auto simp: ok_def)
  then have C: "crash_ok s (disk u)"
    using assms(5) by (intro crashed_ok [OF assms(1)]) simp
  then have h: "head_ok s (disk u (lstart s))" and on: "old_or_new s (recovered (lstart s) (disk u))"
    by (simp_all add: crash_ok_def)
  show ?thesis
    by (rule ok_mono [OF initlog_rule [OF booted_disk [OF assms(3,6) C] log_readyD(2) [OF assms(1)] h]])
      (use on in \<open>simp add: old_or_new_def\<close>)
qed

text \<open>An instance: the machine stops after the second write, the header, of the commit of \<open>log1\<close>.\<close>

definition stopped1 :: "uint \<Rightarrow> bytes" where
  "stopped1 = apply_writes disk0 (take 2 (commit_writes 2 1 (\<lambda>_. 40) (bview log1)))"

lemma commit_log1: "\<exists>t. commit log1 = Ret () t \<and> dwrites t = commit_writes 2 1 (\<lambda>_. 40) (bview log1)"
proof -
  have "ok commit log1 (\<lambda>_ t. cinv 0 Map.empty {} t \<and>
      wrote (log1\<lparr>lh_n := 0\<rparr>) (commit_writes 2 1 (\<lambda>_. 40) (bview log1)) t)"
    using commit_rule [OF ready_log1] by (simp add: commit_def whenk_def)
  then show ?thesis
    using log_ready_committed(9) [OF ready_log1] by (auto simp: ok_iff)
qed

lemma booted_log0: "(\<And>b. length (D b) = BSIZE) \<Longrightarrow> booted 0 log1 (log0\<lparr>disk := D\<rparr>)"
proof -
  assume D: "\<And>b. length (D b) = BSIZE"
  have "cinv 0 Map.empty {} (log0\<lparr>disk := D\<rparr>)"
  proof (rule cinv_sample)
    show "bring (bufs (log0\<lparr>disk := D\<rparr>)) (rev [0..<NBUF])" by (simp add: bring_buf0)
    show "buf_ok (log0\<lparr>disk := D\<rparr>) i (bufs (log0\<lparr>disk := D\<rparr>) i)" for i
      by (simp add: buf_ok_def blocked_def) (simp add: buf0_def bdirty_def bvalid_def)
  qed (simp_all add: blocked_def buf_uniq_def is_block_def D buf0_def)
  then show ?thesis by (simp add: booted_def pinned_def is_block_def buf0_def)
qed

lemma length_stopped1: "length (stopped1 b) = BSIZE"
  by (simp add: stopped1_def commit_writes_def log_writes_def bview_log1 length_disk0)

lemma placed_log1: "log_placed log1"
  by (simp add: log_placed_def pinned_log1 in_log_def sb_disk0 sample_sb_def)

theorem commit_crash_safe_witness:
  "ok (initlog 1) (log0\<lparr>disk := stopped1\<rparr>) (\<lambda>_ v. lh_n v = 0 \<and>
    ((\<forall>b. \<not> in_log log1 b \<longrightarrow> disk v b = disk log1 b) \<or> (\<forall>b. \<not> in_log log1 b \<longrightarrow> disk v b = bview log1 b)))"
proof -
  obtain t where t: "commit log1 = Ret () t" "dwrites t = commit_writes 2 1 (\<lambda>_. 40) (bview log1)"
    using commit_log1 by blast
  have "crashed (lstart log1) (disk log1) (drop (length (dwrites log1)) (dwrites t)) (disk (log0\<lparr>disk := stopped1\<rparr>))"
    using crash_commit [where st = 2 and D = disk0 and k = 2] by (simp add: t(2) stopped1_def)
  from commit_crash_safe [OF ready_log1 _ placed_log1 t(1) this booted_log0 [OF length_stopped1]]
  show ?thesis by simp
qed

end
