(* ===== verification/Transaction.thy ===== *)
theory Transaction
  imports Crash_Safety
begin

unbundle bit_operations_syntax

text \<open>
  Transactions as the file system uses them: \<open>begin_op\<close>, changes to buffers each
  followed by \<open>log_write\<close>, \<open>end_op\<close>. \<open>tinv p H M s\<close> is the client's view inside a
  transaction: process \<open>p\<close> holds the buffers \<open>H\<close>, of which those of the blocks \<open>M\<close>
  have been changed and not yet logged. The rules say what each operation does to
  the contents \<open>bview\<close> of the blocks; the last part composes them to the atomicity
  of a whole transaction.
\<close>

subsection \<open>Marking a buffer dirty\<close>

definition mark_dirty :: "nat \<Rightarrow> 'z bcache_scheme \<Rightarrow> 'z bcache_scheme" where
  "mark_dirty i s = s\<lparr>bufs := (bufs s)(i := (bufs s i)\<lparr>bflags := bflags (bufs s i) OR B_DIRTY\<rparr>)\<rparr>"

lemma mark_dirty_sel [simp]:
  "disk (mark_dirty i s) = disk s" "dwrites (mark_dirty i s) = dwrites s" "disksize (mark_dirty i s) = disksize s"
  "held (mark_dirty i s) = held s" "slocks (mark_dirty i s) = slocks s" "procs (mark_dirty i s) = procs s"
  "curproc (mark_dirty i s) = curproc s" "bcache.more (mark_dirty i s) = bcache.more s"
  "bdev (bufs (mark_dirty i s) j) = bdev (bufs s j)"
  "is_block d b (bufs (mark_dirty i s) j) = is_block d b (bufs s j)"
  "bvalid (bufs (mark_dirty i s) j) = bvalid (bufs s j)"
  "bdirty (bufs (mark_dirty i s) j) \<longleftrightarrow> j = i \<or> bdirty (bufs s j)"
  "bdata (bufs (mark_dirty i s) j) = bdata (bufs s j)" "blockno (bufs (mark_dirty i s) j) = blockno (bufs s j)"
  "blocked (mark_dirty i s) j = blocked s j" "mine p (mark_dirty i s) j = mine p s j"
  by (simp_all add: mark_dirty_def is_block_def bvalid_iff bdirty_iff blocked_def mine_def bit_simps bit_flags)

lemma binv_mark:
  assumes "binv s" "blocked s i" "bvalid (bufs s i)" "bdev (bufs s i) = 1" "blockno (bufs s i) < disksize s"
  shows "binv (mark_dirty i s)"
proof -
  have "buf_ok (mark_dirty i s) j (bufs (mark_dirty i s) j)" if "j < NBUF" for j
  proof -
    have r: "refcnt (bufs (mark_dirty i s) j) = refcnt (bufs s j)"
      "bdev (bufs (mark_dirty i s) j) = bdev (bufs s j)" by (simp_all add: mark_dirty_def)
    show ?thesis using that assms unfolding binv_def buf_ok_def r by (cases "j = i") auto
  qed
  moreover have "buf_uniq (bufs (mark_dirty i s))" "bring (bufs (mark_dirty i s)) = bring (bufs s)"
    using assms(1) by (simp_all add: binv_def mark_dirty_def buf_uniq_upd bring_upd)
  ultimately show ?thesis using assms(1) by (simp add: binv_def)
qed

lemma bview_mark: "bview (mark_dirty i s) = bview s"
  by (intro ext bview_cong) simp_all

lemma pinned_mark: "i < NBUF \<Longrightarrow> is_block 1 b (bufs s i) \<Longrightarrow> pinned (mark_dirty i s) = insert b (pinned s)"
  by (auto simp: pinned_def is_block_def)

lemma mark_rule:
  assumes "cinv p H M s" and "H b = Some i" and "b < disksize s"
  shows "cinv p H (M - {b}) (mark_dirty i s)"
proof -
  note D = cinvD [OF assms(1)]
  have o: "owns_buf p b s i" using D(3) assms(2) by blast
  then have b: "i < NBUF" "is_block 1 b (bufs s i)" "bvalid (bufs s i)" "mine p s i"
    by (simp_all add: owns_buf_def)
  have "binv (mark_dirty i s)"
    using binv_mark [OF D(2) owns_blocked [OF o]] b assms(3) by (simp add: is_block_def)
  moreover have "owns_buf p c (mark_dirty i s) j \<and> (c \<in> M - {b} \<or> synced (mark_dirty i s) j)" if "H c = Some j" for c j
  proof (cases "c = b")
    case True
    with that assms(2) have "j = i" by simp
    with D(3) [OF that] show ?thesis by (simp add: owns_buf_def synced_def)
  next
    case False
    with D(3) [OF that] D(4) [OF that] show ?thesis by (auto simp: owns_buf_def synced_def)
  qed
  moreover have "ready p (mark_dirty i s)" using D(1) by (simp add: ready_def)
  ultimately show ?thesis using D(5) by (simp add: cinv_def)
qed

subsection \<open>What an operation in a transaction changes\<close>

definition lframe :: "'z log_scheme \<Rightarrow> 'z log_scheme \<Rightarrow> bool" where
  "lframe s t \<longleftrightarrow> (\<exists>pr sl bf n blk.
     t = s\<lparr>procs := pr, slocks := sl, bufs := bf, lh_n := n, lh_block := blk\<rparr> \<and>
     (\<forall>i. (pr i)\<lparr>pstate := pstate (procs s i)\<rparr> = procs s i) \<and>
     (\<forall>l. (\<forall>i. l \<noteq> BufLock i) \<longrightarrow> sl l = slocks s l))"

lemma lframeE:
  assumes "lframe s t"
  obtains pr sl bf n blk where "t = s\<lparr>procs := pr, slocks := sl, bufs := bf, lh_n := n, lh_block := blk\<rparr>"
    "\<And>i. (pr i)\<lparr>pstate := pstate (procs s i)\<rparr> = procs s i" "\<And>l. (\<forall>i. l \<noteq> BufLock i) \<Longrightarrow> sl l = slocks s l"
  using assms unfolding lframe_def by blast

lemma lframeI:
  assumes "t = s\<lparr>procs := pr, slocks := sl, bufs := bf, lh_n := n, lh_block := blk\<rparr>"
    "\<And>i. (pr i)\<lparr>pstate := pstate (procs s i)\<rparr> = procs s i" "\<And>l. (\<forall>i. l \<noteq> BufLock i) \<Longrightarrow> sl l = slocks s l"
  shows "lframe s t"
  unfolding lframe_def using assms by blast

lemma lframe_refl [simp]: "lframe s s"
  by (rule lframeI [where pr = "procs s" and sl = "slocks s" and bf = "bufs s" and n = "lh_n s" and blk = "lh_block s"])
    simp_all

lemma proc_pstate_trans:
  "(q :: proc)\<lparr>pstate := a\<rparr> = p \<Longrightarrow> (r :: proc)\<lparr>pstate := b\<rparr> = q \<Longrightarrow> r\<lparr>pstate := a\<rparr> = p"
  by (metis proc.update_convs(4) proc.surjective)

lemma lframe_trans: "lframe s t \<Longrightarrow> lframe t u \<Longrightarrow> lframe s u"
proof -
  assume a: "lframe s t" and b: "lframe t u"
  obtain pr sl bf n blk where t: "t = s\<lparr>procs := pr, slocks := sl, bufs := bf, lh_n := n, lh_block := blk\<rparr>"
    "\<And>i. (pr i)\<lparr>pstate := pstate (procs s i)\<rparr> = procs s i" "\<And>l. (\<forall>i. l \<noteq> BufLock i) \<Longrightarrow> sl l = slocks s l"
    using lframeE [OF a] by metis
  obtain pr' sl' bf' n' blk' where
    u: "u = t\<lparr>procs := pr', slocks := sl', bufs := bf', lh_n := n', lh_block := blk'\<rparr>"
    "\<And>i. (pr' i)\<lparr>pstate := pstate (procs t i)\<rparr> = procs t i" "\<And>l. (\<forall>i. l \<noteq> BufLock i) \<Longrightarrow> sl' l = slocks t l"
    using lframeE [OF b] by metis
  show ?thesis
  proof (rule lframeI)
    show "u = s\<lparr>procs := pr', slocks := sl', bufs := bf', lh_n := n', lh_block := blk'\<rparr>" using u(1) t(1) by simp
    show "(pr' i)\<lparr>pstate := pstate (procs s i)\<rparr> = procs s i" for i
      using proc_pstate_trans [OF t(2) [of i]] u(2) [of i] t(1) by simp
    show "sl' l = slocks s l" if "\<forall>i. l \<noteq> BufLock i" for l
      using u(3) [OF that] t(3) [OF that] t(1) by simp
  qed
qed

lemma lframe_keep: "bkeep s t \<Longrightarrow> lframe s t"
proof -
  assume k: "bkeep s t"
  obtain pr sl bf dk dw where t: "t = s\<lparr>procs := pr, slocks := sl, bufs := bf, disk := dk, dwrites := dw\<rparr>"
    "\<And>i. (pr i)\<lparr>pstate := pstate (procs s i)\<rparr> = procs s i" "\<And>l. (\<forall>i. l \<noteq> BufLock i) \<Longrightarrow> sl l = slocks s l"
    using bkeepD(5) [OF k] unfolding bframe_def by blast
  have "dk = disk s" "dw = dwrites s" using bkeepD(2,3) [OF k] t(1) by simp_all
  then have "t = s\<lparr>procs := pr, slocks := sl, bufs := bf, lh_n := lh_n s, lh_block := lh_block s\<rparr>"
    by (intro log.equality) (simp_all add: t(1))
  then show ?thesis using t(2,3) by (rule lframeI)
qed

lemma pstate_only:
  assumes "(r :: proc)\<lparr>pstate := a\<rparr> = q"
  shows "pid r = pid q" "killed r = killed q" "psz r = psz q" "ofile r = ofile q" "cwd r = cwd q" "ptf r = ptf q"
  using assms by auto

lemma lframeD:
  assumes "lframe s t"
  shows "held t = held s" "curproc t = curproc s" "disk t = disk s" "dwrites t = dwrites s"
    "disksize t = disksize s" "lstart t = lstart s" "lsize t = lsize s" "ldev t = ldev s"
    "outstanding t = outstanding s" "committing t = committing s" "log.more t = log.more s"
    "mem t = mem s" "cr3 t = cr3 s" "ticks t = ticks s" "in_log t b = in_log s b" "log_geom t = log_geom s"
    "(\<And>i. l \<noteq> BufLock i) \<Longrightarrow> slocks t l = slocks s l" "pid (procs t i) = pid (procs s i)"
    "killed (procs t i) = killed (procs s i)" "psz (procs t i) = psz (procs s i)"
    "ofile (procs t i) = ofile (procs s i)" "cwd (procs t i) = cwd (procs s i)" "ptf (procs t i) = ptf (procs s i)"
proof -
  obtain pr sl bf n blk where t: "t = s\<lparr>procs := pr, slocks := sl, bufs := bf, lh_n := n, lh_block := blk\<rparr>"
    "\<And>i. (pr i)\<lparr>pstate := pstate (procs s i)\<rparr> = procs s i" "\<And>l. (\<forall>i. l \<noteq> BufLock i) \<Longrightarrow> sl l = slocks s l"
    using lframeE [OF assms] by metis
  show "held t = held s" "curproc t = curproc s" "disk t = disk s" "dwrites t = dwrites s"
    "disksize t = disksize s" "lstart t = lstart s" "lsize t = lsize s" "ldev t = ldev s"
    "outstanding t = outstanding s" "committing t = committing s" "log.more t = log.more s"
    "mem t = mem s" "cr3 t = cr3 s" "ticks t = ticks s" "in_log t b = in_log s b" "log_geom t = log_geom s"
    "(\<And>i. l \<noteq> BufLock i) \<Longrightarrow> slocks t l = slocks s l"
    using t(3) [of l] by (simp_all add: t(1) in_log_def log_geom_def)
  show "pid (procs t i) = pid (procs s i)"
    "killed (procs t i) = killed (procs s i)" "psz (procs t i) = psz (procs s i)"
    "ofile (procs t i) = ofile (procs s i)" "cwd (procs t i) = cwd (procs s i)" "ptf (procs t i) = ptf (procs s i)"
    using pstate_only [OF t(2) [of i]] by (simp_all add: t(1))
qed

subsection \<open>The rules\<close>

definition tlog :: "'z log_scheme \<Rightarrow> bool" where
  "tlog s \<longleftrightarrow> log_geom s \<and> 0 \<le> lh_n s \<and> txn s (nat (lh_n s)) (lh_block s) \<and>
     pinned s = lh_block s ` {..<nat (lh_n s)} \<and> head_n (disk s (lstart s)) = 0 \<and> 1 \<le> outstanding s"

definition tinv :: "nat \<Rightarrow> (uint \<rightharpoonup> nat) \<Rightarrow> uint set \<Rightarrow> 'z log_scheme \<Rightarrow> bool" where
  "tinv p H M s \<longleftrightarrow> cinv p H M s \<and> tlog s"

lemma tlog_pinned:
  assumes "tlog s"
  shows "card (pinned s) = nat (lh_n s)" "in_log s b \<Longrightarrow> b \<notin> pinned s" "b \<in> pinned s \<Longrightarrow> b < disksize s"
    "lh_n s < lsize s" "lsize s \<le> int LOGSIZE"
  using assms card_image [of "lh_block s" "{..<nat (lh_n s)}"]
  by (auto simp: tlog_def txn_def log_geom_def)

lemma tlog_keep: "bkeep s t \<Longrightarrow> tlog s \<Longrightarrow> tlog t"
  using bkeepD [of s t] log_fields [of s t] by (simp add: tlog_def)

lemma t_bread:
  assumes "tinv p H M s" and "b < disksize s" and "H b = None"
    and "lh_n s + int (card (dom H)) < int NBUF"
  shows "ok (bread 1 b) s (\<lambda>i t. tinv p (H(b \<mapsto> i)) (M - {b}) t \<and> bkeep s t)"
proof -
  have "card (pinned s) + card (dom H) < NBUF"
    using assms(1,4) tlog_pinned(1) [of s] unfolding tinv_def tlog_def by linarith
  then have "ok (bread 1 b) s (\<lambda>i t. cinv p (H(b \<mapsto> i)) (M - {b}) t \<and> bkeep s t)"
    using assms by (intro bread_rule) (simp_all add: tinv_def)
  then show ?thesis by (rule ok_mono) (use assms(1) tlog_keep in \<open>auto simp: tinv_def\<close>)
qed

lemma t_data:
  assumes "tinv p H M s" and "H b = Some i"
  shows "bdata (bufs s i) = bview s b" "blockno (bufs s i) = b" "length (bview s c) = BSIZE"
  using assms owns_data [of s p b i] cinvD(3) [of p H M s b i] length_bview [OF cinvD(2), of p H M s c]
  by (auto simp: tinv_def owns_buf_def is_block_def dest: cinvD(2))

lemma t_put:
  assumes "tinv p H M s" and "H b = Some i" and "length d = BSIZE"
  shows "tinv p H (insert b M) (put_data i d s)" "bview (put_data i d s) = (bview s)(b := d)"
    "lframe s (put_data i d s)" "lh_n (put_data i d s) = lh_n s" "pinned (put_data i d s) = pinned s"
proof -
  have c: "cinv p H M s" using assms(1) by (simp add: tinv_def)
  note P = put_rule [OF c assms(2,3)] and f = log_fields [OF bframe_put [of s i d]]
  show "bview (put_data i d s) = (bview s)(b := d)" by (rule P(2))
  show "tinv p H (insert b M) (put_data i d s)"
    using assms(1) P(1) f by (simp add: tinv_def tlog_def) (simp add: put_data_def)
  show "lframe s (put_data i d s)"
    by (rule lframeI [where pr = "procs s" and sl = "slocks s" and bf = "bufs (put_data i d s)" and
          n = "lh_n s" and blk = "lh_block s"]) (simp_all add: put_data_def)
qed (simp_all add: log_fields(6) [OF bframe_put])

lemma t_brelse:
  assumes "tinv p H M s" and "H b = Some i" and "b \<notin> M"
  shows "ok (brelse i) s (\<lambda>_ t. tinv p (H(b := None)) M t \<and> bkeep s t)"
proof -
  have "ok (brelse i) s (\<lambda>_ t. cinv p (H(b := None)) M t \<and> bkeep s t)"
    using assms by (intro brelse_rule) (simp_all add: tinv_def)
  then show ?thesis by (rule ok_mono) (use assms(1) tlog_keep in \<open>auto simp: tinv_def\<close>)
qed

text \<open>The state after \<open>log_write\<close>: a block already in the log is absorbed.\<close>

definition logged_write :: "nat \<Rightarrow> 'z log_scheme \<Rightarrow> 'z log_scheme" where
  "logged_write i s = (let b = blockno (bufs s i) in mark_dirty i (
     if b \<in> lh_block s ` {..<nat (lh_n s)} then s
     else s\<lparr>lh_block := (lh_block s)(nat (lh_n s) := b), lh_n := lh_n s + 1\<rparr>))"

lemma log_write_apply:
  assumes "held s = []" and "0 \<le> lh_n s" "lh_n s < int LOGSIZE" "lh_n s < lsize s - 1" "1 \<le> outstanding s"
  shows "log_write i s = Ret () (logged_write i s)"
proof (cases "scan (nat (lh_n s)) (\<lambda>k. lh_block s k = blockno (bufs s i))")
  case None
  then have "blockno (bufs s i) \<notin> lh_block s ` {..<nat (lh_n s)}" by (auto simp: scan_None_iff)
  then show ?thesis
    using assms None by (simp add: log_write_def kcore logged_write_def Let_def mark_dirty_def)
next
  case (Some k)
  then have k: "k < nat (lh_n s)" "lh_block s k = blockno (bufs s i)" using scan_SomeD [OF Some] by simp_all
  then have "blockno (bufs s i) \<in> lh_block s ` {..<nat (lh_n s)}" by (metis imageI lessThan_iff)
  moreover have "(lh_block s)(k := blockno (bufs s i)) = lh_block s" using k(2) by (simp add: fun_upd_idem)
  ultimately show ?thesis
    using assms Some k(1) by (simp add: log_write_def kcore logged_write_def Let_def mark_dirty_def)
qed

lemma t_log_write:
  assumes "tinv p H M s" and "H b = Some i" and "b < disksize s" "\<not> in_log s b" "lh_n s < lsize s - 1"
  shows "ok (log_write i) s (\<lambda>_ t. tinv p H (M - {b}) t \<and> bview t = bview s \<and> lframe s t \<and>
    pinned t = insert b (pinned s) \<and> lh_n t \<le> lh_n s + 1)"
proof -
  have c: "cinv p H M s" and L: "tlog s" using assms(1) by (simp_all add: tinv_def)
  let ?n = "nat (lh_n s)"
  define u where "u = (if b \<in> pinned s then s else s\<lparr>lh_block := (lh_block s)(?n := b), lh_n := lh_n s + 1\<rparr>)"
  have u: "logged_write i s = mark_dirty i u"
    using t_data(2) [OF assms(1,2)] L by (simp add: logged_write_def u_def tlog_def Let_def)
  have h: "held s = []" using cinvD(1) [OF c] by (simp add: ready_def)
  have "log_write i s = Ret () (mark_dirty i u)"
    unfolding u [symmetric] using h L assms(5) by (intro log_write_apply) (simp_all add: tlog_def log_geom_def)
  moreover have cu: "cinv p H M u" "bview u = bview s" "pinned u = pinned s" using c by (simp_all add: u_def)
  moreover have us: "disk u = disk s" "lstart u = lstart s" "disksize u = disksize s" "lsize u = lsize s"
    "bufs u = bufs s" "in_log u = in_log s" "outstanding u = outstanding s" "log_geom u = log_geom s"
    by (simp_all add: u_def in_log_def log_geom_def fun_eq_iff)
  moreover have "cinv p H (M - {b}) (mark_dirty i u)"
    by (rule mark_rule [OF cu(1) assms(2)]) (simp add: us assms(3))
  moreover have pin: "pinned (mark_dirty i u) = insert b (pinned s)"
    using cinvD(3) [OF c assms(2)] by (subst pinned_mark [of i b]) (simp_all add: cu us owns_buf_def)
  moreover have n: "lh_n (mark_dirty i u) = lh_n u" "lh_block (mark_dirty i u) = lh_block u"
    "txn (mark_dirty i u) = txn u" "log_geom (mark_dirty i u) = log_geom u"
    "lstart (mark_dirty i u) = lstart u" "outstanding (mark_dirty i u) = outstanding u"
    by (simp_all add: mark_dirty_def txn_def in_log_def log_geom_def fun_eq_iff)
  moreover have "txn u (nat (lh_n u)) (lh_block u) \<and> insert b (pinned s) = lh_block u ` {..<nat (lh_n u)} \<and>
      0 \<le> lh_n u \<and> lh_n u \<le> lh_n s + 1"
  proof (cases "b \<in> pinned s")
    case True
    then show ?thesis using L by (simp add: u_def tlog_def insert_absorb)
  next
    case False
    have k: "nat (lh_n s + 1) = Suc ?n" using L by (simp add: tlog_def nat_add_distrib)
    have "b \<notin> lh_block s ` {..<?n}" using False L by (simp add: tlog_def)
    with L assms(3-5) False k show ?thesis
      by (auto simp: u_def tlog_def txn_def lessThan_Suc in_log_def inj_on_def)
  qed
  moreover have "lframe s (mark_dirty i u)"
    by (rule lframeI [where pr = "procs s" and sl = "slocks s" and bf = "bufs (mark_dirty i s)" and
          n = "lh_n u" and blk = "lh_block u"]) (simp_all add: mark_dirty_def u_def)
  ultimately show ?thesis
    using L by (auto simp: ok_def tinv_def tlog_def bview_mark)
qed

text \<open>
  The pattern in which the file system changes a block it holds: change its data,
  log it and release it; and the same with the read before it.
\<close>

lemma t_change:
  assumes "tinv p H {} s" and "H b = Some i" "b < disksize s" "\<not> in_log s b" "lh_n s < lsize s - 1"
    and "length (f (bview s b)) = BSIZE"
  shows "ok (seqs [buf_upd i (\<lambda>x. x\<lparr>bdata := f (bdata x)\<rparr>), log_write i, brelse i]) s
    (\<lambda>_ t. tinv p (H(b := None)) {} t \<and> bview t = (bview s)(b := f (bview s b)) \<and> lframe s t \<and>
       pinned t = insert b (pinned s) \<and> lh_n t \<le> lh_n s + 1)"
proof -
  let ?d = "f (bview s b)" and ?t = "put_data i (f (bview s b)) s"
  have d: "bdata (bufs s i) = bview s b" using t_data(1) [OF assms(1,2)] .
  note P = t_put [OF assms(1,2,6)] and FP = lframeD [OF t_put(3) [OF assms(1,2,6)]]
  have "ok (bnd (log_write i) (\<lambda>_. brelse i)) ?t (\<lambda>_ v. tinv p (H(b := None)) {} v \<and>
      bview v = (bview s)(b := ?d) \<and> lframe s v \<and> pinned v = insert b (pinned s) \<and> lh_n v \<le> lh_n s + 1)"
  proof (rule ok_bndI [OF t_log_write [OF P(1)]])
    show "H b = Some i" "b < disksize ?t" "\<not> in_log ?t b" "lh_n ?t < lsize ?t - 1"
      using assms(2-5) FP P(4) by simp_all
    fix u assume u: "tinv p H ({b} - {b}) u \<and> bview u = bview ?t \<and> lframe ?t u \<and>
      pinned u = insert b (pinned ?t) \<and> lh_n u \<le> lh_n ?t + 1"
    have "ok (brelse i) u (\<lambda>_ v. tinv p (H(b := None)) {} v \<and> bkeep u v)"
      using u assms(2) by (intro t_brelse) simp_all
    then show "ok (brelse i) u (\<lambda>_ v. tinv p (H(b := None)) {} v \<and> bview v = (bview s)(b := ?d) \<and> lframe s v \<and>
        pinned v = insert b (pinned s) \<and> lh_n v \<le> lh_n s + 1)"
    proof (rule ok_mono)
      fix v assume v: "tinv p (H(b := None)) {} v \<and> bkeep u v"
      then have "lframe s v" using u P(3) lframe_keep lframe_trans by blast
      moreover have "lh_n v = lh_n u" using v log_fields(6) [of u v] bkeepD(5) by blast
      ultimately show "tinv p (H(b := None)) {} v \<and> bview v = (bview s)(b := ?d) \<and> lframe s v \<and>
          pinned v = insert b (pinned s) \<and> lh_n v \<le> lh_n s + 1"
        using v u P bkeepD(1,4) [of u v] by simp
    qed
  qed
  moreover have "buf_upd i (\<lambda>x. x\<lparr>bdata := f (bdata x)\<rparr>) s = Ret () ?t"
    by (simp add: kcore put_data_def d)
  ultimately show ?thesis by (simp add: bnd_assoc ok_def bnd_apply)
qed

lemma t_modify:
  assumes "tinv p H {} s" and "b < disksize s" "\<not> in_log s b" "lh_n s < lsize s - 1" and "H b = None"
    and "lh_n s + int (card (dom H)) < int NBUF" and "length (f (bview s b)) = BSIZE"
  shows "ok (bnd (bread 1 b) (\<lambda>i. seqs [buf_upd i (\<lambda>x. x\<lparr>bdata := f (bdata x)\<rparr>), log_write i, brelse i])) s
    (\<lambda>_ t. tinv p H {} t \<and> bview t = (bview s)(b := f (bview s b)) \<and> lframe s t \<and>
       pinned t = insert b (pinned s) \<and> lh_n t \<le> lh_n s + 1)"
proof (rule ok_bndI [OF t_bread [OF assms(1,2,5,6)]])
  fix i t assume "tinv p (H(b \<mapsto> i)) ({} - {b}) t \<and> bkeep s t"
  then have t: "tinv p (H(b \<mapsto> i)) {} t" and k: "bkeep s t" by simp_all
  note K = bkeepD [OF k] and F = lframeD [OF lframe_keep [OF k]]
  have n: "lh_n t = lh_n s" using log_fields(6) [OF K(5)] .
  have H: "(H(b \<mapsto> i))(b := None) = H" using assms(5) by auto
  have "ok (seqs [buf_upd i (\<lambda>x. x\<lparr>bdata := f (bdata x)\<rparr>), log_write i, brelse i]) t
      (\<lambda>_ u. tinv p ((H(b \<mapsto> i))(b := None)) {} u \<and> bview u = (bview t)(b := f (bview t b)) \<and> lframe t u \<and>
       pinned u = insert b (pinned t) \<and> lh_n u \<le> lh_n t + 1)"
    using assms(2-4,7) F n K(1) by (intro t_change [OF t]) simp_all
  then show "ok (seqs [buf_upd i (\<lambda>x. x\<lparr>bdata := f (bdata x)\<rparr>), log_write i, brelse i]) t
      (\<lambda>_ u. tinv p H {} u \<and> bview u = (bview s)(b := f (bview s b)) \<and> lframe s u \<and>
       pinned u = insert b (pinned s) \<and> lh_n u \<le> lh_n s + 1)"
    by (rule ok_mono) (use K(1,4) n H lframe_trans [OF lframe_keep [OF k]] in auto)
qed

lemma t_room: "tinv p H M s \<Longrightarrow> lh_n s < int NBUF"
  using tlog_pinned(4,5) [of s] by (simp add: tinv_def param_defs)

subsection \<open>Whole transactions\<close>

definition log_idle :: "nat \<Rightarrow> 'z log_scheme \<Rightarrow> bool" where
  "log_idle p s \<longleftrightarrow> log_ready p s \<and> lh_n s = 0 \<and> outstanding s = 0 \<and> \<not> committing s \<and> int MAXOPBLOCKS < lsize s - 1"

definition block_write :: "uint \<Rightarrow> bytes \<Rightarrow> ('z log_scheme, unit) kop" where
  "block_write b d = bnd (bread 1 b) (\<lambda>i. seqs [buf_upd i (\<lambda>x. x\<lparr>bdata := d\<rparr>), log_write i, brelse i])"

definition transaction :: "(uint \<times> bytes) list \<Rightarrow> ('z log_scheme, unit) kop" where
  "transaction W = seqs [begin_op, for_each W (\<lambda>(b, d). block_write b d), end_op]"

text \<open>The blocks of a transaction: at most as many as \<open>begin_op\<close> reserves, and none of the log's.\<close>

definition home_txn :: "'z log_scheme \<Rightarrow> (uint \<times> bytes) list \<Rightarrow> bool" where
  "home_txn s W \<longleftrightarrow> card (fst ` set W) \<le> MAXOPBLOCKS \<and>
     (\<forall>(b, d) \<in> set W. b < disksize s \<and> \<not> in_log s b \<and> length d = BSIZE)"

lemma block_write_rule:
  assumes "tinv p Map.empty {} s" and "b < disksize s" "\<not> in_log s b" "lh_n s < lsize s - 1" and "length d = BSIZE"
  shows "ok (block_write b d) s (\<lambda>_ t. tinv p Map.empty {} t \<and> bview t = (bview s)(b := d) \<and> lframe s t \<and>
    pinned t = insert b (pinned s))"
  unfolding block_write_def
  by (rule ok_mono [OF t_modify [OF assms(1-4), of "\<lambda>_. d"]]) (use assms(5) t_room [OF assms(1)] in simp_all)

lemma block_writes_rule:
  assumes "tinv p Map.empty {} s" and "\<forall>(b, d) \<in> set W. b < disksize s \<and> \<not> in_log s b \<and> length d = BSIZE"
    and "int (card (pinned s \<union> fst ` set W)) < lsize s - 1"
  shows "ok (for_each W (\<lambda>(b, d). block_write b d)) s (\<lambda>_ t. tinv p Map.empty {} t \<and>
    bview t = apply_writes (bview s) W \<and> lframe s t \<and> pinned t = pinned s \<union> fst ` set W)"
  using assms
proof (induction W arbitrary: s)
  case (Cons x W)
  obtain b d where x: "x = (b, d)" by (cases x)
  let ?Q = "\<lambda>s t. tinv p Map.empty {} t \<and> bview t = apply_writes (bview s) W \<and> lframe s t \<and>
      pinned t = pinned s \<union> fst ` set W"
  have "card (pinned s) \<le> card (pinned s \<union> fst ` set (x # W))"
    by (rule card_mono) (auto simp: finite_pinned)
  then have n: "lh_n s < lsize s - 1"
    using Cons.prems(1,3) tlog_pinned(1) [of s] by (simp add: tinv_def tlog_def)
  have W: "ok (for_each W (\<lambda>(b, d). block_write b d)) t (\<lambda>_. ?Q t)"
    if "tinv p Map.empty {} t \<and> bview t = (bview s)(b := d) \<and> lframe s t \<and> pinned t = insert b (pinned s)" for t
  proof (rule Cons.IH)
    note F = lframeD [of s t]
    show "\<forall>(b, d) \<in> set W. b < disksize t \<and> \<not> in_log t b \<and> length d = BSIZE"
      using that Cons.prems(2) F(5,15) by auto
    show "int (card (pinned t \<union> fst ` set W)) < lsize t - 1"
      using that Cons.prems(3) F(7) x by (simp add: insert_commute)
  qed (use that in simp)
  have "ok (bnd (block_write b d) (\<lambda>_. for_each W (\<lambda>(b, d). block_write b d))) s (\<lambda>_ t. tinv p Map.empty {} t \<and>
      bview t = apply_writes ((bview s)(b := d)) W \<and> lframe s t \<and> pinned t = insert b (pinned s) \<union> fst ` set W)"
  proof (rule ok_bndI [OF block_write_rule [OF Cons.prems(1) _ _ n, of b d]])
    show "b < disksize s" "\<not> in_log s b" "length d = BSIZE" using Cons.prems(2) x by auto
    fix t assume t: "tinv p Map.empty {} t \<and> bview t = (bview s)(b := d) \<and> lframe s t \<and> pinned t = insert b (pinned s)"
    show "ok (for_each W (\<lambda>(b, d). block_write b d)) t (\<lambda>_ u. tinv p Map.empty {} u \<and>
      bview u = apply_writes ((bview s)(b := d)) W \<and> lframe s u \<and> pinned u = insert b (pinned s) \<union> fst ` set W)"
      by (rule ok_mono [OF W [OF t]]) (use t lframe_trans in auto)
  qed
  then show ?case by (simp add: x apply_writes_def insert_commute)
qed (simp add: apply_writes_def)

lemma log_count_simps [simp]:
  "txn (s\<lparr>outstanding := k\<rparr>) = txn s" "txn (s\<lparr>committing := c\<rparr>) = txn s"
  "in_log (s\<lparr>outstanding := k\<rparr>) = in_log s" "in_log (s\<lparr>committing := c\<rparr>) = in_log s"
  "log_geom (s\<lparr>outstanding := k\<rparr>) = log_geom s" "log_geom (s\<lparr>committing := c\<rparr>) = log_geom s"
  by (simp_all add: txn_def in_log_def log_geom_def fun_eq_iff)

lemma begin_op_apply:
  assumes "held s = []" and "\<not> committing s" "lh_n s + (outstanding s + 1) * int MAXOPBLOCKS \<le> int LOGSIZE"
  shows "begin_op s = Ret () (s\<lparr>outstanding := outstanding s + 1\<rparr>)"
  using assms by (simp add: begin_op_def begin_op_loop_def kcore)

lemma tinv_begin:
  assumes "log_idle p s"
  shows "tinv p Map.empty {} (s\<lparr>outstanding := 1\<rparr>)" "pinned s = {}" "bview s = disk s"
proof -
  note R = log_readyD [of p s]
  have r: "log_ready p s" "lh_n s = 0" using assms by (simp_all add: log_idle_def)
  show pin: "pinned s = {}" using R(5) [OF r(1)] r(2) by simp
  show "tinv p Map.empty {} (s\<lparr>outstanding := 1\<rparr>)"
    using R(1-6) [OF r(1)] r(2) pin by (simp add: tinv_def tlog_def)
  show "bview s = disk s" using unpinned_view [OF R(1) [OF r(1)]] pin by auto
qed

text \<open>Waking processes changes none of the predicates of the cache and the log.\<close>

lemma cinv_procs:
  assumes "\<And>i. pid (pr i) = pid (procs s i)"
  shows "cinv p H M (s\<lparr>procs := pr\<rparr>) = cinv p H M s"
proof -
  have b: "blocked (s\<lparr>procs := pr\<rparr>) = blocked s" by (simp add: fun_eq_iff blocked_def)
  have "mine p (s\<lparr>procs := pr\<rparr>) i = mine p s i" for i by (simp add: mine_def b assms)
  then show ?thesis by (simp add: cinv_def ready_def owns_buf_def synced_def b binv_def buf_ok_def)
qed

lemma view_procs [simp]: "bview (s\<lparr>procs := pr\<rparr>) = bview s" "pinned (s\<lparr>procs := pr\<rparr>) = pinned s"
  by (intro ext bview_cong) (simp_all add: pinned_def)

lemma log_ready_woken:
  "log_ready p s \<Longrightarrow> log_ready p (s\<lparr>procs := woken ch (procs s), committing := c\<rparr>)"
proof -
  have "txn (s\<lparr>procs := pr\<rparr>) = txn s" "log_geom (s\<lparr>procs := pr\<rparr>) = log_geom s" for pr
    by (simp_all add: txn_def log_geom_def in_log_def fun_eq_iff)
  then show "log_ready p s \<Longrightarrow> ?thesis" by (simp add: log_ready_def cinv_procs)
qed

text \<open>The last \<open>end_op\<close> of a group commits.\<close>

definition end_writes :: "'z log_scheme \<Rightarrow> (uint \<times> bytes) list" where
  "end_writes s = (if 0 < lh_n s then commit_writes (lstart s) (nat (lh_n s)) (lh_block s) (bview s) else [])"

lemma end_op_rule:
  assumes "tinv p Map.empty {} s" and "outstanding s = 1" "\<not> committing s" "int MAXOPBLOCKS < lsize s - 1"
  shows "ok end_op s (\<lambda>_ t. log_idle p t \<and> dwrites t = dwrites s @ end_writes s \<and> lstart t = lstart s \<and>
    (\<forall>b. \<not> in_log s b \<longrightarrow> disk t b = bview s b))"
proof -
  let ?s = "s\<lparr>outstanding := 0, committing := True\<rparr>"
  have c: "cinv p Map.empty {} s" and L: "tlog s" using assms(1) by (simp_all add: tinv_def)
  have r: "log_ready p ?s" using c L by (simp add: log_ready_def tlog_def)
  have h: "held s = []" using cinvD(1) [OF c] by (simp add: ready_def)
  let ?Q = "\<lambda>t. log_ready p t \<and> pinned t = {} \<and> lh_n t = 0 \<and> outstanding t = 0 \<and> lsize t = lsize s \<and>
      lstart t = lstart s \<and> dwrites t = dwrites s @ end_writes s \<and> (\<forall>b. \<not> in_log s b \<longrightarrow> disk t b = bview s b)"
  have com: "ok commit ?s (\<lambda>_. ?Q)"
  proof (cases "0 < lh_n s")
    case True
    have "ok commit ?s (\<lambda>_ t. cinv p Map.empty {} t \<and>
        wrote (?s\<lparr>lh_n := 0\<rparr>) (commit_writes (lstart ?s) (nat (lh_n ?s)) (lh_block ?s) (bview ?s)) t)"
      using commit_rule [OF r] True by (simp add: commit_def whenk_def)
    then show ?thesis
    proof (rule ok_mono)
      fix t assume t: "cinv p Map.empty {} t \<and>
        wrote (?s\<lparr>lh_n := 0\<rparr>) (commit_writes (lstart ?s) (nat (lh_n ?s)) (lh_block ?s) (bview ?s)) t"
      note C = log_ready_committed [OF r conjunct2 [OF t] conjunct1 [OF t]]
      have "disk t b = bview s b" if "\<not> in_log s b" for b using C(10) [of b] that by (simp add: in_log_def)
      with C show "?Q t" using True by (simp add: end_writes_def)
    qed
  next
    case False
    then have n: "lh_n s = 0" using L by (simp add: tlog_def)
    then have pin: "pinned s = {}" using L by (simp add: tlog_def)
    then have "bview s b = disk s b" for b using unpinned_view [OF c] by simp
    with n r pin show ?thesis by (simp add: commit_def whenk_def end_writes_def)
  qed
  let ?rest = "seqs [kacquire LogLock, mods (\<lambda>s. s\<lparr>committing := False\<rparr>), wakeup (Some ChLog), krelease LogLock]"
  have u: "s\<lparr>outstanding := 0, committing := True, held := []\<rparr> = ?s" by (rule log.equality) (simp_all add: h)
  have "end_op s = bnd commit (\<lambda>_. ?rest) (s\<lparr>outstanding := 0, committing := True, held := []\<rparr>)"
    using h assms(2,3) by (simp add: end_op_def kcore)
  then have e: "end_op s = bnd commit (\<lambda>_. ?rest) ?s" unfolding u .
  have "ok ?rest t (\<lambda>_ t. log_idle p t \<and> dwrites t = dwrites s @ end_writes s \<and> lstart t = lstart s \<and>
      (\<forall>b. \<not> in_log s b \<longrightarrow> disk t b = bview s b))" if t: "?Q t" for t
  proof -
    have "held t = []" using t log_readyD(1) [of p t] by (simp add: cinv_def ready_def)
    then have "?rest t = Ret () (t\<lparr>procs := woken (Some ChLog) (procs t), committing := False\<rparr>)"
      by (simp add: kcore)
    moreover have "log_idle p (t\<lparr>procs := woken (Some ChLog) (procs t), committing := False\<rparr>)"
      using t assms(4) by (simp add: log_idle_def log_ready_woken)
    ultimately show ?thesis using t by (simp add: ok_def)
  qed
  then have "ok (bnd commit (\<lambda>_. ?rest)) ?s (\<lambda>_ t. log_idle p t \<and> dwrites t = dwrites s @ end_writes s \<and>
      lstart t = lstart s \<and> (\<forall>b. \<not> in_log s b \<longrightarrow> disk t b = bview s b))"
    by (rule ok_bndI [OF com])
  then show ?thesis by (simp add: ok_def e)
qed

lemma in_log_frame: "lframe s t \<Longrightarrow> in_log t = in_log s"
  using lframeD(15) by (intro ext) blast

text \<open>The state in which the transaction \<open>W\<close>, started in \<open>s\<close>, commits.\<close>

definition at_commit :: "nat \<Rightarrow> 'z log_scheme \<Rightarrow> (uint \<times> bytes) list \<Rightarrow> 'z log_scheme \<Rightarrow> bool" where
  "at_commit p s W u \<longleftrightarrow> log_ready p u \<and> disk u = disk s \<and> lstart u = lstart s \<and> in_log u = in_log s \<and>
     disksize u = disksize s \<and> lsize u = lsize s \<and> pinned u = fst ` set W \<and> bview u = apply_writes (disk s) W"

definition txn_done :: "nat \<Rightarrow> 'z log_scheme \<Rightarrow> (uint \<times> bytes) list \<Rightarrow> 'z log_scheme \<Rightarrow> bool" where
  "txn_done p s W t \<longleftrightarrow> log_idle p t \<and> lstart t = lstart s \<and>
     (\<forall>b. \<not> in_log s b \<longrightarrow> disk t b = apply_writes (disk s) W b) \<and>
     (\<exists>u. at_commit p s W u \<and> dwrites t = dwrites s @ end_writes u)"

lemma transaction_rule:
  assumes "log_idle p s" and "home_txn s W"
  shows "ok (transaction W) s (\<lambda>_. txn_done p s W)"
proof -
  let ?s = "s\<lparr>outstanding := 1\<rparr>"
  have I: "held s = []" "\<not> committing s" "lh_n s = 0" "outstanding s = 0" "int MAXOPBLOCKS < lsize s - 1"
    using assms(1) log_readyD(1) [of p s] by (simp_all add: log_idle_def cinv_def ready_def)
  note T = tinv_begin [OF assms(1)]
  have b: "begin_op s = Ret () ?s" using I by (subst begin_op_apply) (simp_all add: param_defs)
  let ?P = "\<lambda>t. tinv p Map.empty {} t \<and> bview t = apply_writes (disk s) W \<and> lframe ?s t \<and> pinned t = fst ` set W"
  have "ok (for_each W (\<lambda>(b, d). block_write b d)) ?s (\<lambda>_. ?P)"
    by (rule ok_mono [OF block_writes_rule [OF T(1)]]) (use assms(2) I(5) T in \<open>auto simp: home_txn_def\<close>)
  then have "ok (bnd (for_each W (\<lambda>(b, d). block_write b d)) (\<lambda>_. end_op)) ?s (\<lambda>_. txn_done p s W)"
  proof (rule ok_bndI)
    fix u assume u: "?P u"
    then have F: "lframe ?s u" by simp
    note L = lframeD [OF F] and n = in_log_frame [OF F]
    have "log_ready p u" using u by (simp add: tinv_def tlog_def log_ready_def)
    then have a: "at_commit p s W u" using u L n by (simp add: at_commit_def)
    have o: "outstanding u = 1" "\<not> committing u" "int MAXOPBLOCKS < lsize u - 1" using L I by simp_all
    have eq: "dwrites u = dwrites s" "lstart u = lstart s" "in_log u = in_log s" using L n by simp_all
    show "ok end_op u (\<lambda>_. txn_done p s W)"
      by (rule ok_mono [OF end_op_rule [OF conjunct1 [OF u] o]])
        (use u a in \<open>auto simp only: eq txn_done_def\<close>)
  qed
  then show ?thesis by (simp add: transaction_def ok_def bnd_apply b bnd_assoc)
qed

text \<open>
  C2. A transaction of the file system, \<open>begin_op\<close>, up to ten changed blocks each
  read, changed, logged and released, and \<open>end_op\<close>, returns when the log is idle:
  afterwards every block outside the log has on the disk the contents the last
  change gave it, or those it had, and the log is idle again.
\<close>

theorem transaction_installs:
  assumes "log_idle p s" and "home_txn s W"
  shows "ok (transaction W) s (\<lambda>_ t. log_idle p t \<and>
    (\<forall>b. \<not> in_log s b \<longrightarrow> disk t b = apply_writes (disk s) W b))"
  by (rule ok_mono [OF transaction_rule [OF assms]]) (simp add: txn_done_def)

lemma idle_log0: "log_idle 0 log0"
  using cinv_log0
  by (simp add: log_idle_def log_ready_def pinned_log0 log_geom_def txn_def head_n_def disk0_def
      get32_def BSIZE_def param_defs)

definition two_blocks :: "(uint \<times> bytes) list" where
  "two_blocks = [(40, replicate BSIZE 7), (41, replicate BSIZE 8), (40, replicate BSIZE 9)]"

lemma home_two_blocks: "home_txn log0 two_blocks"
  by (simp add: home_txn_def two_blocks_def in_log_def param_defs card_insert_if)

theorem transaction_installs_witness:
  "ok (transaction two_blocks) log0 (\<lambda>_ t. log_idle 0 t \<and>
    (\<forall>b. \<not> in_log log0 b \<longrightarrow> disk t b = apply_writes (disk log0) two_blocks b))"
  by (rule transaction_installs [OF idle_log0 home_two_blocks])

lemma crashed_end_ok:
  assumes "log_ready p s" and "crashed (lstart s) (disk s) (end_writes s) D"
  shows "crash_ok s D"
proof (cases "0 < lh_n s")
  case True
  then show ?thesis using assms by (intro crashed_ok) (simp_all add: end_writes_def)
next
  case False
  have "crash_ok s (disk s)" using crash_commit_ok [OF assms(1), of 0] by (simp add: apply_writes_def)
  with assms(2) False show ?thesis
    by induction (simp_all add: end_writes_def apply_writes_def
        crash_recovery_ok [OF log_readyD(2) [OF assms(1)], unfolded apply_writes_def])
qed


lemma length_apply_writes:
  assumes "\<And>b. length (D b) = n" and "\<And>w. w \<in> set W \<Longrightarrow> length (snd w) = n"
  shows "length (apply_writes D W b) = n"
  using assms
proof (induction W arbitrary: D)
  case (Cons w W)
  have "length (apply_writes (D(fst w := snd w)) W b) = n"
    by (rule Cons.IH) (use Cons.prems in auto)
  then show ?case by (simp add: apply_writes_def split_def del: fun_upd_apply)
qed (simp add: apply_writes_def)

lemma length_end_writes:
  assumes "\<And>b. length (bview s b) = BSIZE" and "w \<in> set (end_writes s)"
  shows "length (snd w) = BSIZE"
  using assms by (auto simp: end_writes_def commit_writes_def log_writes_def home_writes_def split: if_splits)


end
