(* ===== verification/Free_Map.thy ===== *)
theory Free_Map
  imports Fs_Format Transaction
begin

unbundle bit_operations_syntax

text \<open>
  Allocation of disk blocks (\<open>balloc\<close>, \<open>bfree\<close>, \<open>bzero\<close> of fs.c) inside a transaction:
  what they do to the contents of the disk as the file system sees them.
\<close>

subsection \<open>Bits\<close>

lemma bit_used_iff: "bit_used d bi \<longleftrightarrow> bit (d ! (bi div 8)) (bi mod 8)"
  by (simp add: bit_used_def push_bit_of_1 and_exp_eq_0_iff_not_bit)

lemma bit_used_mark_used:
  assumes "bi div 8 < length d"
  shows "bit_used (mark_used bi d) bj \<longleftrightarrow> bj = bi \<or> bit_used d bj"
proof -
  have "bj = bi \<longleftrightarrow> bj div 8 = bi div 8 \<and> bj mod 8 = bi mod 8" by (metis div_mult_mod_eq)
  moreover have "bit (push_bit (bi mod 8) (1 :: uchar)) (bj mod 8) \<longleftrightarrow> bj mod 8 = bi mod 8"
    by (auto simp: bit_simps)
  ultimately show ?thesis
    using assms by (cases "bj div 8 = bi div 8") (auto simp: bit_used_iff mark_used_def bit_simps)
qed

lemma bit_used_mark_free:
  assumes "bi div 8 < length d"
  shows "bit_used (mark_free bi d) bj \<longleftrightarrow> bj \<noteq> bi \<and> bit_used d bj"
proof -
  have e: "bj = bi \<longleftrightarrow> bj div 8 = bi div 8 \<and> bj mod 8 = bi mod 8" by (metis div_mult_mod_eq)
  have "bit (NOT (push_bit (bi mod 8) (1 :: uchar))) (bj mod 8) \<longleftrightarrow> bj mod 8 \<noteq> bi mod 8"
    by (auto simp: bit_simps)
  then show ?thesis
    using assms e by (cases "bj div 8 = bi div 8") (auto simp: bit_used_iff mark_free_def bit_and_iff)
qed

subsection \<open>The free map\<close>

text \<open>
  The shape of the file system on the disk: it fits, and its map of free blocks is
  outside the log. The bound on its size keeps the 32-bit counters from wrapping.
\<close>

definition fs_geom :: "'z fs_scheme \<Rightarrow> bool" where
  "fs_geom s \<longleftrightarrow> sb_size (sb s) \<le> disksize s \<and> unat (sb_size (sb s)) + BPB < 2 ^ 32 \<and>
     (\<forall>b < sb_size (sb s). BBLOCK b (sb s) < disksize s \<and> \<not> in_log s (BBLOCK b (sb s)))"

definition used :: "'z fs_scheme \<Rightarrow> uint \<Rightarrow> bool" where
  "used s b \<longleftrightarrow> bit_used (bview s (BBLOCK b (sb s))) (unat b mod BPB)"

text \<open>The free blocks: not part of the log, nor of the map itself.\<close>

definition map_ok :: "'z fs_scheme \<Rightarrow> bool" where
  "map_ok s \<longleftrightarrow> (\<forall>b < sb_size (sb s). \<not> used s b \<longrightarrow> \<not> in_log s b \<and> (\<forall>c < sb_size (sb s). BBLOCK c (sb s) \<noteq> b))"

definition free_blocks :: "'z fs_scheme \<Rightarrow> uint set" where
  "free_blocks s = {b. b < sb_size (sb s) \<and> \<not> used s b}"

lemma fs_more:
  fixes s t :: "'z fs_scheme"
  assumes "log.more t = log.more s"
  shows "sb t = sb s" "inodes t = inodes s" "devsw t = devsw s" "fs.more t = fs.more s"
  using assms by (cases s, cases t, simp)+

lemma used_keep: "bkeep s t \<Longrightarrow> used t = used s" "bkeep s t \<Longrightarrow> free_blocks t = free_blocks s"
  using bkeepD(1) [of s t] fs_more [of t s] lframeD(11) [OF lframe_keep [of s t]]
  by (auto simp: used_def free_blocks_def fun_eq_iff)

lemma geom_frame:
  assumes "lframe s t"
  shows "sb t = sb s" "inodes t = inodes s" "devsw t = devsw s" "fs_geom t = fs_geom s" "in_log t = in_log s"
    "disksize t = disksize s" "lsize t = lsize s"
  using lframeD [OF assms] fs_more [of t s] in_log_frame [OF assms] by (simp_all add: fs_geom_def)

lemma BPB_word: "(of_nat BPB :: uint) = 4096" "BPB = 4096"
  by (simp_all add: BPB_def BSIZE_def)

lemma BBLOCK_unat: "BBLOCK b q = of_nat (unat b div BPB) + sb_bmapstart q"
proof -
  have "unat (b div 4096) = unat b div 4096" by (simp add: unat_div)
  moreover have "of_nat (unat (b div 4096)) = b div 4096" by simp
  ultimately have "b div 4096 = of_nat (unat b div 4096)" by simp
  then show ?thesis by (simp add: BBLOCK_def BPB_word)
qed

lemma bitmap_position:
  assumes "unat b = k * BPB" "bi < BPB" "unat b + BPB < 2 ^ 32"
  shows "unat (b + of_nat bi) = k * BPB + bi" "BBLOCK (b + of_nat bi) q = BBLOCK b q" "unat (b + of_nat bi) mod BPB = bi"
proof -
  have "unat (of_nat bi :: uint) = bi" using assms(2) by (simp add: unat_of_nat BPB_word)
  then show u: "unat (b + of_nat bi) = k * BPB + bi" using assms by (simp add: unat_word_ariths BPB_word)
  show "BBLOCK (b + of_nat bi) q = BBLOCK b q" using assms(1,2) by (simp add: BBLOCK_unat u)
  show "unat (b + of_nat bi) mod BPB = bi" using assms(2) by (simp add: u)
qed

lemma free_bit_iff:
  assumes "unat b = k * BPB" "unat b + BPB < 2 ^ 32"
  shows "free_bit (bview s (BBLOCK b (sb s))) b (sb_size (sb s)) =
    scan BPB (\<lambda>bi. b + of_nat bi \<in> free_blocks s)"
  unfolding free_bit_def free_blocks_def used_def
  by (rule scan_cong) (use bitmap_position [OF assms(1) _ assms(2)] in auto)

subsection \<open>Zeroing and allocating\<close>

text \<open>What is left of the log and of the buffers, for \<open>n\<close> more blocks.\<close>

definition t_space :: "(uint \<rightharpoonup> nat) \<Rightarrow> nat \<Rightarrow> 'z log_scheme \<Rightarrow> bool" where
  "t_space H n s \<longleftrightarrow> lh_n s + int n < lsize s \<and> lh_n s + int n + int (card (dom H)) < int NBUF"

lemma t_space_mono: "t_space H n s \<Longrightarrow> lframe s t \<Longrightarrow> lh_n t \<le> lh_n s + int k \<Longrightarrow> m + k \<le> n \<Longrightarrow> t_space H m t"
  using lframeD(7) [of s t] by (auto simp: t_space_def)

lemma bzero_rule:
  assumes "tinv p H {} s" "b < disksize s" "\<not> in_log s b" "H b = None" "t_space H 1 s"
  shows "ok (bzero 1 b) s (\<lambda>_ t. tinv p H {} t \<and> bview t = (bview s)(b := replicate BSIZE 0) \<and> lframe s t \<and>
    lh_n t \<le> lh_n s + 1)"
  unfolding bzero_def
  by (rule ok_mono [OF t_modify [OF assms(1-3), of "\<lambda>_. replicate BSIZE 0"]]) (use assms(4,5) in \<open>auto simp: t_space_def\<close>)

text \<open>The contents of the disk when block \<open>f\<close> has been allocated.\<close>

definition allocated :: "uint \<Rightarrow> 'z fs_scheme \<Rightarrow> uint \<Rightarrow> bytes" where
  "allocated f s = (bview s)(BBLOCK f (sb s) := mark_used (unat f mod BPB) (bview s (BBLOCK f (sb s))), f := replicate BSIZE 0)"

definition alloc_post :: "nat \<Rightarrow> (uint \<rightharpoonup> nat) \<Rightarrow> 'z fs_scheme \<Rightarrow> uint \<Rightarrow> 'z fs_scheme \<Rightarrow> bool" where
  "alloc_post p H s f t \<longleftrightarrow> tinv p H {} t \<and> bview t = allocated f s \<and> lframe s t \<and> lh_n t \<le> lh_n s + 2"

definition alloc_pre :: "nat \<Rightarrow> (uint \<rightharpoonup> nat) \<Rightarrow> 'z fs_scheme \<Rightarrow> bool" where
  "alloc_pre p H s \<longleftrightarrow> tinv p H {} s \<and> fs_geom s \<and> map_ok s \<and> t_space H 2 s \<and>
     (\<forall>b \<in> dom H. b \<notin> free_blocks s \<and> (\<forall>c < sb_size (sb s). BBLOCK c (sb s) \<noteq> b))"

lemma alloc_pre_keep: "bkeep s t \<Longrightarrow> tinv p H {} t \<Longrightarrow> alloc_pre p H s \<Longrightarrow> alloc_pre p H t"
  using used_keep [of s t] geom_frame [OF lframe_keep [of s t]] log_fields(6) [OF bkeepD(5), of s t]
  by (simp add: alloc_pre_def map_ok_def t_space_def)

lemma allocate_rule:
  assumes "tinv p (H(BBLOCK f (sb s) \<mapsto> i)) {} t" "bkeep s t" "alloc_pre p H s" "f \<in> free_blocks s"
    and m: "bi = unat f mod BPB"
  shows "ok (bnd (seqs [buf_upd i (\<lambda>x. x\<lparr>bdata := mark_used bi (bdata x)\<rparr>), log_write i, brelse i, bzero 1 f]) (\<lambda>_. ret f)) t
    (\<lambda>r u. r = f \<and> alloc_post p H s f u)"
proof -
  let ?B = "BBLOCK f (sb s)"
  note K = bkeepD [OF assms(2)] and F = geom_frame [OF lframe_keep [OF assms(2)]]
  have n: "lh_n t = lh_n s" using log_fields(6) [OF K(5)] .
  have f: "f < sb_size (sb s)" "\<not> used s f" using assms(4) by (simp_all add: free_blocks_def)
  have g: "?B < disksize s" "\<not> in_log s ?B" "f < disksize s" "\<not> in_log s f" "?B \<noteq> f"
    using assms(3) f by (auto simp: alloc_pre_def fs_geom_def map_ok_def)
  have H: "H ?B = None" "H f = None" using assms(3,4) f(1) by (auto simp: alloc_pre_def)
  have sp: "t_space H 2 s" using assms(3) by (simp add: alloc_pre_def)
  have len: "length (bview t ?B) = BSIZE" using t_data(3) [OF assms(1), of ?B i] by simp
  have "ok (bnd (seqs [buf_upd i (\<lambda>x. x\<lparr>bdata := mark_used bi (bdata x)\<rparr>), log_write i, brelse i]) (\<lambda>_. bzero 1 f)) t
     (\<lambda>_. alloc_post p H s f)"
  proof (rule ok_bndI [OF t_change [OF assms(1)]])
    show "(H(?B \<mapsto> i)) ?B = Some i" "?B < disksize t" "\<not> in_log t ?B" "lh_n t < lsize t - 1"
      "length (mark_used bi (bview t ?B)) = BSIZE"
      using g F n sp len by (simp_all add: t_space_def)
    fix u assume u: "tinv p ((H(?B \<mapsto> i))(?B := None)) {} u \<and> bview u = (bview t)(?B := mark_used bi (bview t ?B)) \<and>
      lframe t u \<and> pinned u = insert ?B (pinned t) \<and> lh_n u \<le> lh_n t + 1"
    have HB: "(H(?B \<mapsto> i))(?B := None) = H" using H(1) by auto
    have su: "lframe s u" using u lframe_trans [OF lframe_keep [OF assms(2)]] by blast
    have "ok (bzero 1 f) u (\<lambda>_ v. tinv p H {} v \<and> bview v = (bview u)(f := replicate BSIZE 0) \<and> lframe u v \<and> lh_n v \<le> lh_n u + 1)"
      using u HB g H(2) geom_frame [OF su] t_space_mono [OF sp su, of 1 1] n by (intro bzero_rule) simp_all
    then show "ok (bzero 1 f) u (\<lambda>_. alloc_post p H s f)"
      by (rule ok_mono) (use u su lframe_trans n K(1) m in \<open>auto simp: alloc_post_def allocated_def\<close>)
  qed
  then show ?thesis by (simp add: bnd_assoc)
qed

lemma unat_next_map: "unat (b :: uint) = k * BPB \<Longrightarrow> unat b + BPB < 2 ^ 32 \<Longrightarrow> unat (b + of_nat BPB) = (k + 1) * BPB"
  by (simp add: unat_word_ariths BPB_word)

lemma first_free:
  fixes b f :: uint
  assumes "unat b = k * BPB" "unat b + BPB < 2 ^ 32" "\<forall>c \<in> A. f \<le> c" "f \<in> A" "b \<le> f"
  shows "case scan BPB (\<lambda>bi. b + of_nat bi \<in> A) of
      Some bi \<Rightarrow> f = b + of_nat bi \<and> bi = unat f mod BPB | None \<Rightarrow> b + of_nat BPB \<le> f"
proof -
  have pos: "b + of_nat bi = c" if "unat c = unat b + bi" "bi < BPB" for bi c
    using bitmap_position(1) [OF assms(1) that(2) assms(2)] that(1) assms(1) by (simp add: word_unat_eq_iff)
  define j where "j = unat f - unat b"
  have uf: "unat f = unat b + j" using assms(5) by (simp add: j_def word_le_nat_alt)
  show ?thesis
  proof (cases "j < BPB")
    case True
    have fj: "b + of_nat j = f" using pos [OF uf True] .
    have "scan BPB (\<lambda>bi. b + of_nat bi \<in> A) = Some j"
    proof (rule scan_eqI [OF True])
      show "b + of_nat j \<in> A" using fj assms(4) by simp
      fix i assume i: "i < j"
      then have "unat (b + of_nat i) < unat f"
        using bitmap_position(1) [OF assms(1) _ assms(2), of i] True uf assms(1) by simp
      then show "b + of_nat i \<notin> A" using assms(3) by (auto simp: word_le_nat_alt)
    qed
    then show ?thesis using fj bitmap_position(3) [OF assms(1) True assms(2)] by auto
  next
    case False
    have "b + of_nat bi \<notin> A" if "bi < BPB" for bi
    proof -
      have "unat (b + of_nat bi) < unat f" using bitmap_position(1) [OF assms(1) that assms(2)] False uf assms(1) that by simp
      then show ?thesis using assms(3) by (auto simp: word_le_nat_alt)
    qed
    then have "scan BPB (\<lambda>bi. b + of_nat bi \<in> A) = None" by (simp add: scan_None_iff)
    moreover have "b + of_nat BPB \<le> f"
      using unat_next_map [OF assms(1,2)] False uf assms(1) by (simp add: word_le_nat_alt)
    ultimately show ?thesis by simp
  qed
qed

text \<open>The scan from block \<open>b\<close>, when all free blocks are at or after it.\<close>

lemma balloc_loop_rule:
  assumes "alloc_pre p H s" "unat b = k * BPB" "unat (sb_size (sb s)) \<le> (k + n) * BPB"
    "b \<le> f" "f \<in> free_blocks s" "\<forall>c \<in> free_blocks s. f \<le> c"
  shows "ok (balloc_loop (Suc n) 1 b) s (\<lambda>r t. r = f \<and> alloc_post p H s f t)"
  using assms
proof (induction n arbitrary: b k s)
  case 0
  then have "unat f < unat b" by (simp add: free_blocks_def word_less_nat_alt)
  then show ?case using "0.prems"(4) by (simp add: word_le_nat_alt)
next
  case (Suc n)
  have f: "f < sb_size (sb s)" using Suc.prems(5) by (simp add: free_blocks_def)
  then have b: "b < sb_size (sb s)" using Suc.prems(4) by simp
  have g: "fs_geom s" "tinv p H {} s" "t_space H 2 s" using Suc.prems(1) by (simp_all add: alloc_pre_def)
  have nw: "unat b + BPB < 2 ^ 32" using b g(1) by (simp add: fs_geom_def word_less_nat_alt)
  let ?B = "BBLOCK b (sb s)"
  have B: "?B < disksize s" "H ?B = None" using g(1) b Suc.prems(1) by (auto simp: fs_geom_def alloc_pre_def)
  have "ok (bnd (bread 1 ?B) (\<lambda>bp. bnd (buf_get bp bdata) (\<lambda>d. case free_bit d b (sb_size (sb s)) of
           Some bi \<Rightarrow> bnd (seqs [
               buf_upd bp (\<lambda>x. x\<lparr>bdata := mark_used bi (bdata x)\<rparr>),
               log_write bp,
               brelse bp,
               bzero 1 (b + of_nat bi)]) (\<lambda>_. ret (b + of_nat bi))
         | None \<Rightarrow> bnd (brelse bp) (\<lambda>_. balloc_loop (Suc n) 1 (b + of_nat BPB))))) s
     (\<lambda>r t. r = f \<and> alloc_post p H s f t)"
  proof (rule ok_bndI [OF t_bread [OF g(2) B]])
    show "lh_n s + int (card (dom H)) < int NBUF" using g(3) by (simp add: t_space_def)
    fix i t assume "tinv p (H(?B \<mapsto> i)) ({} - {?B}) t \<and> bkeep s t"
    then have t: "tinv p (H(?B \<mapsto> i)) {} t" and k: "bkeep s t" by simp_all
    have d: "bdata (bufs t i) = bview s ?B" using t_data(1) [OF t, of ?B i] bkeepD(1) [OF k] by simp
    note ff = first_free [OF Suc.prems(2) nw Suc.prems(6,5,4)]
    show "ok (bnd (buf_get i bdata) (\<lambda>d. case free_bit d b (sb_size (sb s)) of
           Some bi \<Rightarrow> bnd (seqs [
               buf_upd i (\<lambda>x. x\<lparr>bdata := mark_used bi (bdata x)\<rparr>),
               log_write i,
               brelse i,
               bzero 1 (b + of_nat bi)]) (\<lambda>_. ret (b + of_nat bi))
         | None \<Rightarrow> bnd (brelse i) (\<lambda>_. balloc_loop (Suc n) 1 (b + of_nat BPB)))) t
     (\<lambda>r t. r = f \<and> alloc_post p H s f t)"
    proof (cases "free_bit (bview s ?B) b (sb_size (sb s))")
      case (Some bi)
      then have sc: "scan BPB (\<lambda>bi. b + of_nat bi \<in> free_blocks s) = Some bi"
        by (simp add: free_bit_iff [OF Suc.prems(2) nw])
      have fb: "f = b + of_nat bi" "bi = unat f mod BPB" "bi < BPB"
        using ff [unfolded sc option.case] scan_SomeD [OF sc] by blast+
      have "BBLOCK f (sb s) = ?B" unfolding fb(1) by (rule bitmap_position(2) [OF Suc.prems(2) fb(3) nw])
      then have "ok (bnd (seqs [buf_upd i (\<lambda>x. x\<lparr>bdata := mark_used bi (bdata x)\<rparr>), log_write i, brelse i, bzero 1 f]) (\<lambda>_. ret f)) t
          (\<lambda>r u. r = f \<and> alloc_post p H s f u)"
        using t by (intro allocate_rule [OF _ k Suc.prems(1,5) fb(2)]) simp
      then show ?thesis using Some fb(1) by (simp add: d buf_get_def del: ok_bnd seqs.simps) (simp add: d)
    next
      case None
      then have sc: "scan BPB (\<lambda>bi. b + of_nat bi \<in> free_blocks s) = None"
        by (simp add: free_bit_iff [OF Suc.prems(2) nw])
      have next': "b + of_nat BPB \<le> f" using ff unfolding sc by simp
      have "ok (bnd (brelse i) (\<lambda>_. balloc_loop (Suc n) 1 (b + of_nat BPB))) t (\<lambda>r t. r = f \<and> alloc_post p H s f t)"
      proof (rule ok_bndI [OF t_brelse [OF t, of ?B i]])
        fix u assume u: "tinv p ((H(?B \<mapsto> i))(?B := None)) {} u \<and> bkeep t u"
        have HB: "(H(?B \<mapsto> i))(?B := None) = H" using B(2) by auto
        have su: "bkeep s u" using u k bkeep_trans by blast
        note U = used_keep [OF su] geom_frame [OF lframe_keep [OF su]]
        have "ok (balloc_loop (Suc n) 1 (b + of_nat BPB)) u (\<lambda>r t. r = f \<and> alloc_post p H u f t)"
        proof (rule Suc.IH)
          show "alloc_pre p H u" using alloc_pre_keep [OF su _ Suc.prems(1)] u HB by simp
          show "unat (b + of_nat BPB) = (k + 1) * BPB" by (rule unat_next_map [OF Suc.prems(2) nw])
          show "unat (sb_size (sb u)) \<le> (k + 1 + n) * BPB" using Suc.prems(3) U by simp
        qed (use Suc.prems(5,6) U next' in simp_all)
        then show "ok (balloc_loop (Suc n) 1 (b + of_nat BPB)) u (\<lambda>r t. r = f \<and> alloc_post p H s f t)"
          by (rule ok_mono) (use su U bkeepD(1) [OF su] lframe_trans [OF lframe_keep [OF su]] log_fields(6) [OF bkeepD(5) [OF su]]
              in \<open>auto simp: alloc_post_def allocated_def\<close>)
      qed simp_all
      then show ?thesis using None by (simp add: d buf_get_def del: ok_bnd balloc_loop.simps) (simp add: d del: balloc_loop.simps)
    qed
  qed
  then show ?case using b by (simp only: balloc_loop.simps(2) [of "Suc n"]) (simp del: balloc_loop.simps ok_bnd add: bnd_apply ok_def)
qed

lemma balloc_rule:
  assumes "alloc_pre p H s" "f \<in> free_blocks s" "\<forall>c \<in> free_blocks s. f \<le> c"
  shows "ok (balloc 1) s (\<lambda>r t. r = f \<and> alloc_post p H s f t)"
proof -
  have "unat (sb_size (sb s)) < 2 ^ 32" using unsigned_less [of "sb_size (sb s)"] by simp
  then have "unat (sb_size (sb s)) \<le> (0 + 2 ^ 20) * BPB" by (simp add: BPB_word)
  then show ?thesis
    unfolding balloc_def using assms by (intro balloc_loop_rule [where k = 0]) (simp_all del: balloc_loop.simps)
qed

lemma balloc_loop_full:
  assumes "alloc_pre p H s" "unat b = k * BPB" "unat (sb_size (sb s)) \<le> (k + n) * BPB" "free_blocks s = {}"
  shows "balloc_loop (Suc n) 1 b s = Panic ''balloc: out of blocks''"
  using assms
proof (induction n arbitrary: b k s)
  case 0
  then have "\<not> b < sb_size (sb s)" by (simp add: word_less_nat_alt)
  then show ?case by (simp add: bnd_apply)
next
  case (Suc n)
  show ?case
  proof (cases "b < sb_size (sb s)")
    case False
    then show ?thesis by (simp add: bnd_apply)
  next
    case b: True
    have g: "fs_geom s" "tinv p H {} s" "t_space H 2 s" using Suc.prems(1) by (simp_all add: alloc_pre_def)
    have nw: "unat b + BPB < 2 ^ 32" using b g(1) by (simp add: fs_geom_def word_less_nat_alt)
    let ?B = "BBLOCK b (sb s)"
    have B: "?B < disksize s" "H ?B = None" "lh_n s + int (card (dom H)) < int NBUF"
      using g b Suc.prems(1) by (auto simp: fs_geom_def alloc_pre_def t_space_def)
    obtain i t where t: "bread 1 ?B s = Ret i t" "tinv p (H(?B \<mapsto> i)) {} t" "bkeep s t"
      using t_bread [OF g(2) B] by (auto simp: ok_iff)
    have d: "bdata (bufs t i) = bview s ?B" using t_data(1) [OF t(2), of ?B i] bkeepD(1) [OF t(3)] by simp
    have none: "free_bit (bview s ?B) b (sb_size (sb s)) = None"
      unfolding free_bit_iff [OF Suc.prems(2) nw] using Suc.prems(4) by (simp add: scan_None_iff)
    obtain u where u: "brelse i t = Ret () u" "tinv p ((H(?B \<mapsto> i))(?B := None)) {} u" "bkeep t u"
      using t_brelse [OF t(2), of ?B i] by (auto simp: ok_iff)
    have HB: "(H(?B \<mapsto> i))(?B := None) = H" using B(2) by auto
    have su: "bkeep s u" using u(3) t(3) bkeep_trans by blast
    note U = used_keep [OF su] geom_frame [OF lframe_keep [OF su]]
    have "balloc_loop (Suc n) 1 (b + of_nat BPB) u = Panic ''balloc: out of blocks''"
    proof (rule Suc.IH)
      show "alloc_pre p H u" using alloc_pre_keep [OF su _ Suc.prems(1)] u(2) HB by simp
      show "unat (b + of_nat BPB) = (k + 1) * BPB" by (rule unat_next_map [OF Suc.prems(2) nw])
      show "unat (sb_size (sb u)) \<le> (k + 1 + n) * BPB" using Suc.prems(3) U by simp
    qed (use Suc.prems(4) U in simp)
    then show ?thesis
      using b t(1) u(1) none by (simp only: balloc_loop.simps(2) [of "Suc n"]) (simp del: balloc_loop.simps add: kcore d)
  qed
qed

subsection \<open>The free blocks after an operation\<close>

lemma same_map_block:
  assumes "BBLOCK b q = BBLOCK c q" "unat b mod BPB = unat c mod BPB"
  shows "b = c"
proof -
  have "unat x div BPB < 2 ^ 20" for x :: uint
  proof -
    have "unat x < 2 ^ 32" using unsigned_less [of x] by simp
    then show ?thesis by (simp add: BPB_word less_mult_imp_div_less)
  qed
  from this [of b] this [of c] have "unat b div BPB = unat c div BPB"
    using assms(1) by (simp add: BBLOCK_unat word_of_nat_eq_iff take_bit_nat_eq_self)
  then have "unat b = unat c" using assms(2) by (metis div_mult_mod_eq)
  then show ?thesis by (simp add: word_unat_eq_iff)
qed

lemma bit_index: "unat (b :: uint) mod BPB div 8 < BSIZE"
  by (simp add: BPB_word BSIZE_def less_mult_imp_div_less)

lemma free_blocks_upd:
  assumes "sb t = sb s" "bview t (BBLOCK f (sb s)) = m (bview s (BBLOCK f (sb s)))"
    and "\<And>b. b < sb_size (sb s) \<Longrightarrow> BBLOCK b (sb s) \<noteq> BBLOCK f (sb s) \<Longrightarrow> bview t (BBLOCK b (sb s)) = bview s (BBLOCK b (sb s))"
    and "\<And>bj. bit_used (m (bview s (BBLOCK f (sb s)))) bj \<longleftrightarrow> (if bj = unat f mod BPB then v else bit_used (bview s (BBLOCK f (sb s))) bj)"
    and "f < sb_size (sb s)"
  shows "free_blocks t = (if v then free_blocks s - {f} else insert f (free_blocks s))"
proof -
  have "used t b \<longleftrightarrow> (if b = f then v else used s b)" if "b < sb_size (sb s)" for b
  proof (cases "BBLOCK b (sb s) = BBLOCK f (sb s)")
    case True
    then have "unat b mod BPB = unat f mod BPB \<longleftrightarrow> b = f" using same_map_block by blast
    then show ?thesis using True assms(1,2,4) by (simp add: used_def)
  next
    case False
    then show ?thesis using assms(1,3) that by (auto simp: used_def)
  qed
  then show ?thesis using assms(1,5) by (auto simp: free_blocks_def split: if_splits)
qed

lemma alloc_post_free:
  assumes "alloc_pre p H s" "f \<in> free_blocks s" "alloc_post p H s f t"
  shows "free_blocks t = free_blocks s - {f}" "bview t f = replicate BSIZE 0"
    "b \<noteq> f \<Longrightarrow> b \<noteq> BBLOCK f (sb s) \<Longrightarrow> bview t b = bview s b"
proof -
  have f: "f < sb_size (sb s)" "\<And>c. c < sb_size (sb s) \<Longrightarrow> BBLOCK c (sb s) \<noteq> f"
    using assms(1,2) by (auto simp: free_blocks_def alloc_pre_def map_ok_def)
  have len: "length (bview s b) = BSIZE" for b
    using assms(1) length_bview [OF cinvD(2)] by (auto simp: alloc_pre_def tinv_def)
  have v: "bview t = allocated f s" "sb t = sb s" using assms(3) geom_frame(1) by (auto simp: alloc_post_def)
  show "free_blocks t = free_blocks s - {f}"
    using free_blocks_upd [where v = True and m = "mark_used (unat f mod BPB)", OF v(2)] f bit_used_mark_used bit_index len
    by (simp add: v(1) allocated_def)
qed (use assms(3) in \<open>auto simp: alloc_post_def allocated_def\<close>)

text \<open>
  C22. Block allocation. In a transaction, on a file system whose map marks the log and
  the map itself as used, \<open>balloc\<close> behaves as follows. If a block is free it returns the
  lowest free block \<open>f\<close>: afterwards \<open>f\<close> is no longer free, its contents are zeros, every
  other free block is still free, and the contents of all other blocks but the
  block of the map are unchanged. If no block is free it panics.
\<close>
theorem balloc_allocates:
  assumes "alloc_pre p H s"
  shows "(free_blocks s \<noteq> {} \<longrightarrow> ok (balloc 1) s (\<lambda>f t. f \<in> free_blocks s \<and> (\<forall>c \<in> free_blocks s. f \<le> c) \<and>
       free_blocks t = free_blocks s - {f} \<and> bview t f = replicate BSIZE 0 \<and>
       (\<forall>b. b \<noteq> f \<longrightarrow> b \<noteq> BBLOCK f (sb s) \<longrightarrow> bview t b = bview s b) \<and> tinv p H {} t)) \<and>
     (free_blocks s = {} \<longrightarrow> balloc 1 s = Panic ''balloc: out of blocks'')"
proof (intro conjI impI)
  assume ne: "free_blocks s \<noteq> {}"
  define f where "f = Min (free_blocks s)"
  have f: "f \<in> free_blocks s" "\<forall>c \<in> free_blocks s. f \<le> c" using ne by (simp_all add: f_def)
  show "ok (balloc 1) s (\<lambda>f t. f \<in> free_blocks s \<and> (\<forall>c \<in> free_blocks s. f \<le> c) \<and>
       free_blocks t = free_blocks s - {f} \<and> bview t f = replicate BSIZE 0 \<and>
       (\<forall>b. b \<noteq> f \<longrightarrow> b \<noteq> BBLOCK f (sb s) \<longrightarrow> bview t b = bview s b) \<and> tinv p H {} t)"
    by (rule ok_mono [OF balloc_rule [OF assms f]])
      (use f alloc_post_free [OF assms f(1)] in \<open>auto simp: alloc_post_def\<close>)
next
  assume "free_blocks s = {}"
  moreover have "unat (sb_size (sb s)) \<le> (0 + 2 ^ 20) * BPB"
  proof -
    have "unat (sb_size (sb s)) < 2 ^ 32" using unsigned_less [of "sb_size (sb s)"] by simp
    then show ?thesis by (simp add: BPB_word)
  qed
  ultimately show "balloc 1 s = Panic ''balloc: out of blocks''"
    unfolding balloc_def by (intro balloc_loop_full [OF assms, where k = 0]) simp_all
qed

subsection \<open>Freeing\<close>

lemma bfree_rule:
  assumes "alloc_pre p H s" "b < sb_size (sb s)" "used s b"
  shows "ok (bfree 1 b) s (\<lambda>_ t. tinv p H {} t \<and> lframe s t \<and> lh_n t \<le> lh_n s + 1 \<and>
    bview t = (bview s)(BBLOCK b (sb s) := mark_free (unat b mod BPB) (bview s (BBLOCK b (sb s)))))"
proof -
  let ?B = "BBLOCK b (sb s)" and ?m = "mark_free (unat b mod BPB)"
  have g: "fs_geom s" "tinv p H {} s" "t_space H 2 s" using assms(1) by (simp_all add: alloc_pre_def)
  have B: "?B < disksize s" "H ?B = None" "lh_n s + int (card (dom H)) < int NBUF" "\<not> in_log s ?B"
    using g assms(1,2) by (auto simp: fs_geom_def alloc_pre_def t_space_def)
  obtain i t where t: "bread 1 ?B s = Ret i t" "tinv p (H(?B \<mapsto> i)) {} t" "bkeep s t"
    using t_bread [OF g(2) B(1-3)] by (auto simp: ok_iff)
  note K = bkeepD [OF t(3)] and F = geom_frame [OF lframe_keep [OF t(3)]]
  have n: "lh_n t = lh_n s" using log_fields(6) [OF K(5)] .
  have d: "bdata (bufs t i) = bview s ?B" using t_data(1) [OF t(2), of ?B i] K(1) by simp
  have HB: "(H(?B \<mapsto> i))(?B := None) = H" using B(2) by auto
  have len: "length (bview t ?B) = BSIZE" using t_data(3) [OF t(2), of ?B i] by simp
  have "ok (seqs [buf_upd i (\<lambda>x. x\<lparr>bdata := ?m (bdata x)\<rparr>), log_write i, brelse i]) t
      (\<lambda>_ u. tinv p ((H(?B \<mapsto> i))(?B := None)) {} u \<and> bview u = (bview t)(?B := ?m (bview t ?B)) \<and> lframe t u \<and>
       pinned u = insert ?B (pinned t) \<and> lh_n u \<le> lh_n t + 1)"
    using B F n g(3) len by (intro t_change [OF t(2)]) (simp_all add: t_space_def)
  then have "ok (seqs [buf_upd i (\<lambda>x. x\<lparr>bdata := ?m (bdata x)\<rparr>), log_write i, brelse i]) t
      (\<lambda>_ u. tinv p H {} u \<and> lframe s u \<and> lh_n u \<le> lh_n s + 1 \<and> bview u = (bview s)(?B := ?m (bview s ?B)))"
    by (rule ok_mono) (use HB K(1) n lframe_trans [OF lframe_keep [OF t(3)]] in auto)
  moreover have "bfree 1 b s = seqs [buf_upd i (\<lambda>x. x\<lparr>bdata := ?m (bdata x)\<rparr>), log_write i, brelse i] t"
    using assms(3) by (simp add: bfree_def bnd_apply t(1) buf_get_def d used_def Let_def)
  ultimately show ?thesis by (simp add: ok_def)
qed

text \<open>
  C23. Freeing a block that is in use makes it free and changes nothing else: the other
  bits of the map and the contents of all blocks outside it stay as they are.
  Freeing a block that is already free panics.
\<close>
theorem bfree_frees:
  assumes "alloc_pre p H s" and "b < sb_size (sb s)"
  shows "(used s b \<longrightarrow> ok (bfree 1 b) s (\<lambda>_ t. free_blocks t = insert b (free_blocks s) \<and>
       (\<forall>c. c \<noteq> BBLOCK b (sb s) \<longrightarrow> bview t c = bview s c) \<and> tinv p H {} t)) \<and>
     (\<not> used s b \<longrightarrow> bfree 1 b s = Panic ''freeing free block'')"
proof (intro conjI impI)
  assume u: "used s b"
  have len: "length (bview s c) = BSIZE" for c
    using assms(1) length_bview [OF cinvD(2)] by (auto simp: alloc_pre_def tinv_def)
  have "free_blocks t = insert b (free_blocks s)"
    if "lframe s t" "bview t = (bview s)(BBLOCK b (sb s) := mark_free (unat b mod BPB) (bview s (BBLOCK b (sb s))))" for t
    using free_blocks_upd [where v = False and m = "mark_free (unat b mod BPB)" and s = s and t = t and f = b] that
      geom_frame(1) [OF that(1)] assms(2) bit_used_mark_free bit_index len by simp
  then show "ok (bfree 1 b) s (\<lambda>_ t. free_blocks t = insert b (free_blocks s) \<and>
       (\<forall>c. c \<noteq> BBLOCK b (sb s) \<longrightarrow> bview t c = bview s c) \<and> tinv p H {} t)"
    by (intro ok_mono [OF bfree_rule [OF assms u]]) auto
next
  let ?B = "BBLOCK b (sb s)"
  assume u: "\<not> used s b"
  have B: "?B < disksize s" "H ?B = None" "lh_n s + int (card (dom H)) < int NBUF" "tinv p H {} s"
    using assms by (auto simp: fs_geom_def alloc_pre_def t_space_def)
  obtain i t where t: "bread 1 ?B s = Ret i t" "tinv p (H(?B \<mapsto> i)) {} t" "bkeep s t"
    using t_bread [OF B(4,1-3)] by (auto simp: ok_iff)
  have "bdata (bufs t i) = bview s ?B" using t_data(1) [OF t(2), of ?B i] bkeepD(1) [OF t(3)] by simp
  then show "bfree 1 b s = Panic ''freeing free block''"
    using u by (simp add: bfree_def bnd_apply t(1) buf_get_def used_def Let_def)
qed

subsection \<open>An instance\<close>

text \<open>
  A file system inside a transaction on the sample disk: its map, block 58, marks the
  59 blocks before the data as used.
\<close>

definition map0 :: bytes where
  "map0 = replicate 7 255 @ [7] @ replicate 504 0"

definition fs0 :: fs where
  "fs0 = log.extend (log0\<lparr>outstanding := 1, disk := disk0(58 := map0)\<rparr>) (fs.fields sample_sb (\<lambda>_. inode0) (\<lambda>_. NoDev))"

lemma fs0_sel [simp]:
  "held fs0 = []" "curproc fs0 = Some 0" "procs fs0 = (\<lambda>_. proc0)" "bufs fs0 = buf0" "disk fs0 = disk0(58 := map0)"
  "disksize fs0 = 1000" "dwrites fs0 = []" "lstart fs0 = 2" "lsize fs0 = 30" "ldev fs0 = 1" "lh_n fs0 = 0"
  "slocks fs0 l = \<lparr>slocked = False, slname = [], slpid = 0\<rparr>" "outstanding fs0 = 1" "sb fs0 = sample_sb"
  "inodes fs0 = (\<lambda>_. inode0)" "devsw fs0 = (\<lambda>_. NoDev)"
  by (simp_all add: fs0_def log.extend_def fs.fields_def log0_def)

lemma cinv_fs0: "cinv 0 Map.empty {} fs0"
proof (rule cinv_sample)
  show "bring (bufs fs0) (rev [0..<NBUF])" by (simp add: bring_buf0)
  show "buf_ok fs0 i (bufs fs0 i)" for i
    by (simp add: buf_ok_def blocked_def) (simp add: buf0_def bdirty_def bvalid_def)
qed (simp_all add: blocked_def buf_uniq_def is_block_def length_disk0 buf0_def map0_def BSIZE_def)

lemma pinned_fs0: "pinned fs0 = {}"
  by (simp add: pinned_def is_block_def buf0_def)

lemma tinv_fs0: "tinv 0 Map.empty {} fs0"
  using cinv_fs0
  by (simp add: tinv_def tlog_def pinned_fs0 log_geom_def txn_def head_n_def disk0_def get32_def BSIZE_def param_defs)

lemma bview_fs0: "bview fs0 b = (disk0(58 := map0)) b"
  using unpinned_view [OF cinv_fs0, of b] by (simp add: pinned_fs0)

lemma BBLOCK_fs0: "b < 1000 \<Longrightarrow> BBLOCK b sample_sb = 58"
proof -
  assume "b < (1000 :: uint)"
  then have "unat b div BPB = 0" by (simp add: BPB_word word_less_nat_alt)
  then show ?thesis by (simp add: BBLOCK_unat sample_sb_def)
qed

lemma used_fs0: "b < 59 \<Longrightarrow> used fs0 b" "\<not> used fs0 59"
proof -
  assume b: "b < (59 :: uint)"
  then have u: "unat b < 59" "b < 1000" by (simp_all add: word_less_nat_alt)
  have m: "unat b mod BPB = unat b" using u(1) by (simp add: BPB_word)
  have "bit (255 :: uchar) k" if "k < 8" for k
  proof -
    have "(mask 8 :: uchar) = 255" by (simp add: mask_eq_exp_minus_1)
    moreover have "bit (mask 8 :: uchar) k" using that by (simp add: bit_mask_iff)
    ultimately show ?thesis by (simp del: mask_eq_exp_minus_1)
  qed
  moreover have "bit (7 :: uchar) k" if "k < 3" for k
  proof -
    have "k = 0 \<or> k = 1 \<or> k = 2" using that by auto
    then show ?thesis by (auto simp: bit_numeral_rec)
  qed
  moreover have "unat b div 8 < 7 \<or> unat b div 8 = 7 \<and> unat b mod 8 < 3" using u(1) by presburger
  ultimately show "used fs0 b"
    by (auto simp: used_def bview_fs0 BBLOCK_fs0 u(2) m bit_used_iff map0_def nth_append)
next
  have "\<not> bit (7 :: uchar) 3" by (simp add: bit_numeral_rec)
  then show "\<not> used fs0 59"
    by (simp add: used_def bview_fs0 BBLOCK_fs0 BPB_word bit_used_iff map0_def nth_append)
qed

lemma alloc_pre_fs0: "alloc_pre 0 Map.empty fs0"
proof -
  have "58 < sb_size sample_sb" by (simp add: sample_sb_def)
  have "fs_geom fs0" by (auto simp: fs_geom_def sample_sb_def [THEN arg_cong [of _ _ sb_size]] BBLOCK_fs0 in_log_def BPB_word)
  moreover have "map_ok fs0"
    unfolding map_ok_def
  proof (intro allI impI)
    fix b assume "b < sb_size (sb fs0)" "\<not> used fs0 b"
    then have b: "\<not> b < 59" using used_fs0(1) by blast
    then have "\<not> in_log fs0 b" by (auto simp: in_log_def word_less_nat_alt)
    moreover have "BBLOCK c (sb fs0) \<noteq> b" if "c < sb_size (sb fs0)" for c
      using that b BBLOCK_fs0 [of c] by (auto simp: sample_sb_def)
    ultimately show "\<not> in_log fs0 b \<and> (\<forall>c < sb_size (sb fs0). BBLOCK c (sb fs0) \<noteq> b)" by blast
  qed
  ultimately show ?thesis by (simp add: alloc_pre_def tinv_fs0 t_space_def param_defs)
qed

theorem balloc_allocates_witness:
  "59 \<in> free_blocks fs0 \<and> ok (balloc 1) fs0 (\<lambda>f t. f \<in> free_blocks fs0 \<and> free_blocks t = free_blocks fs0 - {f})"
proof -
  have f: "59 \<in> free_blocks fs0" using used_fs0(2) by (simp add: free_blocks_def sample_sb_def)
  then have "free_blocks fs0 \<noteq> {}" by blast
  from ok_mono [OF mp [OF conjunct1 [OF balloc_allocates [OF alloc_pre_fs0]] this]] f show ?thesis by auto
qed

theorem bfree_frees_witness:
  "ok (bfree 1 40) fs0 (\<lambda>_ t. free_blocks t = insert 40 (free_blocks fs0)) \<and> bfree 1 59 fs0 = Panic ''freeing free block''"
proof -
  have b: "40 < sb_size (sb fs0)" "59 < sb_size (sb fs0)" by (simp_all add: sample_sb_def)
  have "used fs0 40" by (rule used_fs0(1)) simp
  from ok_mono [OF mp [OF conjunct1 [OF bfree_frees [OF alloc_pre_fs0 b(1)]] this]]
    bfree_frees [OF alloc_pre_fs0 b(2)] used_fs0(2)
  show ?thesis by auto
qed

end
