(* ===== verification/User.thy ===== *)
theory User
  imports Console
begin

text \<open>
  User programs and the part of their library that makes system calls (ulib.c,
  printf.c). A program sees the kernel only through its system calls: it is modelled
  as a function that issues calls and continues with the replies. The replies are a
  parameter, lists that the program consumes from the front, so a program is
  modelled for every behaviour of the kernel, \<open>fork\<close> returning in the parent or in the
  child included. The calls issued so far are recorded.

  Outcomes are those of the kernel: \<open>Switch\<close> is a program that has called \<open>exit\<close>, or that
  waits in a call that has no reply yet; \<open>Wild\<close> is one that reads arguments that are
  not there or returns from \<open>main\<close>, which has no caller.
\<close>

subsection \<open>System calls\<close>

datatype ucall = Fork | Exit | Wait | Pipe | Read int nat | Kill int | Exec string "string list" | Fstat int
  | Chdir string | Dup int | Getpid | Sbrk int | Sleep int | Uptime | Open string int | Write int string
  | Mknod string int int | Unlink string | Link string string | Mkdir string | Close int
  | Getyear | Runtime | Waittime | Turntime

record ustat =
  us_type :: int
  us_ino :: int
  us_size :: int

text \<open>A reply: the result, and what the call stored through a pointer.\<close>

record reply =
  rval :: int
  rdata :: string
  rfds :: "int \<times> int"
  rstat :: ustat

text \<open>The replies to \<open>read\<close> are a list of their own, the input of the program.\<close>

record user =
  replies :: "reply list"
  input :: "reply list"
  calls :: "ucall list"

type_synonym 'a uop = "(user, 'a) kop"

definition emit :: "ucall \<Rightarrow> unit uop" where
  "emit c = mods (\<lambda>s. s\<lparr>calls := calls s @ [c]\<rparr>)"

definition get_reply :: "reply uop" where
  "get_reply = (\<lambda>s. case replies s of [] \<Rightarrow> Switch s | r # rs \<Rightarrow> Ret r (s\<lparr>replies := rs\<rparr>))"

definition get_input :: "reply uop" where
  "get_input = (\<lambda>s. case input s of [] \<Rightarrow> Switch s | r # rs \<Rightarrow> Ret r (s\<lparr>input := rs\<rparr>))"

definition left :: "user \<Rightarrow> nat" where
  "left s = length (replies s) + length (input s)"

definition sys :: "ucall \<Rightarrow> int uop" where
  "sys c = bnd (emit c) (\<lambda>_. bnd get_reply (\<lambda>r. ret (rval r)))"

definition uexit :: "'a uop" where
  "uexit = bnd (emit Exit) (\<lambda>_. switch)"

text \<open>
  \<open>read\<close> stores at most \<open>n\<close> bytes and returns their number, 0 at the end of the file; a
  negative result is an error, here \<open>None\<close>.
\<close>

definition uread :: "int \<Rightarrow> nat \<Rightarrow> string option uop" where
  "uread fd n = bnd (emit (Read fd n)) (\<lambda>_. bnd get_input (\<lambda>r.
     ret (if rval r < 0 then None else Some (take n (rdata r)))))"

definition ufstat :: "int \<Rightarrow> ustat option uop" where
  "ufstat fd = bnd (emit (Fstat fd)) (\<lambda>_. bnd get_reply (\<lambda>r. ret (if rval r < 0 then None else Some (rstat r))))"

definition upipe :: "(int \<times> int) option uop" where
  "upipe = bnd (emit Pipe) (\<lambda>_. bnd get_reply (\<lambda>r. ret (if rval r < 0 then None else Some (rfds r))))"

subsection \<open>Loops\<close>

text \<open>
  A loop whose body gives the next value of its variables or the value it ends
  with. Every turn of the loops of the programs makes a system call, so one turn
  more than there are replies is enough fuel: \<open>uloop_unfold\<close> below shows that \<open>uloop\<close> is
  the loop itself.
\<close>

primrec loop :: "nat \<Rightarrow> ('a \<Rightarrow> ('a + 'b) uop) \<Rightarrow> 'a \<Rightarrow> 'b uop" where
  "loop 0 body x = wild ''loop''"
| "loop (Suc n) body x = bnd (body x) (\<lambda>r. case r of Inl y \<Rightarrow> loop n body y | Inr z \<Rightarrow> ret z)"

definition uloop :: "('a \<Rightarrow> ('a + 'b) uop) \<Rightarrow> 'a \<Rightarrow> 'b uop" where
  "uloop body x = bnd (gets left) (\<lambda>n. loop (Suc n) body x)"

text \<open>A body that consumes a reply in every turn that goes on.\<close>

definition eats :: "('a \<Rightarrow> ('a + 'b) uop) \<Rightarrow> bool" where
  "eats body \<longleftrightarrow> (\<forall>x s y t. body x s = Ret (Inl y) t \<longrightarrow> left t < left s)"

lemma loop_more:
  "eats body \<Longrightarrow> left s < n \<Longrightarrow> left s < m \<Longrightarrow> loop n body x s = loop m body x s"
proof (induction n arbitrary: m x s)
  case 0
  then show ?case by simp
next
  case (Suc n)
  then obtain k where m: "m = Suc k" by (cases m) auto
  have "loop n body y t = loop k body y t" if "body x s = Ret (Inl y) t" for y t
  proof -
    have "left t < left s" using Suc.prems(1) that by (auto simp: eats_def)
    then show ?thesis using Suc.prems m by (intro Suc.IH) auto
  qed
  then show ?case by (auto simp: m bnd_apply split: outcome.split sum.split)
qed

lemma uloop_unfold:
  assumes "eats body"
  shows "uloop body x = bnd (body x) (\<lambda>r. case r of Inl y \<Rightarrow> uloop body y | Inr z \<Rightarrow> ret z)"
proof
  fix s
  have "loop (left s) body y t = loop (Suc (left t)) body y t" if "body x s = Ret (Inl y) t" for y t
  proof -
    have "left t < left s" using assms that by (auto simp: eats_def)
    then show ?thesis by (intro loop_more [OF assms]) auto
  qed
  then show "uloop body x s = bnd (body x) (\<lambda>r. case r of Inl y \<Rightarrow> uloop body y | Inr z \<Rightarrow> ret z) s"
    by (auto simp: uloop_def bnd_apply split: outcome.split sum.split)
qed

text \<open>Routines that never give replies back; a body is checked with the rules \<open>eat\<close>.\<close>

definition keeps :: "'a uop \<Rightarrow> bool" where
  "keeps m \<longleftrightarrow> (\<forall>s x t. m s = Ret x t \<longrightarrow> left t \<le> left s)"

named_theorems eat "routines that only consume replies"

lemma keeps_ret [eat]: "keeps (ret x)" by (simp add: keeps_def ret_apply)
lemma keeps_emit [eat]: "keeps (emit c)" by (simp add: keeps_def emit_def left_def)
lemma keeps_get_reply [eat]: "keeps get_reply" by (auto simp: keeps_def get_reply_def left_def split: list.splits)
lemma keeps_get_input [eat]: "keeps get_input" by (auto simp: keeps_def get_input_def left_def split: list.splits)
lemma keeps_wild [eat]: "keeps (wild e)" by (simp add: keeps_def)
lemma keeps_switch [eat]: "keeps switch" by (simp add: keeps_def switch_apply)

lemma keeps_bnd [eat]: "keeps m \<Longrightarrow> (\<And>x. keeps (f x)) \<Longrightarrow> keeps (bnd m f)"
  by (fastforce simp: keeps_def bnd_Ret_iff)

lemma keeps_uexit [eat]: "keeps uexit" unfolding uexit_def by (intro eat)
lemma keeps_sys [eat]: "keeps (sys c)" unfolding sys_def by (intro eat)

lemma keeps_for_each [eat]: "(\<And>i. keeps (f i)) \<Longrightarrow> keeps (for_each is f)"
  by (induction "is") (auto intro: eat)

lemma keeps_loop: "(\<And>x. keeps (body x)) \<Longrightarrow> keeps (loop n body x)"
proof (induction n arbitrary: x)
  case 0
  show ?case unfolding loop.simps by (rule eat)
next
  case (Suc n)
  then show ?case unfolding loop.simps by (intro keeps_bnd) (auto intro: keeps_ret split: sum.split)
qed

lemma keeps_uloop [eat]: "(\<And>x. keeps (body x)) \<Longrightarrow> keeps (uloop body x)"
proof -
  assume "\<And>x. keeps (body x)"
  then have "keeps (loop n body x)" for n by (rule keeps_loop)
  moreover have "uloop body x s = loop (Suc (left s)) body x s" for s
    by (simp add: uloop_def bnd_apply del: loop.simps)
  ultimately show ?thesis unfolding keeps_def by metis
qed

lemma keeps_uread [eat]: "keeps (uread fd n)" unfolding uread_def by (intro eat)
lemma keeps_ufstat [eat]: "keeps (ufstat fd)" unfolding ufstat_def by (intro eat)
lemma keeps_upipe [eat]: "keeps upipe" unfolding upipe_def by (intro eat)
lemma keeps_if [eat]: "keeps m \<Longrightarrow> keeps m' \<Longrightarrow> keeps (if b then m else m')" by simp
lemma keeps_option [eat]: "keeps m \<Longrightarrow> (\<And>x. keeps (f x)) \<Longrightarrow> keeps (case r of None \<Rightarrow> m | Some x \<Rightarrow> f x)" by (simp split: option.split)
lemma keeps_list [eat]: "keeps m \<Longrightarrow> (\<And>x xs. keeps (f x xs)) \<Longrightarrow> keeps (case r of [] \<Rightarrow> m | x # xs \<Rightarrow> f x xs)" by (simp split: list.split)
lemma keeps_prod [eat]: "(\<And>x y. keeps (f x y)) \<Longrightarrow> keeps (case r of (x, y) \<Rightarrow> f x y)" by (simp split: prod.split)
lemma keeps_whenk [eat]: "keeps m \<Longrightarrow> keeps (whenk b m)" by (simp add: whenk_def keeps_ret)
lemma keeps_Let [eat]: "(\<And>x. keeps (f x)) \<Longrightarrow> keeps (let x = e in f x)" by simp

text \<open>Routines that consume a reply.\<close>

definition takes :: "'a uop \<Rightarrow> bool" where
  "takes m \<longleftrightarrow> (\<forall>s x t. m s = Ret x t \<longrightarrow> left t < left s)"

lemma takes_call: "takes (sys c)" "takes (uread fd n)" "takes (ufstat fd)" "takes upipe"
  by (auto simp: takes_def sys_def uread_def ufstat_def upipe_def emit_def get_reply_def get_input_def left_def bnd_Ret_iff ret_apply
    split: list.splits)

lemma takes_bnd: "takes m \<Longrightarrow> (\<And>x. keeps (f x)) \<Longrightarrow> takes (bnd m f)" "keeps m \<Longrightarrow> (\<And>x. takes (f x)) \<Longrightarrow> takes (bnd m f)"
  unfolding takes_def keeps_def bnd_Ret_iff by (blast intro: le_less_trans less_le_trans)+

lemma eatsI: "(\<And>x. takes (body x)) \<Longrightarrow> eats body"
  by (auto simp: eats_def takes_def)

subsection \<open>Formatted output (printf.c)\<close>

definition uputc :: "int \<Rightarrow> char \<Rightarrow> unit uop" where
  "uputc fd c = bnd (sys (Write fd [c])) (\<lambda>_. ret ())"

definition uputs :: "int \<Rightarrow> string \<Rightarrow> unit uop" where
  "uputs fd s = for_each s (uputc fd)"

text \<open>The digits are those of the kernel's \<open>printint\<close> in upper case.\<close>

definition udigits :: bytes where
  "udigits = map of_char ''0123456789ABCDEF''"

definition uprintint :: "int \<Rightarrow> uint \<Rightarrow> uint \<Rightarrow> bool \<Rightarrow> unit uop" where
  "uprintint fd xx base sg = (case printint_buf udigits xx base sg of None \<Rightarrow> wild ''printint''
     | Some buf \<Rightarrow> uputs fd (map (\<lambda>c. char_of (unat c)) (rev buf)))"

text \<open>The arguments after the format: a word, or a pointer to a string.\<close>

datatype uarg = UNum uint | UStr string

fun uprintf_loop :: "int \<Rightarrow> string \<Rightarrow> bool \<Rightarrow> uarg list \<Rightarrow> unit uop" where
  "uprintf_loop fd [] pct args = ret ()"
| "uprintf_loop fd (c # fmt) False args =
     (if c = CHR ''%'' then uprintf_loop fd fmt True args
      else bnd (uputc fd c) (\<lambda>_. uprintf_loop fd fmt False args))"
| "uprintf_loop fd (c # fmt) True args =
     (if c = CHR ''d'' then (case args of
          UNum x # args' \<Rightarrow> bnd (uprintint fd x 10 True) (\<lambda>_. uprintf_loop fd fmt False args')
        | _ \<Rightarrow> wild ''printf'')
      else if c = CHR ''x'' \<or> c = CHR ''p'' then (case args of
          UNum x # args' \<Rightarrow> bnd (uprintint fd x 16 False) (\<lambda>_. uprintf_loop fd fmt False args')
        | _ \<Rightarrow> wild ''printf'')
      else if c = CHR ''s'' then (case args of
          UStr t # args' \<Rightarrow> bnd (uputs fd t) (\<lambda>_. uprintf_loop fd fmt False args')
        | UNum x # args' \<Rightarrow> if x = 0 then bnd (uputs fd ''(null)'') (\<lambda>_. uprintf_loop fd fmt False args')
            else wild ''printf''
        | _ \<Rightarrow> wild ''printf'')
      else if c = CHR ''c'' then (case args of
          UNum x # args' \<Rightarrow> bnd (uputc fd (char_of (unat x))) (\<lambda>_. uprintf_loop fd fmt False args')
        | _ \<Rightarrow> wild ''printf'')
      else if c = CHR ''%'' then bnd (uputc fd c) (\<lambda>_. uprintf_loop fd fmt False args)
      else bnd (uputs fd [CHR ''%'', c]) (\<lambda>_. uprintf_loop fd fmt False args))"

definition uprintf :: "int \<Rightarrow> string \<Rightarrow> uarg list \<Rightarrow> unit uop" where
  "uprintf fd fmt args = uprintf_loop fd fmt False args"

lemma keeps_uputc [eat]: "keeps (uputc fd c)" unfolding uputc_def by (intro eat)
lemma keeps_uputs [eat]: "keeps (uputs fd t)" unfolding uputs_def by (intro eat)
lemma keeps_uprintint [eat]: "keeps (uprintint fd xx base sg)" unfolding uprintint_def by (intro eat)

lemma keeps_uprintf_loop [eat]: "keeps (uprintf_loop fd fmt pct args)"
proof (induction fmt arbitrary: pct args)
  case Nil
  show ?case unfolding uprintf_loop.simps by (rule eat)
next
  case (Cons c fmt)
  show ?case by (cases pct) (simp_all add: Cons.IH keeps_bnd eat split: list.split uarg.split)
qed

lemma keeps_uprintf [eat]: "keeps (uprintf fd fmt args)" unfolding uprintf_def by (rule eat)

subsection \<open>Files (ulib.c)\<close>

definition ustat_of :: "string \<Rightarrow> ustat option uop" where
  "ustat_of n = bnd (sys (Open n 0)) (\<lambda>fd. if fd < 0 then ret None
     else bnd (ufstat fd) (\<lambda>r. bnd (sys (Close fd)) (\<lambda>_. ret r)))"

text \<open>
  \<open>gets\<close> reads one character at a time, up to the end of the line, of the input or
  of the buffer; the line it leaves in the buffer keeps its newline.
\<close>

definition ugets :: "nat \<Rightarrow> string uop" where
  "ugets mx = uloop (\<lambda>b. if mx \<le> length b + 1 then ret (Inr b)
     else bnd (uread 0 1) (\<lambda>r. case r of
         None \<Rightarrow> ret (Inr b)
       | Some d \<Rightarrow> if d = [] then ret (Inr b)
           else let b' = b @ d in
             if d = [CHR 0x0A] \<or> d = [CHR 0x0D] then ret (Inr b') else ret (Inl b'))) []"

lemma keeps_ustat_of [eat]: "keeps (ustat_of n)" unfolding ustat_of_def by (intro eat)

subsection \<open>What has been written\<close>

text \<open>The bytes written to a file by a sequence of calls.\<close>

fun out :: "int \<Rightarrow> ucall list \<Rightarrow> string" where
  "out fd [] = []"
| "out fd (Write fd' d # cs) = (if fd' = fd then d @ out fd cs else out fd cs)"
| "out fd (_ # cs) = out fd cs"

lemma out_append [simp]: "out fd (xs @ ys) = out fd xs @ out fd ys"
  by (induction fd xs rule: out.induct) auto

text \<open>\<open>puts fd w m s Q\<close>: with enough replies, \<open>m\<close> returns after writing exactly \<open>w\<close> to \<open>fd\<close>, byte by byte.\<close>

definition wrote :: "int \<Rightarrow> string \<Rightarrow> user \<Rightarrow> user" where
  "wrote fd w s = s\<lparr>replies := drop (length w) (replies s), calls := calls s @ map (\<lambda>c. Write fd [c]) w\<rparr>"

lemma wrote_append [simp]: "wrote fd w' (wrote fd w s) = wrote fd (w @ w') s"
  by (simp add: wrote_def add.commute)

lemma replies_wrote [simp]: "replies (wrote fd w s) = drop (length w) (replies s)"
  by (simp add: wrote_def)

lemma wrote_Nil [simp]: "wrote fd [] s = s"
  by (simp add: wrote_def)

lemma out_wrote: "out fd (map (\<lambda>c. Write fd [c]) w) = w"
  by (induction w) auto

lemma uputc_wrote: "replies s \<noteq> [] \<Longrightarrow> uputc fd c s = Ret () (wrote fd [c] s)"
  by (auto simp: uputc_def sys_def emit_def get_reply_def bnd_apply ret_apply wrote_def neq_Nil_conv)

lemma uputs_wrote: "length w \<le> length (replies s) \<Longrightarrow> uputs fd w s = Ret () (wrote fd w s)"
proof (induction w arbitrary: s)
  case Nil
  show ?case by (simp add: uputs_def ret_apply)
next
  case (Cons c w)
  then have "replies s \<noteq> []" by auto
  then have "uputs fd (c # w) s = uputs fd w (wrote fd [c] s)" by (simp add: uputs_def bnd_apply uputc_wrote)
  also have "\<dots> = Ret () (wrote fd w (wrote fd [c] s))" using Cons.prems by (intro Cons.IH) (simp add: wrote_def)
  finally show ?case by simp
qed

text \<open>What a format prints with given arguments.\<close>

definition digits_of :: "uint \<Rightarrow> uint \<Rightarrow> bool \<Rightarrow> string" where
  "digits_of xx base sg = map (\<lambda>c. char_of (unat c)) (rev (the (printint_buf udigits xx base sg)))"

fun formatted :: "string \<Rightarrow> bool \<Rightarrow> uarg list \<Rightarrow> string option" where
  "formatted [] pct args = Some []"
| "formatted (c # fmt) False args =
     (if c = CHR ''%'' then formatted fmt True args else map_option ((#) c) (formatted fmt False args))"
| "formatted (c # fmt) True (UNum x # args) =
     (if c = CHR ''d'' then map_option ((@) (digits_of x 10 True)) (formatted fmt False args)
      else if c = CHR ''x'' \<or> c = CHR ''p'' then map_option ((@) (digits_of x 16 False)) (formatted fmt False args)
      else if c = CHR ''c'' then map_option ((#) (char_of (unat x))) (formatted fmt False args)
      else None)"
| "formatted (c # fmt) True (UStr t # args) =
     (if c = CHR ''s'' then map_option ((@) t) (formatted fmt False args) else None)"
| "formatted (c # fmt) True [] = None"

lemma uprintint_wrote:
  assumes "length (digits_of xx base sg) \<le> length (replies s)" and "base = 10 \<and> sg \<or> base = 16 \<and> \<not> sg"
  shows "uprintint fd xx base sg s = Ret () (wrote fd (digits_of xx base sg) s)"
proof -
  have "\<exists>buf. printint_buf udigits xx 10 True = Some buf" by (rule printint_dec [OF refl, of udigits xx]) blast
  then have "\<exists>buf. printint_buf udigits xx base sg = Some buf" using assms(2) printint_hex_buf by auto
  then show ?thesis using assms(1) by (auto simp: uprintint_def digits_of_def uputs_wrote)
qed

lemma wrote_bnd:
  assumes "length (p @ v) \<le> length (replies s)" and "m s = Ret () (wrote fd p s)"
    and "\<And>t. length v \<le> length (replies t) \<Longrightarrow> f t = Ret () (wrote fd v t)"
  shows "bnd m (\<lambda>_. f) s = Ret () (wrote fd (p @ v) s)"
  using assms by (simp add: bnd_apply)

lemma uprintf_loop_wrote:
  "formatted fmt pct args = Some w \<Longrightarrow> length w \<le> length (replies s) \<Longrightarrow>
   uprintf_loop fd fmt pct args s = Ret () (wrote fd w s)"
proof (induction fmt pct args arbitrary: w s rule: formatted.induct)
  case (2 c fmt args)
  show ?case
  proof (cases "c = CHR ''%''")
    case True
    then show ?thesis using 2 by simp
  next
    case False
    with "2.prems" obtain v where v: "formatted fmt False args = Some v" "w = [c] @ v" by auto
    with "2.prems"(2) have "uputc fd c s = Ret () (wrote fd [c] s)" by (intro uputc_wrote) auto
    with wrote_bnd [where m = "uputc fd c" and f = "uprintf_loop fd fmt False args", OF "2.prems"(2) [unfolded v(2)] this "2.IH"(2) [OF False v(1)]] show ?thesis
      using False v(2) by simp
  qed
next
  case (3 c fmt x args)
  have d: "uprintint fd x b sg s = Ret () (wrote fd (digits_of x b sg) s)"
    if "w = digits_of x b sg @ v" "b = 10 \<and> sg \<or> b = 16 \<and> \<not> sg" for b sg v
    using uprintint_wrote [OF _ that(2)] "3.prems"(2) that(1) by simp
  consider "c = CHR ''d''" | "c = CHR ''x'' \<or> c = CHR ''p''" | "c = CHR ''c''" using "3.prems"(1) by (auto split: if_splits)
  then show ?case
  proof cases
    case 1
    with "3.prems" obtain v where v: "formatted fmt False args = Some v" "w = digits_of x 10 True @ v" by auto
    with wrote_bnd [where m = "uprintint fd x 10 True" and f = "uprintf_loop fd fmt False args", OF "3.prems"(2) [unfolded v(2)] d [OF v(2)] "3.IH"(1) [OF 1 v(1)]] 1 show ?thesis by simp
  next
    case 2
    then have n: "c \<noteq> CHR ''d''" by auto
    with 2 "3.prems" obtain v where v: "formatted fmt False args = Some v" "w = digits_of x 16 False @ v" by auto
    with wrote_bnd [where m = "uprintint fd x 16 False" and f = "uprintf_loop fd fmt False args", OF "3.prems"(2) [unfolded v(2)] d [OF v(2)] "3.IH"(2) [OF n 2 v(1)]] 2 show ?thesis by auto
  next
    case c: 3
    with "3.prems" obtain v where v: "formatted fmt False args = Some v" "w = [char_of (unat x)] @ v" by auto
    with "3.prems"(2) have "uputc fd (char_of (unat x)) s = Ret () (wrote fd [char_of (unat x)] s)" by (intro uputc_wrote) auto
    with wrote_bnd [where m = "uputc fd (char_of (unat x))" and f = "uprintf_loop fd fmt False args", OF "3.prems"(2) [unfolded v(2)] this "3.IH"(3) [OF _ _ c v(1)]] c v(2) show ?thesis by simp
  qed
next
  case (4 c fmt t args)
  then obtain v where v: "c = CHR ''s''" "formatted fmt False args = Some v" "w = t @ v" by (auto split: if_splits)
  with "4.prems"(2) have "uputs fd t s = Ret () (wrote fd t s)" by (intro uputs_wrote) auto
  with wrote_bnd [where m = "uputs fd t" and f = "uprintf_loop fd fmt False args", OF "4.prems"(2) [unfolded v(3)] this "4.IH" [OF v(1,2)]] v(1,3) show ?case by simp
qed (simp_all add: ret_apply)

lemma uprintf_wrote:
  "formatted fmt False args = Some w \<Longrightarrow> length w \<le> length (replies s) \<Longrightarrow> uprintf fd fmt args s = Ret () (wrote fd w s)"
  unfolding uprintf_def by (rule uprintf_loop_wrote)

end
