(* ===== verification/Programs.thy ===== *)
theory Programs
  imports User
begin

text \<open>
  The small user programs: cat.c, wc.c, grep.c, echo.c, ls.c, kill.c, ln.c, mkdir.c,
  rm.c, zombie.c, forktest.c, stressfs.c, FRRsanity.c, FCFSsanity.c and init.c. The
  arguments of a program are the list \<open>argv\<close>, whose first element is its name.
\<close>

abbreviation newline :: char where "newline \<equiv> CHR 0x0A"

abbreviation line_of :: "string \<Rightarrow> string" where "line_of s \<equiv> s @ [newline]"

abbreviation unum :: "int \<Rightarrow> uarg" where "unum n \<equiv> UNum (of_int n)"

definition fail :: "int \<Rightarrow> string \<Rightarrow> uarg list \<Rightarrow> 'a uop" where
  "fail fd fmt args = bnd (uprintf fd fmt args) (\<lambda>_. uexit)"

text \<open>A program that opens each of its arguments in turn and stops at the first it cannot open.\<close>

definition on_files :: "string \<Rightarrow> (int \<Rightarrow> string \<Rightarrow> unit uop) \<Rightarrow> string list \<Rightarrow> 'a uop" where
  "on_files name f fs = bnd (for_each fs (\<lambda>a. bnd (sys (Open a 0)) (\<lambda>fd.
     if fd < 0 then fail 1 (name @ line_of '': cannot open %s'') [UStr a]
     else bnd (f fd a) (\<lambda>_. bnd (sys (Close fd)) (\<lambda>_. ret ()))))) (\<lambda>_. uexit)"

subsection \<open>cat.c\<close>

definition cat_turn :: "int \<Rightarrow> unit \<Rightarrow> (unit + unit) uop" where
  "cat_turn fd _ = bnd (uread fd 512) (\<lambda>r. case r of
       None \<Rightarrow> fail 1 (line_of ''cat: read error'') []
     | Some d \<Rightarrow> if d = [] then ret (Inr ())
         else bnd (sys (Write 1 d)) (\<lambda>n. if n \<noteq> int (length d) then fail 1 (line_of ''cat: write error'') []
           else ret (Inl ())))"

definition cat :: "int \<Rightarrow> unit uop" where
  "cat fd = uloop (cat_turn fd) ()"

definition cat_main :: "string list \<Rightarrow> unit uop" where
  "cat_main argv = (if length argv \<le> 1 then bnd (cat 0) (\<lambda>_. uexit) else on_files ''cat'' (\<lambda>fd _. cat fd) (tl argv))"

subsection \<open>wc.c\<close>

record counts =
  wl :: int
  ww :: int
  wc_c :: int
  inword :: bool

definition blanks :: string where
  "blanks = [CHR '' '', CHR 0x0D, CHR 0x09, CHR 0x0A, CHR 0x0B]"

definition wc_char :: "char \<Rightarrow> counts \<Rightarrow> counts" where
  "wc_char b k =
     (let k = k\<lparr>wc_c := wc_c k + 1\<rparr>; k = (if b = newline then k\<lparr>wl := wl k + 1\<rparr> else k) in
      if b \<in> set blanks then k\<lparr>inword := False\<rparr>
      else if \<not> inword k then k\<lparr>ww := ww k + 1, inword := True\<rparr> else k)"

definition wc_turn :: "int \<Rightarrow> counts \<Rightarrow> (counts + counts) uop" where
  "wc_turn fd k = bnd (uread fd 512) (\<lambda>r. case r of
       None \<Rightarrow> fail 1 (line_of ''wc: read error'') []
     | Some d \<Rightarrow> ret (if d = [] then Inr k else Inl (fold wc_char d k)))"

definition wc :: "int \<Rightarrow> string \<Rightarrow> unit uop" where
  "wc fd name = bnd (uloop (wc_turn fd) \<lparr>wl = 0, ww = 0, wc_c = 0, inword = False\<rparr>) (\<lambda>k.
     uprintf 1 (line_of ''%d %d %d %s'') [unum (wl k), unum (ww k), unum (wc_c k), UStr name])"

definition wc_main :: "string list \<Rightarrow> unit uop" where
  "wc_main argv = (if length argv \<le> 1 then bnd (wc 0 []) (\<lambda>_. uexit) else on_files ''wc'' wc (tl argv))"

subsection \<open>grep.c\<close>

text \<open>
  Patterns and texts are strings without their terminator: a character at the end
  is the terminator.
\<close>

function (sequential) matchhere :: "string \<Rightarrow> string \<Rightarrow> bool"
  and matchstar :: "char \<Rightarrow> string \<Rightarrow> string \<Rightarrow> bool" where
  "matchhere [] txt = True"
| "matchhere (c # re) txt =
     (if re \<noteq> [] \<and> hd re = CHR ''*'' then matchstar c (tl re) txt
      else if c = CHR ''$'' \<and> re = [] then txt = []
      else if txt \<noteq> [] \<and> (c = CHR ''.'' \<or> c = hd txt) then matchhere re (tl txt)
      else False)"
| "matchstar c re txt =
     (if matchhere re txt then True
      else if txt \<noteq> [] \<and> (hd txt = c \<or> c = CHR ''.'') then matchstar c re (tl txt)
      else False)"
  by pat_completeness auto
termination
  by (relation "measures [case_sum (\<lambda>(re, t). length re) (\<lambda>(c, re, t). length re),
      case_sum (\<lambda>_. 0) (\<lambda>(c, re, t). Suc (length t))]") (auto simp: neq_Nil_conv)

declare matchstar.simps [simp del]

primrec match_from :: "string \<Rightarrow> string \<Rightarrow> bool" where
  "match_from re [] = matchhere re []"
| "match_from re (x # txt) = (if matchhere re (x # txt) then True else match_from re txt)"

definition match :: "string \<Rightarrow> string \<Rightarrow> bool" where
  "match re txt = (if re \<noteq> [] \<and> hd re = CHR ''^'' then matchhere (tl re) txt else match_from re txt)"

text \<open>
  One buffer of \<open>grep\<close>: the complete lines in it are tested and written; what stays is
  the part after the last newline. \<open>strchr\<close> does not see past a zero byte.
\<close>

function grep_lines :: "string \<Rightarrow> string \<Rightarrow> string uop" where
  "grep_lines pat p =
     (let l = takeWhile (\<lambda>c. c \<noteq> newline \<and> c \<noteq> CHR 0x00) p; q = drop (length l) p in
      if q = [] \<or> hd q \<noteq> newline then ret p
      else bnd (if match pat l then bnd (sys (Write 1 (line_of l))) (\<lambda>_. ret ()) else ret ()) (\<lambda>_.
        grep_lines pat (tl q)))"
  by pat_completeness auto
termination
  by (relation "measure (\<lambda>(_, p). length p)") auto

declare grep_lines.simps [simp del]

definition grep_turn :: "string \<Rightarrow> int \<Rightarrow> string \<Rightarrow> (string + unit) uop" where
  "grep_turn pat fd b = bnd (uread fd (1024 - length b - 1)) (\<lambda>r. case r of
       None \<Rightarrow> ret (Inr ())
     | Some d \<Rightarrow> if d = [] then ret (Inr ())
         else bnd (grep_lines pat (b @ d)) (\<lambda>rest. ret (Inl (if length rest = length (b @ d) then [] else rest))))"

definition grep :: "string \<Rightarrow> int \<Rightarrow> unit uop" where
  "grep pat fd = uloop (grep_turn pat fd) []"

definition grep_main :: "string list \<Rightarrow> unit uop" where
  "grep_main argv =
     (if length argv \<le> 1 then fail 2 (line_of ''usage: grep pattern [file ...]'') []
      else let pat = argv ! 1 in
        if length argv \<le> 2 then bnd (grep pat 0) (\<lambda>_. uexit)
        else on_files ''grep'' (\<lambda>fd _. grep pat fd) (drop 2 argv))"

subsection \<open>echo.c, kill.c, ln.c, mkdir.c, rm.c\<close>

primrec echo_args :: "string list \<Rightarrow> unit uop" where
  "echo_args [] = ret ()"
| "echo_args (a # as) = bnd (uprintf 1 ''%s%s'' [UStr a, UStr (if as \<noteq> [] then '' '' else [newline])]) (\<lambda>_. echo_args as)"

definition echo_main :: "string list \<Rightarrow> unit uop" where
  "echo_main argv = bnd (echo_args (tl argv)) (\<lambda>_. uexit)"

text \<open>\<open>atoi\<close> of ulib.c, with the arithmetic of \<open>int\<close>.\<close>

primrec atoi_from :: "string \<Rightarrow> uint \<Rightarrow> uint" where
  "atoi_from [] n = n"
| "atoi_from (c # cs) n = (if c \<in> set ''0123456789'' then atoi_from cs (n * 10 + of_char c - 48) else n)"

definition kill_main :: "string list \<Rightarrow> unit uop" where
  "kill_main argv =
     (if length argv < 2 then fail 2 (line_of ''usage: kill pid...'') []
      else bnd (for_each (tl argv) (\<lambda>a. bnd (sys (Kill (sint (atoi_from a 0)))) (\<lambda>_. ret ()))) (\<lambda>_. uexit))"

definition ln_main :: "string list \<Rightarrow> unit uop" where
  "ln_main argv =
     (if length argv \<noteq> 3 then fail 2 (line_of ''Usage: ln old new'') []
      else bnd (sys (Link (argv ! 1) (argv ! 2))) (\<lambda>r.
        bnd (whenk (r < 0) (uprintf 2 (line_of ''link %s %s: failed'') [UStr (argv ! 1), UStr (argv ! 2)])) (\<lambda>_. uexit)))"

text \<open>\<open>mkdir\<close> and \<open>rm\<close> stop at the first argument that fails.\<close>

primrec until_fail :: "(string \<Rightarrow> ucall) \<Rightarrow> string \<Rightarrow> string list \<Rightarrow> unit uop" where
  "until_fail f fmt [] = ret ()"
| "until_fail f fmt (a # as) = bnd (sys (f a)) (\<lambda>r. if r < 0 then uprintf 2 fmt [UStr a] else until_fail f fmt as)"

definition mkdir_main :: "string list \<Rightarrow> unit uop" where
  "mkdir_main argv =
     (if length argv < 2 then fail 2 (line_of ''Usage: mkdir files...'') []
      else bnd (until_fail Mkdir (line_of ''mkdir: %s failed to create'') (tl argv)) (\<lambda>_. uexit))"

definition rm_main :: "string list \<Rightarrow> unit uop" where
  "rm_main argv =
     (if length argv < 2 then fail 2 (line_of ''Usage: rm files...'') []
      else bnd (until_fail Unlink (line_of ''rm: %s failed to delete'') (tl argv)) (\<lambda>_. uexit))"

subsection \<open>ls.c\<close>

definition UDIRSIZ :: nat where "UDIRSIZ = 14"

definition fmtname :: "string \<Rightarrow> string" where
  "fmtname pth =
     (let p = rev (takeWhile (\<lambda>c. c \<noteq> CHR ''/'') (rev pth)) in
      if length p \<ge> UDIRSIZ then p else p @ replicate (UDIRSIZ - length p) CHR '' '')"

definition ls_entry :: "string \<Rightarrow> ustat \<Rightarrow> unit uop" where
  "ls_entry pth st = uprintf 1 (line_of ''%s %d %d %d'')
     [UStr (fmtname pth), unum (us_type st), unum (us_ino st), unum (us_size st)]"

text \<open>
  A directory entry as \<open>read\<close> stores it: two bytes of inode number and the name, which
  has a terminator only if it is shorter than \<open>DIRSIZ\<close>.
\<close>

definition ls_turn :: "int \<Rightarrow> string \<Rightarrow> unit \<Rightarrow> (unit + unit) uop" where
  "ls_turn fd pth _ = bnd (uread fd 16) (\<lambda>r. case r of
       None \<Rightarrow> ret (Inr ())
     | Some d \<Rightarrow> if length d \<noteq> 16 then ret (Inr ())
         else if d ! 0 = CHR 0x00 \<and> d ! 1 = CHR 0x00 then ret (Inl ())
         else let p = pth @ ''/'' @ takeWhile (\<lambda>c. c \<noteq> CHR 0x00) (drop 2 d) in
           bnd (ustat_of p) (\<lambda>r. bnd (case r of
               None \<Rightarrow> uprintf 1 (line_of ''ls: cannot stat %s'') [UStr p]
             | Some st \<Rightarrow> ls_entry p st) (\<lambda>_. ret (Inl ()))))"

definition ls :: "string \<Rightarrow> unit uop" where
  "ls pth = bnd (sys (Open pth 0)) (\<lambda>fd.
     if fd < 0 then uprintf 2 (line_of ''ls: cannot open %s'') [UStr pth]
     else bnd (ufstat fd) (\<lambda>r. case r of
         None \<Rightarrow> bnd (uprintf 2 (line_of ''ls: cannot stat %s'') [UStr pth]) (\<lambda>_. bnd (sys (Close fd)) (\<lambda>_. ret ()))
       | Some st \<Rightarrow> bnd (
           if us_type st = 2 then ls_entry pth st
           else if us_type st = 1 then
             (if length pth + 1 + UDIRSIZ + 1 > 512 then uprintf 1 (line_of ''ls: path too long'') []
              else uloop (ls_turn fd pth) ())
           else ret ()) (\<lambda>_. bnd (sys (Close fd)) (\<lambda>_. ret ()))))"

definition ls_main :: "string list \<Rightarrow> unit uop" where
  "ls_main argv = bnd (if length argv < 2 then ls ''.'' else for_each (tl argv) ls) (\<lambda>_. uexit)"

subsection \<open>zombie.c, forktest.c, stressfs.c\<close>

definition zombie_main :: "unit uop" where
  "zombie_main = bnd (sys Fork) (\<lambda>p. bnd (if p > 0 then bnd (sys (Sleep 5)) (\<lambda>_. ret ()) else ret ()) (\<lambda>_. uexit))"

text \<open>\<open>printf\<close> of forktest.c writes its format in one piece.\<close>

definition ft_printf :: "int \<Rightarrow> string \<Rightarrow> unit uop" where
  "ft_printf fd s = bnd (sys (Write fd s)) (\<lambda>_. ret ())"

text \<open>The number of children forked, up to the first failure.\<close>

primrec ft_forks :: "nat \<Rightarrow> nat \<Rightarrow> nat uop" where
  "ft_forks 0 n = ret n"
| "ft_forks (Suc k) n = bnd (sys Fork) (\<lambda>p. if p < 0 then ret n else if p = 0 then uexit else ft_forks k (Suc n))"

definition forktest :: "unit uop" where
  "forktest = bnd (ft_printf 1 (line_of ''fork test'')) (\<lambda>_.
     bnd (ft_forks 1000 0) (\<lambda>n.
       if n = 1000 then bnd (ft_printf 1 (line_of ''fork claimed to work N times!'')) (\<lambda>_. uexit)
       else bnd (for_each [0..<n] (\<lambda>_. bnd (sys Wait) (\<lambda>r.
           if r < 0 then bnd (ft_printf 1 (line_of ''wait stopped early'')) (\<lambda>_. uexit) else ret ()))) (\<lambda>_.
         bnd (sys Wait) (\<lambda>r.
           if r \<noteq> - 1 then bnd (ft_printf 1 (line_of ''wait got too many'')) (\<lambda>_. uexit)
           else ft_printf 1 (line_of ''fork test OK'')))))"

definition forktest_main :: "unit uop" where
  "forktest_main = bnd forktest (\<lambda>_. uexit)"

primrec stress_forks :: "nat \<Rightarrow> nat \<Rightarrow> nat uop" where
  "stress_forks 0 i = ret i"
| "stress_forks (Suc k) i = bnd (sys Fork) (\<lambda>p. if p > 0 then ret i else stress_forks k (Suc i))"

definition stressfs_main :: "unit uop" where
  "stressfs_main = bnd (uprintf 1 (line_of ''stressfs starting'') []) (\<lambda>_.
     bnd (stress_forks 4 0) (\<lambda>i.
     bnd (uprintf 1 (line_of ''write %d'') [unum (int i)]) (\<lambda>_.
     let pth = ''stressfs'' @ [char_of (48 + i)] in
     bnd (sys (Open pth 0x202)) (\<lambda>fd.
     bnd (for_each [0..<20] (\<lambda>_. bnd (sys (Write fd (replicate 512 CHR ''a''))) (\<lambda>_. ret ()))) (\<lambda>_.
     bnd (sys (Close fd)) (\<lambda>_.
     bnd (uprintf 1 (line_of ''read'') []) (\<lambda>_.
     bnd (sys (Open pth 0)) (\<lambda>fd.
     bnd (for_each [0..<20] (\<lambda>_. bnd (uread fd 512) (\<lambda>_. ret ()))) (\<lambda>_.
     bnd (sys (Close fd)) (\<lambda>_.
     bnd (sys Wait) (\<lambda>_. uexit)))))))))))"

subsection \<open>FRRsanity.c and FCFSsanity.c\<close>

text \<open>
  The two programs have the same text. They leave \<open>main\<close> with \<open>return\<close>; the caller of \<open>main\<close>
  is the address \<open>0xffffffff\<close> that \<open>exec\<close> pushes, so the return faults.
\<close>

definition main_returns :: "'a uop" where
  "main_returns = wild ''return from main''"

definition sanity_child :: "unit uop" where
  "sanity_child = bnd (for_each [0..<1000] (\<lambda>j. bnd (sys Getpid) (\<lambda>p.
     uprintf 1 (line_of ''child %d prints for the %d time'') [unum p, unum (int j + 1)]))) (\<lambda>_. main_returns)"

definition FRRsanity_main :: "unit uop" where
  "FRRsanity_main =
     bnd (for_each [0..<10] (\<lambda>_. bnd (sys Fork) (\<lambda>p. if p = 0 then sanity_child else ret ()))) (\<lambda>_.
     bnd (for_each [0..<10] (\<lambda>_. bnd (sys Wait) (\<lambda>_. ret ()))) (\<lambda>_.
     bnd (for_each [1..<11] (\<lambda>i. bnd (sys Getpid) (\<lambda>p. bnd (sys Runtime) (\<lambda>rt. bnd (sys Waittime) (\<lambda>wt.
       bnd (sys Turntime) (\<lambda>tt.
         uprintf 1 (line_of ''Child %d: running time = %d, waiting time = %d, turnaround time = %d'')
           [unum (p + int i), unum rt, unum wt, unum tt])))))) (\<lambda>_. main_returns)))"

definition FCFSsanity_main :: "unit uop" where
  "FCFSsanity_main = FRRsanity_main"

subsection \<open>init.c\<close>

text \<open>
  The line that names the policy: the one for FCFS is inside the conditional for
  DEFAULT and is never printed. The arguments stand for the macros that are
  defined.
\<close>

definition init_policy :: "bool \<Rightarrow> bool \<Rightarrow> bool \<Rightarrow> unit uop" where
  "init_policy frr dflt fcfs =
     (if frr then uprintf 1 (line_of ''Scheduler policy: FRR'') []
      else if dflt then bnd (uprintf 1 (line_of ''Scheduler policy: DEFAULT'') []) (\<lambda>_.
        whenk fcfs (uprintf 1 (line_of ''Scheduler policy: FCFS'') []))
      else ret ())"

definition init_wait :: "int \<Rightarrow> unit \<Rightarrow> (unit + unit) uop" where
  "init_wait p _ = bnd (sys Wait) (\<lambda>w.
     if w \<ge> 0 \<and> w \<noteq> p then bnd (uprintf 1 (line_of ''zombie!'') []) (\<lambda>_. ret (Inl ())) else ret (Inr ()))"

definition init_turn :: "unit \<Rightarrow> (unit + unit) uop" where
  "init_turn _ = bnd (uprintf 1 (line_of ''init: starting sh'') []) (\<lambda>_.
     bnd (sys Fork) (\<lambda>p.
       if p < 0 then fail 1 (line_of ''init: fork failed'') []
       else if p = 0 then bnd (sys (Exec ''sh'' [''sh''])) (\<lambda>_. fail 1 (line_of ''init: exec sh failed'') [])
       else bnd (uloop (init_wait p) ()) (\<lambda>_. ret (Inl ()))))"

definition init_main :: "bool \<Rightarrow> bool \<Rightarrow> bool \<Rightarrow> unit uop" where
  "init_main frr dflt fcfs =
     bnd (sys (Open ''console'' 2)) (\<lambda>fd.
     bnd (if fd < 0 then bnd (sys (Mknod ''console'' 1 1)) (\<lambda>_. bnd (sys (Open ''console'' 2)) (\<lambda>_. ret ())) else ret ()) (\<lambda>_.
     bnd (sys (Dup 0)) (\<lambda>_.
     bnd (sys (Dup 0)) (\<lambda>_.
     bnd (init_policy frr dflt fcfs) (\<lambda>_.
     uloop init_turn ())))))"

end
