(* ===== verification/Text_Programs.thy ===== *)
theory Text_Programs
  imports Programs
begin

text \<open>
  What the text programs compute: the matcher of grep.c against the language of its
  pattern, and the output of \<open>grep\<close>, \<open>wc\<close> and \<open>cat\<close> as a function of the text they read,
  however the kernel cuts it into pieces.
\<close>

subsection \<open>Reading\<close>

text \<open>The reply of a \<open>read\<close> that stores the bytes \<open>d\<close>.\<close>

definition data :: "string \<Rightarrow> reply" where
  "data d = \<lparr>rval = int (length d), rdata = d, rfds = (0, 0), rstat = \<lparr>us_type = 0, us_ino = 0, us_size = 0\<rparr>\<rparr>"

lemma uread_data:
  "input s = data d # rs \<Longrightarrow> length d \<le> n \<Longrightarrow>
   uread fd n s = Ret (Some d) (s\<lparr>input := rs, calls := calls s @ [Read fd n]\<rparr>)"
  by (simp add: uread_def emit_def get_input_def data_def bnd_apply ret_apply)

lemma keeps_fail [eat]: "keeps (fail fd fmt args)" unfolding fail_def by (intro eat)

lemma eats_turns: "eats (cat_turn fd)" "eats (wc_turn fd)"
  unfolding cat_turn_def wc_turn_def by (rule eatsI; rule takes_bnd(1), rule takes_call, intro eat)+

subsection \<open>wc\<close>

definition word_starts :: "string \<Rightarrow> nat set" where
  "word_starts s = {i. i < length s \<and> s ! i \<notin> set blanks \<and> (i = 0 \<or> s ! (i - 1) \<in> set blanks)}"

lemma word_starts_snoc:
  "word_starts (s @ [c]) = (if c \<notin> set blanks \<and> (s = [] \<or> last s \<in> set blanks) then insert (length s) (word_starts s) else word_starts s)"
proof (cases "s = []")
  case True
  then show ?thesis by (auto simp: word_starts_def)
next
  case False
  then have "last s = s ! (length s - 1)" "length s - 1 < length s" by (auto simp: last_conv_nth)
  then show ?thesis using False by (auto simp: word_starts_def nth_append less_Suc_eq)
qed

lemma finite_word_starts [simp]: "finite (word_starts s)"
  by (simp add: word_starts_def)

lemma wc_fold:
  "fold wc_char s \<lparr>wl = 0, ww = 0, wc_c = 0, inword = False\<rparr> =
   \<lparr>wl = int (count_list s newline), ww = int (card (word_starts s)), wc_c = int (length s),
    inword = (s \<noteq> [] \<and> last s \<notin> set blanks)\<rparr>"
proof (induction s rule: rev_induct)
  case Nil
  show ?case by (simp add: word_starts_def)
next
  case (snoc c s)
  have "length s \<notin> word_starts s" "newline \<in> set blanks" by (simp_all add: word_starts_def blanks_def)
  then have "wc_char c \<lparr>wl = int (count_list s newline), ww = int (card (word_starts s)), wc_c = int (length s),
      inword = (s \<noteq> [] \<and> last s \<notin> set blanks)\<rparr> =
    \<lparr>wl = int (count_list (s @ [c]) newline), ww = int (card (word_starts (s @ [c]))), wc_c = int (length (s @ [c])),
      inword = (s @ [c] \<noteq> [] \<and> last (s @ [c]) \<notin> set blanks)\<rparr>"
    by (auto simp: wc_char_def Let_def word_starts_snoc)
  moreover have "fold wc_char (s @ [c]) k = wc_char c (fold wc_char s k)" for k by simp
  ultimately show ?case by (simp only: snoc.IH)
qed

lemma wc_loop:
  assumes "input s = map data ds @ [data []] @ rs" "\<forall>d \<in> set ds. d \<noteq> [] \<and> length d \<le> 512"
  shows "\<exists>cs. uloop (wc_turn fd) k s = Ret (fold wc_char (concat ds) k) (s\<lparr>input := rs, calls := calls s @ cs\<rparr>) \<and> out 1 cs = []"
  using assms
proof (induction ds arbitrary: k s)
  case Nil
  then show ?case
    by (intro exI [of _ "[Read fd 512]"], subst uloop_unfold [OF eats_turns(2)])
      (simp add: wc_turn_def bnd_apply uread_data ret_apply)
next
  case (Cons d ds)
  let ?s = "s\<lparr>input := map data ds @ [data []] @ rs, calls := calls s @ [Read fd 512]\<rparr>"
  obtain cs where cs: "uloop (wc_turn fd) (fold wc_char d k) ?s =
      Ret (fold wc_char (concat ds) (fold wc_char d k)) (?s\<lparr>input := rs, calls := calls ?s @ cs\<rparr>)" "out 1 cs = []"
    using Cons.IH [of ?s "fold wc_char d k"] Cons.prems by auto
  have "wc_turn fd k s = Ret (Inl (fold wc_char d k)) ?s"
    using Cons.prems by (simp add: wc_turn_def bnd_apply uread_data ret_apply)
  then have "uloop (wc_turn fd) k s = uloop (wc_turn fd) (fold wc_char d k) ?s"
    by (subst uloop_unfold [OF eats_turns(2)]) (simp add: bnd_apply)
  then show ?case using cs by (intro exI [of _ "Read fd 512 # cs"]) simp
qed

text \<open>The line \<open>wc\<close> prints.\<close>

definition wc_report :: "string \<Rightarrow> string \<Rightarrow> string" where
  "wc_report tx name = digits_of (of_nat (count_list tx newline)) 10 True @ '' '' @
     digits_of (of_nat (card (word_starts tx))) 10 True @ '' '' @ digits_of (of_nat (length tx)) 10 True @ '' '' @ line_of name"

text \<open>
  C34. \<open>wc\<close> prints the number of newlines, of words and of bytes of the text it reads,
  and its name, however the text is cut into the pieces that \<open>read\<close> returns: a word
  that begins in one piece and goes on in the next is counted once.
\<close>
theorem wc_counts:
  assumes "input s = map data ds @ [data []] @ rs" and "\<forall>d \<in> set ds. d \<noteq> [] \<and> length d \<le> 512"
    and "length (wc_report (concat ds) name) \<le> length (replies s)"
  shows "ok (wc fd name) s (\<lambda>_ t. out 1 (calls t) = out 1 (calls s) @ wc_report (concat ds) name)"
proof -
  obtain cs where cs: "uloop (wc_turn fd) \<lparr>wl = 0, ww = 0, wc_c = 0, inword = False\<rparr> s =
      Ret (fold wc_char (concat ds) \<lparr>wl = 0, ww = 0, wc_c = 0, inword = False\<rparr>) (s\<lparr>input := rs, calls := calls s @ cs\<rparr>)"
    "out 1 cs = []"
    using wc_loop [OF assms(1,2)] by blast
  have f: "formatted (line_of ''%d %d %d %s'') False [UNum (of_nat (count_list (concat ds) newline)),
      UNum (of_nat (card (word_starts (concat ds)))), UNum (of_nat (length (concat ds))), UStr name] =
      Some (wc_report (concat ds) name)"
    by (simp add: wc_report_def)
  show ?thesis
    unfolding wc_def
    by (rule okI [where t = "wrote 1 (wc_report (concat ds) name) (s\<lparr>input := rs, calls := calls s @ cs\<rparr>)"])
      (use uprintf_wrote [OF f, of "s\<lparr>input := rs, calls := calls s @ cs\<rparr>" 1] assms(3) cs
       in \<open>auto simp: bnd_apply wc_fold wrote_def out_wrote simp del: length_concat\<close>)
qed

lemma length_digits_of: "length (digits_of x 10 True) \<le> 11"
proof -
  obtain qs where "printint_buf udigits x 10 True =
      Some (map ((!) udigits) qs @ (if sint x < 0 then [45] else []))" "length qs \<le> 10"
    by (rule printint_dec [OF refl, of udigits x])
  then show ?thesis by (simp add: digits_of_def)
qed

theorem wc_counts_witness:
  "ok (wc 3 ''x'') \<lparr>replies = replicate 100 (data []), input = [data ''ab c'', data ''d e'', data []], calls = []\<rparr>
     (\<lambda>_ t. out 1 (calls t) = wc_report ''ab cd e'' ''x'') \<and> card (word_starts ''ab cd e'') = 3"
proof -
  let ?s = "\<lparr>replies = replicate 100 (data []), input = [data ''ab c'', data ''d e'', data []], calls = []\<rparr>"
  have "word_starts ''ab cd e'' =
      set (filter (\<lambda>i. ''ab cd e'' ! i \<notin> set blanks \<and> (i = 0 \<or> ''ab cd e'' ! (i - 1) \<in> set blanks)) [0..<7])"
    by (auto simp: word_starts_def)
  then have c: "word_starts ''ab cd e'' = {0, 3, 6}" by (simp add: upt_rec blanks_def eval_nat_numeral)
  have "length (wc_report ''ab cd e'' ''x'') \<le> length (replies ?s)"
    using length_digits_of [of "of_nat (count_list ''ab cd e'' newline)"] length_digits_of [of 3] length_digits_of [of 7]
    by (simp add: wc_report_def c)
  then show ?thesis
    using wc_counts [of ?s "[''ab c'', ''d e'']" "[]" "''x''" 3] c by simp
qed

subsection \<open>grep: the matcher\<close>

text \<open>
  A pattern without its anchor at the front: single characters and repeated ones,
  where \<open>.\<close> stands for any character, and whether it is anchored at the end.
\<close>

datatype item = One char | Many char

fun pattern :: "string \<Rightarrow> item list \<times> bool" where
  "pattern [] = ([], False)"
| "pattern [c] = (if c = CHR ''$'' then ([], True) else ([One c], False))"
| "pattern (c # d # re) = (if d = CHR ''*'' then apfst ((#) (Many c)) (pattern re) else apfst ((#) (One c)) (pattern (d # re)))"

definition fits :: "char \<Rightarrow> char \<Rightarrow> bool" where
  "fits c x \<longleftrightarrow> c = CHR ''.'' \<or> c = x"

primrec lang :: "item list \<Rightarrow> string set" where
  "lang [] = {[]}"
| "lang (i # is) = (case i of
       One c \<Rightarrow> {x # u |x u. fits c x \<and> u \<in> lang is}
     | Many c \<Rightarrow> {v @ u |v u. (\<forall>x \<in> set v. fits c x) \<and> u \<in> lang is})"

definition starts :: "string \<Rightarrow> string \<Rightarrow> bool" where
  "starts re tx \<longleftrightarrow> (\<exists>u v. tx = u @ v \<and> u \<in> lang (fst (pattern re)) \<and> (snd (pattern re) \<longrightarrow> v = []))"

text \<open>The text contains a string of the pattern's language, at its start for \<open>^\<close>.\<close>

definition contains :: "string \<Rightarrow> string \<Rightarrow> bool" where
  "contains re tx \<longleftrightarrow> (if re \<noteq> [] \<and> hd re = CHR ''^'' then starts (tl re) tx else \<exists>w t. tx = w @ t \<and> starts re t)"

lemma starts_One:
  assumes "re = [] \<or> hd re \<noteq> CHR ''*''" "\<not> (c = CHR ''$'' \<and> re = [])"
  shows "starts (c # re) tx \<longleftrightarrow> tx \<noteq> [] \<and> fits c (hd tx) \<and> starts re (tl tx)"
proof -
  have "fst (pattern (c # re)) = One c # fst (pattern re)" "snd (pattern (c # re)) = snd (pattern re)"
    using assms by (cases re; simp)+
  then show ?thesis by (cases tx) (auto simp: starts_def Cons_eq_append_conv)
qed

lemma starts_Many:
  "starts (c # CHR ''*'' # re) tx \<longleftrightarrow> (\<exists>v w. tx = v @ w \<and> (\<forall>x \<in> set v. fits c x) \<and> starts re w)"
proof
  assume "starts (c # CHR ''*'' # re) tx"
  then obtain u v where u: "tx = u @ v" "u \<in> lang (Many c # fst (pattern re))" "snd (pattern re) \<longrightarrow> v = []"
    unfolding starts_def by auto
  from u(2) obtain a b where "u = a @ b" "\<forall>x \<in> set a. fits c x" "b \<in> lang (fst (pattern re))" by auto
  with u show "\<exists>v w. tx = v @ w \<and> (\<forall>x \<in> set v. fits c x) \<and> starts re w"
    by (intro exI [of _ a] exI [of _ "b @ v"]) (auto simp: starts_def)
next
  assume "\<exists>v w. tx = v @ w \<and> (\<forall>x \<in> set v. fits c x) \<and> starts re w"
  then obtain a w where a: "tx = a @ w" "\<forall>x \<in> set a. fits c x" "starts re w" by blast
  from a(3) obtain b v where "w = b @ v" "b \<in> lang (fst (pattern re))" "snd (pattern re) \<longrightarrow> v = []"
    unfolding starts_def by blast
  with a show "starts (c # CHR ''*'' # re) tx"
    unfolding starts_def by (intro exI [of _ "a @ b"] exI [of _ v]) auto
qed

lemma star_Cons:
  "(\<exists>v w. x # t = v @ w \<and> (\<forall>y \<in> set v. fits c y) \<and> P w) \<longleftrightarrow>
   P (x # t) \<or> fits c x \<and> (\<exists>v w. t = v @ w \<and> (\<forall>y \<in> set v. fits c y) \<and> P w)" (is "?l \<longleftrightarrow> ?r")
proof
  assume ?l
  then obtain v w where v: "x # t = v @ w" "\<forall>y \<in> set v. fits c y" "P w" by blast
  then show ?r by (cases v) auto
next
  assume ?r
  then consider "P (x # t)" | v w where "fits c x" "t = v @ w" "\<forall>y \<in> set v. fits c y" "P w" by blast
  then show ?l
  proof cases
    case 1
    then show ?thesis by (intro exI [of _ "[]"] exI [of _ "x # t"]) simp
  next
    case 2
    then show ?thesis by (intro exI [of _ "x # v"] exI [of _ w]) simp
  qed
qed

lemma matchhere_starts:
  "matchhere re tx \<longleftrightarrow> starts re tx"
  "matchstar c re tx \<longleftrightarrow> (\<exists>v w. tx = v @ w \<and> (\<forall>x \<in> set v. fits c x) \<and> starts re w)"
proof (induction re tx and c re tx rule: matchhere_matchstar.induct)
  case (1 tx)
  show ?case by (simp add: starts_def)
next
  case (2 c re tx)
  show ?case
  proof (cases "re \<noteq> [] \<and> hd re = CHR ''*''")
    case True
    then obtain re' where "re = CHR ''*'' # re'" by (cases re) auto
    then show ?thesis using 2(1) True by (simp add: starts_Many)
  next
    case False
    show ?thesis
    proof (cases "c = CHR ''$'' \<and> re = []")
      case True
      then show ?thesis by (simp add: starts_def)
    next
      case n: False
      then show ?thesis using 2(2) [OF False n] False starts_One [of re c tx] by (auto simp: fits_def)
    qed
  qed
next
  case (3 c re tx)
  show ?case
  proof (cases tx)
    case Nil
    then show ?thesis using 3(1) by (simp add: matchstar.simps [of c re])
  next
    case (Cons x t)
    have "matchstar c re (x # t) \<longleftrightarrow> matchhere re (x # t) \<or> fits c x \<and> matchstar c re t"
      by (auto simp: matchstar.simps [of c re "x # t"] fits_def)
    moreover have "matchstar c re t \<longleftrightarrow> (\<exists>v w. t = v @ w \<and> (\<forall>y \<in> set v. fits c y) \<and> starts re w)"
      if "\<not> matchhere re tx" "fits c x"
      using 3(2) that Cons by (auto simp: fits_def)
    ultimately show ?thesis using 3(1) unfolding Cons star_Cons by blast
  qed
qed

lemma match_contains: "match re tx \<longleftrightarrow> contains re tx"
proof -
  have "match_from re tx \<longleftrightarrow> (\<exists>w t. tx = w @ t \<and> starts re t)"
    by (induction tx) (auto simp: matchhere_starts Cons_eq_append_conv)
  then show ?thesis by (simp only: match_def contains_def matchhere_starts)
qed

subsection \<open>grep: lines\<close>

text \<open>The complete lines of a text, and what follows the last of them.\<close>

function full_lines :: "string \<Rightarrow> string list" where
  "full_lines s = (if newline \<in> set s then takeWhile (\<lambda>c. c \<noteq> newline) s # full_lines (tl (dropWhile (\<lambda>c. c \<noteq> newline) s)) else [])"
  by pat_completeness auto
termination
proof (relation "measure length")
  fix s :: string assume "newline \<in> set s"
  then have "dropWhile (\<lambda>c. c \<noteq> newline) s \<noteq> []" by auto
  moreover have "length (dropWhile (\<lambda>c. c \<noteq> newline) s) \<le> length s" by (rule length_dropWhile_le)
  ultimately show "(tl (dropWhile (\<lambda>c. c \<noteq> newline) s), s) \<in> measure length"
    by (cases "dropWhile (\<lambda>c. c \<noteq> newline) s") auto
qed simp

definition tail_line :: "string \<Rightarrow> string" where
  "tail_line s = rev (takeWhile (\<lambda>c. c \<noteq> newline) (rev s))"

declare full_lines.simps [simp del]

lemma split_newline: "newline \<in> set s \<Longrightarrow> \<exists>a b. s = a @ newline # b \<and> newline \<notin> set a"
  by (rule split_list_first)

lemma full_lines_cons: "newline \<notin> set a \<Longrightarrow> full_lines (a @ newline # b) = a # full_lines b"
proof -
  assume a: "newline \<notin> set a"
  then have "takeWhile (\<lambda>c. c \<noteq> newline) (a @ newline # b) = a" by (subst takeWhile_append2) auto
  moreover have "dropWhile (\<lambda>c. c \<noteq> newline) (a @ newline # b) = newline # b" using a by (subst dropWhile_append2) auto
  ultimately show ?thesis by (subst full_lines.simps) simp
qed

lemma full_lines_none: "newline \<notin> set a \<Longrightarrow> full_lines a = []"
  by (simp add: full_lines.simps)

lemma tail_line_cons: "tail_line (a @ newline # b) = tail_line b"
  by (simp add: tail_line_def takeWhile_tail)

lemma tail_line_none: "newline \<notin> set a \<Longrightarrow> tail_line a = a"
proof -
  assume "newline \<notin> set a"
  then have "takeWhile (\<lambda>c. c \<noteq> newline) (rev a) = rev a" by (subst takeWhile_eq_all_conv) auto
  then show ?thesis unfolding tail_line_def by (metis rev_rev_ident)
qed

lemma newline_tail: "newline \<notin> set (tail_line s)"
  by (auto simp: tail_line_def dest: set_takeWhileD)

lemma full_lines_append: "full_lines (p @ q) = full_lines p @ full_lines (tail_line p @ q)"
proof (induction "length p" arbitrary: p rule: less_induct)
  case less
  show ?case
  proof (cases "newline \<in> set p")
    case True
    then obtain a b where p: "p = a @ newline # b" "newline \<notin> set a" using split_newline by blast
    then show ?thesis using less.hyps [of b] by (simp add: full_lines_cons tail_line_cons)
  qed (simp add: full_lines_none tail_line_none)
qed

text \<open>\<open>wrote_lines ws s t\<close>: from \<open>s\<close> to \<open>t\<close> exactly the lines \<open>ws\<close> have been written to the output.\<close>

definition wrote_lines :: "string list \<Rightarrow> user \<Rightarrow> user \<Rightarrow> bool" where
  "wrote_lines ws s t \<longleftrightarrow> out 1 (calls t) = out 1 (calls s) @ concat (map (\<lambda>l. line_of l) ws) \<and>
     replies t = drop (length ws) (replies s) \<and> input t = input s"

lemma grep_lines_writes:
  assumes "CHR 0x00 \<notin> set p" and "length (filter (match pat) (full_lines p)) \<le> length (replies s)"
  shows "\<exists>t. grep_lines pat p s = Ret (tail_line p) t \<and> wrote_lines (filter (match pat) (full_lines p)) s t"
  using assms
proof (induction "length p" arbitrary: p s rule: less_induct)
  case less
  show ?case
  proof (cases "newline \<in> set p")
    case True
    then obtain a b where p: "p = a @ newline # b" "newline \<notin> set a" using split_newline by blast
    have a: "takeWhile (\<lambda>c. c \<noteq> newline \<and> c \<noteq> CHR 0x00) p = a"
      unfolding p(1) using p less.prems(1) by (subst takeWhile_append2) auto
    have q: "drop (length a) p = newline # b" by (simp add: p(1))
    define s' where "s' = (if match pat a then s\<lparr>replies := tl (replies s), calls := calls s @ [Write 1 (line_of a)]\<rparr> else s)"
    have w: "(if match pat a then bnd (sys (Write 1 (line_of a))) (\<lambda>_. ret ()) else ret ()) s = Ret () s'"
      using less.prems(2) p
      by (auto simp: s'_def sys_def emit_def get_reply_def bnd_apply ret_apply full_lines_cons split: list.split)
    have "\<exists>t. grep_lines pat b s' = Ret (tail_line b) t \<and> wrote_lines (filter (match pat) (full_lines b)) s' t"
      using less.prems p by (intro less.hyps) (auto simp: s'_def full_lines_cons)
    then obtain t where t: "grep_lines pat b s' = Ret (tail_line b) t" "wrote_lines (filter (match pat) (full_lines b)) s' t" by blast
    have "grep_lines pat p s = grep_lines pat b s'"
      by (subst grep_lines.simps) (simp only: a q Let_def list.sel list.distinct simp_thms if_False bnd_apply w outcome.case)
    then show ?thesis
      using t less.prems(2) p by (auto simp: wrote_lines_def s'_def full_lines_cons tail_line_cons drop_Suc)
  next
    case False
    then have t: "takeWhile (\<lambda>c. c \<noteq> newline \<and> c \<noteq> CHR 0x00) p = p"
      using less.prems(1) by (auto simp: takeWhile_eq_all_conv)
    have "grep_lines pat p s = Ret p s"
      by (subst grep_lines.simps) (simp only: t Let_def drop_all [OF order_refl] simp_thms if_True ret_apply)
    then show ?thesis using False by (simp add: full_lines_none tail_line_none wrote_lines_def)
  qed
qed

subsection \<open>grep: the program\<close>

text \<open>
  The pieces \<open>ds\<close> that \<open>read\<close> returns, with \<open>b\<close> still in the buffer: no more than asked for,
  each with the end of a line in it.
\<close>

primrec feeds :: "string \<Rightarrow> string list \<Rightarrow> bool" where
  "feeds b [] = True"
| "feeds b (d # ds) \<longleftrightarrow> newline \<in> set d \<and> length b + length d < 1024 \<and> CHR 0x00 \<notin> set d \<and> feeds (tail_line (b @ d)) ds"

lemma keeps_grep_lines [eat]: "keeps (grep_lines pat p)"
proof (induction pat p rule: grep_lines.induct)
  case (1 pat p)
  show ?case
    by (subst grep_lines.simps) (auto simp: Let_def intro!: keeps_ret keeps_bnd keeps_if keeps_sys 1)
qed

lemma eats_grep: "eats (grep_turn pat fd)"
  unfolding grep_turn_def by (rule eatsI, rule takes_bnd(1), rule takes_call, intro eat)

lemma tail_line_shorter: "newline \<in> set s \<Longrightarrow> length (tail_line s) < length s"
proof -
  assume "newline \<in> set s"
  then obtain a b where s: "s = a @ newline # b" by (auto dest: split_list)
  have "length (tail_line b) \<le> length b" using length_takeWhile_le [of _ "rev b"] by (simp add: tail_line_def)
  then show ?thesis by (simp add: s tail_line_cons)
qed

lemma grep_turn_step:
  assumes "input s = data d # rs" "feeds b (d # ds)" "CHR 0x00 \<notin> set b" "newline \<notin> set b"
    and "length (filter (match pat) (full_lines (b @ d))) \<le> length (replies s)"
  shows "\<exists>t. grep_turn pat fd b s = Ret (Inl (tail_line (b @ d))) t \<and> input t = rs \<and>
     out 1 (calls t) = out 1 (calls s) @ concat (map (\<lambda>l. line_of l) (filter (match pat) (full_lines (b @ d)))) \<and>
     replies t = drop (length (filter (match pat) (full_lines (b @ d)))) (replies s)"
proof -
  let ?s = "s\<lparr>input := rs, calls := calls s @ [Read fd (1024 - length b - 1)]\<rparr>"
  obtain t where t: "grep_lines pat (b @ d) ?s = Ret (tail_line (b @ d)) t" "wrote_lines (filter (match pat) (full_lines (b @ d))) ?s t"
    using grep_lines_writes [of "b @ d" pat ?s] assms by auto
  have "d \<noteq> []" "newline \<in> set (b @ d)" using assms(2) by auto
  moreover have r: "uread fd (1024 - length b - 1) s = Ret (Some d) ?s"
    by (rule uread_data) (use assms(1,2) in auto)
  ultimately have "grep_turn pat fd b s = Ret (Inl (tail_line (b @ d))) t"
    using t(1) tail_line_shorter [of "b @ d"] unfolding grep_turn_def bnd_apply r by (simp add: bnd_apply ret_apply)
  then show ?thesis using t(2) by (simp add: wrote_lines_def)
qed

lemma no_nul_tail: "CHR 0x00 \<notin> set s \<Longrightarrow> CHR 0x00 \<notin> set (tail_line s)"
  by (auto simp: tail_line_def dest: set_takeWhileD)

lemma grep_loop:
  assumes "input s = map data ds @ [data []] @ rs" "feeds b ds" "CHR 0x00 \<notin> set b" "newline \<notin> set b"
    and "length (filter (match pat) (full_lines (b @ concat ds))) \<le> length (replies s)"
  shows "\<exists>t. uloop (grep_turn pat fd) b s = Ret () t \<and>
    out 1 (calls t) = out 1 (calls s) @ concat (map (\<lambda>l. line_of l) (filter (match pat) (full_lines (b @ concat ds))))"
  using assms
proof (induction ds arbitrary: b s)
  case Nil
  then show ?case
    by (subst uloop_unfold [OF eats_grep]) (simp add: grep_turn_def bnd_apply uread_data ret_apply full_lines_none)
next
  case (Cons d ds)
  have e: "full_lines (b @ d @ concat ds) = full_lines (b @ d) @ full_lines (tail_line (b @ d) @ concat ds)"
    using full_lines_append [of "b @ d" "concat ds"] by simp
  obtain t where t: "grep_turn pat fd b s = Ret (Inl (tail_line (b @ d))) t" "input t = map data ds @ [data []] @ rs"
    "out 1 (calls t) = out 1 (calls s) @ concat (map (\<lambda>l. line_of l) (filter (match pat) (full_lines (b @ d))))"
    "replies t = drop (length (filter (match pat) (full_lines (b @ d)))) (replies s)"
    using grep_turn_step [of s d "map data ds @ [data []] @ rs" b ds pat fd] Cons.prems e by auto
  have "CHR 0x00 \<notin> set (b @ d)" "feeds (tail_line (b @ d)) ds" using Cons.prems(2,3) by auto
  moreover have "length (filter (match pat) (full_lines (tail_line (b @ d) @ concat ds))) \<le> length (replies t)"
    using t(4) Cons.prems(5) e by simp
  ultimately obtain u where u: "uloop (grep_turn pat fd) (tail_line (b @ d)) t = Ret () u"
    "out 1 (calls u) = out 1 (calls t) @ concat (map (\<lambda>l. line_of l) (filter (match pat) (full_lines (tail_line (b @ d) @ concat ds))))"
    using Cons.IH [OF t(2) _ no_nul_tail newline_tail] by blast
  have "uloop (grep_turn pat fd) b s = uloop (grep_turn pat fd) (tail_line (b @ d)) t"
    by (subst uloop_unfold [OF eats_grep]) (simp add: bnd_apply t(1))
  then show ?case using u t(3) e by auto
qed

text \<open>
  C33. \<open>grep\<close> prints exactly the lines of its input in which its pattern occurs, in
  order: those that contain a string of the language of the pattern, at the start
  of the line for \<open>^\<close> and up to its end for \<open>$\<close>. The input may come in pieces that cut
  lines anywhere, as long as each piece has the end of a line in it.
\<close>
theorem grep_prints_matches:
  assumes "input s = map data ds @ [data []] @ rs" and "feeds [] ds"
    and "length (full_lines (concat ds)) \<le> length (replies s)"
  shows "ok (grep pat fd) s (\<lambda>_ t. out 1 (calls t) =
     out 1 (calls s) @ concat (map (\<lambda>l. line_of l) (filter (contains pat) (full_lines (concat ds)))))"
proof -
  have "length (filter (match pat) (full_lines ([] @ concat ds))) \<le> length (replies s)"
    using order_trans [OF length_filter_le assms(3)] by simp
  from grep_loop [OF assms(1,2) _ _ this] show ?thesis
    by (auto simp: ok_iff grep_def match_contains [abs_def])
qed

theorem grep_prints_matches_witness:
  "ok (grep ''^a.*d$'' 3) \<lparr>replies = replicate 2 (data []), input = [data (''ab'' @ newline # ''ac''), data (line_of ''d''), data []], calls = []\<rparr>
     (\<lambda>_ t. out 1 (calls t) = concat (map (\<lambda>l. line_of l) (filter (contains ''^a.*d$'') [''ab'', ''acd''])))"
proof -
  let ?s = "\<lparr>replies = replicate 2 (data []), input = [data (''ab'' @ newline # ''ac''), data (line_of ''d''), data []], calls = []\<rparr>"
  have f: "full_lines (concat [''ab'' @ newline # ''ac'', line_of ''d'']) = [''ab'', ''acd'']"
    by (simp add: full_lines.simps)
  have "ok (grep ''^a.*d$'' 3) ?s (\<lambda>_ t. out 1 (calls t) = out 1 (calls ?s) @
      concat (map (\<lambda>l. line_of l) (filter (contains ''^a.*d$'') (full_lines (concat [''ab'' @ newline # ''ac'', line_of ''d''])))))"
    by (rule grep_prints_matches [where rs = "[]"]) (simp_all add: f [simplified] tail_line_def)
  then show ?thesis unfolding f by simp
qed

end
