(* ===== verification/Ide.thy ===== *)
theory Ide
  imports Samples
begin

unbundle bit_operations_syntax

text \<open>
  The driver of the IDE disk (ide.c), the alternative to the memory disk. The
  controller is hardware: it is a parameter of the driver, a record of what a write
  to one of its ports, a transfer of a block in either direction and a poll of the
  status port do to a state of type \<open>'d\<close>. \<open>ata_ok\<close> is what the driver relies on. The
  queue of requests runs through the \<open>qnext\<close> fields of the buffers.
\<close>

subsection \<open>The controller\<close>

record 'd ata =
  c_out :: "uint \<Rightarrow> uchar \<Rightarrow> 'd \<Rightarrow> 'd"
  c_outsl :: "bytes \<Rightarrow> 'd \<Rightarrow> 'd"
  c_insl :: "'d \<Rightarrow> bytes"
  c_polls :: "'d \<Rightarrow> uchar list"

record 'd ide = bcache +
  idequeue :: "nat option"
  qnext :: "nat \<Rightarrow> nat option"
  havedisk1 :: bool
  ata_state :: 'd

definition SECTOR_SIZE :: nat where "SECTOR_SIZE = 512"
definition IDE_BSY :: uchar where "IDE_BSY = 0x80"
definition IDE_DRDY :: uchar where "IDE_DRDY = 0x40"
definition IDE_DF :: uchar where "IDE_DF = 0x20"
definition IDE_ERR :: uchar where "IDE_ERR = 0x01"
definition IDE_CMD_READ :: uchar where "IDE_CMD_READ = 0x20"
definition IDE_CMD_WRITE :: uchar where "IDE_CMD_WRITE = 0x30"
definition IDE_CMD_RDMUL :: uchar where "IDE_CMD_RDMUL = 0xc4"
definition IDE_CMD_WRMUL :: uchar where "IDE_CMD_WRMUL = 0xc5"

definition outb :: "'d ata \<Rightarrow> uint \<Rightarrow> uchar \<Rightarrow> (('d, 'z) ide_scheme, unit) kop" where
  "outb c p v = mods (\<lambda>s. s\<lparr>ata_state := c_out c p v (ata_state s)\<rparr>)"

text \<open>
  The loop that polls the status: \<open>c_polls\<close> are the bytes the port gives, and a loop
  that finds none of them ready spins for ever.
\<close>

definition idewait :: "'d ata \<Rightarrow> bool \<Rightarrow> (('d, 'z) ide_scheme, int) kop" where
  "idewait c checkerr = bnd (gets (\<lambda>s. c_polls c (ata_state s))) (\<lambda>ps.
     case List.find (\<lambda>r. r AND (IDE_BSY OR IDE_DRDY) = IDE_DRDY) ps of
       None \<Rightarrow> wild ''idewait''
     | Some r \<Rightarrow> ret (if checkerr \<and> r AND (IDE_DF OR IDE_ERR) \<noteq> 0 then - 1 else 0))"

subsection \<open>The driver\<close>

text \<open>\<open>ideinit\<close> looks for the second disk; \<open>ps\<close> are the bytes its 1000 polls give.\<close>

definition ideinit :: "'d ata \<Rightarrow> uchar list \<Rightarrow> (('d, 'z) ide_scheme, unit) kop" where
  "ideinit c ps = seqs [
     bnd (idewait c False) (\<lambda>_. ret ()),
     outb c 0x1f6 (0xe0 OR push_bit 4 1),
     whenk (\<exists>r \<in> set (take 1000 ps). r \<noteq> 0) (mods (\<lambda>s. s\<lparr>havedisk1 := True\<rparr>)),
     outb c 0x1f6 (0xe0 OR push_bit 4 0)]"

definition idestart :: "'d ata \<Rightarrow> nat option \<Rightarrow> (('d, 'z) ide_scheme, unit) kop" where
  "idestart c bo = (case bo of None \<Rightarrow> panic ''idestart'' | Some b \<Rightarrow>
     bnd (buf_get b (\<lambda>x. x)) (\<lambda>x.
       if blockno x \<ge> of_nat FSSIZE then panic ''incorrect blockno''
       else
         let spb = BSIZE div SECTOR_SIZE; sector = blockno x * of_nat spb;
             read_cmd = if spb = 1 then IDE_CMD_READ else IDE_CMD_RDMUL;
             write_cmd = if spb = 1 then IDE_CMD_WRITE else IDE_CMD_WRMUL in
         if spb > 7 then panic ''idestart''
         else seqs [
           bnd (idewait c False) (\<lambda>_. ret ()),
           outb c 0x3f6 0,
           outb c 0x1f2 (of_nat spb),
           outb c 0x1f3 (ucast (sector AND 0xff)),
           outb c 0x1f4 (ucast (drop_bit 8 sector AND 0xff)),
           outb c 0x1f5 (ucast (drop_bit 16 sector AND 0xff)),
           outb c 0x1f6 (0xe0 OR ucast (push_bit 4 (bdev x AND 1)) OR ucast (drop_bit 24 sector AND 0x0f)),
           if bflags x AND B_DIRTY \<noteq> 0 then seqs [
             outb c 0x1f7 write_cmd,
             mods (\<lambda>s. s\<lparr>ata_state := c_outsl c (bdata x) (ata_state s)\<rparr>)]
           else outb c 0x1f7 read_cmd]))"

definition ide_intr :: "'d ata \<Rightarrow> (('d, 'z) ide_scheme, unit) kop" where
  "ide_intr c = bnd (kacquire IdeLock) (\<lambda>_. bnd (gets idequeue) (\<lambda>q. case q of
       None \<Rightarrow> krelease IdeLock
     | Some b \<Rightarrow> seqs [
         mods (\<lambda>s. s\<lparr>idequeue := qnext s b\<rparr>),
         bnd (buf_get b bflags) (\<lambda>f. whenk (f AND B_DIRTY = 0) (bnd (idewait c True) (\<lambda>r.
           whenk (r \<ge> 0) (bnd (gets (\<lambda>s. c_insl c (ata_state s))) (\<lambda>d. buf_upd b (\<lambda>x. x\<lparr>bdata := d\<rparr>)))))),
         buf_upd b (\<lambda>x. x\<lparr>bflags := bflags x OR B_VALID\<rparr>),
         buf_upd b (\<lambda>x. x\<lparr>bflags := bflags x AND NOT B_DIRTY\<rparr>),
         wakeup (Some (ChBuf b)),
         bnd (gets idequeue) (\<lambda>q. whenk (q \<noteq> None) (idestart c q)),
         krelease IdeLock]))"

text \<open>
  The end of the queue: the last buffer, or the head pointer when the queue is
  empty. A queue has at most \<open>NBUF\<close> buffers, which bounds the walk.
\<close>

primrec ide_last :: "nat \<Rightarrow> nat \<Rightarrow> (('d, 'z) ide_scheme, nat) kop" where
  "ide_last 0 b = wild ''idequeue''"
| "ide_last (Suc n) b = bnd (gets (\<lambda>s. qnext s b)) (\<lambda>q. case q of None \<Rightarrow> ret b | Some b' \<Rightarrow> ide_last n b')"

definition ide_append :: "nat \<Rightarrow> (('d, 'z) ide_scheme, unit) kop" where
  "ide_append b = bnd (gets idequeue) (\<lambda>q. case q of
       None \<Rightarrow> mods (\<lambda>s. s\<lparr>idequeue := Some b\<rparr>)
     | Some h \<Rightarrow> bnd (ide_last (Suc NBUF) h) (\<lambda>l. mods (\<lambda>s. s\<lparr>qnext := (qnext s)(l := Some b)\<rparr>)))"

text \<open>The wait for the request, and its continuation when the process has been woken.\<close>

definition ide_wait_done :: "nat \<Rightarrow> (('d, 'z) ide_scheme, unit) kop" where
  "ide_wait_done b = bnd (buf_get b bflags) (\<lambda>f.
     if f AND (B_VALID OR B_DIRTY) \<noteq> B_VALID then sleep (Some (ChBuf b)) (Some IdeLock)
     else krelease IdeLock)"

definition ide_rw :: "'d ata \<Rightarrow> nat \<Rightarrow> (('d, 'z) ide_scheme, unit) kop" where
  "ide_rw c b =
     bnd (holdingsleep (BufLock b)) (\<lambda>h. if \<not> h then panic ''iderw: buf not locked'' else
     bnd (buf_get b (\<lambda>x. x)) (\<lambda>x.
     bnd (gets havedisk1) (\<lambda>d1.
       if bflags x AND (B_VALID OR B_DIRTY) = B_VALID then panic ''iderw: nothing to do''
       else if bdev x \<noteq> 0 \<and> \<not> d1 then panic ''iderw: ide disk 1 not present''
       else seqs [
         kacquire IdeLock,
         mods (\<lambda>s. s\<lparr>qnext := (qnext s)(b := None)\<rparr>),
         ide_append b,
         bnd (gets idequeue) (\<lambda>q. whenk (q = Some b) (idestart c (Some b))),
         ide_wait_done b])))"

definition ide_rw_resume :: "nat \<Rightarrow> nat \<Rightarrow> (('d, 'z) ide_scheme, unit) kop" where
  "ide_rw_resume p b = seqs [sleep_resume p IdeLock, ide_wait_done b]"

subsection \<open>What the driver relies on\<close>

text \<open>The writes of \<open>idestart\<close> to the registers for sector \<open>n\<close> of drive \<open>u\<close>, and the whole command.\<close>

definition ata_regs :: "'d ata \<Rightarrow> uint \<Rightarrow> uint \<Rightarrow> 'd \<Rightarrow> 'd" where
  "ata_regs c u n d =
     c_out c 0x1f6 (0xe0 OR ucast (push_bit 4 (u AND 1)) OR ucast (drop_bit 24 n AND 0x0f))
       (c_out c 0x1f5 (ucast (drop_bit 16 n AND 0xff)) (c_out c 0x1f4 (ucast (drop_bit 8 n AND 0xff))
       (c_out c 0x1f3 (ucast (n AND 0xff)) (c_out c 0x1f2 1 (c_out c 0x3f6 0 d)))))"

definition ata_read :: "'d ata \<Rightarrow> uint \<Rightarrow> uint \<Rightarrow> 'd \<Rightarrow> 'd" where
  "ata_read c u n d = c_out c 0x1f7 IDE_CMD_READ (ata_regs c u n d)"

definition ata_write :: "'d ata \<Rightarrow> uint \<Rightarrow> uint \<Rightarrow> bytes \<Rightarrow> 'd \<Rightarrow> 'd" where
  "ata_write c u n x d = c_outsl c x (c_out c 0x1f7 IDE_CMD_WRITE (ata_regs c u n d))"

text \<open>
  A controller with the blocks \<open>blk d u n\<close>: it becomes ready when it is polled, a read
  command makes the block available without an error, a write command changes
  the block.
\<close>

definition ata_ok :: "'d ata \<Rightarrow> ('d \<Rightarrow> uint \<Rightarrow> uint \<Rightarrow> bytes) \<Rightarrow> bool" where
  "ata_ok c blk \<longleftrightarrow>
     (\<forall>d. \<exists>r \<in> set (c_polls c d). r AND (IDE_BSY OR IDE_DRDY) = IDE_DRDY) \<and>
     (\<forall>d u n. n < of_nat FSSIZE \<longrightarrow> blk (ata_read c u n d) = blk d \<and> c_insl c (ata_read c u n d) = blk d (u AND 1) n \<and>
       (\<forall>r \<in> set (c_polls c (ata_read c u n d)). r AND (IDE_DF OR IDE_ERR) = 0)) \<and>
     (\<forall>d u n x. n < of_nat FSSIZE \<longrightarrow> length x = BSIZE \<longrightarrow>
       blk (ata_write c u n x d) = (blk d)(u AND 1 := (blk d (u AND 1))(n := x)))"

lemma idewait_ready: "ata_ok c blk \<Longrightarrow> \<exists>r. idewait c e s = Ret r s"
proof -
  assume "ata_ok c blk"
  then have "\<exists>r \<in> set (c_polls c (ata_state s)). r AND (IDE_BSY OR IDE_DRDY) = IDE_DRDY" by (simp add: ata_ok_def)
  then have "List.find (\<lambda>r. r AND (IDE_BSY OR IDE_DRDY) = IDE_DRDY) (c_polls c (ata_state s)) \<noteq> None"
    by (auto simp: find_None_iff)
  then show ?thesis by (auto simp: idewait_def kops)
qed

lemma idewait_no_error:
  assumes "ata_ok c blk" "\<forall>r \<in> set (c_polls c (ata_state s)). r AND (IDE_DF OR IDE_ERR) = 0"
  shows "idewait c True s = Ret 0 s"
proof -
  have "\<exists>r \<in> set (c_polls c (ata_state s)). r AND (IDE_BSY OR IDE_DRDY) = IDE_DRDY" using assms(1) by (simp add: ata_ok_def)
  then have "List.find (\<lambda>r. r AND (IDE_BSY OR IDE_DRDY) = IDE_DRDY) (c_polls c (ata_state s)) \<noteq> None"
    by (auto simp: find_None_iff)
  then obtain r where r: "List.find (\<lambda>r. r AND (IDE_BSY OR IDE_DRDY) = IDE_DRDY) (c_polls c (ata_state s)) = Some r" by auto
  then have "r \<in> set (c_polls c (ata_state s))" by (auto simp: find_Some_iff)
  then show ?thesis using r assms(2) by (simp add: idewait_def kops)
qed

definition ata_start :: "'d ata \<Rightarrow> buf \<Rightarrow> 'd \<Rightarrow> 'd" where
  "ata_start c x d = (if bdirty x then ata_write c (bdev x) (blockno x) (bdata x) d else ata_read c (bdev x) (blockno x) d)"

lemma idestart_apply:
  assumes "ata_ok c blk" "blockno (bufs s b) < of_nat FSSIZE"
  shows "idestart c (Some b) s = Ret () (s\<lparr>ata_state := ata_start c (bufs s b) (ata_state s)\<rparr>)"
proof -
  obtain r where "idewait c False s = Ret r s" using idewait_ready [OF assms(1)] by blast
  then show ?thesis
    using assms(2)
    by (cases "bdirty (bufs s b)") (simp_all add: idestart_def Let_def kops buf_get_def outb_def BSIZE_def SECTOR_SIZE_def
      ata_start_def ata_read_def ata_write_def ata_regs_def bdirty_def not_le)
qed

subsection \<open>The queue\<close>

primrec queued :: "(nat \<Rightarrow> nat option) \<Rightarrow> nat option \<Rightarrow> nat list \<Rightarrow> bool" where
  "queued nx h [] = (h = None)"
| "queued nx h (b # bs) = (h = Some b \<and> queued nx (nx b) bs)"

lemma queued_cong: "(\<And>b. b \<in> set bs \<Longrightarrow> nx b = nx' b) \<Longrightarrow> queued nx h bs = queued nx' h bs"
  by (induction bs arbitrary: h) auto

lemma queued_append:
  "queued nx h (bs @ [l]) \<Longrightarrow> distinct (bs @ [l, b]) \<Longrightarrow> queued (nx(b := None, l := Some b)) h (bs @ [l, b])"
proof (induction bs arbitrary: h)
  case (Cons a bs)
  then show ?case by auto
qed simp

lemma ide_last_queued:
  "queued (qnext s) (Some h) bs \<Longrightarrow> length bs \<le> n \<Longrightarrow> ide_last n h s = Ret (last bs) s"
proof (induction n arbitrary: h bs)
  case 0
  then show ?case by (cases bs) auto
next
  case (Suc n)
  then obtain cs where bs: "bs = h # cs" "queued (qnext s) (qnext s h) cs" by (cases bs) auto
  show ?case
  proof (cases cs)
    case Nil
    then show ?thesis using bs by (simp add: kops)
  next
    case (Cons b ds)
    then show ?thesis using bs Suc.IH [of b cs] Suc.prems(2) by (simp add: kops)
  qed
qed

subsection \<open>The driver serves its queue in order\<close>

text \<open>What the memory disk does with a request, on a disk \<open>D\<close> and the buffers.\<close>

type_synonym drives = "uint \<Rightarrow> uint \<Rightarrow> bytes"

definition request_done :: "buf \<Rightarrow> buf" where
  "request_done x = x\<lparr>bflags := (bflags x OR B_VALID) AND NOT B_DIRTY\<rparr>"

definition serve :: "nat \<Rightarrow> drives \<times> (nat \<Rightarrow> buf) \<Rightarrow> drives \<times> (nat \<Rightarrow> buf)" where
  "serve b DB = (let D = fst DB; B = snd DB; x = B b; u = bdev x AND 1; n = blockno x in
     if bdirty x then (D(u := (D u)(n := bdata x)), B(b := request_done x))
     else (D, B(b := request_done (x\<lparr>bdata := D u n\<rparr>))))"

text \<open>A request that can be queued, and the state of the driver with the requests \<open>Q\<close> over the disk \<open>D\<close>.\<close>

definition request_ok :: "buf \<Rightarrow> bool" where
  "request_ok x \<longleftrightarrow> blockno x < of_nat FSSIZE \<and> length (bdata x) = BSIZE \<and> (bdirty x \<or> \<not> bvalid x)"

definition ide_sim :: "'d ata \<Rightarrow> ('d \<Rightarrow> drives) \<Rightarrow> drives \<Rightarrow> nat list \<Rightarrow> ('d, 'z) ide_scheme \<Rightarrow> bool" where
  "ide_sim c blk D Q s \<longleftrightarrow> queued (qnext s) (idequeue s) Q \<and> distinct Q \<and> (\<forall>b \<in> set Q. request_ok (bufs s b)) \<and>
     (case Q of [] \<Rightarrow> blk (ata_state s) = D | b # _ \<Rightarrow> \<exists>d. blk d = D \<and> ata_state s = ata_start c (bufs s b) d)"

lemma blk_start:
  assumes "ata_ok c blk" "request_ok x"
  shows "blk (ata_start c x d) = (if bdirty x then (blk d)(bdev x AND 1 := (blk d (bdev x AND 1))(blockno x := bdata x)) else blk d)"
    and "\<not> bdirty x \<Longrightarrow> c_insl c (ata_start c x d) = blk d (bdev x AND 1) (blockno x)"
    and "\<not> bdirty x \<Longrightarrow> \<forall>r \<in> set (c_polls c (ata_start c x d)). r AND (IDE_DF OR IDE_ERR) = 0"
  using assms by (auto simp: ata_ok_def ata_start_def request_ok_def)

lemma serve_frame: "b \<noteq> b' \<Longrightarrow> snd (serve b DB) b' = snd DB b'"
  by (simp add: serve_def Let_def)

lemma ide_intr_serves:
  assumes a: "ata_ok c blk" and s: "ide_sim c blk D (b # Q) s" and h: "IdeLock \<notin> set (held s)" "PTableLock \<notin> set (held s)"
  shows "\<exists>t. ide_intr c s = Ret () t \<and> ide_sim c blk (fst (serve b (D, bufs s))) Q t \<and> bufs t = snd (serve b (D, bufs s)) \<and>
    held t = held s \<and> procs t = woken (Some (ChBuf b)) (procs s)"
proof -
  obtain d where d: "blk d = D" "ata_state s = ata_start c (bufs s b) d" using s by (auto simp: ide_sim_def)
  have b: "idequeue s = Some b" "queued (qnext s) (qnext s b) Q" "b \<notin> set Q" "distinct Q" "request_ok (bufs s b)"
    "\<forall>b \<in> set Q. request_ok (bufs s b)"
    using s by (auto simp: ide_sim_def)
  note st = blk_start [OF a b(5), of d, folded d(2)]
  let ?D = "fst (serve b (D, bufs s))" and ?B = "snd (serve b (D, bufs s))"
  define u where "u = s\<lparr>idequeue := qnext s b, bufs := ?B, procs := woken (Some (ChBuf b)) (procs s)\<rparr>"
  have blk: "blk (ata_state s) = ?D" using st(1) d(1) by (simp add: serve_def Let_def)
  have B: "?B = (bufs s)(b := request_done (if bdirty (bufs s b) then bufs s b else (bufs s b)\<lparr>bdata := c_insl c (ata_state s)\<rparr>))"
    using st(2) d(1) by (simp add: serve_def Let_def)
  have w: "idewait c True v = Ret 0 v" if "\<not> bdirty (bufs s b)" "ata_state v = ata_state s" for v :: "('a, 'b) ide_scheme"
    using st(3) that by (intro idewait_no_error [OF a]) simp
  have req: "\<forall>b' \<in> set Q. request_ok (bufs u b')"
  proof
    fix b' assume "b' \<in> set Q"
    then have "b \<noteq> b'" using b(3) by auto
    then show "request_ok (bufs u b')" using b(6) \<open>b' \<in> set Q\<close> by (simp add: u_def serve_frame)
  qed
  have u: "u\<lparr>held := IdeLock # held s\<rparr> =
      s\<lparr>held := IdeLock # held s, idequeue := qnext s b, bufs := ?B, procs := woken (Some (ChBuf b)) (procs s)\<rparr>"
    by (cases s) (simp add: u_def)
  have step: "ide_intr c s = bnd (bnd (gets idequeue) (\<lambda>q. whenk (q \<noteq> None) (idestart c q))) (\<lambda>_. krelease IdeLock)
      (u\<lparr>held := IdeLock # held s\<rparr>)"
    using h w b(1) unfolding u
    by (cases "bdirty (bufs s b)")
      (simp_all add: ide_intr_def kcore buf_get_def buf_upd_def u_def B request_done_def bdirty_def fun_upd_def [symmetric])
  show ?thesis
  proof (cases Q)
    case Nil
    then have "ide_intr c s = Ret () u" using step b(2) by (simp add: kcore u_def)
    moreover have "ide_sim c blk ?D Q u" using Nil b blk by (simp add: ide_sim_def u_def)
    ultimately show ?thesis by (intro exI [of _ u]) (simp add: u_def)
  next
    case (Cons q Q')
    let ?t = "u\<lparr>ata_state := ata_start c (bufs u q) (ata_state s)\<rparr>"
    have q: "qnext s b = Some q" "blockno (bufs u q) < of_nat FSSIZE" using b(2) Cons req by (auto simp: request_ok_def)
    then have "ide_intr c s = Ret () ?t"
      using step idestart_apply [OF a, of "u\<lparr>held := IdeLock # held s\<rparr>" q] by (simp add: kcore u_def)
    moreover have "ide_sim c blk ?D Q ?t" using Cons b req blk by (auto simp: ide_sim_def u_def)
    ultimately show ?thesis by (intro exI [of _ ?t]) (simp add: u_def)
  qed
qed

lemma ide_drain:
  assumes "ata_ok c blk" "ide_sim c blk D Q s" "IdeLock \<notin> set (held s)" "PTableLock \<notin> set (held s)"
  shows "ok (for_each Q (\<lambda>_. ide_intr c)) s (\<lambda>_ t. ide_sim c blk (fst (fold serve Q (D, bufs s))) [] t \<and>
    bufs t = snd (fold serve Q (D, bufs s)) \<and> held t = held s \<and>
    (\<forall>i < NPROC. \<forall>b \<in> set Q. pstate (procs s i) = SLEEPING \<and> chan (procs s i) = Some (ChBuf b) \<longrightarrow> pstate (procs t i) = RUNNABLE) \<and>
    (\<forall>i. pstate (procs s i) = RUNNABLE \<longrightarrow> pstate (procs t i) = RUNNABLE))"
  using assms(2-)
proof (induction Q arbitrary: D s)
  case Nil
  then show ?case by simp
next
  case (Cons b Q)
  obtain t where t: "ide_intr c s = Ret () t" "ide_sim c blk (fst (serve b (D, bufs s))) Q t" "bufs t = snd (serve b (D, bufs s))"
    "held t = held s" "procs t = woken (Some (ChBuf b)) (procs s)"
    using ide_intr_serves [OF assms(1) Cons.prems] by blast
  have r: "(fst (serve b (D, bufs s)), bufs t) = serve b (D, bufs s)" using t(3) by simp
  have "ok (for_each Q (\<lambda>_. ide_intr c)) t (\<lambda>_ v. ide_sim c blk (fst (fold serve Q (serve b (D, bufs s)))) [] v \<and>
    bufs v = snd (fold serve Q (serve b (D, bufs s))) \<and> held v = held t \<and>
    (\<forall>i < NPROC. \<forall>b \<in> set Q. pstate (procs t i) = SLEEPING \<and> chan (procs t i) = Some (ChBuf b) \<longrightarrow> pstate (procs v i) = RUNNABLE) \<and>
    (\<forall>i. pstate (procs t i) = RUNNABLE \<longrightarrow> pstate (procs v i) = RUNNABLE))"
    using Cons.IH [OF t(2)] Cons.prems(2,3) t(4) unfolding r by simp
  then obtain v where v: "for_each Q (\<lambda>_. ide_intr c) t = Ret () v" "ide_sim c blk (fst (fold serve Q (serve b (D, bufs s)))) [] v"
    "bufs v = snd (fold serve Q (serve b (D, bufs s)))" "held v = held t"
    "\<forall>i < NPROC. \<forall>b \<in> set Q. pstate (procs t i) = SLEEPING \<and> chan (procs t i) = Some (ChBuf b) \<longrightarrow> pstate (procs v i) = RUNNABLE"
    "\<forall>i. pstate (procs t i) = RUNNABLE \<longrightarrow> pstate (procs v i) = RUNNABLE"
    by (auto simp: ok_iff)
  have w: "pstate (procs s i) = RUNNABLE \<Longrightarrow> pstate (procs t i) = RUNNABLE"
    "i < NPROC \<Longrightarrow> pstate (procs s i) = SLEEPING \<Longrightarrow> chan (procs s i) = Some (ChBuf b) \<Longrightarrow> pstate (procs t i) = RUNNABLE"
    "chan (procs s i) \<noteq> Some (ChBuf b) \<Longrightarrow> procs t i = procs s i" for i
    by (simp_all add: t(5) woken_def)
  have "pstate (procs v i) = RUNNABLE" if "i < NPROC" "b' \<in> set (b # Q)" "pstate (procs s i) = SLEEPING" "chan (procs s i) = Some (ChBuf b')" for i b'
    using that v(5,6) w(2,3) [of i] by (cases "b' = b") auto
  moreover have "for_each (b # Q) (\<lambda>_. ide_intr c) s = Ret () v" using t(1) v(1) by (simp add: bnd_apply)
  ultimately show ?case using v(2-4,6) t(4) w(1) by (intro okI) auto
qed

lemma ide_append_queued:
  assumes "queued (qnext s) (idequeue s) Q" "qnext s b = None" "distinct (Q @ [b])" "length Q \<le> NBUF"
  shows "\<exists>h nx. ide_append b s = Ret () (s\<lparr>idequeue := h, qnext := nx\<rparr>) \<and> queued nx h (Q @ [b]) \<and> (h = Some b \<longleftrightarrow> Q = [])"
proof (cases Q rule: rev_cases)
  case Nil
  then show ?thesis
    using assms by (intro exI [of _ "Some b"] exI [of _ "qnext s"]) (simp add: ide_append_def kops)
next
  case (snoc Q' l)
  then have "Q \<noteq> []" by simp
  then obtain h Qt where "Q = h # Qt" by (meson neq_Nil_conv)
  then have h: "idequeue s = Some h" "h \<in> set Q" using assms(1) by auto
  have "ide_last (Suc NBUF) h s = Ret l s" using ide_last_queued [of s h Q "Suc NBUF"] assms(1,4) h(1) snoc by simp
  then have "ide_append b s = Ret () (s\<lparr>idequeue := Some h, qnext := (qnext s)(l := Some b)\<rparr>)"
    using h by (simp add: ide_append_def kops)
  moreover have "queued ((qnext s)(l := Some b)) (Some h) (Q @ [b])"
    using queued_append [of "qnext s" "idequeue s" Q' l b] assms(1-3) snoc h(1) by (auto simp: fun_upd_idem fun_upd_twist)
  moreover have "h \<noteq> b" "Q \<noteq> []" using h(2) assms(3) by auto
  ultimately show ?thesis by blast
qed

lemma ide_wait_sleeps:
  assumes "held s = [IdeLock]" "curproc s = Some p" "bdirty (bufs s b) \<or> \<not> bvalid (bufs s b)"
  shows "ide_wait_done b s = Switch (s\<lparr>held := [PTableLock],
    procs := (procs s)(p := (procs s p)\<lparr>chan := Some (ChBuf b), pstate := SLEEPING\<rparr>)\<rparr>)"
  using assms by (auto simp: ide_wait_done_def kcore buf_get_def flags_clean bvalid_iff bdirty_iff sleep_def sched_def)

lemma ide_rw_queues:
  assumes a: "ata_ok c blk" and s: "ide_sim c blk D Q s" and p: "ready p s" "mine p s b"
    and b: "b \<notin> set Q" "request_ok (bufs s b)" "bdev (bufs s b) = 0 \<or> havedisk1 s" "length Q \<le> NBUF"
  shows "\<exists>t. ide_rw c b s = Switch t \<and> ide_sim c blk D (Q @ [b]) t \<and> bufs t = bufs s \<and> held t = [PTableLock] \<and>
    procs t = (procs s)(p := (procs s p)\<lparr>chan := Some (ChBuf b), pstate := SLEEPING\<rparr>)"
proof -
  have f: "\<not> (bit (bflags (bufs s b)) 1 \<and> \<not> bit (bflags (bufs s b)) 2)"
    using b(2) by (auto simp: request_ok_def bvalid_iff bdirty_iff)
  have h: "held s = []" "curproc s = Some p" using p(1) by (simp_all add: ready_def)
  have q: "queued (qnext s) (idequeue s) Q" "distinct Q" "\<forall>b \<in> set Q. request_ok (bufs s b)" using s by (auto simp: ide_sim_def)
  let ?s = "s\<lparr>held := [IdeLock], qnext := (qnext s)(b := None)\<rparr>"
  have "queued (qnext s) (idequeue s) Q = queued (qnext ?s) (idequeue s) Q" by (rule queued_cong) (use b(1) in auto)
  then have "queued (qnext ?s) (idequeue ?s) Q" using q(1) by simp
  then obtain h' nx where w: "ide_append b ?s = Ret () (?s\<lparr>idequeue := h', qnext := nx\<rparr>)" "queued nx h' (Q @ [b])"
    "h' = Some b \<longleftrightarrow> Q = []"
    using ide_append_queued [of ?s Q b] b(1,4) q(2) by auto
  define d where "d = (if Q = [] then ata_start c (bufs s b) (ata_state s) else ata_state s)"
  let ?u = "?s\<lparr>idequeue := h', qnext := nx, ata_state := d\<rparr>"
  have "ide_rw c b s = bnd (bnd (gets idequeue) (\<lambda>q. whenk (q = Some b) (idestart c (Some b)))) (\<lambda>_. ide_wait_done b)
      (?s\<lparr>idequeue := h', qnext := nx\<rparr>)"
    using holdingsleep_buf [OF p(1)] p(2) b(3) f h w(1) by (auto simp: ide_rw_def kcore buf_get_def flags_clean)
  also have "\<dots> = ide_wait_done b ?u"
    using w(3) idestart_apply [OF a, of "?s\<lparr>idequeue := h', qnext := nx\<rparr>" b] b(2)
    by (cases "Q = []") (simp_all add: kops d_def request_ok_def)
  also have "\<dots> = Switch (?u\<lparr>held := [PTableLock], procs := (procs s)(p := (procs s p)\<lparr>chan := Some (ChBuf b), pstate := SLEEPING\<rparr>)\<rparr>)"
    using ide_wait_sleeps [of ?u p b] b(2) h by (simp add: request_ok_def)
  finally have "ide_rw c b s = Switch (?u\<lparr>held := [PTableLock], procs := (procs s)(p := (procs s p)\<lparr>chan := Some (ChBuf b), pstate := SLEEPING\<rparr>)\<rparr>)" .
  moreover have "ide_sim c blk D (Q @ [b]) (?u\<lparr>held := [PTableLock], procs := (procs s)(p := (procs s p)\<lparr>chan := Some (ChBuf b), pstate := SLEEPING\<rparr>)\<rparr>)"
    using w(2) q b(1,2) s by (cases Q) (auto simp: ide_sim_def d_def)
  ultimately show ?thesis by auto
qed

text \<open>A request served is what \<open>iderw\<close> of the memory disk does, on disk 1.\<close>

lemma serve_memory_disk:
  assumes "ready p s" "mine p s i" "request_ok (bufs s i)" "bdev (bufs s i) = 1" "blockno (bufs s i) < disksize s"
  shows "\<exists>t. iderw i s = Ret () t \<and> (D(1 := disk t), bufs t) = serve i (D(1 := disk s), bufs s)"
proof (cases "bdirty (bufs s i)")
  case True
  have "(f OR B_VALID) AND NOT B_DIRTY = (f AND NOT B_DIRTY) OR B_VALID" for f
    by (rule bit_word_eqI) (auto simp: bit_simps bit_flags)
  then show ?thesis
    using iderw_write [OF assms(1,2) True assms(4,5)] True assms(4) by (simp add: serve_def Let_def request_done_def)
next
  case False
  then have "(bflags (bufs s i) OR B_VALID) AND NOT B_DIRTY = bflags (bufs s i) OR B_VALID"
    by (intro bit_word_eqI) (auto simp: bit_simps bit_flags bdirty_iff)
  then show ?thesis
    using iderw_read [OF assms(1,2)] False assms by (simp add: serve_def Let_def request_done_def request_ok_def)
qed

text \<open>
  C32. The driver serves its requests in the order they came. A process that calls
  \<open>iderw\<close> on a locked buffer is put to sleep on it with the request at the end of the
  queue. As many interrupts as there are requests empty the queue: the disk and
  the buffers are then those of the memory disk after the same requests one by one
  (\<open>serve\<close>), and every process that slept on one of the buffers can run.
\<close>
theorem ide_serves_in_order:
  assumes "ata_ok c blk" and "ide_sim c blk D Q s" and "held s = []"
  shows "(ready p s \<and> mine p s b \<and> b \<notin> set Q \<and> request_ok (bufs s b) \<and> (bdev (bufs s b) = 0 \<or> havedisk1 s) \<and> length Q \<le> NBUF \<longrightarrow>
      (\<exists>t. ide_rw c b s = Switch t \<and> ide_sim c blk D (Q @ [b]) t \<and> bufs t = bufs s \<and> held t = [PTableLock] \<and>
        pstate (procs t p) = SLEEPING \<and> chan (procs t p) = Some (ChBuf b))) \<and>
    ok (for_each Q (\<lambda>_. ide_intr c)) s (\<lambda>_ t.
      ide_sim c blk (fst (fold serve Q (D, bufs s))) [] t \<and> bufs t = snd (fold serve Q (D, bufs s)) \<and>
      (\<forall>i < NPROC. \<forall>b \<in> set Q. pstate (procs s i) = SLEEPING \<and> chan (procs s i) = Some (ChBuf b) \<longrightarrow> pstate (procs t i) = RUNNABLE))"
proof (intro conjI impI)
  assume "ready p s \<and> mine p s b \<and> b \<notin> set Q \<and> request_ok (bufs s b) \<and> (bdev (bufs s b) = 0 \<or> havedisk1 s) \<and> length Q \<le> NBUF"
  with ide_rw_queues [OF assms(1,2), of p b] show "\<exists>t. ide_rw c b s = Switch t \<and> ide_sim c blk D (Q @ [b]) t \<and> bufs t = bufs s \<and>
      held t = [PTableLock] \<and> pstate (procs t p) = SLEEPING \<and> chan (procs t p) = Some (ChBuf b)" by auto
next
  show "ok (for_each Q (\<lambda>_. ide_intr c)) s (\<lambda>_ t.
      ide_sim c blk (fst (fold serve Q (D, bufs s))) [] t \<and> bufs t = snd (fold serve Q (D, bufs s)) \<and>
      (\<forall>i < NPROC. \<forall>b \<in> set Q. pstate (procs s i) = SLEEPING \<and> chan (procs s i) = Some (ChBuf b) \<longrightarrow> pstate (procs t i) = RUNNABLE))"
    by (rule ok_mono [OF ide_drain [OF assms(1,2)]]) (simp_all add: assms(3))
qed

text \<open>A controller: the registers and the blocks. It is always ready.\<close>

type_synonym drive_state = "(uint \<Rightarrow> uchar) \<times> drives"

definition reg_unit :: "(uint \<Rightarrow> uchar) \<Rightarrow> uint" where
  "reg_unit r = ucast (drop_bit 4 (r 0x1f6) AND 1)"

definition reg_sector :: "(uint \<Rightarrow> uchar) \<Rightarrow> uint" where
  "reg_sector r = ucast (r 0x1f3) OR push_bit 8 (ucast (r 0x1f4)) OR push_bit 16 (ucast (r 0x1f5)) OR push_bit 24 (ucast (r 0x1f6 AND 0x0f))"

definition ata0 :: "drive_state ata" where
  "ata0 = \<lparr>c_out = (\<lambda>p v (r, D). (r(p := v), D)),
     c_outsl = (\<lambda>x (r, D). (r, D(reg_unit r := (D (reg_unit r))(reg_sector r := x)))),
     c_insl = (\<lambda>(r, D). D (reg_unit r) (reg_sector r)), c_polls = (\<lambda>_. [IDE_DRDY])\<rparr>"

lemma reg_regs:
  assumes "n < of_nat FSSIZE"
  shows "reg_unit (fst (ata_regs ata0 u n d)) = u AND 1" "reg_sector (fst (ata_regs ata0 u n d)) = n"
    "snd (ata_regs ata0 u n d) = snd d"
proof -
  have n: "\<not> bit n k" if "28 \<le> k" for k
  proof -
    have "unat n < 1000" using assms by (simp add: FSSIZE_def word_less_nat_alt)
    also have "\<dots> < 2 ^ 28" by simp
    also have "\<dots> \<le> 2 ^ k" using that by (rule power_increasing) simp
    finally have "\<not> bit (unat n) k" by (simp add: bit_iff_odd)
    then show ?thesis by (simp add: bit_unsigned_iff)
  qed
  show "reg_unit (fst (ata_regs ata0 u n d)) = u AND 1"
    by (rule bit_word_eqI) (auto simp: reg_unit_def ata_regs_def ata0_def split_beta bit_simps)
  have low: "ucast (x AND 0xff) = (ucast x :: uchar)" for x :: uint
  proof -
    have "x AND 0xff = take_bit 8 x" by (simp add: take_bit_eq_mask mask_eq_exp_minus_1)
    then show ?thesis by (auto intro: bit_word_eqI simp: bit_simps)
  qed
  have top: "(0xe0 OR ucast (push_bit 4 (u AND 1)) OR ucast (drop_bit 24 n AND 0x0f)) AND 0x0f = (ucast (drop_bit 24 n) :: uchar)"
  proof -
    have "(0xe0 :: uchar) = push_bit 5 7" "drop_bit 24 n AND 0x0f = take_bit 4 (drop_bit 24 n)" "y AND 0x0f = take_bit 4 y" for y :: uchar
      by (simp_all add: take_bit_eq_mask mask_eq_exp_minus_1)
    then show ?thesis by (auto intro!: bit_word_eqI simp: bit_simps n)
  qed
  show "reg_sector (fst (ata_regs ata0 u n d)) = n"
    using ucast_parts32 [of n] by (simp add: reg_sector_def ata_regs_def ata0_def split_beta low top [simplified])
  show "snd (ata_regs ata0 u n d) = snd d"
    by (simp add: ata_regs_def ata0_def split_beta)
qed

lemma ata0_ok: "ata_ok ata0 snd"
proof -
  have "IDE_DRDY AND (IDE_BSY OR IDE_DRDY) = IDE_DRDY" "IDE_DRDY AND (IDE_DF OR IDE_ERR) = 0"
    by (simp_all add: IDE_DRDY_def IDE_BSY_def IDE_DF_def IDE_ERR_def)
  moreover have "reg_unit ((fst (ata_regs ata0 u n d))(0x1f7 := v)) = reg_unit (fst (ata_regs ata0 u n d))"
    "reg_sector ((fst (ata_regs ata0 u n d))(0x1f7 := v)) = reg_sector (fst (ata_regs ata0 u n d))" for u n d v
    by (simp_all add: reg_unit_def reg_sector_def)
  moreover have "c_out ata0 p v d = ((fst d)(p := v), snd d)" "c_polls ata0 d = [IDE_DRDY]"
    "c_outsl ata0 x d = (fst d, (snd d)(reg_unit (fst d) := (snd d (reg_unit (fst d)))(reg_sector (fst d) := x)))"
    "c_insl ata0 d = snd d (reg_unit (fst d)) (reg_sector (fst d))" for p v d x
    by (simp_all add: ata0_def split_beta)
  ultimately show ?thesis
    by (simp add: ata_ok_def ata_read_def ata_write_def reg_regs)
qed

text \<open>Process 0 holds buffer 1; a read of block 5 of disk 0 into buffer 0 has been started.\<close>

definition ide_buf :: "nat \<Rightarrow> buf" where
  "ide_buf i = (buf0 i)\<lparr>blockno := of_nat i + 5, bdata := replicate BSIZE 0\<rparr>"

definition drives0 :: drives where
  "drives0 u n = replicate BSIZE (ucast n)"

definition ide0 :: "drive_state ide" where
  "ide0 = bcache.extend (bcache.truncate (log0\<lparr>bufs := ide_buf,
       slocks := (\<lambda>_. \<lparr>slocked = True, slname = [], slpid = 0\<rparr>)\<rparr>))
     (ide.fields (Some 0) (\<lambda>_. None) False (ata_start ata0 (ide_buf 0) (\<lambda>_. 0, drives0)))"

lemma ide0_sel [simp]:
  "held ide0 = []" "curproc ide0 = Some 0" "procs ide0 = (\<lambda>_. proc0)" "bufs ide0 = ide_buf"
  "slocks ide0 = (\<lambda>_. \<lparr>slocked = True, slname = [], slpid = 0\<rparr>)" "idequeue ide0 = Some 0" "qnext ide0 = (\<lambda>_. None)"
  "ata_state ide0 = ata_start ata0 (ide_buf 0) (\<lambda>_. 0, drives0)"
  by (simp_all add: ide0_def bcache.extend_def bcache.truncate_def ide.fields_def log0_def)

lemma ide_sim0: "ide_sim ata0 snd drives0 [0] ide0"
  by (auto simp: ide_sim_def request_ok_def ide_buf_def buf0_def FSSIZE_def bvalid_def intro!: exI [of _ "(\<lambda>_. 0, drives0)"])

theorem ide_serves_in_order_witness:
  "(\<exists>t. ide_rw ata0 1 ide0 = Switch t \<and> ide_sim ata0 snd drives0 [0, 1] t) \<and>
   ok (for_each [0 :: nat] (\<lambda>_. ide_intr ata0)) ide0 (\<lambda>_ t. bdata (bufs t 0) = replicate BSIZE 5)"
proof -
  note w = ide_serves_in_order [OF ata0_ok ide_sim0 ide0_sel(1), of 0 1]
  have "ready 0 ide0" "mine 0 ide0 1" "request_ok (bufs ide0 1)" "bdev (bufs ide0 1) = 0" "length [0 :: nat] \<le> NBUF"
    by (simp_all add: ready_def mine_def blocked_def proc0_def request_ok_def ide_buf_def buf0_def FSSIZE_def bvalid_def param_defs)
  then have "\<exists>t. ide_rw ata0 1 ide0 = Switch t \<and> ide_sim ata0 snd drives0 ([0] @ [1]) t" using conjunct1 [OF w] by auto
  moreover have "ok (for_each [0 :: nat] (\<lambda>_. ide_intr ata0)) ide0 (\<lambda>_ t. bdata (bufs t 0) = replicate BSIZE 5)"
    by (rule ok_mono [OF conjunct2 [OF w]])
      (simp add: serve_def Let_def ide_buf_def buf0_def bdirty_def request_done_def drives0_def)
  ultimately show ?thesis by simp
qed

end
