(* ===== verification/Address_Space.thy ===== *)
theory Address_Space
  imports Vm
begin

unbundle bit_operations_syntax

text \<open>
  Reading and writing memory through the page table in use (vm.c): the translation
  as a function of the memory and the page directory, and the loads, stores and
  copies of the kernel in terms of it.
\<close>

subsection \<open>Translation\<close>

definition xlate :: "mem \<Rightarrow> uint \<Rightarrow> uint \<Rightarrow> uint option" where
  "xlate m c va =
     (if va \<ge> KERNBASE then Some va
      else let e = ld32 m (P2V c + 4 * PDX va); pte = P2V (PTE_ADDR e) + 4 * PTX va; f = ld32 m pte in
        if e AND PTE_P = 0 \<or> pte = 0 \<or> f AND PTE_P = 0 then None
        else Some (P2V (PTE_ADDR f) + (va AND 0xFFF)))"

lemma walkpgdir_found:
  "walkpgdir pgd va False s = Ret (let e = ld32 (mem s) (pgd + 4 * PDX va) in
     if e AND PTE_P = 0 then 0 else P2V (PTE_ADDR e) + 4 * PTX va) s"
  by (simp add: walkpgdir_def Let_def kops mem_ld_def)

lemma vaddr_apply [kcore]:
  "vaddr va s = (case xlate (mem s) (cr3 s) va of None \<Rightarrow> Wild ''page fault'' | Some a \<Rightarrow> Ret a s)"
  by (simp add: vaddr_def xlate_def kops walkpgdir_found Let_def mem_ld_def)

lemma ldb_apply [kcore]:
  "ldb va s = (case xlate (mem s) (cr3 s) va of None \<Rightarrow> Wild ''page fault'' | Some a \<Rightarrow> Ret (mem s a) s)"
  by (simp add: ldb_def kops vaddr_apply split: option.split)

lemma stb_apply [kcore]:
  "stb va v s = (case xlate (mem s) (cr3 s) va of None \<Rightarrow> Wild ''page fault''
     | Some a \<Rightarrow> Ret () (s\<lparr>mem := (mem s)(a := v)\<rparr>))"
  by (simp add: stb_def kops vaddr_apply split: option.split)

text \<open>The bytes at an address, and a copy to it.\<close>

primrec get_bytes :: "mem \<Rightarrow> uint \<Rightarrow> nat \<Rightarrow> uint \<Rightarrow> bytes option" where
  "get_bytes m c 0 va = Some []"
| "get_bytes m c (Suc n) va = (case xlate m c va of None \<Rightarrow> None | Some a \<Rightarrow> map_option ((#) (m a)) (get_bytes m c n (va + 1)))"

primrec put_bytes :: "mem \<Rightarrow> uint \<Rightarrow> bytes \<Rightarrow> uint \<Rightarrow> mem option" where
  "put_bytes m c [] va = Some m"
| "put_bytes m c (b # bs) va = (case xlate m c va of None \<Rightarrow> None | Some a \<Rightarrow> put_bytes (m(a := b)) c bs (va + 1))"

lemma ld_bytes_apply [kcore]:
  "ld_bytes n va s = (case get_bytes (mem s) (cr3 s) n va of None \<Rightarrow> Wild ''page fault'' | Some bs \<Rightarrow> Ret bs s)"
  by (induction n arbitrary: va) (auto simp: kops ldb_apply split: option.split)

lemma st_bytes_apply [kcore]:
  "st_bytes bs va s = (case put_bytes (mem s) (cr3 s) bs va of None \<Rightarrow> Wild ''page fault'' | Some m \<Rightarrow> Ret () (s\<lparr>mem := m\<rparr>))"
  by (induction bs arbitrary: va s) (auto simp: kops stb_apply split: option.split)

lemma length_get_bytes: "get_bytes m c n va = Some bs \<Longrightarrow> length bs = n"
  by (induction n arbitrary: va bs) (auto split: option.splits)

end
