(* ===== verification/Pipe_Queue.thy ===== *)
theory Pipe_Queue
  imports File Address_Space Free_Map
begin

text \<open>
  A pipe is a queue of bytes of bounded length (pipe.c): what its operations do to
  the bytes between its two counters, when they wait and whom they wake.
\<close>

interpretation pipe_ring: ring PIPESIZE
  by unfold_locales (simp_all add: PIPESIZE_def)

definition contents :: "pipe \<Rightarrow> bytes" where
  "contents x = ring_seq PIPESIZE (pdata x) (nread x) (nwrite x)"

definition pipe_ok :: "pipe \<Rightarrow> bool" where
  "pipe_ok x \<longleftrightarrow> length (pdata x) = PIPESIZE \<and> unat (nwrite x - nread x) \<le> PIPESIZE"

lemma length_contents: "pipe_ok x \<Longrightarrow> length (contents x) \<le> PIPESIZE"
  by (simp add: pipe_ok_def contents_def)

lemma full_iff: "nwrite x = nread x + of_nat PIPESIZE \<longleftrightarrow> length (contents x) = PIPESIZE"
proof -
  have "nwrite x = nread x + of_nat PIPESIZE \<longleftrightarrow> nwrite x - nread x = of_nat PIPESIZE" by (auto simp: algebra_simps)
  also have "\<dots> \<longleftrightarrow> unat (nwrite x - nread x) = PIPESIZE"
    by (auto simp: PIPESIZE_def unat_of_nat word_unat_eq_iff)
  finally show ?thesis by (simp add: contents_def)
qed

lemma empty_iff: "nread x = nwrite x \<longleftrightarrow> contents x = []"
  by (auto simp: contents_def)

subsection \<open>Writing\<close>

definition push :: "uchar \<Rightarrow> pipe \<Rightarrow> pipe" where
  "push c x = x\<lparr>pdata := (pdata x)[unat (nwrite x) mod PIPESIZE := c], nwrite := nwrite x + 1\<rparr>"

lemma push_contents:
  assumes "pipe_ok x" "length (contents x) < PIPESIZE"
  shows "contents (push c x) = contents x @ [c]" "pipe_ok (push c x)" "readopen (push c x) = readopen x" "writeopen (push c x) = writeopen x"
proof -
  have "contents (push c x) = contents x @ [c]"
    unfolding contents_def push_def using pipe_ring.seq_put assms by (simp add: pipe_ok_def contents_def)
  moreover from arg_cong [OF this, of length] have "unat (nwrite (push c x) - nread (push c x)) = Suc (length (contents x))"
    by (simp add: contents_def)
  ultimately show "contents (push c x) = contents x @ [c]" "pipe_ok (push c x)" "readopen (push c x) = readopen x" "writeopen (push c x) = writeopen x"
    using assms by (simp_all add: pipe_ok_def push_def)
qed

lemma pipewrite_push:
  assumes "pipe_ok (pipes s p)" "get_bytes (mem s) (cr3 s) (length cs) (addr + i) = Some cs"
    and "length (contents (pipes s p)) + length cs \<le> PIPESIZE"
  shows "\<exists>x. pipe_ok x \<and> contents x = contents (pipes s p) @ cs \<and> readopen x = readopen (pipes s p) \<and>
    pipewrite_loop (length cs + j) p addr i n s =
      pipewrite_loop j p addr (i + of_nat (length cs)) n (s\<lparr>pipes := (pipes s)(p := x)\<rparr>)"
  using assms
proof (induction cs arbitrary: s i)
  case Nil
  then show ?case by (intro exI [of _ "pipes s p"]) simp
next
  case (Cons c cs)
  let ?s = "s\<lparr>pipes := (pipes s)(p := push c (pipes s p))\<rparr>"
  obtain a where a: "xlate (mem s) (cr3 s) (addr + i) = Some a" "mem s a = c" "get_bytes (mem s) (cr3 s) (length cs) (addr + (i + 1)) = Some cs"
    using Cons.prems(2) by (auto simp: add.assoc split: option.splits)
  have "length (contents (pipes s p)) < PIPESIZE" using Cons.prems(3) by simp
  note q = push_contents [OF Cons.prems(1) this, of c]
  have "pipewrite_loop (Suc (length cs + j)) p addr i n s = pipewrite_loop (length cs + j) p addr (i + 1) n ?s"
    using full_iff [of "pipes s p"] Cons.prems(3) a(1,2)
    by (simp add: kops pipe_get_def pipe_upd_def ldb_apply push_def)
  moreover obtain x where x: "pipe_ok x" "contents x = contents (pipes ?s p) @ cs" "readopen x = readopen (pipes ?s p)"
    "pipewrite_loop (length cs + j) p addr (i + 1) n ?s =
      pipewrite_loop j p addr ((i + 1) + of_nat (length cs)) n (?s\<lparr>pipes := (pipes ?s)(p := x)\<rparr>)"
  proof -
    have "pipe_ok (pipes ?s p)" "get_bytes (mem ?s) (cr3 ?s) (length cs) (addr + (i + 1)) = Some cs"
      "length (contents (pipes ?s p)) + length cs \<le> PIPESIZE"
      using q a(3) Cons.prems(3) by simp_all
    from Cons.IH [OF this] show thesis using that by blast
  qed
  moreover have "?s\<lparr>pipes := (pipes ?s)(p := x)\<rparr> = s\<lparr>pipes := (pipes s)(p := x)\<rparr>"
    "(i + 1) + of_nat (length cs) = i + of_nat (length (c # cs))" by (simp_all add: add.assoc)
  ultimately have "pipewrite_loop (length (c # cs) + j) p addr i n s =
      pipewrite_loop j p addr (i + of_nat (length (c # cs))) n (s\<lparr>pipes := (pipes s)(p := x)\<rparr>)"
    by (simp only: list.size add_Suc_right add_Suc add_0_right)
  moreover have "contents x = contents (pipes s p) @ c # cs" "readopen x = readopen (pipes s p)" using x(2,3) q by simp_all
  ultimately show ?case using x(1) by blast
qed

text \<open>The processes that can run after all those put_to_sleep on \<open>ch\<close> have been woken, and the caller put to sleep.\<close>

definition put_to_sleep :: "nat \<Rightarrow> chan \<Rightarrow> (nat \<Rightarrow> proc) \<Rightarrow> nat \<Rightarrow> proc" where
  "put_to_sleep me ch ps = ps(me := (ps me)\<lparr>chan := Some ch, pstate := SLEEPING\<rparr>)"

lemma held_idem: "held s = h \<Longrightarrow> s\<lparr>held := h\<rparr> = s"
  by auto

lemma pipewrite_done:
  assumes "PTableLock \<notin> set (held s)" "PipeLock p \<in> set (held s)"
  shows "pipewrite_loop 0 p addr i n s =
    Ret n (s\<lparr>procs := woken (Some (ChPipeR p)) (procs s), held := remove1 (PipeLock p) (held s)\<rparr>)"
  using assms by (simp add: kcore)

lemma pipewrite_full:
  assumes "held s = [PipeLock p]" "curproc s = Some me" "length (contents (pipes s p)) = PIPESIZE"
  shows "pipewrite_loop (Suc k) p addr i n s =
    (if \<not> readopen (pipes s p) \<or> killed (procs s me) then Ret (- 1) (s\<lparr>held := []\<rparr>)
     else Switch (s\<lparr>procs := put_to_sleep me (ChPipeW p) (woken (Some (ChPipeR p)) (procs s)), held := [PTableLock]\<rparr>))"
  using assms full_iff [of "pipes s p"]
  by (auto simp: kcore pipe_get_def sleep_def sched_def put_to_sleep_def)

subsection \<open>Reading\<close>

lemma drop_contents:
  assumes "pipe_ok x" "contents x = c # cs"
  shows "contents (x\<lparr>nread := nread x + 1\<rparr>) = cs" "pipe_ok (x\<lparr>nread := nread x + 1\<rparr>)" "pdata x ! (unat (nread x) mod PIPESIZE) = c"
proof -
  have "nread x \<noteq> nwrite x" using assms(2) empty_iff [of x] by simp
  from ring_seq_Cons [OF this, of PIPESIZE "pdata x"] have e: "contents x = pdata x ! (unat (nread x) mod PIPESIZE) # contents (x\<lparr>nread := nread x + 1\<rparr>)"
    by (simp add: contents_def)
  with assms(2) show c: "contents (x\<lparr>nread := nread x + 1\<rparr>) = cs" "pdata x ! (unat (nread x) mod PIPESIZE) = c" by auto
  have "length (contents (x\<lparr>nread := nread x + 1\<rparr>)) \<le> PIPESIZE" using length_contents [OF assms(1)] e by simp
  then show "pipe_ok (x\<lparr>nread := nread x + 1\<rparr>)" using assms(1) by (simp add: pipe_ok_def contents_def)
qed

lemma piperead_copy_takes:
  assumes "pipe_ok (pipes s p)" "put_bytes (mem s) (cr3 s) (take k (contents (pipes s p))) (addr + i) = Some m"
  shows "\<exists>x. pipe_ok x \<and> contents x = drop k (contents (pipes s p)) \<and> writeopen x = writeopen (pipes s p) \<and> readopen x = readopen (pipes s p) \<and>
    piperead_copy k p addr i s =
      Ret (i + of_nat (min k (length (contents (pipes s p))))) (s\<lparr>pipes := (pipes s)(p := x), mem := m\<rparr>)"
  using assms
proof (induction k arbitrary: s i)
  case 0
  then show ?case by (intro exI [of _ "pipes s p"]) (simp add: kops)
next
  case (Suc k)
  show ?case
  proof (cases "contents (pipes s p)")
    case Nil
    then show ?thesis using Suc.prems empty_iff [of "pipes s p"]
      by (intro exI [of _ "pipes s p"]) (simp add: kops pipe_get_def)
  next
    case (Cons c cs)
    let ?x = "(pipes s p)\<lparr>nread := nread (pipes s p) + 1\<rparr>"
    note q = drop_contents [OF Suc.prems(1) Cons]
    obtain a where a: "xlate (mem s) (cr3 s) (addr + i) = Some a" "put_bytes ((mem s)(a := c)) (cr3 s) (take k cs) (addr + (i + 1)) = Some m"
      using Suc.prems(2) Cons by (auto simp: add.assoc split: option.splits)
    let ?s = "s\<lparr>pipes := (pipes s)(p := ?x), mem := (mem s)(a := c)\<rparr>"
    have "piperead_copy (Suc k) p addr i s = piperead_copy k p addr (i + 1) ?s"
      using Cons empty_iff [of "pipes s p"] q(3) a(1) by (simp add: kops pipe_get_def pipe_upd_def stb_apply)
    moreover have "pipe_ok (pipes ?s p)" "put_bytes (mem ?s) (cr3 ?s) (take k (contents (pipes ?s p))) (addr + (i + 1)) = Some m"
      using q a(2) by simp_all
    from Suc.IH [OF this] obtain x where x: "pipe_ok x" "contents x = drop k (contents (pipes ?s p))"
      "writeopen x = writeopen (pipes ?s p)" "readopen x = readopen (pipes ?s p)"
      "piperead_copy k p addr (i + 1) ?s =
        Ret ((i + 1) + of_nat (min k (length (contents (pipes ?s p))))) (?s\<lparr>pipes := (pipes ?s)(p := x), mem := m\<rparr>)"
      by blast
    moreover have "?s\<lparr>pipes := (pipes ?s)(p := x), mem := m\<rparr> = s\<lparr>pipes := (pipes s)(p := x), mem := m\<rparr>"
      "(i + 1) + of_nat (min k (length (contents (pipes ?s p)))) = i + of_nat (min (Suc k) (length (contents (pipes s p))))"
      using q(1) Cons by (simp_all add: add.assoc)
    ultimately have "piperead_copy (Suc k) p addr i s =
        Ret (i + of_nat (min (Suc k) (length (contents (pipes s p))))) (s\<lparr>pipes := (pipes s)(p := x), mem := m\<rparr>)"
      by (simp only:)
    moreover have "contents x = drop (Suc k) (contents (pipes s p))" "writeopen x = writeopen (pipes s p)"
      "readopen x = readopen (pipes s p)" using x(2-4) q Cons by simp_all
    ultimately show ?thesis using x(1) by blast
  qed
qed

subsection \<open>The operations\<close>

lemma pipewrite_queue:
  assumes "pipe_ok (pipes s p)" "held s = []" "curproc s = Some me" "get_bytes (mem s) (cr3 s) (length cs) addr = Some cs"
  defines "room \<equiv> PIPESIZE - length (contents (pipes s p))"
  shows "\<exists>x. pipe_ok x \<and> contents x = contents (pipes s p) @ take room cs \<and>
    pipewrite p addr (int (length cs)) s =
     (if length cs \<le> room then Ret (int (length cs)) (s\<lparr>pipes := (pipes s)(p := x), procs := woken (Some (ChPipeR p)) (procs s)\<rparr>)
      else if \<not> readopen (pipes s p) \<or> killed (procs s me) then Ret (- 1) (s\<lparr>pipes := (pipes s)(p := x)\<rparr>)
      else Switch (s\<lparr>pipes := (pipes s)(p := x), held := [PTableLock],
        procs := put_to_sleep me (ChPipeW p) (woken (Some (ChPipeR p)) (procs s))\<rparr>))"
proof -
  let ?ds = "take room cs" and ?s = "s\<lparr>held := [PipeLock p]\<rparr>"
  have len: "length (contents (pipes s p)) \<le> PIPESIZE" by (rule length_contents [OF assms(1)])
  have cs: "length cs = length ?ds + (length cs - room)" by simp
  have get: "get_bytes (mem s) (cr3 s) (length ?ds) addr = Some ?ds"
    using assms(4)
  proof (induction cs arbitrary: addr room)
    case (Cons c cs)
    then show ?case by (cases room) (auto split: option.splits)
  qed simp
  have "\<exists>x. pipe_ok x \<and> contents x = contents (pipes ?s p) @ ?ds \<and> readopen x = readopen (pipes ?s p) \<and>
    pipewrite_loop (length ?ds + (length cs - room)) p addr 0 (int (length cs)) ?s =
      pipewrite_loop (length cs - room) p addr (0 + of_nat (length ?ds)) (int (length cs)) (?s\<lparr>pipes := (pipes ?s)(p := x)\<rparr>)"
    by (rule pipewrite_push) (use assms(1) get len in \<open>simp_all add: room_def\<close>)
  then obtain x where x: "pipe_ok x" "contents x = contents (pipes s p) @ ?ds" "readopen x = readopen (pipes s p)"
    "pipewrite_loop (length cs) p addr 0 (int (length cs)) ?s =
      pipewrite_loop (length cs - room) p addr (of_nat (length ?ds)) (int (length cs)) (?s\<lparr>pipes := (pipes s)(p := x)\<rparr>)"
    unfolding cs [symmetric] by auto
  have w: "pipewrite p addr (int (length cs)) s =
      pipewrite_loop (length cs - room) p addr (of_nat (length ?ds)) (int (length cs)) (?s\<lparr>pipes := (pipes s)(p := x)\<rparr>)"
    using x(4) assms(2) by (simp add: pipewrite_def kcore)
  show ?thesis
  proof (cases "length cs \<le> room")
    case True
    then show ?thesis using w x(1,2) assms(2) by (intro exI [of _ x]) (simp add: kcore held_idem)
  next
    case False
    then obtain k where k: "length cs - room = Suc k" by (cases "length cs - room") auto
    have full: "length (contents x) = PIPESIZE" using False x(2) len by (simp add: room_def)
    then show ?thesis
      using False w x(1-3) assms(2,3) unfolding k
      by (intro exI [of _ x]) (simp add: pipewrite_full held_idem del: pipewrite_loop.simps)
  qed
qed

lemma piperead_queue:
  assumes "pipe_ok (pipes s p)" "held s = []" "curproc s = Some me" "n < 2 ^ 31"
    and "put_bytes (mem s) (cr3 s) (take n (contents (pipes s p))) addr = Some m"
    and "contents (pipes s p) \<noteq> [] \<or> \<not> writeopen (pipes s p)"
  shows "\<exists>x. pipe_ok x \<and> contents x = drop n (contents (pipes s p)) \<and>
    piperead p addr (int n) s = Ret (int (min n (length (contents (pipes s p)))))
      (s\<lparr>pipes := (pipes s)(p := x), mem := m, procs := woken (Some (ChPipeW p)) (procs s)\<rparr>)"
proof -
  let ?s = "s\<lparr>held := [PipeLock p]\<rparr>" and ?k = "min n (length (contents (pipes s p)))"
  have "\<exists>x. pipe_ok x \<and> contents x = drop n (contents (pipes ?s p)) \<and> writeopen x = writeopen (pipes ?s p) \<and> readopen x = readopen (pipes ?s p) \<and>
    piperead_copy n p addr 0 ?s = Ret (0 + of_nat (min n (length (contents (pipes ?s p))))) (?s\<lparr>pipes := (pipes ?s)(p := x), mem := m\<rparr>)"
    by (rule piperead_copy_takes) (use assms(1,5) in simp_all)
  then obtain x where x: "pipe_ok x" "contents x = drop n (contents (pipes s p))"
    "piperead_copy n p addr 0 ?s = Ret (of_nat ?k) (?s\<lparr>pipes := (pipes s)(p := x), mem := m\<rparr>)" by auto
  have "sint (of_nat ?k :: uint) = int ?k"
    using length_contents [OF assms(1)] by (intro sint_of_nat_small) (simp add: PIPESIZE_def)
  then have "piperead p addr (int n) s = Ret (int ?k) (s\<lparr>pipes := (pipes s)(p := x), mem := m, procs := woken (Some (ChPipeW p)) (procs s)\<rparr>)"
    using x(3) assms(2,6) empty_iff [of "pipes s p"] by (auto simp: piperead_def piperead_loop_def kcore pipe_get_def held_idem)
  then show ?thesis using x(1,2) by blast
qed

lemma piperead_waits:
  assumes "held s = []" "curproc s = Some me" "contents (pipes s p) = []" "writeopen (pipes s p)"
  shows "piperead p addr n s = (if killed (procs s me) then Ret (- 1) s
     else Switch (s\<lparr>held := [PTableLock], procs := put_to_sleep me (ChPipeR p) (procs s)\<rparr>))"
proof -
  show ?thesis
    using assms empty_iff [of "pipes s p"]
    by (auto simp: piperead_def piperead_loop_def kcore pipe_get_def sleep_def sched_def put_to_sleep_def held_idem)
qed

text \<open>
  C35. A pipe is a first-in first-out queue of at most \<open>PIPESIZE\<close> bytes, also after its
  32-bit counters have wrapped around. \<open>pipewrite\<close> appends the bytes of its caller
  that fit. If all of them do it wakes the readers and returns their number; if not
  it wakes the readers and sleeps, or returns -1 when there is no reader or the
  caller has been killed. \<open>piperead\<close> moves the first \<open>n\<close> bytes, or all there are, to its
  caller and wakes the writers; on an empty pipe that has a writer it sleeps, or
  returns -1 when the caller has been killed.
\<close>
theorem pipe_is_queue:
  assumes "pipe_ok (pipes s p)" and "held s = []" and "curproc s = Some me"
  shows "(\<forall>cs. get_bytes (mem s) (cr3 s) (length cs) addr = Some cs \<longrightarrow>
      (let room = PIPESIZE - length (contents (pipes s p)) in
       \<exists>x. pipe_ok x \<and> contents x = contents (pipes s p) @ take room cs \<and>
         pipewrite p addr (int (length cs)) s =
           (if length cs \<le> room then Ret (int (length cs)) (s\<lparr>pipes := (pipes s)(p := x), procs := woken (Some (ChPipeR p)) (procs s)\<rparr>)
            else if \<not> readopen (pipes s p) \<or> killed (procs s me) then Ret (- 1) (s\<lparr>pipes := (pipes s)(p := x)\<rparr>)
            else Switch (s\<lparr>pipes := (pipes s)(p := x), held := [PTableLock],
              procs := put_to_sleep me (ChPipeW p) (woken (Some (ChPipeR p)) (procs s))\<rparr>)))) \<and>
    (\<forall>n m. n < 2 ^ 31 \<longrightarrow> put_bytes (mem s) (cr3 s) (take n (contents (pipes s p))) addr = Some m \<longrightarrow>
      (if contents (pipes s p) = [] \<and> writeopen (pipes s p)
       then piperead p addr (int n) s = (if killed (procs s me) then Ret (- 1) s
         else Switch (s\<lparr>held := [PTableLock], procs := put_to_sleep me (ChPipeR p) (procs s)\<rparr>))
       else \<exists>x. pipe_ok x \<and> contents x = drop n (contents (pipes s p)) \<and>
         piperead p addr (int n) s = Ret (int (min n (length (contents (pipes s p)))))
           (s\<lparr>pipes := (pipes s)(p := x), mem := m, procs := woken (Some (ChPipeW p)) (procs s)\<rparr>)))"
proof (intro conjI allI impI)
  fix cs assume "get_bytes (mem s) (cr3 s) (length cs) addr = Some cs"
  from pipewrite_queue [OF assms this] show "let room = PIPESIZE - length (contents (pipes s p)) in
       \<exists>x. pipe_ok x \<and> contents x = contents (pipes s p) @ take room cs \<and>
         pipewrite p addr (int (length cs)) s =
           (if length cs \<le> room then Ret (int (length cs)) (s\<lparr>pipes := (pipes s)(p := x), procs := woken (Some (ChPipeR p)) (procs s)\<rparr>)
            else if \<not> readopen (pipes s p) \<or> killed (procs s me) then Ret (- 1) (s\<lparr>pipes := (pipes s)(p := x)\<rparr>)
            else Switch (s\<lparr>pipes := (pipes s)(p := x), held := [PTableLock],
              procs := put_to_sleep me (ChPipeW p) (woken (Some (ChPipeR p)) (procs s))\<rparr>))"
    unfolding Let_def .
next
  fix n m assume "n < (2 :: nat) ^ 31" "put_bytes (mem s) (cr3 s) (take n (contents (pipes s p))) addr = Some m"
  with piperead_queue [OF assms] piperead_waits [OF assms(2,3)]
  show "if contents (pipes s p) = [] \<and> writeopen (pipes s p)
       then piperead p addr (int n) s = (if killed (procs s me) then Ret (- 1) s
         else Switch (s\<lparr>held := [PTableLock], procs := put_to_sleep me (ChPipeR p) (procs s)\<rparr>))
       else \<exists>x. pipe_ok x \<and> contents x = drop n (contents (pipes s p)) \<and>
         piperead p addr (int n) s = Ret (int (min n (length (contents (pipes s p)))))
           (s\<lparr>pipes := (pipes s)(p := x), mem := m, procs := woken (Some (ChPipeW p)) (procs s)\<rparr>)" by simp
qed

text \<open>A pipe with three bytes, whose write counter has just wrapped around.\<close>

definition pipe0 :: pipe where
  "pipe0 = \<lparr>pdata = (replicate PIPESIZE 0)[510 := 7, 511 := 8, 0 := 9], nread = - 2, nwrite = 1, readopen = True, writeopen = True\<rparr>"

definition files0 :: files where
  "files0 = fs.extend fs0 (files.fields
     (\<lambda>_. \<lparr>ftype = FD_NONE, fref = 0, freadable = False, fwritable = False, fpipe = 0, fip = 0, foff = 0\<rparr>) (\<lambda>_. pipe0))"

lemma files0_sel [simp]: "held files0 = []" "curproc files0 = Some 0" "pipes files0 = (\<lambda>_. pipe0)" "mem files0 = (\<lambda>_. 0)"
  by (simp_all add: files0_def fs.extend_def files.fields_def fs0_def log.extend_def fs.fields_def log0_def)

lemma pipe0_contents: "contents pipe0 = [7, 8, 9]" "pipe_ok pipe0"
proof -
  have "[0..<3] = [0, 1, 2 :: nat]" by (simp add: upt_rec)
  moreover have "unat (- 1 :: uint) = 2 ^ 32 - 1" by (simp add: unsigned_minus_1_eq_mask mask_eq_exp_minus_1)
  ultimately show "contents pipe0 = [7, 8, 9]" by (simp add: contents_def pipe0_def ring_seq_def PIPESIZE_def)
  show "pipe_ok pipe0" by (simp add: pipe_ok_def pipe0_def PIPESIZE_def)
qed

theorem pipe_is_queue_witness:
  "(\<exists>x t. contents x = [7, 8, 9, 0, 0] \<and> pipewrite 5 0x80100000 2 files0 = Ret 2 t \<and> pipes t 5 = x) \<and>
   (\<exists>x t. contents x = [9] \<and> piperead 5 0x80100000 2 files0 = Ret 2 t \<and> pipes t 5 = x)"
proof -
  have a: "xlate m c 0x80100000 = Some 0x80100000" "xlate m c 0x80100001 = Some 0x80100001" for m c
    by (simp_all add: xlate_def KERNBASE_def)
  have "get_bytes (mem files0) (cr3 files0) (length [0, 0 :: uchar]) 0x80100000 = Some [0, 0]"
    "put_bytes (mem files0) (cr3 files0) (take 2 (contents (pipes files0 5))) 0x80100000 = Some ((\<lambda>_. 0)(0x80100000 := 7, 0x80100001 := 8))"
    by (simp_all add: a pipe0_contents)
  note g = this
  have ok: "pipe_ok (pipes files0 5)" by (simp add: pipe0_contents)
  note w = pipe_is_queue [OF ok files0_sel(1,2), of "0x80100000"]
  have "\<exists>x t. contents x = [7, 8, 9, 0, 0] \<and> pipewrite 5 0x80100000 2 files0 = Ret 2 t \<and> pipes t 5 = x"
    using mp [OF spec [OF conjunct1 [OF w]] g(1)] by (auto simp: pipe0_contents PIPESIZE_def)
  moreover have "\<exists>x t. contents x = [9] \<and> piperead 5 0x80100000 2 files0 = Ret 2 t \<and> pipes t 5 = x"
    using mp [OF mp [OF spec [OF spec [OF conjunct2 [OF w], of 2]]] g(2)] by (auto simp: pipe0_contents)
  ultimately show ?thesis by blast
qed

end
