(* ===== verification/Process_Life.thy ===== *)
theory Process_Life
  imports Kernel_Discipline
begin

text \<open>
  The life of a process (proc.c): what \<open>fork\<close> copies, what \<open>wait\<close> gives back, whom
  \<open>kill\<close> hits, and the bookkeeping of execution times at \<open>exit\<close>.
\<close>

subsection \<open>Functions that leave the process table alone\<close>

lemma upon_leaves: "leaves f m \<Longrightarrow> upon m s (\<lambda>_ t. f t = f s)"
  by (auto simp: upon_iff dest: leavesD)

lemma upon_bnd_leaves:
  assumes "leaves f m" "\<And>x t. f t = f s \<Longrightarrow> upon (g x) t Q"
  shows "upon (bnd m g) s Q"
  using assms(2) upon_leaves [OF assms(1), of s] by (auto elim: upon_mono)

lemma leaves_locks [leaves]: "leaves procs (kacquire l)" "leaves procs (krelease l)"
  by (simp_all add: leaves_def kacquire_def krelease_def)

lemma leaves_mem [leaves]: "leaves procs (mem_ld a)" "leaves procs (mem_st a v)" "leaves procs (mem_set a c n)" "leaves procs (mem_move a b n)"
  by (simp_all add: leaves_def mem_ld_def mem_st_def mem_set_def mem_move_def)

lemma leaves_kalloc [leaves]: "leaves procs kalloc"
  unfolding kalloc_def by (intro leaves) simp

lemma leaves_walk [leaves]: "leaves procs (walkpgdir pgd va alloc)"
  unfolding walkpgdir_def Let_def by (intro leaves)

lemma leaves_mappages_loop [leaves]: "leaves procs (mappages_loop n pgd a la pa perm)"
proof (induction n arbitrary: a pa)
  case 0
  show ?case unfolding mappages_loop.simps by (rule leaves)
next
  case (Suc n)
  show ?case unfolding mappages_loop.simps by (intro leaves Suc.IH)
qed

lemma leaves_mappages [leaves]: "leaves procs (mappages pgd va sz pa perm)"
  unfolding mappages_def Let_def by (intro leaves)

lemma leaves_kmap_loop [leaves]: "leaves procs (kmap_loop pgd ks)"
  by (induction ks) (auto intro!: leaves split: prod.split)

lemma leaves_setupkvm [leaves]: "leaves procs setupkvm"
  unfolding setupkvm_def by (intro leaves)

lemma leaves_copyuvm_loop [leaves]: "leaves procs (copyuvm_loop n pgd d i sz)"
proof (induction n arbitrary: i)
  case 0
  show ?case unfolding copyuvm_loop.simps by (rule leaves)
next
  case (Suc n)
  show ?case unfolding copyuvm_loop.simps by (intro leaves Suc.IH)
qed

lemma leaves_copyuvm [leaves]: "leaves procs (copyuvm pgd sz)"
  unfolding copyuvm_def by (intro leaves)

lemma leaves_dups [leaves]: "leaves procs (filedup f)" "leaves procs (idup i)"
  unfolding filedup_def idup_def file_get_def file_upd_def inode_upd_def by (intro leaves; simp)+

lemma upon_dups:
  "upon (filedup f) s (\<lambda>g t. g = f \<and> procs t = procs s)" "upon (idup i) u (\<lambda>j t. j = i \<and> procs t = procs u)"
proof -
  have "g = f" if "filedup f s = Ret g t" for g t using that by (auto simp: filedup_def bnd_Ret_iff ret_apply)
  then show "upon (filedup f) s (\<lambda>g t. g = f \<and> procs t = procs s)"
    using leavesD [OF leaves_dups(1)] by (auto simp: upon_iff)
  have "j = i" if "idup i u = Ret j t" for j t using that by (auto simp: idup_def bnd_Ret_iff ret_apply)
  then show "upon (idup i) u (\<lambda>j t. j = i \<and> procs t = procs u)"
    using leavesD [OF leaves_dups(2)] by (auto simp: upon_iff)
qed

lemma upon_for_each_idx:
  assumes "\<And>k t. k < length is \<Longrightarrow> P k t \<Longrightarrow> upon (f (is ! k)) t (\<lambda>_. P (Suc k))" and "P 0 s"
  shows "upon (for_each is f) s (\<lambda>_. P (length is))"
  using assms
proof (induction "is" arbitrary: s P)
  case Nil
  then show ?case by simp
next
  case (Cons i "is")
  have "upon (f i) s (\<lambda>_. P (Suc 0))" using Cons.prems(1) [of 0 s] Cons.prems(2) by simp
  moreover have "upon (for_each is f) t (\<lambda>_. P (Suc (length is)))" if "P (Suc 0) t" for t
  proof (rule Cons.IH [of "\<lambda>k. P (Suc k)", OF _ that])
    fix k u assume "k < length is" "P (Suc k) u"
    then show "upon (f (is ! k)) u (\<lambda>_. P (Suc (Suc k)))" using Cons.prems(1) [of "Suc k" u] by simp
  qed
  ultimately show ?case by (auto elim!: upon_mono)
qed

subsection \<open>fork\<close>

text \<open>The entry that \<open>allocproc\<close> hands out.\<close>

definition fresh_entry :: "proc \<Rightarrow> int \<Rightarrow> proc \<Rightarrow> bool" where
  "fresh_entry old n q \<longleftrightarrow> pstate q = EMBRYO \<and> pid q = n \<and> kstack q \<noteq> 0 \<and> ofile q = ofile old \<and> killed q = killed old \<and> slot q = slot old"

lemma upon_allocproc:
  fixes s :: "'a kern_scheme"
  shows "upon allocproc s (\<lambda>r t. case r of
      None \<Rightarrow> (\<forall>j. pstate (procs t j) = pstate (procs s j))
    | Some i \<Rightarrow> i < NPROC \<and> pstate (procs s i) = UNUSED \<and> (\<forall>j < i. pstate (procs s j) \<noteq> UNUSED) \<and>
        (\<exists>q. procs t = (procs s)(i := q) \<and> fresh_entry (procs s i) (nextpid s) q))"
proof (cases "PTableLock \<in> set (held s) \<or> scan NPROC (\<lambda>i. pstate (procs s i) = UNUSED) = None")
  case True
  then show ?thesis by (auto simp: upon_def allocproc_apply)
next
  case False
  then obtain i where i: "scan NPROC (\<lambda>i. pstate (procs s i) = UNUSED) = Some i" and h: "PTableLock \<notin> set (held s)" by auto
  let ?s = "alloc_entry i (s\<lparr>held := PTableLock # held s\<rparr>)"
  have "upon (alloc_finish i) ?s (\<lambda>r t. case r of
      None \<Rightarrow> (\<forall>j. pstate (procs t j) = pstate (procs s j))
    | Some i' \<Rightarrow> i' = i \<and> (\<exists>q. procs t = (procs s)(i := q) \<and> fresh_entry (procs s i) (nextpid s) q))"
    unfolding alloc_finish_def
  proof (rule upon_bnd_leaves [OF leaves_locks(2)], rule upon_bnd_leaves [OF leaves_kalloc])
    fix x ks and t u :: "'a kern_scheme" assume t: "procs t = procs ?s" "procs u = procs t"
    show "upon (bnd (proc_upd i (\<lambda>p. p\<lparr>kstack := ks\<rparr>)) (\<lambda>_.
       if ks = 0 then bnd (proc_upd i (\<lambda>p. p\<lparr>pstate := UNUSED\<rparr>)) (\<lambda>_. ret None)
       else bnd (seqs [
         bnd (gets k_trapret) (\<lambda>a. mem_st (ks + KSTACKSIZE - TF_SIZE - 4) a),
         bnd (gets k_forkret) (\<lambda>a. proc_upd i (\<lambda>p. p\<lparr>pcontext :=
           \<lparr>cx_edi = 0, cx_esi = 0, cx_ebx = 0, cx_ebp = 0, cx_eip = a\<rparr>\<rparr>))]) (\<lambda>_. ret (Some i)))) u
      (\<lambda>r t. case r of
        None \<Rightarrow> (\<forall>j. pstate (procs t j) = pstate (procs s j))
      | Some i' \<Rightarrow> i' = i \<and> (\<exists>q. procs t = (procs s)(i := q) \<and> fresh_entry (procs s i) (nextpid s) q))"
      using t scan_SomeD [OF i]
      by (auto simp: alloc_entry_def mem_st_def fresh_entry_def)
  qed
  moreover have "allocproc s = alloc_finish i ?s" using i h by (simp add: allocproc_apply)
  ultimately show ?thesis
    using i by (auto simp: upon_def scan_Some_iff split: outcome.splits option.splits)
qed

text \<open>The child's entry once the first \<open>k\<close> descriptors are copied.\<close>

definition copied_files :: "nat \<Rightarrow> proc \<Rightarrow> proc \<Rightarrow> proc \<Rightarrow> bool" where
  "copied_files k par q0 q \<longleftrightarrow>
     q\<lparr>ofile := ofile q0\<rparr> = q0 \<and>
     (\<forall>i. ofile q i = (if i < k \<and> ofile par i \<noteq> None then ofile par i else ofile q0 i))"

lemma upon_copy_files:
  fixes s :: "'a files_scheme"
  assumes "np \<noteq> me"
  shows "upon (for_each [0..<NOFILE] (\<lambda>i. bnd (proc_get me (\<lambda>p. ofile p i)) (\<lambda>f. case f of
             None \<Rightarrow> ret ()
           | Some f \<Rightarrow> bnd (filedup f) (\<lambda>f. proc_upd np (\<lambda>p. p\<lparr>ofile := (ofile p)(i := Some f)\<rparr>))))) s
    (\<lambda>_ t. \<exists>q. procs t = (procs s)(np := q) \<and> copied_files NOFILE (procs s me) (procs s np) q)"
proof -
  let ?P = "\<lambda>k t. \<exists>q. procs t = (procs s)(np := q) \<and> copied_files k (procs s me) (procs s np) q"
  have "upon (for_each [0..<NOFILE] (\<lambda>i. bnd (proc_get me (\<lambda>p. ofile p i)) (\<lambda>f. case f of
             None \<Rightarrow> ret ()
           | Some f \<Rightarrow> bnd (filedup f) (\<lambda>f. proc_upd np (\<lambda>p. p\<lparr>ofile := (ofile p)(i := Some f)\<rparr>))))) s
    (\<lambda>_. ?P (length [0..<NOFILE]))"
  proof (rule upon_for_each_idx [where P = ?P])
    show "?P 0 s" by (rule exI [of _ "procs s np"]) (simp add: copied_files_def)
  next
    fix k and t :: "'a files_scheme" assume k: "k < length [0..<NOFILE]" and "?P k t"
    then obtain q where q: "procs t = (procs s)(np := q)" "copied_files k (procs s me) (procs s np) q" by blast
    show "upon (bnd (proc_get me (\<lambda>p. ofile p ([0..<NOFILE] ! k))) (\<lambda>f. case f of
             None \<Rightarrow> ret ()
           | Some f \<Rightarrow> bnd (filedup f) (\<lambda>f. proc_upd np (\<lambda>p. p\<lparr>ofile := (ofile p)([0..<NOFILE] ! k := Some f)\<rparr>)))) t
        (\<lambda>_. ?P (Suc k))"
    proof (cases "ofile (procs s me) k")
      case None
      then show ?thesis using q k assms by (auto simp: copied_files_def less_Suc_eq intro!: exI [of _ q])
    next
      case (Some f)
      have "copied_files (Suc k) (procs s me) (procs s np) (q\<lparr>ofile := (ofile q)(k := Some f)\<rparr>)"
        using q(2) Some by (auto simp: copied_files_def less_Suc_eq)
      then show ?thesis using q k Some assms
        by (auto intro!: upon_mono [OF upon_dups(1)])
    qed
  qed
  then show ?thesis by simp
qed

text \<open>The entry of a new process against the one that called \<open>fork\<close>.\<close>

definition child_of :: "nat \<Rightarrow> proc \<Rightarrow> int \<Rightarrow> proc \<Rightarrow> proc \<Rightarrow> bool" where
  "child_of me par n old q \<longleftrightarrow>
     pstate q = RUNNABLE \<and> pid q = n \<and> parent q = Some me \<and> psz q = psz par \<and> pgdir q \<noteq> 0 \<and>
     ptf q = (ptf par)\<lparr>tf_eax := 0\<rparr> \<and> cwd q = cwd par \<and> pname q = safestrcpy_b 16 (pname par) \<and>
     (\<forall>i < NOFILE. ofile par i \<noteq> None \<longrightarrow> ofile q i = ofile par i) \<and>
     (\<forall>i < NOFILE. ofile par i = None \<longrightarrow> ofile q i = ofile old i)"

lemma copied_files_fields:
  assumes "copied_files k par q0 q"
  shows "pid q = pid q0" "parent q = parent q0" "psz q = psz q0" "pgdir q = pgdir q0" "ptf q = ptf q0"
proof -
  have q: "q0 = q\<lparr>ofile := ofile q0\<rparr>" using assms by (simp add: copied_files_def)
  show "pid q = pid q0" "parent q = parent q0" "psz q = psz q0" "pgdir q = pgdir q0" "ptf q = ptf q0"
    by (subst q, simp)+
qed

lemma child_entry:
  assumes "fresh_entry old n q" "d \<noteq> 0" "cwd par = Some c"
    and "copied_files NOFILE par (q\<lparr>pgdir := d, psz := psz par, parent := Some me, ptf := (ptf par)\<lparr>tf_eax := 0\<rparr>\<rparr>) qa"
  shows "child_of me par n old (qa\<lparr>cwd := Some c, pname := safestrcpy_b 16 (pname par), pstate := RUNNABLE\<rparr>)"
    "pid qa = n"
  using assms copied_files_fields [OF assms(4)]
  by (auto simp: child_of_def fresh_entry_def copied_files_def simp del: not_None_eq)



subsection \<open>wait\<close>

text \<open>What \<open>wait\<close> leaves of a child it has reaped.\<close>

definition reaped :: "proc \<Rightarrow> proc" where
  "reaped p = p\<lparr>kstack := 0, pid := 0, parent := None, pname := [], killed := False, ctime := 0, pstate := UNUSED\<rparr>"

definition zombie_child :: "nat \<Rightarrow> (nat \<Rightarrow> proc) \<Rightarrow> nat \<Rightarrow> bool" where
  "zombie_child me ps i \<longleftrightarrow> parent (ps i) = Some me \<and> pstate (ps i) = ZOMBIE"



subsection \<open>kill\<close>

definition hit :: "proc \<Rightarrow> proc" where
  "hit p = p\<lparr>killed := True, pstate := (if pstate p = SLEEPING then RUNNABLE else pstate p)\<rparr>"

lemma kill_apply:
  assumes "PTableLock \<notin> set (held s)"
  shows "kill pd s = (case scan NPROC (\<lambda>i. pid (procs s i) = pd) of
      None \<Rightarrow> Ret (- 1) s
    | Some i \<Rightarrow> Ret 0 (s\<lparr>procs := (procs s)(i := hit (procs s i))\<rparr>))"
  using assms by (auto simp: kill_def kcore kops hit_def split: option.split)



subsection \<open>Execution times\<close>

text \<open>
  C39. The store of the execution times of an exiting child in its parent's arrays
  of ten entries, indexed by the difference of the pids less one, stays inside them
  exactly when the child's pid is one of the ten that follow its parent's. Pids
  are never reused, so the eleventh process a parent makes writes past the arrays.
\<close>

theorem exit_times_bounds:
  assumes "times_ok (procs s p)"
  shows "if pid (procs s p) < pid (procs s me) \<and> pid (procs s me) \<le> pid (procs s p) + 10
    then (\<exists>t. exit_times me p s = Ret () t \<and> (let i = nat (pid (procs s me) - pid (procs s p) - 1) in
      i < 10 \<and> pwaiting_t (procs t p) ! i = waiting_t (procs s me) \<and>
      prunning_t (procs t p) ! i = running_t (procs s me) \<and>
      pturnaround_t (procs t p) ! i = turnaround_t (procs s me)))
    else exit_times me p s = Wild ''exit times''"
  using assms by (auto simp: exit_times_def put_time_def times_ok_def Let_def kcore kops)

text \<open>The eleventh child of process 1.\<close>

theorem exit_times_bounds_witness:
  "exit_times 1 0 (machine0\<lparr>procs := (procs machine0)(1 := proc0\<lparr>pid := 12, parent := Some 0\<rparr>)\<rparr>) = Wild ''exit times''"
  using exit_times_bounds [of "machine0\<lparr>procs := (procs machine0)(1 := proc0\<lparr>pid := 12, parent := Some 0\<rparr>)\<rparr>" 0 1]
  by (simp add: times_ok_def proc0_def)

end
