(* ===== verification/Log_Capacity.thy ===== *)
theory Log_Capacity
  imports Transaction
begin

text \<open>
  How much of the log the operations that \<open>begin_op\<close> admits can really use (log.c):
  the test of \<open>begin_op\<close> counts \<open>LOGSIZE\<close> blocks, that of \<open>log_write\<close> one less than
  the size of the log on the disk, whose first block is the header.
\<close>

lemma begin_op_admits:
  assumes "held s = []" "\<not> committing s" "lh_n s + (outstanding s + 1) * int MAXOPBLOCKS \<le> int LOGSIZE"
  shows "begin_op s = Ret () (s\<lparr>outstanding := outstanding s + 1\<rparr>)"
  using assms by (cases s) (simp add: begin_op_def begin_op_loop_def kcore)

text \<open>Distinct blocks logged one after the other use an entry each, up to the limit of \<open>log_write\<close>.\<close>

lemma log_write_many:
  assumes "held s = []" "1 \<le> outstanding s" "0 \<le> lh_n s"
    and "distinct (map (\<lambda>i. blockno (bufs s i)) is)"
    and "\<forall>i \<in> set is. \<forall>k < nat (lh_n s). lh_block s k \<noteq> blockno (bufs s i)"
    and "lh_n s \<le> cap" "cap = min (int LOGSIZE) (lsize s - 1)"
  shows "if lh_n s + int (length is) \<le> cap
    then (\<exists>t. for_each is log_write s = Ret () t \<and> lh_n t = lh_n s + int (length is))
    else for_each is log_write s = Panic ''too big a transaction''"
  using assms
proof (induction "is" arbitrary: s)
  case Nil
  then show ?case by (simp add: kops)
next
  case (Cons i "is")
  show ?case
  proof (cases "lh_n s < cap")
    case False
    then have "log_write i s = Panic ''too big a transaction''" using Cons.prems by (auto simp: log_write_def kops)
    then show ?thesis using False Cons.prems(6) by (simp add: kops)
  next
    case True
    have n: "blockno (bufs s i) \<notin> lh_block s ` {..<nat (lh_n s)}"
      using Cons.prems(5) by auto
    let ?t = "logged_write i s"
    have w: "log_write i s = Ret () ?t" using True Cons.prems by (intro log_write_apply) auto
    have t: "held ?t = held s" "outstanding ?t = outstanding s" "lsize ?t = lsize s" "lh_n ?t = lh_n s + 1"
      "\<And>j. blockno (bufs ?t j) = blockno (bufs s j)" "lh_block ?t = (lh_block s)(nat (lh_n s) := blockno (bufs s i))"
      using n Cons.prems(3) by (simp_all add: logged_write_def mark_dirty_def Let_def)
    have "if lh_n ?t + int (length is) \<le> cap
      then (\<exists>u. for_each is log_write ?t = Ret () u \<and> lh_n u = lh_n ?t + int (length is))
      else for_each is log_write ?t = Panic ''too big a transaction''"
      by (rule Cons.IH) (use t True Cons.prems in \<open>auto simp: less_Suc_eq nat_add_distrib\<close>)
    then show ?thesis using w t(4) by (auto simp: kops algebra_simps split: if_splits)
  qed
qed

text \<open>
  C40. From an idle log, three operations are admitted at once, each promised
  \<open>MAXOPBLOCKS\<close> blocks of the log. Together they may log distinct blocks up to the
  smaller of \<open>LOGSIZE\<close> and the size of the log on the disk less one, its header;
  the next new block panics. A log of \<open>LOGSIZE\<close> blocks, the one mkfs makes, takes
  29 blocks, one less than the three operations were promised.
\<close>

theorem log_reservation_limit:
  assumes "held s = []" "\<not> committing s" "lh_n s = 0" "outstanding s = 0"
    and "distinct (map (\<lambda>i. blockno (bufs s i)) is)" "1 \<le> lsize s"
  shows "if int (length is) \<le> min (int LOGSIZE) (lsize s - 1)
    then (\<exists>t. seqs [begin_op, begin_op, begin_op, for_each is log_write] s = Ret () t \<and> lh_n t = int (length is))
    else seqs [begin_op, begin_op, begin_op, for_each is log_write] s = Panic ''too big a transaction''"
proof -
  let ?t = "s\<lparr>outstanding := 3\<rparr>"
  have e: "seqs [begin_op, begin_op, begin_op, for_each is log_write] s = for_each is log_write ?t"
    using assms begin_op_admits [of s] begin_op_admits [of "s\<lparr>outstanding := 1\<rparr>"] begin_op_admits [of "s\<lparr>outstanding := 2\<rparr>"]
    by (simp add: kops MAXOPBLOCKS_def LOGSIZE_def)
  have "if lh_n ?t + int (length is) \<le> min (int LOGSIZE) (lsize s - 1)
    then (\<exists>u. for_each is log_write ?t = Ret () u \<and> lh_n u = lh_n ?t + int (length is))
    else for_each is log_write ?t = Panic ''too big a transaction''"
    by (rule log_write_many) (use assms in simp_all)
  moreover have "lh_n ?t + int (length is) = int (length is)" using assms(3) by simp
  ultimately show ?thesis by (simp only: e)
qed

text \<open>Thirty buffers with the blocks 100 to 129.\<close>

theorem log_reservation_limit_witness:
  "seqs [begin_op, begin_op, begin_op, for_each [0..<30] log_write] (log0\<lparr>bufs := \<lambda>i. (buf0 i)\<lparr>blockno := of_nat (100 + i)\<rparr>\<rparr>) =
     Panic ''too big a transaction''"
proof -
  have "distinct (map (\<lambda>i. of_nat (100 + i) :: uint) [0..<30])" by code_simp
  then show ?thesis
    using log_reservation_limit [of "log0\<lparr>bufs := \<lambda>i. (buf0 i)\<lparr>blockno := of_nat (100 + i)\<rparr>\<rparr>" "[0..<30]"]
    by (simp add: LOGSIZE_def)
qed

end
