(* ===== verification/Shell.thy ===== *)
theory Shell
  imports Programs
begin

text \<open>
  The shell (sh.c). A command line is a buffer of characters with a terminator; the
  pointers of the parser are positions in it, and a word is the pair of its first
  position and the one after its last. The commands the constructors of sh.c build
  with \<open>malloc\<close> are a datatype. Parsing ends with a command and the position reached, or
  with the message of a call of \<open>panic\<close>; the recursion has fuel, and \<open>Stuck\<close> is the
  value when it is used up, which \<open>parsecmd_total\<close> excludes.
\<close>

subsection \<open>Commands\<close>

datatype 'w cmd = EXEC "'w list" | REDIR "'w cmd" 'w int int | PIPE "'w cmd" "'w cmd" | LIST "'w cmd" "'w cmd" | BACK "'w cmd"

type_synonym word_at = "nat \<times> nat"

datatype 'a parsed = Parsed 'a nat | Syntax string | Stuck

definition MAXARGS :: nat where "MAXARGS = 10"

definition U_RDONLY :: int where "U_RDONLY = 0"
definition U_WRONLY_CREATE :: int where "U_WRONLY_CREATE = 0x201"

text \<open>The constructors allocate a node and fill it in.\<close>

definition execcmd :: "'w cmd" where
  [simp]: "execcmd = EXEC []"

definition redircmd :: "'w cmd \<Rightarrow> 'w \<Rightarrow> int \<Rightarrow> int \<Rightarrow> 'w cmd" where
  [simp]: "redircmd subcmd file mode fd = REDIR subcmd file mode fd"

definition pipecmd :: "'w cmd \<Rightarrow> 'w cmd \<Rightarrow> 'w cmd" where
  [simp]: "pipecmd l r = PIPE l r"

definition listcmd :: "'w cmd \<Rightarrow> 'w cmd \<Rightarrow> 'w cmd" where
  [simp]: "listcmd l r = LIST l r"

definition backcmd :: "'w cmd \<Rightarrow> 'w cmd" where
  [simp]: "backcmd subcmd = BACK subcmd"

definition pthen :: "'a parsed \<Rightarrow> ('a \<Rightarrow> nat \<Rightarrow> 'b parsed) \<Rightarrow> 'b parsed" where
  "pthen r f = (case r of Parsed x i \<Rightarrow> f x i | Syntax e \<Rightarrow> Syntax e | Stuck \<Rightarrow> Stuck)"

subsection \<open>Tokens\<close>

definition whitespace :: string where
  "whitespace = [CHR '' '', CHR 0x09, CHR 0x0D, CHR 0x0A, CHR 0x0B]"

definition symbols :: string where
  "symbols = ''<|>&;()''"

definition chr_at :: "string \<Rightarrow> nat \<Rightarrow> char" where
  "chr_at b i = (if i < length b then b ! i else CHR 0x00)"

function skip_while :: "(char \<Rightarrow> bool) \<Rightarrow> string \<Rightarrow> nat \<Rightarrow> nat \<Rightarrow> nat" where
  "skip_while P b es i = (if i < es \<and> P (chr_at b i) then skip_while P b es (Suc i) else i)"
  by pat_completeness auto
termination
  by (relation "measure (\<lambda>(P, b, es, i). es - i)") auto

declare skip_while.simps [simp del]

abbreviation white :: "char \<Rightarrow> bool" where "white c \<equiv> c \<in> set whitespace"

abbreviation wordchar :: "char \<Rightarrow> bool" where "wordchar c \<equiv> c \<notin> set whitespace \<and> c \<notin> set symbols"

text \<open>The token, its two ends, and the position after the white space that follows it.\<close>

definition gettoken :: "string \<Rightarrow> nat \<Rightarrow> nat \<Rightarrow> char \<times> nat \<times> nat \<times> nat" where
  "gettoken b es i =
     (let q = skip_while white b es i;
          c = chr_at b q;
          (tok, eq) =
            (if c = CHR 0x00 then (c, q)
             else if c \<in> set ''|();&<'' then (c, q + 1)
             else if c = CHR ''>'' then
               (if chr_at b (q + 1) = CHR ''>'' then (CHR ''+'', q + 2) else (c, q + 1))
             else (CHR ''a'', skip_while wordchar b es q))
      in (tok, q, eq, skip_while white b es eq))"

definition peek :: "string \<Rightarrow> nat \<Rightarrow> nat \<Rightarrow> string \<Rightarrow> nat \<times> bool" where
  "peek b es i toks =
     (let s = skip_while white b es i in (s, chr_at b s \<noteq> CHR 0x00 \<and> chr_at b s \<in> set toks))"

subsection \<open>The parser\<close>

primrec parseredirs :: "nat \<Rightarrow> string \<Rightarrow> nat \<Rightarrow> word_at cmd \<Rightarrow> nat \<Rightarrow> word_at cmd parsed" where
  "parseredirs 0 b es cmd i = Stuck"
| "parseredirs (Suc n) b es cmd i =
     (let (i, p) = peek b es i ''<>'' in
      if p then
        let (tok, _, _, i) = gettoken b es i; (tok', q, eq, i) = gettoken b es i in
        if tok' \<noteq> CHR ''a'' then Syntax ''missing file for redirection''
        else parseredirs n b es
          (if tok = CHR ''<'' then redircmd cmd (q, eq) U_RDONLY 0
           else if tok = CHR ''>'' then redircmd cmd (q, eq) U_WRONLY_CREATE 1
           else if tok = CHR ''+'' then redircmd cmd (q, eq) U_WRONLY_CREATE 1
           else cmd) i
      else Parsed cmd i)"

text \<open>\<open>parseexec\<close> stores arguments through its pointer to the inner command of what it returns.\<close>

fun add_arg :: "'w \<Rightarrow> 'w cmd \<Rightarrow> 'w cmd" where
  "add_arg w (EXEC ws) = EXEC (ws @ [w])"
| "add_arg w (REDIR c f m d) = REDIR (add_arg w c) f m d"
| "add_arg w c = c"

primrec parseargs :: "nat \<Rightarrow> string \<Rightarrow> nat \<Rightarrow> nat \<Rightarrow> word_at cmd \<Rightarrow> nat \<Rightarrow> word_at cmd parsed" where
  "parseargs 0 b es argc cmd i = Stuck"
| "parseargs (Suc n) b es argc cmd i =
     (let (i, p) = peek b es i ''|)&;'' in
      if p then Parsed cmd i
      else let (tok, q, eq, i) = gettoken b es i in
        if tok = CHR 0x00 then Parsed cmd i
        else if tok \<noteq> CHR ''a'' then Syntax ''syntax''
        else if argc + 1 \<ge> MAXARGS then Syntax ''too many args''
        else pthen (parseredirs n b es (add_arg (q, eq) cmd) i) (parseargs n b es (argc + 1)))"

primrec parsebacks :: "nat \<Rightarrow> string \<Rightarrow> nat \<Rightarrow> word_at cmd \<Rightarrow> nat \<Rightarrow> word_at cmd parsed" where
  "parsebacks 0 b es cmd i = Stuck"
| "parsebacks (Suc n) b es cmd i =
     (let (i, p) = peek b es i ''&'' in
      if p then let (_, _, _, i) = gettoken b es i in parsebacks n b es (backcmd cmd) i
      else Parsed cmd i)"

text \<open>
  The functions below the line are given the parser for a line, which \<open>parseblock\<close>
  calls again for what is in parentheses.
\<close>

definition parseblock :: "(nat \<Rightarrow> word_at cmd parsed) \<Rightarrow> nat \<Rightarrow> string \<Rightarrow> nat \<Rightarrow> nat \<Rightarrow> word_at cmd parsed" where
  "parseblock pline n b es i =
     (let (i, p) = peek b es i ''('' in
      if \<not> p then Syntax ''parseblock''
      else let (_, _, _, i) = gettoken b es i in
        pthen (pline i) (\<lambda>cmd i.
          let (i, p) = peek b es i '')'' in
          if \<not> p then Syntax ''syntax - missing )''
          else let (_, _, _, i) = gettoken b es i in parseredirs n b es cmd i))"

definition parseexec :: "(nat \<Rightarrow> word_at cmd parsed) \<Rightarrow> nat \<Rightarrow> string \<Rightarrow> nat \<Rightarrow> nat \<Rightarrow> word_at cmd parsed" where
  "parseexec pline n b es i =
     (let (i, p) = peek b es i ''('' in
      if p then parseblock pline n b es i
      else pthen (parseredirs n b es execcmd i) (parseargs n b es 0))"

primrec parsepipe :: "(nat \<Rightarrow> word_at cmd parsed) \<Rightarrow> nat \<Rightarrow> string \<Rightarrow> nat \<Rightarrow> nat \<Rightarrow> word_at cmd parsed" where
  "parsepipe pline 0 b es i = Stuck"
| "parsepipe pline (Suc n) b es i =
     pthen (parseexec pline n b es i) (\<lambda>cmd i.
       let (i, p) = peek b es i ''|'' in
       if p then let (_, _, _, i) = gettoken b es i in
         pthen (parsepipe pline n b es i) (\<lambda>right i. Parsed (pipecmd cmd right) i)
       else Parsed cmd i)"

primrec parseline :: "nat \<Rightarrow> string \<Rightarrow> nat \<Rightarrow> nat \<Rightarrow> word_at cmd parsed" where
  "parseline 0 b es i = Stuck"
| "parseline (Suc n) b es i =
     pthen (parsepipe (parseline n b es) n b es i) (\<lambda>cmd i.
     pthen (parsebacks n b es cmd i) (\<lambda>cmd i.
       let (i, p) = peek b es i '';'' in
       if p then let (_, _, _, i) = gettoken b es i in
         pthen (parseline n b es i) (\<lambda>right i. Parsed (listcmd cmd right) i)
       else Parsed cmd i))"

primrec nulterminate :: "word_at cmd \<Rightarrow> string \<Rightarrow> string" where
  "nulterminate (EXEC ws) b = fold (\<lambda>(q, eq) b. b[eq := CHR 0x00]) ws b"
| "nulterminate (REDIR c f m d) b = (nulterminate c b)[snd f := CHR 0x00]"
| "nulterminate (PIPE l r) b = nulterminate r (nulterminate l b)"
| "nulterminate (LIST l r) b = nulterminate r (nulterminate l b)"
| "nulterminate (BACK c) b = nulterminate c b"

text \<open>The string at a position of a buffer.\<close>

definition str_at :: "string \<Rightarrow> nat \<Rightarrow> string" where
  "str_at b q = takeWhile (\<lambda>c. c \<noteq> CHR 0x00) (drop q b)"

definition parse_fuel :: "nat \<Rightarrow> nat" where
  "parse_fuel n = n + 3"

text \<open>
  \<open>parsecmd\<close> up to its report of an error, on a line without terminator: the command
  with its words as strings, read from the buffer that \<open>nulterminate\<close> has cut; an
  error has the rest of the line that is left over, or none.
\<close>

definition parse_words :: "string \<Rightarrow> (string option \<times> string) + string cmd" where
  "parse_words s = (let es = length s; b = s @ [CHR 0x00] in
     case parseline (parse_fuel es) b es 0 of
       Stuck \<Rightarrow> Inl (None, ''stuck'')
     | Syntax e \<Rightarrow> Inl (None, e)
     | Parsed cmd i \<Rightarrow>
         let (i, _) = peek b es i [] in
         if i \<noteq> es then Inl (Some (str_at b i), ''syntax'')
         else Inr (map_cmd (\<lambda>(q, eq). str_at (nulterminate cmd b) q) cmd))"

subsection \<open>Running commands\<close>

definition sh_panic :: "string \<Rightarrow> 'a uop" where
  "sh_panic e = fail 2 (line_of ''%s'') [UStr e]"

definition fork1 :: "int uop" where
  "fork1 = bnd (sys Fork) (\<lambda>p. if p = - 1 then sh_panic ''fork'' else ret p)"

text \<open>A call whose result is not used.\<close>

abbreviation do_sys :: "ucall \<Rightarrow> unit uop" where "do_sys c \<equiv> bnd (sys c) (\<lambda>_. ret ())"

primrec runcmd :: "string cmd \<Rightarrow> unit uop" where
  "runcmd (EXEC argv) = (case argv of [] \<Rightarrow> uexit
     | a # _ \<Rightarrow> bnd (do_sys (Exec a argv)) (\<lambda>_. bnd (uprintf 2 (line_of ''exec %s failed'') [UStr a]) (\<lambda>_. uexit)))"
| "runcmd (REDIR c file mode fd) =
     bnd (do_sys (Close fd)) (\<lambda>_. bnd (sys (Open file mode)) (\<lambda>r.
       if r < 0 then fail 2 (line_of ''open %s failed'') [UStr file]
       else bnd (runcmd c) (\<lambda>_. uexit)))"
| "runcmd (LIST l r) =
     bnd fork1 (\<lambda>p. bnd (whenk (p = 0) (runcmd l)) (\<lambda>_.
     bnd (do_sys Wait) (\<lambda>_. bnd (runcmd r) (\<lambda>_. uexit))))"
| "runcmd (PIPE l r) =
     bnd upipe (\<lambda>res. case res of None \<Rightarrow> sh_panic ''pipe'' | Some (p0, p1) \<Rightarrow>
     bnd fork1 (\<lambda>p. bnd (whenk (p = 0) (seqs [do_sys (Close 1), do_sys (Dup p1), do_sys (Close p0), do_sys (Close p1), runcmd l])) (\<lambda>_.
     bnd fork1 (\<lambda>p. bnd (whenk (p = 0) (seqs [do_sys (Close 0), do_sys (Dup p0), do_sys (Close p0), do_sys (Close p1), runcmd r])) (\<lambda>_.
     bnd (seqs [do_sys (Close p0), do_sys (Close p1), do_sys Wait, do_sys Wait]) (\<lambda>_. uexit))))))"
| "runcmd (BACK c) = bnd fork1 (\<lambda>p. bnd (whenk (p = 0) (runcmd c)) (\<lambda>_. uexit))"

definition parsecmd :: "string \<Rightarrow> string cmd uop" where
  "parsecmd s = (case parse_words s of
       Inr c \<Rightarrow> ret c
     | Inl (lo, e) \<Rightarrow> bnd (case lo of None \<Rightarrow> ret () | Some l \<Rightarrow> uprintf 2 (line_of ''leftovers: %s'') [UStr l]) (\<lambda>_. sh_panic e))"

subsection \<open>Reading commands\<close>

definition getcmd :: "nat \<Rightarrow> string option uop" where
  "getcmd nbuf = bnd (uprintf 2 ''$ '' []) (\<lambda>_. bnd (ugets nbuf) (\<lambda>b.
     let line = str_at b 0 in ret (if line = [] then None else Some line)))"

definition sh_consoles :: "unit \<Rightarrow> (unit + unit) uop" where
  "sh_consoles _ = bnd (sys (Open ''console'' 2)) (\<lambda>fd.
     if fd < 0 then ret (Inr ())
     else if fd \<ge> 3 then bnd (do_sys (Close fd)) (\<lambda>_. ret (Inr ()))
     else ret (Inl ()))"

definition sh_turn :: "unit \<Rightarrow> (unit + unit) uop" where
  "sh_turn _ = bnd (getcmd 100) (\<lambda>r. case r of
       None \<Rightarrow> ret (Inr ())
     | Some line \<Rightarrow>
         if take 3 line = ''cd '' then
           let dir = drop 3 (butlast line) in
           bnd (sys (Chdir dir)) (\<lambda>r. bnd (whenk (r < 0) (uprintf 2 (line_of ''cannot cd %s'') [UStr dir])) (\<lambda>_. ret (Inl ())))
         else
           bnd fork1 (\<lambda>p. bnd (whenk (p = 0) (bnd (parsecmd line) runcmd)) (\<lambda>_.
           bnd (do_sys Wait) (\<lambda>_. ret (Inl ())))))"

definition sh_main :: "unit uop" where
  "sh_main = bnd (uloop sh_consoles ()) (\<lambda>_. bnd (uloop sh_turn ()) (\<lambda>_. uexit))"

text \<open>Every turn of the two loops makes a system call, so that the loops are those of the program.\<close>

lemma keeps_sum [eat]: "(\<And>x. keeps (f x)) \<Longrightarrow> (\<And>x. keeps (g x)) \<Longrightarrow> keeps (case r of Inl x \<Rightarrow> f x | Inr x \<Rightarrow> g x)"
  by (simp split: sum.split)

lemma keeps_seqs [eat]: "(\<And>m. m \<in> set ms \<Longrightarrow> keeps m) \<Longrightarrow> keeps (seqs ms)"
  by (induction ms) (auto intro: eat)

lemma keeps_sh [eat]: "keeps (fail fd fmt args)" "keeps (sh_panic e)"
  unfolding sh_panic_def fail_def by (intro eat)+

lemma keeps_fork1 [eat]: "keeps fork1" unfolding fork1_def by (intro eat)

lemma keeps_runcmd [eat]: "keeps (runcmd c)"
  by (induction c) (auto intro!: eat split: list.split)

lemma keeps_parsecmd [eat]: "keeps (parsecmd s)" unfolding parsecmd_def by (intro eat)

lemma takes_uprintf: "c \<noteq> CHR ''%'' \<Longrightarrow> takes (uprintf fd (c # fmt) args)"
  unfolding uprintf_def uprintf_loop.simps uputc_def by (simp, intro takes_bnd(1) takes_call eat)

lemma keeps_ugets [eat]: "keeps (ugets n)"
  unfolding ugets_def by (intro eat)

lemma eats_sh: "eats sh_turn" "eats sh_consoles"
proof -
  have "takes (getcmd 100)" unfolding getcmd_def by (intro takes_bnd(1) takes_uprintf eat) simp
  then have "takes (sh_turn x)" for x unfolding sh_turn_def by (rule takes_bnd) (intro eat)
  then show "eats sh_turn" by (rule eatsI)
  show "eats sh_consoles" unfolding sh_consoles_def by (intro eatsI takes_bnd(1) takes_call eat)
qed

end
