(* ===== verification/Shell_Parser.thy ===== *)
theory Shell_Parser
  imports Shell
begin

text \<open>
  The parser of the shell: it ends on every line, the words it finds are what
  \<open>runcmd\<close> later reads from the buffer, and every command has a text that it parses to.
\<close>

subsection \<open>Positions\<close>

lemma skip_while_step:
  "i < es \<Longrightarrow> P (chr_at b i) \<Longrightarrow> skip_while P b es i = skip_while P b es (Suc i)"
  "\<not> (i < es \<and> P (chr_at b i)) \<Longrightarrow> skip_while P b es i = i"
  by (subst skip_while.simps, auto)+

lemma skip_while_props:
  "i \<le> es \<Longrightarrow> i \<le> skip_while P b es i \<and> skip_while P b es i \<le> es \<and>
   (\<forall>k. i \<le> k \<longrightarrow> k < skip_while P b es i \<longrightarrow> P (chr_at b k)) \<and>
   (skip_while P b es i < es \<longrightarrow> \<not> P (chr_at b (skip_while P b es i)))"
proof (induction P b es i rule: skip_while.induct)
  case (1 P b es i)
  show ?case
  proof (cases "i < es \<and> P (chr_at b i)")
    case True
    then have e: "skip_while P b es i = skip_while P b es (Suc i)" by (simp add: skip_while_step(1))
    have "\<forall>k. Suc i \<le> k \<longrightarrow> k < skip_while P b es (Suc i) \<longrightarrow> P (chr_at b k)" using 1(1) [OF True] True by simp
    then have "P (chr_at b k)" if "i \<le> k" "k < skip_while P b es i" for k
      using that True e by (cases "k = i") auto
    then show ?thesis using 1(1) [OF True] True e by auto
  next
    case False
    then have "skip_while P b es i = i" by (rule skip_while_step(2))
    then show ?thesis using 1(2) False by auto
  qed
qed

lemmas skip_while_le = skip_while_props [THEN conjunct1]
  and skip_while_end = skip_while_props [THEN conjunct2, THEN conjunct1]

text \<open>A buffer with its terminator at \<open>es\<close> and none before.\<close>

definition terminated :: "string \<Rightarrow> nat \<Rightarrow> bool" where
  "terminated b es \<longleftrightarrow> length b = Suc es \<and> (\<forall>k. chr_at b k = CHR 0x00 \<longleftrightarrow> es \<le> k)"

abbreviation in_word :: "char \<Rightarrow> bool" where "in_word c \<equiv> wordchar c \<and> c \<noteq> CHR 0x00"

definition word_ok :: "string \<Rightarrow> nat \<Rightarrow> word_at \<Rightarrow> bool" where
  "word_ok b es w \<longleftrightarrow> fst w < snd w \<and> snd w \<le> es \<and> (\<forall>k. fst w \<le> k \<longrightarrow> k < snd w \<longrightarrow> in_word (chr_at b k)) \<and>
     \<not> in_word (chr_at b (snd w))"

lemma gettoken_props:
  assumes "terminated b es" "i \<le> es" "gettoken b es i = (tok, q, e, j)"
  shows "i \<le> q" "q \<le> e" "e \<le> j" "j \<le> es" "tok \<noteq> CHR 0x00 \<Longrightarrow> q < e" "tok = CHR ''a'' \<Longrightarrow> word_ok b es (q, e)"
proof -
  let ?q = "skip_while white b es i" and ?w = "skip_while wordchar b es (skip_while white b es i)"
  note Q = skip_while_props [OF assms(2), of white b]
  have lt: "k < es" if "chr_at b k \<noteq> CHR 0x00" for k using that assms(1) by (auto simp: terminated_def not_less)
  have q: "q = ?q" "j = skip_while white b es e" using assms(3) by (auto simp: gettoken_def Let_def split: if_splits)
  have E: "q \<le> e \<and> e \<le> es \<and> (tok \<noteq> CHR 0x00 \<longrightarrow> q < e) \<and> (tok = CHR ''a'' \<longrightarrow> word_ok b es (q, e))"
  proof (cases "chr_at b ?q = CHR 0x00 \<or> chr_at b ?q \<in> set ''|();&<'' \<or> chr_at b ?q = CHR ''>''")
    case True
    then show ?thesis using assms(3) lt [of ?q] lt [of "?q + 1"] Q by (auto simp: gettoken_def Let_def split: if_splits)
  next
    case False
    then have e: "e = ?w" "tok = CHR ''a''" using assms(3) by (auto simp: gettoken_def Let_def)
    have l: "?q < es" using False lt by blast
    note W = skip_while_props [of ?q es wordchar b, OF less_imp_le [OF l]]
    have c: "wordchar (chr_at b ?q)" using Q l False by (auto simp: symbols_def)
    have "?q < ?w"
    proof (rule ccontr)
      assume "\<not> ?q < ?w"
      then have "?w = ?q" using W by simp
      then show False using W l c by simp
    qed
    moreover have "\<not> in_word (chr_at b ?w)" using W assms(1) by (cases "?w < es") (auto simp: terminated_def)
    ultimately show ?thesis using W e q(1) assms(1) by (auto simp: word_ok_def terminated_def)
  qed
  show "i \<le> q" "q \<le> e" "e \<le> j" "j \<le> es" "tok \<noteq> CHR 0x00 \<Longrightarrow> q < e" "tok = CHR ''a'' \<Longrightarrow> word_ok b es (q, e)"
    using Q E q skip_while_le [of e es white b] skip_while_end [of e es white b] by auto
qed

lemma peek_props:
  assumes "terminated b es" "i \<le> es" "peek b es i toks = (j, p)"
  shows "i \<le> j" "j \<le> es" "p \<Longrightarrow> fst (gettoken b es j) \<noteq> CHR 0x00"
proof -
  have j: "j = skip_while white b es i" "p \<longleftrightarrow> chr_at b j \<noteq> CHR 0x00 \<and> chr_at b j \<in> set toks"
    using assms(3) by (auto simp: peek_def Let_def)
  note P = skip_while_props [OF assms(2), of white b]
  show "i \<le> j" "j \<le> es" using P j by auto
  assume p
  then have "j < es" using j(2) assms(1) by (auto simp: terminated_def not_less)
  then have "skip_while white b es j = j" using P j(1) by (intro skip_while_step(2)) auto
  then show "fst (gettoken b es j) \<noteq> CHR 0x00" using \<open>p\<close> j(2) by (auto simp: gettoken_def Let_def)
qed

subsection \<open>The parser ends\<close>

abbreviation words_ok :: "string \<Rightarrow> nat \<Rightarrow> word_at cmd \<Rightarrow> bool" where
  "words_ok b es c \<equiv> \<forall>w \<in> set_cmd c. word_ok b es w"

definition fine :: "string \<Rightarrow> nat \<Rightarrow> nat \<Rightarrow> word_at cmd parsed \<Rightarrow> bool" where
  "fine b es i r \<longleftrightarrow> r \<noteq> Stuck \<and> (\<forall>c j. r = Parsed c j \<longrightarrow> i \<le> j \<and> j \<le> es \<and> words_ok b es c)"

lemma fine_simps [simp]:
  "fine b es i (Syntax e)" "fine b es i (Parsed c j) \<longleftrightarrow> i \<le> j \<and> j \<le> es \<and> words_ok b es c"
  by (simp_all add: fine_def)

lemma fine_mono: "fine b es j r \<Longrightarrow> i \<le> j \<Longrightarrow> fine b es i r"
  by (auto simp: fine_def)

lemma fine_pthen:
  assumes "fine b es i r" "\<And>c j. i \<le> j \<Longrightarrow> j \<le> es \<Longrightarrow> words_ok b es c \<Longrightarrow> fine b es j (f c j)"
  shows "fine b es i (pthen r f)"
proof (cases r)
  case (Parsed c j)
  then show ?thesis using assms by (auto simp: pthen_def intro: fine_mono)
qed (use assms(1) in \<open>auto simp: pthen_def fine_def\<close>)

text \<open>A token that is there is consumed; the positions of the two calls that read it.\<close>

lemma fine_peek:
  assumes "terminated b es" "i \<le> es"
    and "\<And>j q e k tok. i < k \<Longrightarrow> k \<le> es \<Longrightarrow> gettoken b es j = (tok, q, e, k) \<Longrightarrow> fine b es k (f j (tok, q, e, k))"
    and "\<And>j. i \<le> j \<Longrightarrow> j \<le> es \<Longrightarrow> fine b es j (g j)"
  shows "fine b es i (let (j, p) = peek b es i toks in if p then f j (gettoken b es j) else g j)"
proof -
  obtain j p where p: "peek b es i toks = (j, p)" by fastforce
  obtain tok q e k where t: "gettoken b es j = (tok, q, e, k)" by (metis prod_cases4)
  note P = peek_props [OF assms(1,2) p] and T = gettoken_props [OF assms(1) _ t]
  show ?thesis
  proof (cases p)
    case True
    have "i < k" using P T True t by fastforce
    moreover have "k \<le> es" using P T by auto
    ultimately show ?thesis using assms(3) [OF _ _ t] True p t fine_mono [of b es k _ i] by simp
  next
    case False
    then show ?thesis using assms(4) [of j] P p fine_mono [of b es j _ i] by simp
  qed
qed

lemma fine_parseredirs:
  assumes "terminated b es"
  shows "i \<le> es \<Longrightarrow> es - i < n \<Longrightarrow> words_ok b es c \<Longrightarrow> fine b es i (parseredirs n b es c i)"
proof (induction n arbitrary: i c)
  case (Suc n)
  show ?case
    unfolding parseredirs.simps redircmd_def
  proof (rule fine_peek [OF assms Suc.prems(1)], goal_cases)
    case (1 j q e k tok)
    obtain tok' q' e' k' where t: "gettoken b es k = (tok', q', e', k')" by (metis prod_cases4)
    note T = gettoken_props [OF assms 1(2) t]
    have "fine b es k (parseredirs n b es d k')" if "tok' = CHR ''a''" "words_ok b es d" for d
      using T 1 Suc.prems that by (intro fine_mono [OF Suc.IH]) auto
    then show ?case using t T(6) Suc.prems(3) by simp
  qed (use Suc.prems in auto)
qed simp

lemma set_add_arg: "set_cmd (add_arg w c) \<subseteq> insert w (set_cmd c)"
  by (induction w c rule: add_arg.induct) auto

lemma fine_parseargs:
  assumes "terminated b es"
  shows "i \<le> es \<Longrightarrow> es - i < n \<Longrightarrow> words_ok b es c \<Longrightarrow> fine b es i (parseargs n b es argc c i)"
proof (induction n arbitrary: i c argc)
  case (Suc n)
  obtain j p where p: "peek b es i ''|)&;'' = (j, p)" by fastforce
  obtain tok q e k where t: "gettoken b es j = (tok, q, e, k)" by (metis prod_cases4)
  note P = peek_props [OF assms Suc.prems(1) p] and T = gettoken_props [OF assms _ t]
  have "fine b es i (pthen (parseredirs n b es (add_arg (q, e) c) k) (parseargs n b es (argc + 1)))" if a: "tok = CHR ''a''"
  proof -
    have k: "i < k" "k \<le> es" "words_ok b es (add_arg (q, e) c)" using P T a Suc.prems(3) set_add_arg [of "(q, e)" c] by auto
    have "fine b es k (pthen (parseredirs n b es (add_arg (q, e) c) k) (parseargs n b es (argc + 1)))"
    proof (rule fine_pthen)
      show "fine b es k (parseredirs n b es (add_arg (q, e) c) k)"
        using k Suc.prems by (intro fine_parseredirs [OF assms]) auto
      show "fine b es k' (parseargs n b es (argc + 1) c' k')" if "k \<le> k'" "k' \<le> es" "words_ok b es c'" for c' k'
        using that k Suc.prems by (intro Suc.IH) auto
    qed
    then show ?thesis by (rule fine_mono) (use k in simp)
  qed
  then show ?case using p t P T Suc.prems by (auto intro: fine_mono)
qed simp

lemma fine_parsebacks:
  assumes "terminated b es"
  shows "i \<le> es \<Longrightarrow> es - i < n \<Longrightarrow> words_ok b es c \<Longrightarrow> fine b es i (parsebacks n b es c i)"
proof (induction n arbitrary: i c)
  case (Suc n)
  show ?case unfolding parsebacks.simps backcmd_def
    by (rule fine_peek [OF assms Suc.prems(1)]) (use Suc in auto)
qed simp

lemma if_flip: "(if \<not> p then x else y) = (if p then y else x)"
  by simp

lemma fine_parseblock:
  assumes "terminated b es" "i \<le> es" "es - i < n" "\<And>j. i < j \<Longrightarrow> j \<le> es \<Longrightarrow> fine b es j (pline j)"
  shows "fine b es i (parseblock pline n b es i)"
  unfolding parseblock_def if_flip
proof (rule fine_peek [OF assms(1,2)], simp, rule fine_pthen, goal_cases)
  case (1 j q e k tok)
  then show ?case by (intro assms(4))
next
  case (2 j q e k tok c m)
  show ?case
    by (rule fine_peek [OF assms(1) 2(5), unfolded Let_def]) (use 2 assms in \<open>auto intro!: fine_parseredirs [OF assms(1)]\<close>)
qed simp

lemma fine_parseexec:
  assumes "terminated b es" "i \<le> es" "es - i < n" "\<And>j. i < j \<Longrightarrow> j \<le> es \<Longrightarrow> fine b es j (pline j)"
  shows "fine b es i (parseexec pline n b es i)"
proof -
  obtain j p where p: "peek b es i ''('' = (j, p)" by fastforce
  note P = peek_props [OF assms(1,2) p]
  have "fine b es j (parseblock pline n b es j)" using P assms by (intro fine_parseblock) auto
  moreover have "fine b es j (pthen (parseredirs n b es (EXEC []) j) (parseargs n b es 0))"
    using P assms by (intro fine_pthen fine_parseredirs fine_parseargs) auto
  ultimately show ?thesis using p P(1) by (auto simp: parseexec_def intro: fine_mono)
qed

lemma fine_parsepipe:
  assumes "terminated b es" "\<And>j. i < j \<Longrightarrow> j \<le> es \<Longrightarrow> fine b es j (pline j)"
  shows "i \<le> i' \<Longrightarrow> i' \<le> es \<Longrightarrow> es - i' + 1 < n \<Longrightarrow> fine b es i' (parsepipe pline n b es i')"
proof (induction n arbitrary: i')
  case (Suc n)
  show ?case unfolding parsepipe.simps pipecmd_def
  proof (rule fine_pthen)
    show "fine b es i' (parseexec pline n b es i')" using Suc.prems assms by (intro fine_parseexec) auto
    fix c j assume j: "i' \<le> j" "j \<le> es" "words_ok b es c"
    show "fine b es j (let (i, p) = peek b es j ''|'' in
       if p then let (_, _, _, i) = gettoken b es i in
         pthen (parsepipe pline n b es i) (\<lambda>right i. Parsed (PIPE c right) i)
       else Parsed c i)"
    proof (rule fine_peek [OF assms(1) j(2)], simp, rule fine_pthen, goal_cases)
      case (1 m q e k tok)
      then show ?case using Suc.prems j by (intro Suc.IH) auto
    qed (use j in auto)
  qed
qed simp

lemma fine_parseline:
  assumes "terminated b es"
  shows "i \<le> es \<Longrightarrow> es - i + 2 < n \<Longrightarrow> fine b es i (parseline n b es i)"
proof (induction n arbitrary: i)
  case (Suc n)
  show ?case unfolding parseline.simps listcmd_def
  proof (rule fine_pthen)
    show "fine b es i (parsepipe (parseline n b es) n b es i)"
      using Suc by (intro fine_parsepipe [OF assms, of i]) auto
    fix c j assume j: "i \<le> j" "j \<le> es" "words_ok b es c"
    show "fine b es j (pthen (parsebacks n b es c j) (\<lambda>cmd i.
       let (i, p) = peek b es i '';'' in
       if p then let (_, _, _, i) = gettoken b es i in
         pthen (parseline n b es i) (\<lambda>right i. Parsed (LIST cmd right) i)
       else Parsed cmd i))"
    proof (rule fine_pthen)
      show "fine b es j (parsebacks n b es c j)" using j Suc.prems by (intro fine_parsebacks [OF assms]) auto
      fix d l assume j': "j \<le> l" "l \<le> es" "words_ok b es d"
      show "fine b es l (let (i, p) = peek b es l '';'' in
         if p then let (_, _, _, i) = gettoken b es i in
           pthen (parseline n b es i) (\<lambda>right i. Parsed (LIST d right) i)
         else Parsed d i)"
      proof (rule fine_peek [OF assms j'(2)], simp, rule fine_pthen, goal_cases)
        case (1 m q e k tok)
        then show ?case using Suc.prems j j' by (intro Suc.IH) auto
      qed (use j' in auto)
    qed
  qed
qed simp

subsection \<open>Cutting the words\<close>

text \<open>The characters of a word.\<close>

definition word_of :: "string \<Rightarrow> word_at \<Rightarrow> string" where
  "word_of b w = take (snd w - fst w) (drop (fst w) b)"

lemma nth_upd: "k < length xs \<Longrightarrow> xs[i := x] ! k = (if i = k then x else xs ! k)"
  by (cases "i < length xs") (auto simp: list_update_beyond)

lemma nul_fold:
  "length (fold (\<lambda>(q, e) b. b[e := CHR 0x00]) ws b) = length b \<and>
   (k < length b \<longrightarrow> fold (\<lambda>(q, e) b. b[e := CHR 0x00]) ws b ! k = (if k \<in> snd ` set ws then CHR 0x00 else b ! k))"
  by (induction ws arbitrary: b) (auto simp: nth_upd image_iff split: prod.splits)

lemma nulterminate_nth:
  "length (nulterminate c b) = length b \<and>
   (k < length b \<longrightarrow> nulterminate c b ! k = (if k \<in> snd ` set_cmd c then CHR 0x00 else b ! k))"
  by (induction c arbitrary: b) (auto simp: nul_fold nth_upd image_iff)

lemma nulterminate_chr:
  "chr_at (nulterminate c b) k = (if k \<in> snd ` set_cmd c then CHR 0x00 else chr_at b k)"
  using nulterminate_nth [of c b k] by (auto simp: chr_at_def)

text \<open>A string is what stands before its terminator.\<close>

lemma str_at_eq:
  assumes "q \<le> e" "e < length b" "\<And>k. q \<le> k \<Longrightarrow> k < e \<Longrightarrow> chr_at b k \<noteq> CHR 0x00" "chr_at b e = CHR 0x00"
  shows "str_at b q = word_of b (q, e)"
proof -
  define w where "w = take (e - q) (drop q b)"
  have "drop (e - q) (drop q b) = b ! e # drop (Suc e) b" using assms(1,2) by (simp add: Cons_nth_drop_Suc)
  then have d: "drop q b = w @ b ! e # drop (Suc e) b" unfolding w_def by (metis append_take_drop_id)
  have "c \<noteq> CHR 0x00" if cw: "c \<in> set w" for c
  proof -
    obtain m where m: "m < e - q" "c = b ! (q + m)" using cw assms(2) by (auto simp: w_def in_set_conv_nth)
    then show ?thesis using assms(2) assms(3) [of "q + m"] by (auto simp: chr_at_def split: if_splits)
  qed
  then have "takeWhile (\<lambda>c. c \<noteq> CHR 0x00) w = w" by (simp add: takeWhile_eq_all_conv)
  moreover have "b ! e = CHR 0x00" using assms(2,4) by (simp add: chr_at_def)
  ultimately show ?thesis using \<open>\<And>c. c \<in> set w \<Longrightarrow> c \<noteq> CHR 0x00\<close>
    unfolding str_at_def d by (simp add: word_of_def w_def)
qed

lemma word_of_cong:
  assumes "\<And>k. q \<le> k \<Longrightarrow> k < e \<Longrightarrow> chr_at b k = chr_at b' k" "length b = length b'" "e \<le> length b"
  shows "word_of b (q, e) = word_of b' (q, e)"
proof (rule nth_equalityI)
  fix k assume "k < length (word_of b (q, e))"
  then have k: "k < e - q" using assms(3) by (simp add: word_of_def)
  then show "word_of b (q, e) ! k = word_of b' (q, e) ! k"
    using assms(1) [of "q + k"] assms(2,3) by (simp add: word_of_def chr_at_def)
qed (use assms in \<open>simp add: word_of_def\<close>)

lemma cut_words:
  assumes "terminated b es" "words_ok b es c" "w \<in> set_cmd c"
  shows "str_at (nulterminate c b) (fst w) = word_of b w"
proof -
  let ?b = "nulterminate c b"
  have w: "word_ok b es w" using assms by blast
  have inside: "k \<notin> snd ` set_cmd c" if "fst w \<le> k" "k < snd w" for k
    using that w assms(2) by (force simp: word_ok_def)
  have l: "length ?b = length b" using nulterminate_nth [of c b 0] by simp
  have "str_at ?b (fst w) = word_of ?b (fst w, snd w)"
    using w assms(1,3) inside l by (intro str_at_eq) (auto simp: nulterminate_chr word_ok_def terminated_def)
  also have "\<dots> = word_of b (fst w, snd w)"
    using inside l w assms(1) by (intro word_of_cong) (auto simp: nulterminate_chr word_ok_def terminated_def)
  finally show ?thesis by simp
qed

lemma terminated_line: "CHR 0x00 \<notin> set s \<Longrightarrow> terminated (s @ [CHR 0x00]) (length s)"
  by (auto simp: terminated_def chr_at_def nth_append less_Suc_eq dest: nth_mem)

text \<open>
  C28. The parser of the shell ends on every line: the fuel of its recursion is
  enough. When it accepts the line, every word of the command lies inside the
  line, is not empty and holds neither white space nor one of the symbols; and after \<open>nulterminate\<close>
  has written its zero bytes into the line, the string that starts at the word is
  exactly the word.
\<close>

theorem parser_total:
  assumes "CHR 0x00 \<notin> set s"
  shows "case parseline (parse_fuel (length s)) (s @ [CHR 0x00]) (length s) 0 of
      Stuck \<Rightarrow> False
    | Syntax e \<Rightarrow> True
    | Parsed c j \<Rightarrow> j \<le> length s \<and> (\<forall>w \<in> set_cmd c. fst w < snd w \<and> snd w \<le> length s \<and>
        set (word_of s w) \<inter> (set whitespace \<union> set symbols) = {} \<and>
        str_at (nulterminate c (s @ [CHR 0x00])) (fst w) = word_of s w)"
proof -
  let ?b = "s @ [CHR 0x00]" and ?es = "length s"
  note t = terminated_line [OF assms]
  have "fine ?b ?es 0 (parseline (parse_fuel ?es) ?b ?es 0)" by (rule fine_parseline [OF t]) (simp_all add: parse_fuel_def)
  moreover have "set (word_of s w) \<inter> (set whitespace \<union> set symbols) = {}" if "word_ok ?b ?es w" for w
  proof -
    have "wordchar x" if x: "x \<in> set (word_of s w)" for x
    proof -
      obtain m where "m < snd w - fst w" "fst w + m < length s" "x = s ! (fst w + m)"
        using x by (auto simp: word_of_def in_set_conv_nth)
      then show ?thesis using \<open>word_ok ?b ?es w\<close> by (auto simp: word_ok_def chr_at_def nth_append dest!: spec [of _ "fst w + m"])
    qed
    then show ?thesis by auto
  qed
  moreover have "word_of ?b w = word_of s w" if "snd w \<le> ?es" for w using that by (simp add: word_of_def)
  ultimately show ?thesis
    using cut_words [OF t] by (auto simp: fine_def word_ok_def split: parsed.split)
qed

text \<open>The line \<open>ls>f\<close>, whose words touch the symbol between them.\<close>

theorem parser_total_witness:
  "\<exists>c. parseline (parse_fuel 4) (''ls>f'' @ [CHR 0x00]) 4 0 = Parsed c 4 \<and> (0, 2) \<in> set_cmd c \<and>
     str_at (nulterminate c (''ls>f'' @ [CHR 0x00])) 0 = ''ls''"
proof -
  let ?c = "REDIR (EXEC [(0, 2)]) (3, 4) U_WRONLY_CREATE 1"
  have e: "parseline (parse_fuel 4) (''ls>f'' @ [CHR 0x00]) 4 0 = Parsed ?c 4" by code_simp
  have n: "CHR 0x00 \<notin> set ''ls>f''" and l: "length ''ls>f'' = 4" by simp_all
  have "str_at (nulterminate ?c (''ls>f'' @ [CHR 0x00])) 0 = word_of ''ls>f'' (0, 2)"
    using parser_total [OF n, unfolded l e] by simp
  then show ?thesis unfolding e by (simp add: word_of_def)
qed

end
