(* ===== verification/Shell_Roundtrip.thy ===== *)
theory Shell_Roundtrip
  imports Shell_Parser
begin

text \<open>
  Every command can be written as a line that the parser of the shell reads back:
  \<open>unparse\<close> gives its tokens, each followed by a space in the line.
\<close>

subsection \<open>Lines of tokens\<close>

definition tokens_text :: "string list \<Rightarrow> string" where
  "tokens_text ts = concat (map (\<lambda>t. t @ '' '') ts)"

definition ok_word :: "string \<Rightarrow> bool" where
  "ok_word w \<longleftrightarrow> w \<noteq> [] \<and> (\<forall>c \<in> set w. in_word c)"

definition ok_tok :: "string \<Rightarrow> bool" where
  "ok_tok t \<longleftrightarrow> ok_word t \<or> (\<exists>x \<in> set symbols. t = [x])"

abbreviation line_buf :: "string \<Rightarrow> string" where "line_buf s \<equiv> s @ [CHR 0x00]"

definition at_toks :: "string \<Rightarrow> nat \<Rightarrow> string list \<Rightarrow> bool" where
  "at_toks s i ts \<longleftrightarrow> i \<le> length s \<and> drop i s = tokens_text ts \<and> (\<forall>t \<in> set ts. ok_tok t)"

lemma ok_tokD: "ok_tok t \<Longrightarrow> t \<noteq> [] \<and> \<not> white (hd t) \<and> hd t \<noteq> CHR 0x00"
  unfolding ok_tok_def
proof (elim disjE bexE)
  assume "ok_word t"
  then show ?thesis using hd_in_set [of t] by (auto simp: ok_word_def)
next
  have "\<forall>x \<in> set symbols. \<not> white x \<and> x \<noteq> CHR 0x00" by (simp add: symbols_def whitespace_def)
  moreover fix x assume "x \<in> set symbols" "t = [x]"
  ultimately show ?thesis by simp
qed

lemma at_toks_Nil: "at_toks s i [] \<longleftrightarrow> i = length s"
  by (auto simp: at_toks_def tokens_text_def)

lemma at_toks_Cons:
  assumes "at_toks s i (t # ts)"
  shows "i + length t < length s" "at_toks s (i + length t + 1) ts" "ok_tok t"
    "k < length t \<Longrightarrow> chr_at (line_buf s) (i + k) = t ! k" "chr_at (line_buf s) (i + length t) = CHR '' ''"
    "word_of (line_buf s) (i, i + length t) = t"
proof -
  have d: "drop i s = t @ CHR '' '' # tokens_text ts" "i \<le> length s" using assms by (auto simp: at_toks_def tokens_text_def)
  have l: "length s - i = length t + 1 + length (tokens_text ts)" using arg_cong [OF d(1), of length] by simp
  then show len: "i + length t < length s" using d(2) by arith
  have "drop (i + length t + 1) s = drop (length t + 1) (drop i s)" by (simp add: add.commute add.left_commute)
  then have "drop (i + length t + 1) s = tokens_text ts" unfolding d(1) by simp
  then show "at_toks s (i + length t + 1) ts" using assms l d(2) by (auto simp: at_toks_def)
  show "ok_tok t" using assms by (simp add: at_toks_def)
  have n: "s ! (i + k) = (t @ CHR '' '' # tokens_text ts) ! k" for k using d by (metis nth_drop)
  show "chr_at (line_buf s) (i + k) = t ! k" if "k < length t" for k
    using that len n [of k] by (simp add: chr_at_def nth_append)
  show "chr_at (line_buf s) (i + length t) = CHR '' ''"
    using len n [of "length t"] by (simp add: chr_at_def nth_append)
  show "word_of (line_buf s) (i, i + length t) = t" using d len by (simp add: word_of_def)
qed

lemma skip_here: "at_toks s i ts \<Longrightarrow> skip_while white (line_buf s) (length s) i = i"
proof (cases ts)
  case (Cons t us)
  assume "at_toks s i ts"
  then have "at_toks s i (t # us)" by (simp add: Cons)
  then have "chr_at (line_buf s) i = hd t" "ok_tok t"
    using at_toks_Cons(4) [of s i t us 0] at_toks_Cons(3) ok_tokD by (fastforce simp: hd_conv_nth)+
  then show ?thesis by (intro skip_while_step(2)) (auto dest: ok_tokD)
qed (auto simp: at_toks_Nil intro: skip_while_step(2))

lemma peek_here:
  assumes "at_toks s i ts"
  shows "peek (line_buf s) (length s) i toks = (i, ts \<noteq> [] \<and> hd (hd ts) \<in> set toks)"
proof (cases ts)
  case Nil
  then have "i = length s" using assms by (simp add: at_toks_Nil)
  then show ?thesis using Nil skip_here [OF assms] by (simp add: peek_def chr_at_def)
next
  case (Cons t us)
  then have "chr_at (line_buf s) i = hd t" "hd t \<noteq> CHR 0x00"
    using at_toks_Cons(4) [of s i t us 0] at_toks_Cons(3) [of s i t us] assms ok_tokD by (fastforce simp: hd_conv_nth)+
  then show ?thesis using Cons skip_here [OF assms] by (simp add: peek_def)
qed

lemma skip_blank:
  assumes "at_toks s i (t # ts)"
  shows "skip_while white (line_buf s) (length s) (i + length t) = i + length t + 1"
proof -
  note T = at_toks_Cons [OF assms]
  have "skip_while white (line_buf s) (length s) (i + length t) = skip_while white (line_buf s) (length s) (Suc (i + length t))"
    by (rule skip_while_step(1)) (use T in \<open>simp_all add: whitespace_def\<close>)
  then show ?thesis using skip_here [OF T(2)] by simp
qed

lemma skip_while_run:
  "\<forall>k < m. P (chr_at b (i + k)) \<Longrightarrow> i + m \<le> es \<Longrightarrow> \<not> P (chr_at b (i + m)) \<Longrightarrow> skip_while P b es i = i + m"
proof (induction m arbitrary: i)
  case 0
  then show ?case using skip_while_step(2) [of i es P b] by simp
next
  case (Suc m)
  have "P (chr_at b i)" using Suc.prems(1) by (auto dest: spec [of _ 0])
  moreover have "\<forall>k < m. P (chr_at b (Suc i + k))" using Suc.prems(1) by (metis Suc_less_eq add_Suc_shift)
  ultimately show ?case using Suc.IH [of "Suc i"] Suc.prems by (simp add: skip_while_step(1))
qed

lemma gettoken_sym:
  assumes "at_toks s i ([x] # ts)" "x \<in> set symbols"
  shows "gettoken (line_buf s) (length s) i = (x, i, i + 1, i + 2)"
proof -
  have "chr_at (line_buf s) i = x" "chr_at (line_buf s) (Suc i) = CHR '' ''"
    using at_toks_Cons(4) [OF assms(1), of 0] at_toks_Cons(5) [OF assms(1)] by simp_all
  then show ?thesis
    using skip_here [OF assms(1)] skip_blank [OF assms(1)] assms(2) by (auto simp: gettoken_def symbols_def)
qed

lemma gettoken_word:
  assumes "at_toks s i (t # ts)" "ok_word t"
  shows "gettoken (line_buf s) (length s) i = (CHR ''a'', i, i + length t, i + length t + 1)"
proof -
  note T = at_toks_Cons [OF assms(1)]
  have w: "in_word (chr_at (line_buf s) (i + k))" if "k < length t" for k
    using that T(4) [OF that] assms(2) by (auto simp: ok_word_def)
  have "skip_while wordchar (line_buf s) (length s) i = i + length t"
    by (rule skip_while_run) (use w T(1,5) in \<open>auto simp: whitespace_def\<close>)
  moreover have "in_word (chr_at (line_buf s) i)" using w [of 0] assms(2) by (simp add: ok_word_def)
  ultimately show ?thesis
    using skip_here [OF assms(1)] skip_blank [OF assms(1)] by (auto simp: gettoken_def symbols_def)
qed

subsection \<open>The tokens of a command\<close>

definition paren :: "bool \<Rightarrow> string list \<Rightarrow> string list" where
  "paren p ts = (if p then [''(''] @ ts @ ['')''] else ts)"

text \<open>
  The level says where the command stands: 0 as a line, 1 before an ampersand or a
  semicolon, 2 as the right side of a pipe, 3 as its left side or before a redirection.
\<close>

primrec unparse :: "nat \<Rightarrow> string cmd \<Rightarrow> string list" where
  "unparse k (EXEC ws) = ws"
| "unparse k (REDIR c f m d) = unparse 3 c @ [if d = 0 then ''<'' else ''>'', f]"
| "unparse k (PIPE l r) = paren (2 < k) (unparse 3 l @ [''|''] @ unparse 2 r)"
| "unparse k (LIST l r) = paren (0 < k) (unparse 1 l @ ['';''] @ unparse 0 r)"
| "unparse k (BACK c) = paren (1 < k) (unparse 1 c @ [''&''])"

definition ok_redir :: "string \<times> int \<times> int \<Rightarrow> bool" where
  "ok_redir = (\<lambda>(f, m, d). ok_word f \<and> (m = U_RDONLY \<and> d = 0 \<or> m = U_WRONLY_CREATE \<and> d = 1))"

text \<open>The commands the parser can build: fewer than \<open>MAXARGS\<close> arguments, words, and the two kinds of redirection.\<close>

primrec ok_cmd :: "string cmd \<Rightarrow> bool" where
  "ok_cmd (EXEC ws) \<longleftrightarrow> length ws < MAXARGS \<and> (\<forall>w \<in> set ws. ok_word w)"
| "ok_cmd (REDIR c f m d) \<longleftrightarrow> ok_cmd c \<and> ok_redir (f, m, d)"
| "ok_cmd (PIPE l r) \<longleftrightarrow> ok_cmd l \<and> ok_cmd r"
| "ok_cmd (LIST l r) \<longleftrightarrow> ok_cmd l \<and> ok_cmd r"
| "ok_cmd (BACK c) \<longleftrightarrow> ok_cmd c"

definition redir_toks :: "(string \<times> int \<times> int) list \<Rightarrow> string list" where
  "redir_toks rs = concat (map (\<lambda>(f, m, d). [if d = 0 then ''<'' else ''>'', f]) rs)"

definition wrap :: "(string \<times> int \<times> int) list \<Rightarrow> string cmd \<Rightarrow> string cmd" where
  "wrap rs c = foldl (\<lambda>c (f, m, d). REDIR c f m d) c rs"

lemma wrap_simps [simp]: "wrap [] c = c" "wrap ((f, m, d) # rs) c = wrap rs (REDIR c f m d)"
  "wrap (rs @ [(f, m, d)]) c = REDIR (wrap rs c) f m d"
  by (simp_all add: wrap_def)

lemma redir_toks_simps [simp]: "redir_toks [] = []" "redir_toks ((f, m, d) # rs) = (if d = 0 then ''<'' else ''>'') # f # redir_toks rs"
  "redir_toks (rs @ qs) = redir_toks rs @ redir_toks qs"
  by (simp_all add: redir_toks_def)

lemma unwrap:
  "\<exists>rs core. c = wrap rs core \<and> (\<forall>d f m k. core \<noteq> REDIR d f m k) \<and> unparse 3 c = unparse 3 core @ redir_toks rs \<and>
     (ok_cmd c \<longleftrightarrow> ok_cmd core \<and> list_all ok_redir rs)"
proof (induction c)
  case (REDIR c f m d)
  then obtain rs core where "c = wrap rs core" "\<forall>d f m k. core \<noteq> REDIR d f m k" "unparse 3 c = unparse 3 core @ redir_toks rs"
    "ok_cmd c \<longleftrightarrow> ok_cmd core \<and> list_all ok_redir rs" by blast
  then show ?case by (intro exI [of _ "rs @ [(f, m, d)]"] exI [of _ core]) auto
qed (rule exI [of _ "[]"], fastforce)+

text \<open>The ends of commands at the four levels.\<close>

definition ends_with :: "string \<Rightarrow> string list \<Rightarrow> bool" where
  "ends_with cs ts \<longleftrightarrow> (case ts of [] \<Rightarrow> True | t # _ \<Rightarrow> \<exists>x \<in> set cs. t = [x])"

definition yields :: "string \<Rightarrow> word_at cmd parsed \<Rightarrow> string cmd \<Rightarrow> string list \<Rightarrow> bool" where
  "yields s r c ts \<longleftrightarrow> (\<exists>c' j. r = Parsed c' j \<and> map_cmd (word_of (line_buf s)) c' = c \<and> at_toks s j ts)"

lemma yields_pthen:
  assumes "yields s r c ts" "\<And>c' j. map_cmd (word_of (line_buf s)) c' = c \<Longrightarrow> at_toks s j ts \<Longrightarrow> yields s (f c' j) d us"
  shows "yields s (pthen r f) d us"
  using assms by (auto simp: yields_def pthen_def)

lemma at_toks_len: "at_toks s i ts \<Longrightarrow> length s - i = length (tokens_text ts)"
  by (auto simp: at_toks_def dest: arg_cong [of _ _ length])

lemma tokens_text_simps [simp]: "tokens_text [] = []" "tokens_text (t # ts) = t @ CHR '' '' # tokens_text ts"
  "tokens_text (ts @ us) = tokens_text ts @ tokens_text us"
  by (simp_all add: tokens_text_def)

subsection \<open>Redirections and arguments\<close>

lemma redirs_back:
  "at_toks s i (redir_toks rs @ ts) \<Longrightarrow> list_all ok_redir rs \<Longrightarrow> (ts \<noteq> [] \<longrightarrow> hd (hd ts) \<notin> set ''<>'') \<Longrightarrow> length s - i < n \<Longrightarrow>
   yields s (parseredirs n (line_buf s) (length s) c i) (wrap rs (map_cmd (word_of (line_buf s)) c)) ts"
proof (induction rs arbitrary: i c n)
  case Nil
  then obtain m where "n = Suc m" by (cases n) auto
  then show ?case using Nil peek_here [of s i ts "''<>''"] by (auto simp: yields_def)
next
  case (Cons r rs)
  obtain f m d where r: "r = (f, m, d)" by (cases r)
  obtain n' where n: "n = Suc n'" using Cons.prems(4) by (cases n) auto
  let ?x = "if d = 0 then CHR ''<'' else CHR ''>''"
  have f: "ok_word f" and d: "m = U_RDONLY \<and> d = 0 \<or> m = U_WRONLY_CREATE \<and> d = 1" using Cons.prems(2) r by (auto simp: ok_redir_def)
  have a: "at_toks s i ([?x] # f # redir_toks rs @ ts)" using Cons.prems(1) r by (simp split: if_splits)
  note A = at_toks_Cons [OF a]
  have A2: "at_toks s (i + 2) (f # redir_toks rs @ ts)" using A(2) by simp
  note B = at_toks_Cons [OF A2]
  have g: "gettoken (line_buf s) (length s) i = (?x, i, i + 1, i + 2)" by (rule gettoken_sym [OF a]) (simp add: symbols_def)
  note h = gettoken_word [OF A2 f]
  have p: "peek (line_buf s) (length s) i ''<>'' = (i, True)" using peek_here [OF a, of "''<>''"] by simp
  let ?c = "REDIR c (i + 2, i + 2 + length f) m d"
  have "parseredirs n (line_buf s) (length s) c i = parseredirs n' (line_buf s) (length s) ?c (i + 2 + length f + 1)"
    using g h p d n by (auto simp: U_RDONLY_def U_WRONLY_CREATE_def)
  moreover have "yields s (parseredirs n' (line_buf s) (length s) ?c (i + 2 + length f + 1)) (wrap rs (map_cmd (word_of (line_buf s)) ?c)) ts"
    using B Cons.prems n A(1) by (intro Cons.IH) auto
  ultimately show ?case using B(6) r by simp
qed

lemma map_add_arg: "map_cmd f (add_arg w c) = add_arg (f w) (map_cmd f c)"
  by (induction w c rule: add_arg.induct) auto

lemma word_head: "ok_word w \<Longrightarrow> hd w \<notin> set symbols"
  using hd_in_set [of w] by (auto simp: ok_word_def)

lemma args_end:
  assumes "at_toks s i ts" "ends_with ''|)&;'' ts" "0 < n"
  shows "yields s (parseargs n (line_buf s) (length s) argc c i) (map_cmd (word_of (line_buf s)) c) ts"
proof -
  obtain m where n: "n = Suc m" using assms(3) by (cases n) auto
  show ?thesis
  proof (cases ts)
    case Nil
    then have "i = length s" using assms(1) by (simp add: at_toks_Nil)
    then have "gettoken (line_buf s) (length s) i = (CHR 0x00, i, i, i)"
      using skip_here [OF assms(1)] by (simp add: gettoken_def chr_at_def Let_def)
    then show ?thesis using assms(1) Nil n peek_here [OF assms(1)] by (auto simp: yields_def)
  next
    case (Cons t us)
    then have "peek (line_buf s) (length s) i ''|)&;'' = (i, True)"
      using peek_here [OF assms(1), of "''|)&;''"] assms(2) by (auto simp: ends_with_def)
    then show ?thesis using assms(1) n by (auto simp: yields_def)
  qed
qed

lemma args_back:
  "at_toks s i (ws @ redir_toks rs @ ts) \<Longrightarrow> ws \<noteq> [] \<Longrightarrow> \<forall>w \<in> set ws. ok_word w \<Longrightarrow> list_all ok_redir rs \<Longrightarrow>
   ends_with ''|)&;'' ts \<Longrightarrow> argc + length ws < MAXARGS \<Longrightarrow> length s - i < n \<Longrightarrow> map_cmd (word_of (line_buf s)) c = EXEC us \<Longrightarrow>
   yields s (parseargs n (line_buf s) (length s) argc c i) (wrap rs (EXEC (us @ ws))) ts"
proof (induction ws arbitrary: i c n argc us)
  case (Cons w ws)
  let ?b = "line_buf s" and ?es = "length s"
  obtain m where n: "n = Suc m" using Cons.prems(7) by (cases n) auto
  have a: "at_toks s i (w # ws @ redir_toks rs @ ts)" and w: "ok_word w" using Cons.prems by auto
  note A = at_toks_Cons [OF a] and g = gettoken_word [OF a w]
  let ?i = "i + length w + 1" and ?c = "add_arg (i, i + length w) c"
  have "set ''|)&;'' \<subseteq> set symbols" by (simp add: symbols_def)
  then have "hd w \<notin> set ''|)&;''" using word_head [OF w] by blast
  then have "peek ?b ?es i ''|)&;'' = (i, False)" using peek_here [OF a, of "''|)&;''"] by simp
  then have e: "parseargs n ?b ?es argc c i = pthen (parseredirs m ?b ?es ?c ?i) (parseargs m ?b ?es (argc + 1))"
    using g n Cons.prems(6) by simp
  have c: "map_cmd (word_of ?b) ?c = EXEC (us @ [w])" using A(6) Cons.prems(8) by (simp add: map_add_arg)
  have ts: "ts \<noteq> [] \<longrightarrow> hd (hd ts) \<notin> set ''<>''" using Cons.prems(5) by (auto simp: ends_with_def split: list.splits)
  have l: "length s - ?i < m" using A(1) Cons.prems(7) n by arith
  show ?case
  proof (cases "ws = []")
    case True
    then have "yields s (parseredirs m ?b ?es ?c ?i) (wrap rs (map_cmd (word_of ?b) ?c)) ts"
      using A(2) Cons.prems(4) ts l by (intro redirs_back) auto
    then show ?thesis unfolding e c True
      by (rule yields_pthen) (metis args_end Cons.prems(5) l gr_implies_not0 neq0_conv)
  next
    case False
    have "hd ws \<in> set ws" using False by simp
    then have "hd (hd ws) \<notin> set ''<>''" using word_head [of "hd ws"] Cons.prems(3) by (auto simp: symbols_def)
    then have "yields s (parseredirs m ?b ?es ?c ?i) (wrap [] (map_cmd (word_of ?b) ?c)) (ws @ redir_toks rs @ ts)"
      using A(2) False l by (intro redirs_back) auto
    moreover have "yields s (parseargs m ?b ?es (argc + 1) c' j) (wrap rs (EXEC (us @ w # ws))) ts"
      if "map_cmd (word_of ?b) c' = EXEC (us @ [w])" "at_toks s j (ws @ redir_toks rs @ ts)" for c' j
    proof -
      have "length s - j < m" using at_toks_len [OF that(2)] at_toks_len [OF A(2)] l by simp
      then show ?thesis using Cons.IH [OF that(2) False, of "argc + 1" m c' "us @ [w]"] Cons.prems that(1) by simp
    qed
    ultimately show ?thesis unfolding e c wrap_simps by (rule yields_pthen)
  qed
qed simp

subsection \<open>Commands\<close>

text \<open>What is assumed of the parser for lines, on what follows a position.\<close>

definition line_back :: "string \<Rightarrow> (nat \<Rightarrow> word_at cmd parsed) \<Rightarrow> nat \<Rightarrow> bool" where
  "line_back s pline i \<longleftrightarrow> (\<forall>j c ts. length s - j < length s - i \<longrightarrow> at_toks s j (unparse 0 c @ ts) \<longrightarrow> ok_cmd c \<longrightarrow>
     ends_with '')'' ts \<longrightarrow> yields s (pline j) c ts)"

lemma block_back:
  assumes "line_back s pline i" "at_toks s i (''('' # unparse 0 c @ '')'' # redir_toks rs @ ts)" "ok_cmd c" "list_all ok_redir rs"
    and "ends_with ''|)&;'' ts" "length s - i < n"
  shows "yields s (parseblock pline n (line_buf s) (length s) i) (wrap rs c) ts"
proof -
  let ?b = "line_buf s" and ?es = "length s"
  note A = at_toks_Cons [OF assms(2)]
  have g: "gettoken ?b ?es i = (CHR ''('', i, i + 1, i + 2)" by (rule gettoken_sym [OF assms(2)]) (simp add: symbols_def)
  have p: "peek ?b ?es i ''('' = (i, True)" using peek_here [OF assms(2), of "''(''"] by simp
  have ts: "ts \<noteq> [] \<longrightarrow> hd (hd ts) \<notin> set ''<>''" using assms(5) by (auto simp: ends_with_def split: list.splits)
  have "yields s (pline (i + 2)) c ('')'' # redir_toks rs @ ts)"
    using assms(1,3) A(1,2) by (auto simp: line_back_def ends_with_def dest!: spec [of _ "i + 2"])
  moreover have "yields s (let (i, p) = peek ?b ?es j '')'' in
          if \<not> p then Syntax ''syntax - missing )''
          else let (_, _, _, i) = gettoken ?b ?es i in parseredirs n ?b ?es c' i) (wrap rs c) ts"
    if c: "map_cmd (word_of ?b) c' = c" and j: "at_toks s j ('')'' # redir_toks rs @ ts)" for c' j
  proof -
    have "gettoken ?b ?es j = (CHR '')'', j, j + 1, j + 2)" by (rule gettoken_sym [OF j]) (simp add: symbols_def)
    moreover have "length s - (j + 2) < n" using at_toks_len [OF assms(2)] at_toks_len [OF j] assms(6) by simp
    moreover have "at_toks s (j + 2) (redir_toks rs @ ts)" using at_toks_Cons(2) [OF j] by simp
    ultimately show ?thesis using redirs_back [OF _ assms(4) ts, of s "j + 2" n c'] peek_here [OF j, of "'')''"] c by simp
  qed
  ultimately have "yields s (pthen (pline (i + 2)) (\<lambda>cmd i.
          let (i, p) = peek ?b ?es i '')'' in
          if \<not> p then Syntax ''syntax - missing )''
          else let (_, _, _, i) = gettoken ?b ?es i in parseredirs n ?b ?es cmd i)) (wrap rs c) ts"
    by (rule yields_pthen)
  then show ?thesis using g p by (simp add: parseblock_def)
qed

lemma simple_back:
  assumes "at_toks s i (ws @ redir_toks rs @ ts)" "ok_cmd (EXEC ws)" "list_all ok_redir rs"
    and "ends_with ''|)&;'' ts" "length s - i < n"
  shows "yields s (parseexec pline n (line_buf s) (length s) i) (wrap rs (EXEC ws)) ts"
proof -
  let ?b = "line_buf s" and ?es = "length s"
  have ts: "ts \<noteq> [] \<longrightarrow> hd (hd ts) \<notin> set ''<>('' " using assms(4) by (auto simp: ends_with_def split: list.splits)
  have ws: "ws \<noteq> [] \<longrightarrow> hd (hd ws) \<notin> set ''<>(''" using word_head [of "hd ws"] assms(2) by (cases ws) (auto simp: symbols_def)
  have "redir_toks rs \<noteq> [] \<longrightarrow> hd (hd (redir_toks rs)) \<noteq> CHR ''(''" by (cases rs) (auto split: if_splits)
  then have "peek ?b ?es i ''('' = (i, False)"
    using peek_here [OF assms(1), of "''(''"] ts ws by (auto simp: hd_append)
  then have e: "parseexec pline n ?b ?es i = pthen (parseredirs n ?b ?es (EXEC []) i) (parseargs n ?b ?es 0)"
    by (simp add: parseexec_def)
  show ?thesis
  proof (cases "ws = []")
    case True
    then have "yields s (parseredirs n ?b ?es (EXEC []) i) (wrap rs (map_cmd (word_of ?b) (EXEC []))) ts"
      using assms ts by (intro redirs_back) auto
    then show ?thesis unfolding e True
    proof (rule yields_pthen)
      fix c' j assume "map_cmd (word_of ?b) c' = wrap rs (map_cmd (word_of ?b) (EXEC []))" "at_toks s j ts"
      then show "yields s (parseargs n ?b ?es 0 c' j) (wrap rs (EXEC [])) ts"
        using args_end [of s j ts n 0 c'] assms(4,5) by simp
    qed
  next
    case False
    then have "yields s (parseredirs n ?b ?es (EXEC []) i) (wrap [] (map_cmd (word_of ?b) (EXEC []))) (ws @ redir_toks rs @ ts)"
      using assms ws by (intro redirs_back) auto
    then show ?thesis unfolding e
    proof (rule yields_pthen)
      fix c' j assume c: "map_cmd (word_of ?b) c' = wrap [] (map_cmd (word_of ?b) (EXEC []))" and j: "at_toks s j (ws @ redir_toks rs @ ts)"
      have "length s - j < n" using at_toks_len [OF j] at_toks_len [OF assms(1)] assms(5) by simp
      then show "yields s (parseargs n ?b ?es 0 c' j) (wrap rs (EXEC ws)) ts"
        using args_back [OF j False, of 0 n c' "[]"] assms c by simp
    qed
  qed
qed

lemma exec_back:
  assumes "line_back s pline i" "at_toks s i (unparse 3 c @ ts)" "ok_cmd c" "ends_with ''|)&;'' ts" "length s - i < n"
  shows "yields s (parseexec pline n (line_buf s) (length s) i) c ts"
proof -
  obtain rs core where c: "c = wrap rs core" "\<forall>d f m k. core \<noteq> REDIR d f m k" "unparse 3 c = unparse 3 core @ redir_toks rs"
    "ok_cmd core" "list_all ok_redir rs" using unwrap [of c] assms(3) by blast
  show ?thesis
  proof (cases "\<exists>ws. core = EXEC ws")
    case True
    then show ?thesis using simple_back [of s i _ rs ts n pline] assms c by auto
  next
    case False
    then have u: "unparse 3 core = ''('' # unparse 0 core @ ['')'']" using c(2) by (cases core) (auto simp: paren_def)
    then have a: "at_toks s i (''('' # unparse 0 core @ '')'' # redir_toks rs @ ts)" using assms(2) c(3) by simp
    have "peek (line_buf s) (length s) i ''('' = (i, True)" using peek_here [OF a, of "''(''"] by simp
    then show ?thesis using block_back [OF assms(1) a c(4,5) assms(4,5)] c(1) by (simp add: parseexec_def)
  qed
qed

lemma line_back_mono: "line_back s pline i \<Longrightarrow> length s - j \<le> length s - i \<Longrightarrow> line_back s pline j"
  by (auto simp: line_back_def)

lemma ends_withI: "x \<in> set cs \<Longrightarrow> ends_with cs ([x] # ts)" "set cs \<subseteq> set ds \<Longrightarrow> ends_with cs ts \<Longrightarrow> ends_with ds ts"
  by (auto simp: ends_with_def split: list.splits)

text \<open>The token after a command, when it is not the one asked for, and when it is.\<close>

lemma peek_other:
  assumes "at_toks s i ts" "ends_with cs ts" "x \<notin> set cs"
  shows "peek (line_buf s) (length s) i [x] = (i, False)"
  using peek_here [OF assms(1), of "[x]"] assms(2,3) by (auto simp: ends_with_def split: list.splits)

lemma peek_this:
  assumes "at_toks s i ([x] # ts)" "x \<in> set symbols"
  shows "peek (line_buf s) (length s) i [x] = (i, True)" "gettoken (line_buf s) (length s) i = (x, i, i + 1, i + 2)"
    "at_toks s (i + 2) ts"
  using peek_here [OF assms(1), of "[x]"] gettoken_sym [OF assms] at_toks_Cons(2) [OF assms(1)] by simp_all

lemma pipe_back:
  "line_back s pline i \<Longrightarrow> at_toks s i (unparse 2 c @ ts) \<Longrightarrow> ok_cmd c \<Longrightarrow> ends_with '')&;'' ts \<Longrightarrow> length s - i + 1 < n \<Longrightarrow>
   yields s (parsepipe pline n (line_buf s) (length s) i) c ts"
proof (induction n arbitrary: i c)
  case (Suc n)
  let ?b = "line_buf s" and ?es = "length s"
  show ?case
  proof (cases "\<exists>l r. c = PIPE l r")
    case True
    then obtain l r where c: "c = PIPE l r" by blast
    have "yields s (parseexec pline n ?b ?es i) l (''|'' # unparse 2 r @ ts)"
      using Suc.prems c by (intro exec_back) (auto simp: paren_def ends_with_def)
    then show ?thesis unfolding parsepipe.simps pipecmd_def
    proof (rule yields_pthen)
      fix l' j assume l: "map_cmd (word_of ?b) l' = l" and j: "at_toks s j (''|'' # unparse 2 r @ ts)"
      note T = peek_this [OF j, unfolded symbols_def, simplified]
      have "length s - (j + 2) < length s - i" "length s - (j + 2) + 1 < n"
        using at_toks_len [OF j] at_toks_len [OF Suc.prems(2)] Suc.prems(5) c by (auto simp: paren_def)
      then have "yields s (parsepipe pline n ?b ?es (j + 2)) r ts"
        using T(3) Suc.prems c by (intro Suc.IH) (auto intro: line_back_mono)
      then have "yields s (pthen (parsepipe pline n ?b ?es (j + 2)) (\<lambda>right i. Parsed (PIPE l' right) i)) c ts"
        by (rule yields_pthen) (use l c in \<open>auto simp: yields_def\<close>)
      then show "yields s (let (i, p) = peek ?b ?es j ''|'' in
         if p then let (_, _, _, i) = gettoken ?b ?es i in
           pthen (parsepipe pline n ?b ?es i) (\<lambda>right i. Parsed (PIPE l' right) i)
         else Parsed l' i) c ts" using T by simp
    qed
  next
    case False
    then have "unparse 2 c = unparse 3 c" by (cases c) (auto simp: paren_def)
    then have "yields s (parseexec pline n ?b ?es i) c ts"
      using Suc.prems by (intro exec_back) (auto intro: ends_withI(2) [of "'')&;''"])
    then show ?thesis unfolding parsepipe.simps pipecmd_def
      by (rule yields_pthen) (use peek_other [OF _ Suc.prems(4), of s _ "CHR ''|''"] in \<open>auto simp: yields_def\<close>)
  qed
qed simp

lemma backs_back:
  "at_toks s i (replicate k ''&'' @ ts) \<Longrightarrow> ends_with '');'' ts \<Longrightarrow> length s - i < n \<Longrightarrow>
   yields s (parsebacks n (line_buf s) (length s) c i) ((BACK ^^ k) (map_cmd (word_of (line_buf s)) c)) ts"
proof (induction k arbitrary: i c n)
  case 0
  then obtain m where "n = Suc m" by (cases n) auto
  then show ?case using 0 peek_other [OF _ 0(2), of s i "CHR ''&''"] by (auto simp: yields_def)
next
  case (Suc k)
  then obtain m where n: "n = Suc m" by (cases n) auto
  have a: "at_toks s i (''&'' # replicate k ''&'' @ ts)" using Suc.prems by simp
  note T = peek_this [OF a, unfolded symbols_def, simplified]
  have "length s - Suc (Suc i) < m" using at_toks_len [OF T(3)] at_toks_len [OF a] Suc.prems(3) n by simp
  from Suc.IH [OF T(3) Suc.prems(2) this, of "BACK c"] show ?case using T n by (simp add: funpow_swap1)
qed

lemma unback: "\<exists>k p. c = (BACK ^^ k) p \<and> (\<forall>d. p \<noteq> BACK d) \<and> unparse 1 c = unparse 2 p @ replicate k ''&'' \<and> (ok_cmd c \<longleftrightarrow> ok_cmd p)"
proof (induction c)
  case (BACK c)
  then obtain k p where "c = (BACK ^^ k) p" "\<forall>d. p \<noteq> BACK d" "unparse 1 c = unparse 2 p @ replicate k ''&''" "ok_cmd c \<longleftrightarrow> ok_cmd p" by blast
  then show ?case by (intro exI [of _ "Suc k"] exI [of _ p]) (auto simp: paren_def replicate_append_same)
qed (rule exI [of _ 0], force simp: paren_def)+

lemma line_split:
  "\<exists>a rest. unparse 0 c = unparse 1 a @ (case rest of None \<Rightarrow> [] | Some r \<Rightarrow> '';'' # unparse 0 r) \<and>
     c = (case rest of None \<Rightarrow> a | Some r \<Rightarrow> LIST a r)"
proof (cases "\<exists>l r. c = LIST l r")
  case True
  then obtain l r where "c = LIST l r" by blast
  then show ?thesis by (intro exI [of _ l] exI [of _ "Some r"]) (simp add: paren_def)
next
  case False
  then show ?thesis by (intro exI [of _ c] exI [of _ None]) (cases c; simp add: paren_def)
qed

lemma line_back_step:
  "at_toks s i (unparse 0 c @ ts) \<Longrightarrow> ok_cmd c \<Longrightarrow> ends_with '')'' ts \<Longrightarrow> length s - i + 2 < n \<Longrightarrow>
   yields s (parseline n (line_buf s) (length s) i) c ts"
proof (induction n arbitrary: i c ts)
  case (Suc n)
  let ?b = "line_buf s" and ?es = "length s"
  obtain a rest where c: "unparse 0 c = unparse 1 a @ (case rest of None \<Rightarrow> [] | Some r \<Rightarrow> '';'' # unparse 0 r)"
    "c = (case rest of None \<Rightarrow> a | Some r \<Rightarrow> LIST a r)" using line_split [of c] by blast
  define us where "us = (case rest of None \<Rightarrow> [] | Some r \<Rightarrow> '';'' # unparse 0 r) @ ts"
  obtain k p where a: "a = (BACK ^^ k) p" "\<forall>d. p \<noteq> BACK d" "unparse 1 a = unparse 2 p @ replicate k ''&''" "ok_cmd a \<longleftrightarrow> ok_cmd p"
    using unback [of a] by blast
  have us: "ends_with '');'' us" using Suc.prems(3) by (auto simp: us_def ends_with_def split: option.splits list.splits)
  have at: "at_toks s i (unparse 2 p @ replicate k ''&'' @ us)" using Suc.prems(1) c(1) a(3) by (simp add: us_def)
  have p: "ok_cmd p" using Suc.prems(2) c(2) a(4) by (simp split: option.splits)
  have amp: "ends_with '')&;'' (replicate k ''&'' @ us)" using us by (cases k) (auto simp: ends_with_def split: list.splits)
  have "line_back s (parseline n ?b ?es) i"
    using Suc.IH Suc.prems(4) by (auto simp: line_back_def)
  then have 1: "yields s (parsepipe (parseline n ?b ?es) n ?b ?es i) p (replicate k ''&'' @ us)"
    by (rule pipe_back [OF _ at p amp]) (use Suc.prems(4) in simp)
  have 2: "yields s (parsebacks n ?b ?es p' j) a us"
    if "map_cmd (word_of ?b) p' = p" "at_toks s j (replicate k ''&'' @ us)" for p' j
    using backs_back [OF that(2) us, of n p'] at_toks_len [OF that(2)] at_toks_len [OF at] Suc.prems(4) that(1) a(1) by simp
  have 3: "yields s (let (i, p) = peek ?b ?es j '';'' in
       if p then let (_, _, _, i) = gettoken ?b ?es i in
         pthen (parseline n ?b ?es i) (\<lambda>right i. Parsed (LIST a' right) i)
       else Parsed a' i) c ts"
    if a': "map_cmd (word_of ?b) a' = a" and j: "at_toks s j us" for a' j
  proof (cases rest)
    case None
    then show ?thesis using peek_other [of s j ts "'')''" "CHR '';''"] Suc.prems(3) j a' c(2) by (auto simp: us_def yields_def)
  next
    case (Some r)
    then have j': "at_toks s j ('';'' # unparse 0 r @ ts)" using j by (simp add: us_def)
    note T = peek_this [OF j', unfolded symbols_def, simplified]
    have "length s - Suc (Suc j) + 2 < n" using at_toks_len [OF T(3)] at_toks_len [OF j'] at_toks_len [OF j] at_toks_len [OF at] Suc.prems(4) by simp
    then have "yields s (parseline n ?b ?es (Suc (Suc j))) r ts" using Suc.IH [OF T(3)] Suc.prems Some c(2) by simp
    then have "yields s (pthen (parseline n ?b ?es (Suc (Suc j))) (\<lambda>right i. Parsed (LIST a' right) i)) c ts"
      by (rule yields_pthen) (use a' c(2) Some in \<open>auto simp: yields_def\<close>)
    then show ?thesis using T by simp
  qed
  show ?case unfolding parseline.simps listcmd_def
    by (rule yields_pthen [OF 1], rule yields_pthen [OF 2], assumption, assumption, rule 3)
qed simp

lemma ok_tok_sym: "x \<in> set symbols \<Longrightarrow> ok_tok [x]"
  by (simp add: ok_tok_def)

lemma unparse_ok: "ok_cmd c \<Longrightarrow> \<forall>t \<in> set (unparse k c). ok_tok t"
proof (induction c arbitrary: k)
  case (EXEC ws)
  then show ?case by (auto simp: ok_tok_def)
next
  case (REDIR c f m d)
  then have "ok_tok f" by (auto simp: ok_tok_def ok_redir_def)
  then show ?case using REDIR by (auto simp: symbols_def intro: ok_tok_sym)
qed (auto simp: paren_def symbols_def intro!: ok_tok_sym)

lemma ok_tok_no_nul: "ok_tok t \<Longrightarrow> CHR 0x00 \<notin> set t"
proof -
  have "CHR 0x00 \<notin> set symbols" by (simp add: symbols_def)
  then show "ok_tok t \<Longrightarrow> CHR 0x00 \<notin> set t" unfolding ok_tok_def ok_word_def by auto
qed

lemma text_no_nul: "\<forall>t \<in> set ts. ok_tok t \<Longrightarrow> CHR 0x00 \<notin> set (tokens_text ts)"
  by (induction ts) (simp_all add: ok_tok_no_nul)

text \<open>
  C27. Every command the shell can represent, with fewer than \<open>MAXARGS\<close> arguments to a program,
  words free of white space and symbols, and the redirections the shell has, can be
  written as a line that the shell parses to exactly this command, as it is after
  \<open>nulterminate\<close>: pipes group to the right, an ampersand and a semicolon bind less than
  a pipe, redirections apply to the simple command or the block they follow, and
  parentheses override all of this.
\<close>

theorem shell_parses_commands:
  assumes "ok_cmd c"
  shows "parse_words (tokens_text (unparse 0 c)) = Inr c"
proof -
  define s where "s = tokens_text (unparse 0 c)"
  let ?b = "line_buf s" and ?es = "length s"
  have nul: "CHR 0x00 \<notin> set s" unfolding s_def by (rule text_no_nul [OF unparse_ok [OF assms]])
  have "at_toks s 0 (unparse 0 c @ [])" using unparse_ok [OF assms, of 0] by (simp add: at_toks_def s_def)
  then have "yields s (parseline (parse_fuel ?es) ?b ?es 0) c []"
    using assms by (rule line_back_step) (simp_all add: ends_with_def parse_fuel_def)
  then obtain c' where c': "parseline (parse_fuel ?es) ?b ?es 0 = Parsed c' ?es" "map_cmd (word_of ?b) c' = c"
    by (auto simp: yields_def at_toks_Nil)
  have "fine ?b ?es 0 (parseline (parse_fuel ?es) ?b ?es 0)"
    by (rule fine_parseline [OF terminated_line [OF nul]]) (simp_all add: parse_fuel_def)
  then have w: "words_ok ?b ?es c'" using c'(1) by simp
  have "map_cmd (\<lambda>(q, eq). str_at (nulterminate c' ?b) q) c' = map_cmd (word_of ?b) c'"
    by (rule cmd.map_cong) (use cut_words [OF terminated_line [OF nul] w] in auto)
  moreover have "fst (peek ?b ?es ?es []) = ?es" by (simp add: peek_def Let_def skip_while_step(2))
  ultimately have "parse_words s = Inr c" using c' by (auto simp: parse_words_def Let_def split: prod.splits)
  then show ?thesis by (simp add: s_def)
qed

text \<open>The line \<open>( a < f ; b | c > g ) & \<close>, with a pipe in a list in the background.\<close>

theorem shell_parses_commands_witness:
  "parse_words ''( a < f ; b | c > g ) & '' =
     Inr (BACK (LIST (REDIR (EXEC [''a'']) ''f'' U_RDONLY 0) (PIPE (EXEC [''b'']) (REDIR (EXEC [''c'']) ''g'' U_WRONLY_CREATE 1))))"
proof -
  let ?c = "BACK (LIST (REDIR (EXEC [''a'']) ''f'' U_RDONLY 0) (PIPE (EXEC [''b'']) (REDIR (EXEC [''c'']) ''g'' U_WRONLY_CREATE 1)))"
  have "ok_cmd ?c" by (simp add: ok_redir_def ok_word_def MAXARGS_def whitespace_def symbols_def)
  from shell_parses_commands [OF this] show ?thesis by (simp add: paren_def)
qed

end
