(* ===== verification/Umalloc.thy ===== *)
theory Umalloc
  imports Prelude
begin

text \<open>
  The memory allocator of user programs (umalloc.c). Memory is a store of headers by
  address; addresses are natural numbers and a header takes 8 bytes. Sizes, counted
  in headers, are computed as \<open>uint\<close>. The loops over the circular free list are
  partial functions, \<open>None\<close> when they do not end; the theorems show that they do.

  The system call \<open>sbrk\<close> returns the old size of the process and adds to it, or fails;
  when it fails is up to the kernel, a parameter \<open>grows\<close> of the model.
\<close>

subsection \<open>The allocator\<close>

record header =
  hptr :: nat
  hsize :: nat

record heap =
  hdrs :: "nat \<Rightarrow> header"
  freep :: nat
  brk :: nat

definition sbrk :: "(nat \<Rightarrow> int \<Rightarrow> bool) \<Rightarrow> int \<Rightarrow> heap \<Rightarrow> nat option \<times> heap" where
  "sbrk grows n h = (if grows (brk h) n then (Some (brk h), h\<lparr>brk := nat (int (brk h) + n)\<rparr>) else (None, h))"

text \<open>The loop of \<open>free\<close>: the entry of the list after which the block belongs.\<close>

partial_function (option) free_place :: "(nat \<Rightarrow> header) \<Rightarrow> nat \<Rightarrow> nat \<Rightarrow> nat option" where
  "free_place hs bp p =
     (if p < bp \<and> bp < hptr (hs p) then Some p
      else if hptr (hs p) \<le> p \<and> (p < bp \<or> bp < hptr (hs p)) then Some p
      else free_place hs bp (hptr (hs p)))"

definition free_at :: "nat \<Rightarrow> nat \<Rightarrow> heap \<Rightarrow> heap" where
  "free_at bp p h =
     (let hs = hdrs h; nx = hptr (hs p);
          hs = (if bp + 8 * hsize (hs bp) = nx
                then hs(bp := \<lparr>hptr = hptr (hs nx), hsize = (hsize (hs bp) + hsize (hs nx)) mod 2 ^ 32\<rparr>)
                else hs(bp := (hs bp)\<lparr>hptr := nx\<rparr>));
          hs = (if p + 8 * hsize (hs p) = bp
                then hs(p := \<lparr>hptr = hptr (hs bp), hsize = (hsize (hs p) + hsize (hs bp)) mod 2 ^ 32\<rparr>)
                else hs(p := (hs p)\<lparr>hptr := bp\<rparr>))
      in h\<lparr>hdrs := hs, freep := p\<rparr>)"

definition ufree :: "nat \<Rightarrow> heap \<Rightarrow> heap option" where
  "ufree ap h = (let bp = ap - 8 in map_option (\<lambda>p. free_at bp p h) (free_place (hdrs h) bp (freep h)))"

definition morecore :: "(nat \<Rightarrow> int \<Rightarrow> bool) \<Rightarrow> nat \<Rightarrow> heap \<Rightarrow> (nat \<times> heap) option" where
  "morecore grows nu h =
     (let nu = (if nu < 4096 then 4096 else nu) in
      case sbrk grows (sint (of_nat (nu * 8) :: uint)) h of
        (None, h) \<Rightarrow> Some (0, h)
      | (Some p, h) \<Rightarrow>
          map_option (\<lambda>h. (freep h, h)) (ufree (p + 8) (h\<lparr>hdrs := (hdrs h)(p := (hdrs h p)\<lparr>hsize := nu\<rparr>)\<rparr>)))"

text \<open>The block taken from a free block that is large enough: all of it, or its tail.\<close>

definition carve :: "nat \<Rightarrow> nat \<Rightarrow> nat \<Rightarrow> heap \<Rightarrow> nat \<times> heap" where
  "carve nunits prevp p h =
     (let hs = hdrs h in
      if hsize (hs p) = nunits then (p + 8, h\<lparr>hdrs := hs(prevp := (hs prevp)\<lparr>hptr := hptr (hs p)\<rparr>), freep := prevp\<rparr>)
      else let hs = hs(p := (hs p)\<lparr>hsize := hsize (hs p) - nunits\<rparr>); q = p + 8 * hsize (hs p) in
        (q + 8, h\<lparr>hdrs := hs(q := (hs q)\<lparr>hsize := nunits\<rparr>), freep := prevp\<rparr>))"

partial_function (option) malloc_loop :: "(nat \<Rightarrow> int \<Rightarrow> bool) \<Rightarrow> nat \<Rightarrow> nat \<Rightarrow> nat \<Rightarrow> heap \<Rightarrow> (nat \<times> heap) option" where
  "malloc_loop grows nunits prevp p h =
     (if hsize (hdrs h p) \<ge> nunits then Some (carve nunits prevp p h)
      else if p = freep h then
        Option.bind (morecore grows nunits h) (\<lambda>(p, h).
          if p = 0 then Some (0, h) else malloc_loop grows nunits p (hptr (hdrs h p)) h)
      else malloc_loop grows nunits p (hptr (hdrs h p)) h)"

definition units :: "uint \<Rightarrow> nat" where
  "units nbytes = unat ((nbytes + 8 - 1) div 8 + 1)"

text \<open>\<open>base\<close> is the address of the static header the list starts with.\<close>

definition malloc :: "(nat \<Rightarrow> int \<Rightarrow> bool) \<Rightarrow> nat \<Rightarrow> uint \<Rightarrow> heap \<Rightarrow> (nat \<times> heap) option" where
  "malloc grows base nbytes h =
     (let nunits = units nbytes;
          h = (if freep h = 0 then h\<lparr>hdrs := (hdrs h)(base := \<lparr>hptr = base, hsize = 0\<rparr>), freep := base\<rparr> else h);
          prevp = freep h
      in malloc_loop grows nunits prevp (hptr (hdrs h prevp)) h)"

subsection \<open>The free list\<close>

text \<open>The entry after \<open>p\<close> among the addresses \<open>B\<close>, in increasing order and back to the lowest.\<close>

definition succ_in :: "nat set \<Rightarrow> nat \<Rightarrow> nat \<Rightarrow> nat" where
  "succ_in B base p = (if \<exists>x \<in> B. p < x then Min {x \<in> B. p < x} else base)"

definition blk :: "(nat \<Rightarrow> header) \<Rightarrow> nat \<Rightarrow> nat set" where
  "blk hs b = {b ..< b + 8 * hsize (hs b)}"

definition space :: "heap \<Rightarrow> nat set \<Rightarrow> nat set" where
  "space h B = (\<Union>b \<in> B. blk (hdrs h) b)"

text \<open>
  The list runs through the addresses \<open>B\<close> in order; \<open>base\<close> is the lowest and empty; the
  other blocks lie in the heap, from \<open>lo\<close> to \<open>e\<close>, and do not overlap. In a list with \<open>gaps\<close>
  no block touches the next.
\<close>

definition free_list :: "nat \<Rightarrow> nat \<Rightarrow> nat \<Rightarrow> (nat \<Rightarrow> header) \<Rightarrow> nat set \<Rightarrow> bool" where
  "free_list base lo e hs B \<longleftrightarrow> finite B \<and> base \<in> B \<and> 0 < base \<and> base < lo \<and> hsize (hs base) = 0 \<and>
     (\<forall>p \<in> B. hptr (hs p) = succ_in B base p) \<and>
     (\<forall>p \<in> B. p \<noteq> base \<longrightarrow> lo \<le> p \<and> p + 8 * hsize (hs p) \<le> e \<and> 0 < hsize (hs p)) \<and>
     (\<forall>p \<in> B. \<forall>q \<in> B. p < q \<longrightarrow> p + 8 * hsize (hs p) \<le> q)"

definition gaps :: "(nat \<Rightarrow> header) \<Rightarrow> nat set \<Rightarrow> bool" where
  "gaps hs B \<longleftrightarrow> (\<forall>p \<in> B. p < hptr (hs p) \<longrightarrow> p + 8 * hsize (hs p) < hptr (hs p))"

definition heap_ok :: "nat \<Rightarrow> nat \<Rightarrow> heap \<Rightarrow> nat set \<Rightarrow> bool" where
  "heap_ok base lo h B \<longleftrightarrow> free_list base lo (brk h) (hdrs h) B \<and> gaps (hdrs h) B \<and> freep h \<in> B \<and> lo \<le> brk h \<and> brk h < 2 ^ 31"

lemma succ_in_cases:
  assumes "finite B" "base \<in> B"
  obtains (up) "p < succ_in B base p" "succ_in B base p \<in> B" "\<And>x. x \<in> B \<Longrightarrow> p < x \<Longrightarrow> succ_in B base p \<le> x"
  | (last) "succ_in B base p = base" "\<And>x. x \<in> B \<Longrightarrow> x \<le> p"
proof (cases "\<exists>x \<in> B. p < x")
  case True
  then have e: "succ_in B base p = Min {x \<in> B. p < x}" by (simp add: succ_in_def)
  have "Min {x \<in> B. p < x} \<in> {x \<in> B. p < x}" using True assms(1) by (intro Min_in) auto
  then show ?thesis using up e assms(1) by simp
next
  case False
  then show ?thesis using last by (fastforce simp: succ_in_def)
qed

lemma succ_inI:
  assumes "finite B" "q \<in> B" "p < q" "\<And>x. x \<in> B \<Longrightarrow> p < x \<Longrightarrow> q \<le> x"
  shows "succ_in B base p = q"
proof -
  have "Min {x \<in> B. p < x} = q" using assms by (intro Min_eqI) auto
  then show ?thesis using assms(2,3) by (auto simp: succ_in_def)
qed

lemma succ_in_last: "\<forall>x \<in> B. x \<le> p \<Longrightarrow> succ_in B base p = base"
  by (auto simp: succ_in_def)

lemma succ_in_mem: "finite B \<Longrightarrow> base \<in> B \<Longrightarrow> succ_in B base p \<in> B"
  by (erule succ_in_cases [of B base p]) auto

lemma free_listD:
  assumes "free_list base lo e hs B"
  shows "finite B" "base \<in> B" "0 < base" "base < lo" "hsize (hs base) = 0" "p \<in> B \<Longrightarrow> hptr (hs p) = succ_in B base p"
    "p \<in> B \<Longrightarrow> base \<le> p" "p \<in> B \<Longrightarrow> p \<noteq> base \<Longrightarrow> lo \<le> p" "p \<in> B \<Longrightarrow> p \<noteq> base \<Longrightarrow> p + 8 * hsize (hs p) \<le> e"
    "p \<in> B \<Longrightarrow> p \<noteq> base \<Longrightarrow> 0 < hsize (hs p)" "p \<in> B \<Longrightarrow> q \<in> B \<Longrightarrow> p < q \<Longrightarrow> p + 8 * hsize (hs p) \<le> q"
  using assms unfolding free_list_def by (auto simp: less_imp_le intro: le_less_trans)

text \<open>Adding an entry to the list and removing one.\<close>

lemma succ_insert:
  assumes "finite B" "base \<in> B" "bp \<notin> B" "t \<in> B" "t < bp" "\<And>x. x \<in> B \<Longrightarrow> x < bp \<Longrightarrow> x \<le> t" "p \<in> insert bp B"
  shows "succ_in (insert bp B) base p = (if p = t then bp else if p = bp then succ_in B base t else succ_in B base p)"
proof -
  have up: "x \<in> B \<Longrightarrow> t < x \<Longrightarrow> bp < x" for x using assms(3,6) by (metis linorder_neqE_nat not_le)
  consider "p = t" | "p = bp" | "p \<in> B" "p \<noteq> t" "p \<noteq> bp" using assms(7) by auto
  then show ?thesis
  proof cases
    case 1
    have "succ_in (insert bp B) base t = bp" by (rule succ_inI) (use assms(1,5) in \<open>auto dest: up\<close>)
    then show ?thesis using 1 by simp
  next
    case 2
    have "succ_in (insert bp B) base bp = succ_in B base t"
    proof (cases rule: succ_in_cases [OF assms(1,2), of t])
      case up': 1
      then show ?thesis using assms(1,5) up by (intro succ_inI) auto
    next
      case last: 2
      then show ?thesis using assms(5) by (auto intro!: succ_in_last dest: last(2))
    qed
    then show ?thesis using 2 assms(5) by simp
  next
    case 3
    have "succ_in (insert bp B) base p = succ_in B base p"
    proof (cases rule: succ_in_cases [OF assms(1,2), of p])
      case up': 1
      have "succ_in B base p \<le> bp" if "p < bp"
      proof -
        have "p < t" using assms(6) [of p] 3 that by auto
        then show ?thesis using up'(3) [OF assms(4)] assms(5) by auto
      qed
      then show ?thesis using assms(1) up' by (intro succ_inI) auto
    next
      case last: 2
      have "t < p" using last(2) [OF assms(4)] 3(2) by simp
      then have "bp \<le> p" using up [OF 3(1)] by simp
      then show ?thesis using last by (auto intro!: succ_in_last)
    qed
    then show ?thesis using 3 by simp
  qed
qed

lemma succ_remove:
  assumes "finite B" "base \<in> B" "t \<in> B" "succ_in B base t = b" "t < b" "p \<in> B" "p \<noteq> b" "b \<noteq> base"
  shows "succ_in (B - {b}) base p = (if p = t then succ_in B base b else succ_in B base p)"
proof -
  have b: "b \<in> B" using assms(1,2,4) succ_in_mem by blast
  have up: "x \<in> B \<Longrightarrow> t < x \<Longrightarrow> b \<le> x" for x
    using assms(4,5,8) by (cases rule: succ_in_cases [OF assms(1,2), of t]) auto
  show ?thesis
  proof (cases "p = t")
    case True
    have "succ_in (B - {b}) base t = succ_in B base b"
    proof (cases rule: succ_in_cases [OF assms(1,2), of b])
      case up': 1
      then show ?thesis using assms(1,5) up by (intro succ_inI) (auto simp: order_less_le)
    next
      case last: 2
      have "x \<le> t" if "x \<in> B - {b}" for x
        using that last(2) [of x] up [of x] by (cases "t < x") auto
      then show ?thesis using last(1) by (simp add: succ_in_last)
    qed
    then show ?thesis using True by simp
  next
    case False
    have "succ_in (B - {b}) base p = succ_in B base p"
    proof (cases rule: succ_in_cases [OF assms(1,2), of p])
      case up': 1
      have "succ_in B base p \<noteq> b"
      proof
        assume e: "succ_in B base p = b"
        then have "t \<le> p" using up'(1) up'(3) [OF assms(3)] assms(5) by (auto simp: not_le [symmetric])
        then show False using up [OF assms(6)] up'(1) e False by auto
      qed
      then show ?thesis using assms(1) up' by (intro succ_inI) auto
    next
      case last: 2
      then show ?thesis by (intro trans [OF succ_in_last]) auto
    qed
    then show ?thesis using False by simp
  qed
qed

lemma free_place_finds:
  assumes L: "free_list base lo e hs B" and "bp \<notin> B" "t \<in> B" "t < bp" "\<And>x. x \<in> B \<Longrightarrow> x < bp \<Longrightarrow> x \<le> t" and "p \<in> B"
  shows "free_place hs bp p = Some t"
proof -
  note D = free_listD [OF L]
  have low: "free_place hs bp p = Some t" if "p \<in> B" "p \<le> t" for p
    using that
  proof (induction "t - p" arbitrary: p rule: less_induct)
    case less
    have h: "hptr (hs p) = succ_in B base p" using D(6) less.prems by blast
    show ?case
    proof (cases rule: succ_in_cases [OF D(1,2), of p])
      case up: 1
      show ?thesis
      proof (cases "p = t")
        case True
        have "bp < succ_in B base t" using up assms(2) assms(5) [of "succ_in B base t"] True by (metis linorder_neqE_nat not_le)
        then show ?thesis using True h assms(4) by (subst free_place.simps) simp
      next
        case False
        then have s: "succ_in B base p \<le> t" using up(3) assms(3) less.prems by auto
        then have "free_place hs bp p = free_place hs bp (succ_in B base p)"
          using h up(1) assms(4) by (subst free_place.simps) auto
        also have "\<dots> = Some t" using less.hyps [of "succ_in B base p"] up s False less.prems by auto
        finally show ?thesis .
      qed
    next
      case 2
      then have "p = t" using less.prems assms(3) by (simp add: order_antisym)
      then show ?thesis using h 2 D(7) [of t] assms(3,4) by (subst free_place.simps) simp
    qed
  qed
  have "free_place hs bp p = Some t" if "p \<in> B" "t < p" for p
    using that
  proof (induction "Max B - p" arbitrary: p rule: less_induct)
    case less
    have h: "hptr (hs p) = succ_in B base p" using D(6) less.prems by blast
    have p: "bp < p" using assms(2) assms(5) [of p] less.prems by (metis linorder_neqE_nat not_le)
    show ?case
    proof (cases rule: succ_in_cases [OF D(1,2), of p])
      case up: 1
      then have "succ_in B base p \<le> Max B" using D(1) by simp
      then have "free_place hs bp (succ_in B base p) = Some t" using less.hyps [of "succ_in B base p"] up less.prems by auto
      then show ?thesis using h up(1) p by (subst free_place.simps) simp
    next
      case 2
      then have "free_place hs bp (succ_in B base p) = Some t" using low [OF D(2)] D(7) [OF assms(3)] by simp
      moreover have "\<not> bp < base" using D(7) [OF assms(3)] assms(4) by simp
      ultimately show ?thesis using h p 2 by (subst free_place.simps) simp
    qed
  qed
  then show ?thesis using low assms(6) by (cases "p \<le> t") auto
qed

lemma free_list_insert:
  assumes L: "free_list base lo e hs B" and bp: "bp \<notin> B" "lo \<le> bp" "bp + 8 * hsize (hs bp) \<le> e" "0 < hsize (hs bp)"
    and t: "t \<in> B" "t < bp" "\<And>x. x \<in> B \<Longrightarrow> x < bp \<Longrightarrow> x \<le> t"
    and "t + 8 * hsize (hs t) \<le> bp" "\<And>x. x \<in> B \<Longrightarrow> bp < x \<Longrightarrow> bp + 8 * hsize (hs bp) \<le> x"
  shows "free_list base lo e (hs(bp := (hs bp)\<lparr>hptr := hptr (hs t)\<rparr>, t := (hs t)\<lparr>hptr := bp\<rparr>)) (insert bp B)"
    (is "free_list base lo e ?hs ?B")
proof -
  note D = free_listD [OF L]
  have size: "hsize (?hs x) = hsize (hs x)" for x by simp
  have "p + 8 * hsize (hs p) \<le> q" if "p \<in> ?B" "q \<in> ?B" "p < q" for p q
  proof (cases "q = bp")
    case True
    then have "p \<in> B" "p \<le> t" using that t(3) by auto
    then show ?thesis using D(11) [of p t] t(1) assms(9) True t(2) by (cases "p = t") auto
  next
    case False
    then show ?thesis using that D(11) [of p q] assms(10) by auto
  qed
  moreover have "hptr (?hs p) = succ_in ?B base p" if "p \<in> ?B" for p
    using succ_insert [OF D(1,2) bp(1) t that] D(6) that t by auto
  ultimately show ?thesis unfolding free_list_def size
    using D bp t(1) by auto
qed

lemma free_list_join:
  assumes L: "free_list base lo e hs B" and a: "a \<in> B" "hptr (hs a) = b" "a < b" "a + 8 * hsize (hs a) = b"
  shows "free_list base lo e (hs(a := \<lparr>hptr = hptr (hs b), hsize = hsize (hs a) + hsize (hs b)\<rparr>)) (B - {b})"
    (is "free_list base lo e ?hs ?B")
proof -
  note D = free_listD [OF L]
  have b: "succ_in B base a = b" "b \<noteq> base" "b \<in> B" using a D(6) [OF a(1)] D(7) [OF a(1)] succ_in_mem [OF D(1,2), of a] by auto
  have ab: "a \<noteq> base" using a(3,4) D(5) by auto
  have "p + 8 * hsize (?hs p) \<le> q" if "p \<in> ?B" "q \<in> ?B" "p < q" for p q
  proof (cases "p = a")
    case True
    have "b \<le> q" using that True b(1,2) a(3) by (cases rule: succ_in_cases [OF D(1,2), of a]) auto
    then show ?thesis using D(11) [OF b(3), of q] that True a(4) by (auto simp: order_less_le)
  next
    case False
    then show ?thesis using that D(11) by simp
  qed
  moreover have "hptr (?hs p) = succ_in ?B base p" if "p \<in> ?B" for p
    using succ_remove [OF D(1,2) a(1) b(1) a(3), of p] that b(2) D(6) [of p] D(6) [OF b(3)] by auto
  moreover have "a + (8 * hsize (hs a) + 8 * hsize (hs b)) \<le> e" using D(9) [OF b(3,2)] a(4) by simp
  ultimately show ?thesis unfolding free_list_def
    using D(1-5) D(8-10) b a ab by auto
qed

text \<open>The bytes that a set of blocks covers, under joining and inserting.\<close>

abbreviation cover :: "(nat \<Rightarrow> header) \<Rightarrow> nat set \<Rightarrow> nat set" where
  "cover hs B \<equiv> \<Union>b \<in> B. blk hs b"

lemma cover_join:
  assumes "a \<in> B" "b \<in> B" "a < b" "a + 8 * hsize (hs a) = b"
  shows "cover (hs(a := \<lparr>hptr = x, hsize = hsize (hs a) + hsize (hs b)\<rparr>)) (B - {b}) = cover hs B"
proof -
  let ?hs = "hs(a := \<lparr>hptr = x, hsize = hsize (hs a) + hsize (hs b)\<rparr>)"
  have "blk ?hs a = blk hs a \<union> blk hs b" using assms(4) by (auto simp: blk_def)
  moreover have "blk ?hs p = blk hs p" if "p \<noteq> a" for p using that by (simp add: blk_def)
  ultimately have "cover ?hs (insert a (B - {a, b})) = cover hs (insert a (insert b (B - {a, b})))" by auto
  moreover have "B - {b} = insert a (B - {a, b})" "B = insert a (insert b (B - {a, b}))" using assms(1-3) by auto
  ultimately show ?thesis by simp
qed

lemma cover_insert:
  "cover (hs(bp := (hs bp)\<lparr>hptr := x\<rparr>, t := (hs t)\<lparr>hptr := y\<rparr>)) (insert bp B) = cover hs B \<union> {bp ..< bp + 8 * hsize (hs bp)}"
proof -
  have "blk (hs(bp := (hs bp)\<lparr>hptr := x\<rparr>, t := (hs t)\<lparr>hptr := y\<rparr>)) p = blk hs p" for p by (simp add: blk_def)
  then show ?thesis by (auto simp: blk_def)
qed

text \<open>The first half of \<open>free\<close>: the block is in the list, joined with the next block if it touches it.\<close>

definition gaps_but :: "nat \<Rightarrow> (nat \<Rightarrow> header) \<Rightarrow> nat set \<Rightarrow> bool" where
  "gaps_but t hs B \<longleftrightarrow> (\<forall>p \<in> B - {t}. p < hptr (hs p) \<longrightarrow> p + 8 * hsize (hs p) < hptr (hs p))"

lemma free_up:
  assumes L: "free_list base lo e hs B" "gaps hs B" and bp: "bp \<notin> B" "lo \<le> bp" "bp + 8 * n \<le> e" "0 < n" "n = hsize (hs bp)"
    and t: "t \<in> B" "t < bp" "\<And>x. x \<in> B \<Longrightarrow> x < bp \<Longrightarrow> x \<le> t"
    and free: "t + 8 * hsize (hs t) \<le> bp" "\<And>x. x \<in> B \<Longrightarrow> bp < x \<Longrightarrow> bp + 8 * n \<le> x"
    and nx: "nx = hptr (hs t)"
    and hu: "hu = (if bp + 8 * n = nx then hs(bp := \<lparr>hptr = hptr (hs nx), hsize = n + hsize (hs nx)\<rparr>) else hs(bp := (hs bp)\<lparr>hptr := nx\<rparr>))"
  shows "\<exists>B'. free_list base lo e (hu(t := (hs t)\<lparr>hptr := bp\<rparr>)) B' \<and> gaps_but t (hu(t := (hs t)\<lparr>hptr := bp\<rparr>)) B' \<and> bp \<in> B' \<and> t \<in> B' \<and>
    cover (hu(t := (hs t)\<lparr>hptr := bp\<rparr>)) B' = cover hs B \<union> {bp ..< bp + 8 * n}"
proof -
  note D = free_listD [OF L(1)]
  let ?hs = "hs(bp := (hs bp)\<lparr>hptr := hptr (hs t)\<rparr>, t := (hs t)\<lparr>hptr := bp\<rparr>)"
  have I: "free_list base lo e ?hs (insert bp B)"
    using assms by (intro free_list_insert [OF L(1)]) auto
  have g: "p < hptr (hs p) \<Longrightarrow> p + 8 * hsize (hs p) < hptr (hs p)" if "p \<in> B" for p using L(2) that by (simp add: gaps_def)
  have nxs: "nx = succ_in B base t" using D(6) t(1) nx by simp
  show ?thesis
  proof (cases "bp + 8 * n = nx")
    case False
    have "bp < nx \<Longrightarrow> bp + 8 * n < nx"
      using False free(2) [of nx] succ_in_mem [OF D(1,2), of t] nxs by (simp add: order_less_le)
    then have "gaps_but t ?hs (insert bp B)" using g t bp nx by (auto simp: gaps_but_def)
    then show ?thesis using False I t(1) cover_insert [of hs bp "hptr (hs t)" t bp B] bp nx by (intro exI [of _ "insert bp B"]) (simp add: hu)
  next
    case True
    have nB: "nx \<in> B" "nx \<noteq> bp" "nx \<noteq> t" "bp < nx" "nx \<noteq> base"
      using True bp(4) t(2) D(7) [OF t(1)] succ_in_mem [OF D(1,2), of t] nxs by auto
    let ?hj = "?hs(bp := \<lparr>hptr = hptr (?hs nx), hsize = hsize (?hs bp) + hsize (?hs nx)\<rparr>)"
    have e: "?hj = hu(t := (hs t)\<lparr>hptr := bp\<rparr>)" using True nB t(2) bp(5) by (auto simp: hu fun_eq_iff)
    have "free_list base lo e ?hj (insert bp B - {nx})"
      using nB True bp nx t(2) by (intro free_list_join [OF I]) auto
    moreover have "gaps_but t ?hj (insert bp B - {nx})"
    proof -
      have "bp + 8 * (n + hsize (hs nx)) < hptr (hs nx)" if "bp < hptr (hs nx)"
      proof -
        have "nx < hptr (hs nx)" using that D(6) [OF nB(1)] D(7) [OF t(1)] t(2)
          by (cases rule: succ_in_cases [OF D(1,2), of nx]) auto
        then show ?thesis using g [OF nB(1)] True by simp
      qed
      then show ?thesis using g t bp nB by (auto simp: gaps_but_def)
    qed
    moreover have "cover ?hj (insert bp B - {nx}) = cover hs B \<union> {bp ..< bp + 8 * n}"
      using cover_join [of bp "insert bp B" nx ?hs "hptr (?hs nx)"] cover_insert [of hs bp "hptr (hs t)" t bp B] nB True bp t(2) by simp
    ultimately show ?thesis using t nB unfolding e by (intro exI [of _ "insert bp B - {nx}"]) auto
  qed
qed

lemma free_down:
  assumes L: "free_list base lo e hs B" "gaps_but t hs B" and t: "t \<in> B" "bp \<in> B" "hptr (hs t) = bp" "t < bp"
    and h2: "h2 = (if t + 8 * hsize (hs t) = bp then hs(t := \<lparr>hptr = hptr (hs bp), hsize = hsize (hs t) + hsize (hs bp)\<rparr>) else hs)"
  shows "\<exists>B'. free_list base lo e h2 B' \<and> gaps h2 B' \<and> t \<in> B' \<and> cover h2 B' = cover hs B \<and> (\<exists>b \<in> B'. hsize (hs bp) \<le> hsize (h2 b))"
proof (cases "t + 8 * hsize (hs t) = bp")
  case False
  have "t + 8 * hsize (hs t) < bp" using False free_listD(11) [OF L(1) t(1,2,4)] by simp
  then have "gaps hs B" using L(2) t(3) by (auto simp: gaps_def gaps_but_def)
  then show ?thesis using False L(1) t(1,2) by (intro exI [of _ B]) (auto simp: h2)
next
  case True
  note D = free_listD [OF L(1)]
  let ?hs = "hs(t := \<lparr>hptr = hptr (hs bp), hsize = hsize (hs t) + hsize (hs bp)\<rparr>)"
  have "t + 8 * (hsize (hs t) + hsize (hs bp)) < hptr (hs bp)" if "t < hptr (hs bp)"
  proof -
    have "bp < hptr (hs bp)" using that D(6) [OF t(2)] D(7) [OF t(1)] by (cases rule: succ_in_cases [OF D(1,2), of bp]) auto
    then show ?thesis using L(2) t(2,4) True by (auto simp: gaps_but_def)
  qed
  then have "gaps ?hs (B - {bp})" using L(2) by (auto simp: gaps_def gaps_but_def)
  then show ?thesis using True free_list_join [OF L(1) t(1,3,4)] cover_join [OF t(1,2,4)] t(1,4) by (intro exI [of _ "B - {bp}"]) (auto simp: h2)
qed

lemma ufree_ok:
  assumes H: "heap_ok base lo h B" and n: "n = hsize (hdrs h bp)" "0 < n"
    and bp: "lo \<le> bp" "bp + 8 * n \<le> brk h" "{bp ..< bp + 8 * n} \<inter> space h B = {}"
  shows "\<exists>h' B'. ufree (bp + 8) h = Some h' \<and> heap_ok base lo h' B' \<and> brk h' = brk h \<and>
    space h' B' = space h B \<union> {bp ..< bp + 8 * n} \<and> (\<forall>a. a \<notin> space h' B' \<longrightarrow> a \<noteq> base \<longrightarrow> hdrs h' a = hdrs h a) \<and>
    (\<exists>b \<in> B'. n \<le> hsize (hdrs h' b))"
proof -
  let ?hs = "hdrs h"
  have L: "free_list base lo (brk h) ?hs B" "gaps ?hs B" and fp: "freep h \<in> B" and brk: "lo \<le> brk h" "brk h < 2 ^ 31"
    using H by (auto simp: heap_ok_def)
  note D = free_listD [OF L(1)]
  have sub: "p \<in> space h B" if "p \<in> B" "p \<noteq> base" for p using that D(10) by (auto simp: space_def blk_def)
  have out: "x \<notin> space h B" if "bp \<le> x" "x < bp + 8 * n" for x using bp(3) that by (simp add: disjoint_iff)
  have bpB: "bp \<notin> B" using sub [of bp] out [of bp] bp(1) n(2) D(4) by auto
  obtain t where t: "t \<in> B" "t < bp" and tm: "\<And>x. x \<in> B \<Longrightarrow> x < bp \<Longrightarrow> x \<le> t"
  proof
    have "Max {x \<in> B. x < bp} \<in> {x \<in> B. x < bp}" using D(1,2,4) bp(1) by (intro Max_in) auto
    then show "Max {x \<in> B. x < bp} \<in> B" "Max {x \<in> B. x < bp} < bp" by auto
    show "x \<le> Max {x \<in> B. x < bp}" if "x \<in> B" "x < bp" for x using that D(1) by simp
  qed
  have down: "t + 8 * hsize (?hs t) \<le> bp"
  proof (cases "t = base")
    case False
    have "bp \<notin> blk ?hs t" using out [of bp] n(2) t(1) by (auto simp: space_def)
    then show ?thesis using t(2) by (auto simp: blk_def)
  qed (use D(5) t in simp)
  have up: "bp + 8 * n \<le> x" if "x \<in> B" "bp < x" for x
    using sub [of x] out [of x] that bp(1) D(4) by (cases "x < bp + 8 * n") auto
  define nx where "nx = hptr (?hs t)"
  define hu where "hu = (if bp + 8 * n = nx then ?hs(bp := \<lparr>hptr = hptr (?hs nx), hsize = n + hsize (?hs nx)\<rparr>) else ?hs(bp := (?hs bp)\<lparr>hptr := nx\<rparr>))"
  define h1 where "h1 = hu(t := (?hs t)\<lparr>hptr := bp\<rparr>)"
  obtain B1 where B1: "free_list base lo (brk h) h1 B1" "gaps_but t h1 B1" "bp \<in> B1" "t \<in> B1" "cover h1 B1 = cover ?hs B \<union> {bp ..< bp + 8 * n}"
    using free_up [OF L bpB bp(1,2) n(2,1) t tm down up nx_def hu_def] unfolding h1_def by blast
  define h2 where "h2 = (if t + 8 * hsize (h1 t) = bp then h1(t := \<lparr>hptr = hptr (h1 bp), hsize = hsize (h1 t) + hsize (h1 bp)\<rparr>) else h1)"
  have "hptr (h1 t) = bp" by (simp add: h1_def)
  from free_down [OF B1(1,2,4,3) this t(2) h2_def] obtain B2 where B2: "free_list base lo (brk h) h2 B2" "gaps h2 B2" "t \<in> B2"
    "cover h2 B2 = cover h1 B1" "\<exists>b \<in> B2. hsize (h1 bp) \<le> hsize (h2 b)" by blast
  have small: "hsize (hs x) < 2 ^ 28" if "free_list base lo (brk h) hs C" "x \<in> C" for hs x C
    using free_listD(5) [OF that(1)] free_listD(9) [OF that] brk(2) by (cases "x = base") auto
  have nx: "nx \<in> B" using D(6) [OF t(1)] succ_in_mem [OF D(1,2)] by (simp add: nx_def)
  have m1: "(n + hsize (?hs nx)) mod 2 ^ 32 = n + hsize (?hs nx)"
    using small [OF L(1) nx] bp(2) brk(2) by simp
  have m2: "(hsize (h1 t) + hsize (h1 bp)) mod 2 ^ 32 = hsize (h1 t) + hsize (h1 bp)"
    using small [OF B1(1,3)] small [OF B1(1,4)] by simp
  have tb: "hu t = ?hs t" "hptr (hu bp) = hptr (h1 bp)" "hsize (hu bp) = hsize (h1 bp)" using t(2) by (auto simp: h1_def hu_def)
  have e: "hdrs (free_at bp t h) = h2" "freep (free_at bp t h) = t" "brk (free_at bp t h) = brk h"
    unfolding free_at_def Let_def n(1) [symmetric] nx_def [symmetric] m1 hu_def [symmetric] tb
    using m2 t(2) by (auto simp: h2_def h1_def)
  have f: "ufree (bp + 8) h = Some (free_at bp t h)"
    using free_place_finds [OF L(1) bpB t tm fp] by (simp add: ufree_def)
  have keep: "h2 a = ?hs a" if "a \<noteq> bp" "a \<noteq> t" for a using that by (simp add: h2_def h1_def hu_def)
  have cov: "cover h2 B2 = space h B \<union> {bp ..< bp + 8 * n}" using B2(4) B1(5) by (simp add: space_def)
  have tin: "t = base \<or> t \<in> cover h2 B2" using sub [OF t(1)] cov by blast
  have bin: "bp \<in> cover h2 B2" using cov n(2) by auto
  have "n \<le> hsize (h1 bp)" using t(2) n(1) by (auto simp: h1_def hu_def)
  then have big: "\<exists>b \<in> B2. n \<le> hsize (h2 b)" using B2(5) by (meson le_trans)
  have same: "h2 a = ?hs a" if "a \<notin> cover h2 B2" "a \<noteq> base" for a
    using that tin bin keep [of a] by metis
  let ?h = "free_at bp t h"
  have ok: "heap_ok base lo ?h B2" using B2(1-3) brk by (simp add: heap_ok_def e)
  have sp: "space ?h B2 = cover h2 B2" by (simp add: space_def e)
  show ?thesis
    by (intro exI [of _ ?h] exI [of _ B2] conjI allI impI f ok e(3)) (use cov sp same big e(1) in simp_all)
qed

subsection \<open>Taking a block\<close>

lemma cover_minus:
  assumes "free_list base lo e hs B" "q \<in> B"
  shows "cover hs (B - {q}) = cover hs B - blk hs q"
proof -
  have "blk hs p \<inter> blk hs q = {}" if "p \<in> B" "p \<noteq> q" for p
    using free_listD(11) [OF assms(1) that(1) assms(2)] free_listD(11) [OF assms(1,2) that(1)] that(2)
    by (cases p q rule: linorder_cases) (auto simp: blk_def)
  then show ?thesis using assms(2) by blast
qed

lemma carve_all:
  assumes L: "free_list base lo e hs B" "gaps hs B" and q: "q \<in> B" "r \<in> B" "hptr (hs r) = q" "q \<noteq> base"
  defines "h1 \<equiv> hs(r := (hs r)\<lparr>hptr := hptr (hs q)\<rparr>)"
  shows "free_list base lo e h1 (B - {q})" "gaps h1 (B - {q})" "r \<noteq> q" "cover h1 (B - {q}) = cover hs B - blk hs q"
proof -
  note D = free_listD [OF L(1)]
  have rq: "r < q" using D(6) [OF q(2)] q(3,4) by (cases rule: succ_in_cases [OF D(1,2), of r]) auto
  then show "r \<noteq> q" by simp
  have size: "hsize (h1 x) = hsize (hs x)" for x by (simp add: h1_def)
  have "hptr (h1 p) = succ_in (B - {q}) base p" if "p \<in> B - {q}" for p
    using succ_remove [OF D(1,2) q(2) _ rq, of p] that q D(6) by (auto simp: h1_def)
  then show "free_list base lo e h1 (B - {q})" unfolding free_list_def size using D q(4) by auto
  have "r + 8 * hsize (hs r) < hptr (hs q)" if "r < hptr (hs q)"
  proof -
    have "q < hptr (hs q)" using that D(6) [OF q(1)] D(7) [OF q(2)] by (cases rule: succ_in_cases [OF D(1,2), of q]) auto
    then show ?thesis using D(11) [OF q(2,1) rq] by simp
  qed
  then show "gaps h1 (B - {q})" using L(2) by (auto simp: gaps_def h1_def)
  have "blk h1 = blk hs" by (simp add: blk_def size fun_eq_iff)
  then show "cover h1 (B - {q}) = cover hs B - blk hs q" using cover_minus [OF L(1) q(1)] by simp
qed

lemma carve_tail:
  assumes L: "free_list base lo e hs B" "gaps hs B" and q: "q \<in> B" "0 < n" "n < hsize (hs q)"
  defines "a \<equiv> q + 8 * (hsize (hs q) - n)"
  defines "h1 \<equiv> hs(q := (hs q)\<lparr>hsize := hsize (hs q) - n\<rparr>, a := (hs a)\<lparr>hsize := n\<rparr>)"
  shows "free_list base lo e h1 B" "gaps h1 B" "a \<notin> B" "cover h1 B = cover hs B - {a ..< a + 8 * n}" "{a ..< a + 8 * n} \<subseteq> blk hs q" "q < a"
proof -
  note D = free_listD [OF L(1)]
  have a: "q < a" "a + 8 * n = q + 8 * hsize (hs q)" using q by (auto simp: a_def)
  then show aB: "a \<notin> B" using D(11) [OF q(1), of a] q(2) by auto
  show "q < a" by (rule a)
  have qb: "q \<noteq> base" using q(3) D(5) by auto
  have size: "hsize (h1 x) = (if x = q then hsize (hs q) - n else hsize (hs x))" "hptr (h1 x) = hptr (hs x)" if "x \<in> B" for x
    using that aB by (auto simp: h1_def)
  have le: "hsize (h1 x) \<le> hsize (hs x)" if "x \<in> B" for x using size(1) [OF that] by simp
  have 1: "hptr (h1 p) = succ_in B base p" if "p \<in> B" for p using size(2) [OF that] D(6) [OF that] by simp
  have 2: "lo \<le> p \<and> p + 8 * hsize (h1 p) \<le> e \<and> 0 < hsize (h1 p)" if "p \<in> B" "p \<noteq> base" for p
    using D(8-10) [OF that] le [OF that(1)] size(1) [OF that(1)] q(3) by auto
  have 3: "p + 8 * hsize (h1 p) \<le> p'" if "p \<in> B" "p' \<in> B" "p < p'" for p p'
    using D(11) [OF that] le [OF that(1)] by linarith
  have "hsize (h1 base) = 0" using size(1) [OF D(2)] D(5) qb by simp
  then show "free_list base lo e h1 B" unfolding free_list_def using D(1-4) 1 2 3 by blast
  show "gaps h1 B" using L(2) by (auto simp: gaps_def size)
  show "{a ..< a + 8 * n} \<subseteq> blk hs q" using a by (auto simp: blk_def)
  have "blk h1 q = blk hs q - {a ..< a + 8 * n}" using a size [OF q(1)] q(3) by (auto simp: blk_def a_def)
  moreover have "blk h1 p = blk hs p - {a ..< a + 8 * n}" if "p \<in> B" "p \<noteq> q" for p
  proof -
    have "blk hs p \<inter> blk hs q = {}"
      using D(11) [OF that(1) q(1)] D(11) [OF q(1) that(1)] that(2) by (cases p q rule: linorder_cases) (auto simp: blk_def)
    then show ?thesis using a size [OF that(1)] that(2) by (auto simp: blk_def)
  qed
  ultimately have "blk h1 p = blk hs p - {a ..< a + 8 * n}" if "p \<in> B" for p using that by blast
  then show "cover h1 B = cover hs B - {a ..< a + 8 * n}" by auto
qed

text \<open>What \<open>malloc\<close> hands out of the bytes \<open>A\<close> it can use.\<close>

definition taken :: "nat \<Rightarrow> nat \<Rightarrow> nat set \<Rightarrow> heap \<Rightarrow> nat \<Rightarrow> heap \<Rightarrow> nat set \<Rightarrow> bool" where
  "taken base n A h r h' B' \<longleftrightarrow> 8 \<le> r \<and> {r - 8 ..< r - 8 + 8 * n} \<subseteq> A \<and> space h' B' = A - {r - 8 ..< r - 8 + 8 * n} \<and>
     hsize (hdrs h' (r - 8)) = n \<and> (\<forall>x. x \<notin> A \<longrightarrow> x \<noteq> base \<longrightarrow> hdrs h' x = hdrs h x)"

lemma taken_trans:
  "taken base n A h1 r h' B' \<Longrightarrow> \<forall>x. x \<notin> A \<longrightarrow> x \<noteq> base \<longrightarrow> hdrs h1 x = hdrs h x \<Longrightarrow> taken base n A h r h' B'"
  unfolding taken_def by auto

lemma carve_ok:
  assumes H: "heap_ok base lo h B" and q: "q \<in> B" "r \<in> B" "hptr (hdrs h r) = q" "0 < n" "n \<le> hsize (hdrs h q)"
  shows "\<exists>a h' B'. carve n r q h = (a, h') \<and> heap_ok base lo h' B' \<and> brk h' = brk h \<and> taken base n (space h B) h a h' B'"
proof -
  have L: "free_list base lo (brk h) (hdrs h) B" "gaps (hdrs h) B" and b: "lo \<le> brk h" "brk h < 2 ^ 31" using H by (auto simp: heap_ok_def)
  note D = free_listD [OF L(1)]
  have qb: "q \<noteq> base" using q(4,5) D(5) by auto
  have in_space: "x \<in> space h B" if "x \<in> B" "x \<noteq> base" for x using D(10) [OF that] that by (auto simp: space_def blk_def)
  show ?thesis
  proof (cases "hsize (hdrs h q) = n")
    case True
    let ?h = "h\<lparr>hdrs := (hdrs h)(r := (hdrs h r)\<lparr>hptr := hptr (hdrs h q)\<rparr>), freep := r\<rparr>"
    note C = carve_all [OF L q(1-3) qb]
    have "carve n r q h = (q + 8, ?h)" using True by (simp add: carve_def Let_def)
    moreover have "heap_ok base lo ?h (B - {q})" using C(1-3) q(2) b by (simp add: heap_ok_def)
    moreover have "taken base n (space h B) h (q + 8) ?h (B - {q})"
      using C(3,4) q(1,2) True in_space [of r] by (auto simp: taken_def space_def blk_def)
    ultimately show ?thesis by fastforce
  next
    case False
    then have n: "n < hsize (hdrs h q)" using q(5) by simp
    let ?a = "q + 8 * (hsize (hdrs h q) - n)"
    let ?h = "h\<lparr>hdrs := (hdrs h)(q := (hdrs h q)\<lparr>hsize := hsize (hdrs h q) - n\<rparr>, ?a := (hdrs h ?a)\<lparr>hsize := n\<rparr>), freep := r\<rparr>"
    note C = carve_tail [OF L q(1,4) n]
    have "carve n r q h = (?a + 8, ?h)" using False C(6) by (auto simp: carve_def Let_def)
    moreover have "heap_ok base lo ?h B" using C(1,2) q(2) b by (simp add: heap_ok_def)
    moreover have "taken base n (space h B) h (?a + 8) ?h B"
    proof -
      have sub: "{?a ..< ?a + 8 * n} \<subseteq> space h B" using C(5) q(1) by (auto simp: space_def)
      moreover have "?a \<in> space h B" using sub q(4) by (auto simp: subset_iff)
      moreover have "space ?h B = space h B - {?a ..< ?a + 8 * n}" using C(4) by (simp add: space_def)
      ultimately show ?thesis using in_space [OF q(1) qb] by (auto simp: taken_def)
    qed
    ultimately show ?thesis by fastforce
  qed
qed

text \<open>The rest of the round of \<open>malloc\<close> through the list, from \<open>p\<close> to \<open>freep\<close>.\<close>

definition segment :: "nat set \<Rightarrow> nat \<Rightarrow> nat \<Rightarrow> nat set" where
  "segment B f p = {x \<in> B. if f < p then p \<le> x \<or> x \<le> f else p \<le> x \<and> x \<le> f}"

lemma segment_next:
  assumes L: "free_list base lo e hs B" and p: "p \<in> B" "f \<in> B" "p \<noteq> f"
  shows "segment B f (hptr (hs p)) = segment B f p - {p}" "p \<in> segment B f p"
proof -
  note D = free_listD [OF L]
  show "p \<in> segment B f p" using p by (auto simp: segment_def)
  show "segment B f (hptr (hs p)) = segment B f p - {p}"
  proof (cases rule: succ_in_cases [OF D(1,2), of p])
    case up: 1
    have f: "succ_in B base p \<le> f" if "p < f" using up(3) p(2) that by blast
    have s: "x \<in> B \<Longrightarrow> succ_in B base p \<le> x \<longleftrightarrow> p < x" for x using up(1) up(3) [of x] by auto
    show ?thesis
    proof (cases "p < f")
      case True
      then have "\<not> f < succ_in B base p" "\<not> f < p" using f by auto
      then show ?thesis using D(6) [OF p(1)] s by (auto simp: segment_def)
    next
      case False
      then have "f < succ_in B base p" "f < p" using up(1) p(3) by auto
      then show ?thesis using D(6) [OF p(1)] s by (auto simp: segment_def)
    qed
  next
    case 2
    then have "f < p" "\<not> f < base" using p D(7) [OF p(2)] by (simp_all add: order_less_le)
    then show ?thesis using D(6) [OF p(1)] D(7) 2 p by (auto simp: segment_def dest: 2(2))
  qed
qed

lemma malloc_walk:
  assumes H: "heap_ok base lo h B"
  shows "p \<in> B \<Longrightarrow> r \<in> B \<Longrightarrow> hptr (hdrs h r) = p \<Longrightarrow>
    (if \<exists>x \<in> segment B (freep h) p. n \<le> hsize (hdrs h x)
     then \<exists>q \<in> B. \<exists>r' \<in> B. hptr (hdrs h r') = q \<and> n \<le> hsize (hdrs h q) \<and> malloc_loop g n r p h = Some (carve n r' q h)
     else malloc_loop g n r p h = Option.bind (morecore g n h) (\<lambda>(p, h).
          if p = 0 then Some (0, h) else malloc_loop g n p (hptr (hdrs h p)) h))"
proof (induction "card (segment B (freep h) p)" arbitrary: p r rule: less_induct)
  case less
  have L: "free_list base lo (brk h) (hdrs h) B" and f: "freep h \<in> B" using H by (auto simp: heap_ok_def)
  note D = free_listD [OF L]
  have fin: "finite (segment B (freep h) p)" using D(1) by (simp add: segment_def)
  consider "n \<le> hsize (hdrs h p)" | "hsize (hdrs h p) < n" "p = freep h" | "hsize (hdrs h p) < n" "p \<noteq> freep h" by linarith
  then show ?case
  proof cases
    case 1
    then have "malloc_loop g n r p h = Some (carve n r p h)" by (subst malloc_loop.simps) simp
    moreover have "p \<in> segment B (freep h) p" using less.prems(1) by (auto simp: segment_def)
    ultimately show ?thesis using 1 less.prems by auto
  next
    case 2
    have "segment B (freep h) p = {p}" using 2(2) f by (auto simp: segment_def)
    then show ?thesis using 2 by (subst malloc_loop.simps) simp
  next
    case 3
    note S = segment_next [OF L less.prems(1) f 3(2)]
    have c: "card (segment B (freep h) (hptr (hdrs h p))) < card (segment B (freep h) p)"
      unfolding S(1) using S(2) fin by (intro card_Diff1_less)
    have "hptr (hdrs h p) \<in> B" using D(6) [OF less.prems(1)] succ_in_mem [OF D(1,2)] by simp
    note IH = less.hyps [OF c this less.prems(1) refl, unfolded S(1)]
    have e1: "malloc_loop g n r p h = malloc_loop g n p (hptr (hdrs h p)) h" using 3 by (subst malloc_loop.simps) simp
    have e2: "(\<exists>x \<in> segment B (freep h) p. n \<le> hsize (hdrs h x)) \<longleftrightarrow> (\<exists>x \<in> segment B (freep h) p - {p}. n \<le> hsize (hdrs h x))"
      using 3(1) by (auto simp: not_le [symmetric])
    show ?thesis unfolding e1 e2 by (rule IH)
  qed
qed

lemma segment_all:
  assumes "free_list base lo e hs B" "f \<in> B"
  shows "segment B f (hptr (hs f)) = B"
proof -
  note D = free_listD [OF assms(1)]
  show ?thesis
  proof (cases rule: succ_in_cases [OF D(1,2), of f])
    case 1
    then show ?thesis using D(6) [OF assms(2)] by (auto simp: segment_def not_le)
  next
    case 2
    then show ?thesis using D(6) [OF assms(2)] D(7) [OF assms(2)] D(7) by (auto simp: segment_def)
  qed
qed

text \<open>The kernel never lets a process reach \<open>KERNBASE\<close>.\<close>

definition grows_ok :: "(nat \<Rightarrow> int \<Rightarrow> bool) \<Rightarrow> bool" where
  "grows_ok grows \<longleftrightarrow> (\<forall>sz m. grows sz m \<longrightarrow> int sz + m < 2 ^ 31)"

lemma morecore_ok:
  assumes H: "heap_ok base lo h B" and n: "8 * n < 2 ^ 31" and g: "grows_ok grows"
  shows "morecore grows n h = Some (0, h) \<or>
    (\<exists>h' B'. morecore grows n h = Some (freep h', h') \<and> heap_ok base lo h' B' \<and> brk h \<le> brk h' \<and>
      space h' B' = space h B \<union> {brk h ..< brk h'} \<and> (\<exists>b \<in> B'. n \<le> hsize (hdrs h' b)) \<and>
      (\<forall>x. x \<notin> space h' B' \<longrightarrow> x \<noteq> base \<longrightarrow> hdrs h' x = hdrs h x))"
proof -
  define nu where "nu = (if n < 4096 then 4096 else n)"
  have nu: "8 * nu < 2 ^ 31" "0 < nu" "n \<le> nu" using n by (auto simp: nu_def)
  have s: "sint (of_nat (nu * 8) :: uint) = int (nu * 8)" using nu(1) by (intro sint_of_nat_small) simp
  show ?thesis
  proof (cases "grows (brk h) (int (nu * 8))")
    case False
    then show ?thesis using s by (simp add: morecore_def sbrk_def Let_def nu_def [symmetric])
  next
    case True
    have "int (brk h) + int (nu * 8) < 2 ^ 31" using g True unfolding grows_ok_def by blast
    then have "int (brk h + 8 * nu) < int (2 ^ 31)" by simp
    then have b: "brk h + 8 * nu < 2 ^ 31" by (simp only: of_nat_less_iff)
    have L: "free_list base lo (brk h) (hdrs h) B" "gaps (hdrs h) B" and f: "freep h \<in> B" "lo \<le> brk h" using H by (auto simp: heap_ok_def)
    note D = free_listD [OF L(1)]
    have out: "brk h \<notin> B" using D(4) D(9) [of "brk h"] D(10) [of "brk h"] f(2) by (cases "brk h = base") auto
    let ?h = "h\<lparr>brk := brk h + 8 * nu, hdrs := (hdrs h)(brk h := (hdrs h (brk h))\<lparr>hsize := nu\<rparr>)\<rparr>"
    have hs: "hdrs ?h x = hdrs h x" if "x \<in> B" for x using that out by auto
    have "free_list base lo (brk ?h) (hdrs ?h) B" using L(1) hs out by (auto simp: free_list_def intro: le_trans)
    moreover have "gaps (hdrs ?h) B" using L(2) hs out by (auto simp: gaps_def)
    ultimately have H': "heap_ok base lo ?h B" using f b by (simp add: heap_ok_def)
    have sp: "space ?h B = space h B" unfolding space_def blk_def by (intro SUP_cong refl) (simp only: hs)
    have "space h B \<subseteq> {..< brk h}" using D(5,9) by (fastforce simp: space_def blk_def)
    then have dj: "{brk h ..< brk h + 8 * nu} \<inter> space ?h B = {}" unfolding sp by auto
    have p: "nu = hsize (hdrs ?h (brk h))" "brk h + 8 * nu \<le> brk ?h" by simp_all
    obtain h' B' where h': "ufree (brk h + 8) ?h = Some h'" "heap_ok base lo h' B'" "brk h' = brk ?h"
      "space h' B' = space h B \<union> {brk h ..< brk h + 8 * nu}" "\<forall>a. a \<notin> space h' B' \<longrightarrow> a \<noteq> base \<longrightarrow> hdrs h' a = hdrs ?h a"
      "\<exists>b \<in> B'. nu \<le> hsize (hdrs h' b)" using ufree_ok [OF H' p(1) nu(2) f(2) p(2) dj] unfolding sp by blast
    have "nat (int (brk h) + int (nu * 8)) = brk h + 8 * nu" by (simp add: nat_add_distrib nat_mult_distrib)
    then have "morecore grows n h = Some (freep h', h')"
      using True s h'(1) by (simp add: morecore_def sbrk_def Let_def nu_def [symmetric])
    moreover have "hdrs h' x = hdrs h x" if "x \<notin> space h' B'" "x \<noteq> base" for x
      using h'(4,5) that nu(2) by auto
    ultimately show ?thesis using h' nu(3) by (intro disjI2 exI [of _ h'] exI [of _ B']) (auto intro: le_trans)
  qed
qed

lemma malloc_round:
  assumes H: "heap_ok base lo h B" and n: "0 < n" "\<exists>x \<in> B. n \<le> hsize (hdrs h x)"
  shows "\<exists>a h' B'. malloc_loop g n (freep h) (hptr (hdrs h (freep h))) h = Some (a, h') \<and> heap_ok base lo h' B' \<and> brk h' = brk h \<and>
    taken base n (space h B) h a h' B'"
proof -
  have L: "free_list base lo (brk h) (hdrs h) B" and f: "freep h \<in> B" using H by (auto simp: heap_ok_def)
  note D = free_listD [OF L]
  have "hptr (hdrs h (freep h)) \<in> B" using D(6) [OF f] succ_in_mem [OF D(1,2)] by simp
  from malloc_walk [OF H this f refl, of n g] obtain q r where "q \<in> B" "r \<in> B" "hptr (hdrs h r) = q" "n \<le> hsize (hdrs h q)"
    "malloc_loop g n (freep h) (hptr (hdrs h (freep h))) h = Some (carve n r q h)"
    using n(2) segment_all [OF L f] by auto
  then show ?thesis using carve_ok [OF H, of q r n] n(1) by auto
qed

lemma malloc_full:
  assumes H: "heap_ok base lo h B" and n: "\<forall>x \<in> B. hsize (hdrs h x) < n"
  shows "malloc_loop g n (freep h) (hptr (hdrs h (freep h))) h = Option.bind (morecore g n h) (\<lambda>(p, h).
          if p = 0 then Some (0, h) else malloc_loop g n p (hptr (hdrs h p)) h)"
proof -
  have L: "free_list base lo (brk h) (hdrs h) B" and f: "freep h \<in> B" using H by (auto simp: heap_ok_def)
  note D = free_listD [OF L]
  have "hptr (hdrs h (freep h)) \<in> B" using D(6) [OF f] succ_in_mem [OF D(1,2)] by simp
  from malloc_walk [OF H this f refl, of n g] show ?thesis
    using n segment_all [OF L f] by (auto simp: not_le [symmetric])
qed

lemma malloc_loop_ok:
  assumes H: "heap_ok base lo h B" and n: "0 < n" "8 * n < 2 ^ 31" and g: "grows_ok grows"
  shows "\<exists>r h' B'. malloc_loop grows n (freep h) (hptr (hdrs h (freep h))) h = Some (r, h') \<and> heap_ok base lo h' B' \<and> brk h \<le> brk h' \<and>
    (if r = 0 then h' = h \<and> B' = B \<and> (\<forall>b \<in> B. hsize (hdrs h b) < n)
     else taken base n (space h B \<union> {brk h ..< brk h'}) h r h' B')"
proof (cases "\<exists>x \<in> B. n \<le> hsize (hdrs h x)")
  case True
  from malloc_round [OF H n(1) this, of grows] obtain a h' B' where r: "malloc_loop grows n (freep h) (hptr (hdrs h (freep h))) h = Some (a, h')"
    "heap_ok base lo h' B'" "brk h' = brk h" "taken base n (space h B) h a h' B'" by blast
  then have "a \<noteq> 0" by (auto simp: taken_def)
  then show ?thesis using r by (intro exI [of _ a] exI [of _ h'] exI [of _ B']) simp
next
  case False
  then have m: "\<forall>x \<in> B. hsize (hdrs h x) < n" by auto
  note F = malloc_full [OF H m, of grows]
  from morecore_ok [OF H n(2) g] show ?thesis
  proof (elim disjE exE conjE)
    assume "morecore grows n h = Some (0, h)"
    then show ?thesis using F H m by (intro exI [of _ 0] exI [of _ h] exI [of _ B]) simp
  next
    fix h1 B1 assume 1: "morecore grows n h = Some (freep h1, h1)" "heap_ok base lo h1 B1" "brk h \<le> brk h1"
      "space h1 B1 = space h B \<union> {brk h ..< brk h1}" "\<exists>b \<in> B1. n \<le> hsize (hdrs h1 b)"
      "\<forall>x. x \<notin> space h1 B1 \<longrightarrow> x \<noteq> base \<longrightarrow> hdrs h1 x = hdrs h x"
    have "freep h1 \<noteq> 0" using 1(2) free_listD(3,7) by (fastforce simp: heap_ok_def)
    moreover from malloc_round [OF 1(2) n(1) 1(5), of grows] obtain a h' B' where r:
      "malloc_loop grows n (freep h1) (hptr (hdrs h1 (freep h1))) h1 = Some (a, h')"
      "heap_ok base lo h' B'" "brk h' = brk h1" "taken base n (space h1 B1) h1 a h' B'" by blast
    moreover have "a \<noteq> 0" using r(4) by (auto simp: taken_def)
    moreover have "taken base n (space h B \<union> {brk h ..< brk h'}) h a h' B'" using taken_trans [OF r(4) 1(6)] by (simp only: 1(4) r(3))
    ultimately show ?thesis using F 1(1,3) by (intro exI [of _ a] exI [of _ h'] exI [of _ B']) simp
  qed
qed

lemma units_size:
  assumes "unat nbytes \<le> 2 ^ 31 - 16"
  shows "units nbytes = (unat nbytes + 7) div 8 + 1" "8 * units nbytes < 2 ^ 31" "unat nbytes + 8 \<le> 8 * units nbytes" "0 < units nbytes"
proof -
  have 7: "unat (nbytes + 7) = unat nbytes + 7" using assms by (subst unat_add_lem [THEN iffD1]) auto
  have "unat ((nbytes + 7) div 8) = (unat nbytes + 7) div 8" by (simp add: unat_div_distrib 7)
  then have "unat ((nbytes + 7) div 8 + 1) = (unat nbytes + 7) div 8 + 1"
    using assms by (subst unat_add_lem [THEN iffD1]) (auto simp: unat_div_distrib 7)
  then show u: "units nbytes = (unat nbytes + 7) div 8 + 1" by (simp add: units_def add.commute)
  show "8 * units nbytes < 2 ^ 31" "unat nbytes + 8 \<le> 8 * units nbytes" "0 < units nbytes" unfolding u using assms by auto
qed

subsection \<open>The contract\<close>

text \<open>Before the first call of \<open>malloc\<close> there is no list.\<close>

definition heap_inv :: "nat \<Rightarrow> nat \<Rightarrow> heap \<Rightarrow> nat set \<Rightarrow> bool" where
  "heap_inv base lo h B \<longleftrightarrow>
     (if freep h = 0 then B = {} \<and> 0 < base \<and> base < lo \<and> lo \<le> brk h \<and> brk h < 2 ^ 31 else heap_ok base lo h B)"

lemma heap_ok_init:
  assumes "0 < base" "base < lo" "lo \<le> brk h" "brk h < 2 ^ 31"
  shows "heap_ok base lo (h\<lparr>hdrs := (hdrs h)(base := \<lparr>hptr = base, hsize = 0\<rparr>), freep := base\<rparr>) {base}"
  using assms by (simp add: heap_ok_def free_list_def gaps_def succ_in_def)



text \<open>
  C30. \<open>free\<close> of a block that is in use ends and adds exactly the bytes of the block to
  the free ones, joined with the free blocks on both sides; it keeps the invariant,
  by which no two free blocks touch, and changes no header outside the free bytes.
\<close>

theorem free_returns_block:
  assumes "heap_ok base lo h B" "n = hsize (hdrs h bp)" "0 < n"
    and "lo \<le> bp" "bp + 8 * n \<le> brk h" "{bp ..< bp + 8 * n} \<inter> space h B = {}"
  shows "\<exists>h' B'. ufree (bp + 8) h = Some h' \<and> heap_ok base lo h' B' \<and> brk h' = brk h \<and>
    space h' B' = space h B \<union> {bp ..< bp + 8 * n} \<and> (\<forall>a. a \<notin> space h' B' \<longrightarrow> a \<noteq> base \<longrightarrow> hdrs h' a = hdrs h a)"
  using ufree_ok [OF assms] by blast

text \<open>A heap of one block of 16 units in use.\<close>

theorem free_returns_block_witness:
  "\<exists>h' B'. ufree 8200 \<lparr>hdrs = (\<lambda>_. \<lparr>hptr = 4096, hsize = 0\<rparr>)(8192 := \<lparr>hptr = 0, hsize = 16\<rparr>), freep = 4096, brk = 8320\<rparr> = Some h' \<and>
    heap_ok 4096 8192 h' B' \<and> space h' B' = {8192 ..< 8320}"
proof -
  let ?h = "\<lparr>hdrs = (\<lambda>_. \<lparr>hptr = 4096, hsize = 0\<rparr>)(8192 := \<lparr>hptr = 0, hsize = 16\<rparr>), freep = 4096, brk = 8320\<rparr> :: heap"
  have "heap_ok 4096 8192 ?h {4096}" "space ?h {4096} = {}"
    by (simp_all add: heap_ok_def free_list_def gaps_def succ_in_def space_def blk_def)
  then show ?thesis using free_returns_block [of 4096 8192 ?h "{4096}" 16 8192] by auto
qed

end
