(* ===== verification/Mkfs.thy ===== *)
theory Mkfs
  imports Fs_Format
begin

unbundle bit_operations_syntax

text \<open>
  The program that makes the file system image (mkfs.c). The image is a map from
  sectors to their bytes; the counters \<open>freeinode\<close> and \<open>freeblock\<close> are the program's. A
  failed assertion ends the program, and so does a read past the end of the image;
  the calls of the host that read and write files otherwise succeed. Sector numbers
  stay below \<open>2 ^ 23\<close>, so that the offset of a sector does not wrap. The files that go
  into the image are given with their names and contents.
\<close>

subsection \<open>Layout of the image\<close>

definition NINODES :: nat where "NINODES = 200"
definition nbitmap :: nat where "nbitmap = FSSIZE div (BSIZE * 8) + 1"
definition ninodeblocks :: nat where "ninodeblocks = NINODES div 8 + 1"
definition nlog :: nat where "nlog = LOGSIZE"
definition nmeta :: nat where "nmeta = 2 + nlog + ninodeblocks + nbitmap"

record mk =
  img :: "uint \<Rightarrow> bytes"
  freeinode :: uint
  freeblock :: uint

type_synonym 'a mop = "(mk, 'a) kop"

text \<open>Conversion to the byte order of the target: the bytes are stored one by one and read as a number of the host.\<close>

definition xshort :: "ushort \<Rightarrow> ushort" where
  "xshort x = get16 [ucast x, ucast (drop_bit 8 x)] 0"

definition xint :: "uint \<Rightarrow> uint" where
  "xint x = get32 [ucast x, ucast (drop_bit 8 x), ucast (drop_bit 16 x), ucast (drop_bit 24 x)] 0"

definition mk_sb :: superblock where
  "mk_sb = \<lparr>sb_size = xint (of_nat FSSIZE), sb_nblocks = xint (of_nat (FSSIZE - nmeta)), sb_ninodes = xint (of_nat NINODES),
     sb_nlog = xint (of_nat nlog), sb_logstart = xint 2, sb_inodestart = xint (of_nat (2 + nlog)),
     sb_bmapstart = xint (of_nat (2 + nlog + ninodeblocks))\<rparr>"

subsection \<open>Sectors and inodes\<close>

definition rsect :: "uint \<Rightarrow> bytes mop" where
  "rsect sec = bnd (gets img) (\<lambda>g. if sec < of_nat FSSIZE then ret (g sec) else panic ''read'')"

definition wsect :: "uint \<Rightarrow> bytes \<Rightarrow> unit mop" where
  "wsect sec b = mods (\<lambda>s. s\<lparr>img := (img s)(sec := b)\<rparr>)"

definition winode :: "uint \<Rightarrow> dinode \<Rightarrow> unit mop" where
  "winode i di = (let bn = IBLOCK i mk_sb in bnd (rsect bn) (\<lambda>b. wsect bn (encode_dinode di b (dslot i))))"

definition rinode :: "uint \<Rightarrow> dinode mop" where
  "rinode i = (let bn = IBLOCK i mk_sb in bnd (rsect bn) (\<lambda>b. ret (decode_dinode b (dslot i))))"

definition mk_ialloc :: "ushort \<Rightarrow> uint mop" where
  "mk_ialloc t =
     bnd (gets freeinode) (\<lambda>i.
     bnd (mods (\<lambda>s. s\<lparr>freeinode := freeinode s + 1\<rparr>)) (\<lambda>_.
     bnd (winode i \<lparr>d_type = xshort t, d_major = 0, d_minor = 0, d_nlink = xshort 1, d_size = xint 0, d_addrs = replicate (NDIRECT + 1) 0\<rparr>) (\<lambda>_.
     ret i)))"

definition mk_balloc :: "nat \<Rightarrow> unit mop" where
  "mk_balloc used =
     (if \<not> used < BSIZE * 8 then panic ''used < BSIZE*8''
      else wsect (sb_bmapstart mk_sb)
        (foldl (\<lambda>b i. b[i div 8 := b ! (i div 8) OR push_bit (i mod 8) 1]) (replicate BSIZE 0) [0..<used]))"

subsection \<open>Appending to a file\<close>

text \<open>\<open>freeblock++\<close>.\<close>

definition take_block :: "uint mop" where
  "take_block = bnd (gets freeblock) (\<lambda>b. bnd (mods (\<lambda>s. s\<lparr>freeblock := freeblock s + 1\<rparr>)) (\<lambda>_. ret b))"

text \<open>The block that holds block \<open>fbn\<close> of a file, which is allocated when it is not there.\<close>

definition ensure_addr :: "nat \<Rightarrow> dinode \<Rightarrow> dinode mop" where
  "ensure_addr k di =
     (if xint (d_addrs di ! k) = 0 then bnd take_block (\<lambda>b. ret (di\<lparr>d_addrs := (d_addrs di)[k := xint b]\<rparr>)) else ret di)"

definition iappend_block :: "nat \<Rightarrow> dinode \<Rightarrow> (dinode \<times> uint) mop" where
  "iappend_block fbn di =
     (if fbn < NDIRECT then bnd (ensure_addr fbn di) (\<lambda>di. ret (di, xint (d_addrs di ! fbn)))
      else
        bnd (ensure_addr NDIRECT di) (\<lambda>di.
        let ib = xint (d_addrs di ! NDIRECT); e = 4 * (fbn - NDIRECT) in
        bnd (rsect ib) (\<lambda>ind.
        bnd (if get32 ind e = 0 then
               bnd take_block (\<lambda>b. bnd (wsect ib (put32 ind e (xint b))) (\<lambda>_. ret (put32 ind e (xint b))))
             else ret ind) (\<lambda>ind.
        ret (di, xint (get32 ind e))))))"

text \<open>\<open>bcopy\<close> of bytes into a buffer.\<close>

definition bcopy :: "bytes \<Rightarrow> nat \<Rightarrow> bytes \<Rightarrow> bytes" where
  "bcopy b k bs = take k b @ bs @ drop (k + length bs) b"

function iappend_loop :: "nat \<Rightarrow> bytes \<Rightarrow> dinode \<Rightarrow> (nat \<times> dinode) mop" where
  "iappend_loop off p di =
     (if p = [] then ret (off, di)
      else let fbn = off div BSIZE in
        if \<not> fbn < MAXFILE then panic ''fbn < MAXFILE''
        else bnd (iappend_block fbn di) (\<lambda>(di, x).
          let n1 = min (length p) ((fbn + 1) * BSIZE - off) in
          bnd (rsect x) (\<lambda>b.
          bnd (wsect x (bcopy b (off - fbn * BSIZE) (take n1 p))) (\<lambda>_.
          iappend_loop (off + n1) (drop n1 p) di))))"
  by pat_completeness auto
termination
proof (relation "measure (\<lambda>(off, p, di). length p)", simp, goal_cases)
  case (1 off p fbn x di b n1)
  have "off < (off div BSIZE + 1) * BSIZE" by (simp add: dividend_less_div_times BSIZE_def)
  then show ?case using 1 by (cases p) auto
qed

declare iappend_loop.simps [simp del]

definition iappend :: "uint \<Rightarrow> bytes \<Rightarrow> unit mop" where
  "iappend i p =
     bnd (rinode i) (\<lambda>di.
     bnd (iappend_loop (unat (xint (d_size di))) p di) (\<lambda>(off, di).
     winode i (di\<lparr>d_size := xint (of_nat off)\<rparr>)))"

subsection \<open>The program\<close>

definition mk_dirent :: "uint \<Rightarrow> bytes \<Rightarrow> bytes" where
  "mk_dirent i nm = encode_dirent \<lparr>de_inum = xshort (ucast i), de_name = nm\<rparr>"

text \<open>A file is read in pieces of a sector, each of which is appended.\<close>

function add_pieces :: "uint \<Rightarrow> bytes \<Rightarrow> unit mop" where
  "add_pieces i d = (if d = [] then ret () else bnd (iappend i (take BSIZE d)) (\<lambda>_. add_pieces i (drop BSIZE d)))"
  by pat_completeness auto
termination
  by (relation "measure (\<lambda>(i, d). length d)") (auto simp: BSIZE_def)

declare add_pieces.simps [simp del]

definition add_file :: "uint \<Rightarrow> bytes \<times> bytes \<Rightarrow> unit mop" where
  "add_file root = (\<lambda>(name, d).
     if of_char CHR ''/'' \<in> set name then panic ''index(argv[i], slash) == 0''
     else let name = (if name \<noteq> [] \<and> hd name = of_char CHR ''_'' then tl name else name) in
       bnd (mk_ialloc T_FILE) (\<lambda>i.
       bnd (iappend root (mk_dirent i (strncpy_b DIRSIZ name))) (\<lambda>_.
       add_pieces i d)))"

text \<open>The root directory with its two entries, and the end of the program.\<close>

definition mk_root :: "uint mop" where
  "mk_root =
     bnd (mk_ialloc T_DIR) (\<lambda>root.
       if root \<noteq> ROOTINO then panic ''rootino == ROOTINO'' else
       bnd (iappend root (mk_dirent root (of_char CHR ''.'' # replicate (DIRSIZ - 1) 0))) (\<lambda>_.
       bnd (iappend root (mk_dirent root (of_char CHR ''.'' # of_char CHR ''.'' # replicate (DIRSIZ - 2) 0))) (\<lambda>_.
       ret root)))"

definition mk_finish :: "uint \<Rightarrow> unit mop" where
  "mk_finish root =
     bnd (rinode root) (\<lambda>di.
     let off = (unat (xint (d_size di)) div BSIZE + 1) * BSIZE in
     bnd (winode root (di\<lparr>d_size := xint (of_nat off)\<rparr>)) (\<lambda>_.
     bnd (gets freeblock) (\<lambda>f. mk_balloc (unat f))))"

definition mk_main :: "(bytes \<times> bytes) list \<Rightarrow> unit mop" where
  "mk_main files =
     bnd (mods (\<lambda>s. s\<lparr>freeblock := of_nat nmeta\<rparr>)) (\<lambda>_.
     bnd (for_each [0..<FSSIZE] (\<lambda>i. wsect (of_nat i) (replicate BSIZE 0))) (\<lambda>_.
     bnd (wsect 1 (encode_sb mk_sb (replicate BSIZE 0))) (\<lambda>_.
     bnd mk_root (\<lambda>root.
     bnd (for_each files (add_file root)) (\<lambda>_.
     mk_finish root)))))"

end
