(* ===== verification/Mkfs_Image.thy ===== *)
theory Mkfs_Image
  imports Mkfs
begin

unbundle bit_operations_syntax

text \<open>
  The image that mkfs makes: every block of the image belongs to at most one place
  of one file, appending to a file extends its contents and leaves the other
  files alone, and the free map marks exactly the blocks in use.

  The places of a file are numbered: 0 to 139 are its blocks, 140 is the block
  with the addresses of the blocks from 12.
\<close>

subsection \<open>Layout\<close>

lemma xint_id [simp]: "xint x = x"
  by (simp add: xint_def get32_def ucast_parts32)

lemma xshort_id [simp]: "xshort x = x"
  by (simp add: xshort_def get16_def ucast_parts16)

lemma layout [simp]: "nmeta = 59" "NDIRECT = 12" "MAXFILE = 140" "sb_bmapstart mk_sb = 58" "IBLOCK i mk_sb = i div 8 + 32"
  by (simp_all add: nmeta_def nlog_def ninodeblocks_def nbitmap_def NINODES_def FSSIZE_def LOGSIZE_def MAXOPBLOCKS_def BSIZE_def
    NDIRECT_def MAXFILE_def NINDIRECT_def mk_sb_def IBLOCK_def IPB_def)

definition inode_of :: "(uint \<Rightarrow> bytes) \<Rightarrow> uint \<Rightarrow> dinode" where
  "inode_of g i = decode_dinode (g (i div 8 + 32)) (dslot i)"

text \<open>The block at place \<open>k\<close> of a file.\<close>

definition dblk :: "(uint \<Rightarrow> bytes) \<Rightarrow> dinode \<Rightarrow> nat \<Rightarrow> uint" where
  "dblk g di k = (if k < 12 then d_addrs di ! k
     else if k < 140 then (if d_addrs di ! 12 = 0 then 0 else get32 (g (d_addrs di ! 12)) (4 * (k - 12)))
     else d_addrs di ! 12)"

definition places :: "(uint \<Rightarrow> bytes) \<Rightarrow> dinode \<Rightarrow> nat set" where
  "places g di = {k. k \<le> 140 \<and> dblk g di k \<noteq> 0}"

text \<open>The places that a file of \<open>n\<close> bytes has.\<close>

definition places_for :: "nat \<Rightarrow> nat set" where
  "places_for n = {k. k < 140 \<and> k * 512 < n} \<union> {k. k = 140 \<and> 12 * 512 < n}"

lemma finite_places_for [simp]: "finite (places_for n)"
  by (simp add: places_for_def)

lemma places_for_mono: "m \<le> n \<Longrightarrow> places_for m \<subseteq> places_for n"
  by (auto simp: places_for_def)

lemma card_places_for:
  "card (places_for (m + n + k) - places_for m) = card (places_for (m + n) - places_for m) + card (places_for (m + n + k) - places_for (m + n))"
proof -
  let ?A = "places_for m" and ?B = "places_for (m + n)" and ?C = "places_for (m + n + k)"
  have "?A \<subseteq> ?B" "?B \<subseteq> ?C" by (simp_all add: places_for_mono)
  then have "?C - ?A = (?B - ?A) \<union> (?C - ?B)" "(?B - ?A) \<inter> (?C - ?B) = {}" by auto
  then show ?thesis by (simp add: card_Un_disjoint)
qed

lemma places_for_step:
  assumes "off div 512 < 140"
  shows "places_for (Suc off) = (if off mod 512 = 0 then insert (off div 512) (places_for off) \<union> {k. k = 140 \<and> off = 12 * 512} else places_for off)"
proof -
  define q al where "q = off div 512" and "al \<longleftrightarrow> off mod 512 = 0"
  have m: "k * 512 = off \<longleftrightarrow> al \<and> k = q" for k :: nat by (auto simp: q_def al_def)
  then have e: "k * 512 < Suc off \<longleftrightarrow> k * 512 < off \<or> al \<and> k = q" for k :: nat by (metis less_Suc_eq)
  have "off = 12 * 512 \<longleftrightarrow> al \<and> q = 12" using m [of 12] by auto
  then show ?thesis using assms unfolding places_for_def e q_def [symmetric] al_def [symmetric] by (cases al) auto
qed

lemma places_for_same:
  assumes "0 < n" "off + n \<le> (off div 512 + 1) * 512"
  shows "places_for (off + n) = places_for (Suc off)"
proof -
  have e: "k * 512 < off + n \<longleftrightarrow> k * 512 < Suc off" for k :: nat
  proof
    assume "k * 512 < off + n"
    then have "k * 512 < (off div 512 + 1) * 512" using assms(2) by simp
    then have "k \<le> off div 512" by simp
    then have "k * 512 \<le> off div 512 * 512" by simp
    then show "k * 512 < Suc off" using div_times_less_eq_dividend [of off 512] by simp
  qed (use assms(1) in simp)
  show ?thesis unfolding places_for_def e using e [of 12] by simp
qed

subsection \<open>One file\<close>

text \<open>\<open>own\<close> is the place of each block in use.\<close>

definition slots_ok :: "(uint \<Rightarrow> uint \<times> nat) \<Rightarrow> (uint \<Rightarrow> bytes) \<Rightarrow> uint \<Rightarrow> uint \<Rightarrow> dinode \<Rightarrow> bool" where
  "slots_ok own g fb i di \<longleftrightarrow> length (d_addrs di) = 13 \<and>
     (\<forall>k \<in> places g di. 59 \<le> dblk g di k \<and> dblk g di k < fb \<and> own (dblk g di k) = (i, k))"

definition blocks_ok :: "mk \<Rightarrow> bool" where
  "blocks_ok s \<longleftrightarrow> (\<forall>b < 1000. length (img s b) = 512) \<and> 59 \<le> freeblock s \<and> freeblock s \<le> 1000 \<and>
     (\<forall>b. freeblock s \<le> b \<longrightarrow> b < 1000 \<longrightarrow> img s b = replicate 512 0)"

definition changes :: "(uint \<Rightarrow> uint \<times> nat) \<Rightarrow> uint \<Rightarrow> uint \<Rightarrow> (uint \<Rightarrow> bytes) \<Rightarrow> (uint \<Rightarrow> bytes) \<Rightarrow> bool" where
  "changes own fb i g g' \<longleftrightarrow> (\<forall>b. g' b \<noteq> g b \<longrightarrow> 59 \<le> b \<and> b < 1000 \<and> (fst (own b) = i \<or> fb \<le> b))"

definition extends :: "uint \<Rightarrow> (uint \<Rightarrow> uint \<times> nat) \<Rightarrow> (uint \<Rightarrow> uint \<times> nat) \<Rightarrow> bool" where
  "extends fb own own' \<longleftrightarrow> (\<forall>b < fb. own' b = own b)"

text \<open>A step of \<open>iappend\<close> on inode \<open>i\<close>, with the copy of the inode before and after.\<close>

definition grew :: "uint \<Rightarrow> (uint \<Rightarrow> uint \<times> nat) \<Rightarrow> mk \<Rightarrow> dinode \<Rightarrow> nat set \<Rightarrow> (uint \<Rightarrow> uint \<times> nat) \<Rightarrow> mk \<Rightarrow> dinode \<Rightarrow> bool" where
  "grew i own s di K own' t di' \<longleftrightarrow>
     blocks_ok t \<and> slots_ok own' (img t) (freeblock t) i di' \<and> places (img t) di' = places (img s) di \<union> K \<and>
     unat (freeblock t) = unat (freeblock s) + card K \<and> freeinode t = freeinode s \<and>
     changes own (freeblock s) i (img s) (img t) \<and> extends (freeblock s) own own' \<and>
     di'\<lparr>d_addrs := d_addrs di\<rparr> = di \<and>
     (\<forall>k \<in> places (img s) di. dblk (img t) di' k = dblk (img s) di k \<and> (k < 140 \<longrightarrow> img t (dblk (img s) di k) = img s (dblk (img s) di k))) \<and>
     (\<forall>k \<in> K. k < 140 \<longrightarrow> img t (dblk (img t) di' k) = replicate 512 0)"

lemma grew_refl: "blocks_ok s \<Longrightarrow> slots_ok own (img s) (freeblock s) i di \<Longrightarrow> grew i own s di {} own s di"
  by (simp add: grew_def changes_def extends_def)

lemma changes_trans:
  assumes "changes own fb i g g'" "changes own' fb' i g' g''" "extends fb own own'" "fb \<le> fb'"
  shows "changes own fb i g g''"
  unfolding changes_def
proof (intro allI impI)
  fix b assume "g'' b \<noteq> g b"
  then consider "g' b \<noteq> g b" | "g'' b \<noteq> g' b" by metis
  then show "59 \<le> b \<and> b < 1000 \<and> (fst (own b) = i \<or> fb \<le> b)"
  proof cases
    case 1
    then show ?thesis using assms(1) by (simp add: changes_def)
  next
    case 2
    then have c: "59 \<le> b \<and> b < 1000 \<and> (fst (own' b) = i \<or> fb' \<le> b)" using assms(2) by (simp add: changes_def)
    have "own' b = own b" if "b < fb" using assms(3) that by (simp add: extends_def)
    then show ?thesis using c assms(4) by (cases "b < fb") auto
  qed
qed

lemma extends_trans: "extends fb own own' \<Longrightarrow> extends fb' own' own'' \<Longrightarrow> fb \<le> fb' \<Longrightarrow> extends fb own own''"
  by (auto simp: extends_def intro: less_le_trans)

lemma addrs_trans:
  "di'\<lparr>d_addrs := d_addrs di\<rparr> = di \<Longrightarrow> di''\<lparr>d_addrs := d_addrs di'\<rparr> = di' \<Longrightarrow> di''\<lparr>d_addrs := d_addrs di\<rparr> = (di :: dinode)"
  by (cases di'', cases di', cases di) auto

lemma grew_trans:
  assumes 1: "grew i own s di K own' t di'" and 2: "grew i own' t di' L own'' u di''" and KL: "K \<inter> L = {}" "finite K" "finite L"
  shows "grew i own s di (K \<union> L) own'' u di''"
proof -
  have fb: "freeblock s \<le> freeblock t" using 1 by (simp add: grew_def word_le_nat_alt)
  have "changes own (freeblock s) i (img s) (img u)" "extends (freeblock s) own own''" "di''\<lparr>d_addrs := d_addrs di\<rparr> = di"
    using 1 2 fb by (auto simp: grew_def intro: changes_trans extends_trans addrs_trans)
  moreover have "card (K \<union> L) = card K + card L" using KL by (intro card_Un_disjoint)
  ultimately show ?thesis using assms unfolding grew_def by auto
qed

lemma fb_step:
  assumes "unat fb < 1000"
  shows "unat (fb + 1 :: uint) = Suc (unat fb)" "b < fb + 1 \<longleftrightarrow> b < fb \<or> b = fb" "fb + 1 \<le> b \<Longrightarrow> fb \<le> b \<and> b \<noteq> fb" "fb < 1000"
proof -
  show u: "unat (fb + 1) = Suc (unat fb)" using assms by (subst unat_add_lem [THEN iffD1]) simp_all
  show "b < fb + 1 \<longleftrightarrow> b < fb \<or> b = fb" by (auto simp: word_less_nat_alt u less_Suc_eq word_unat_eq_iff)
  show "fb + 1 \<le> b \<Longrightarrow> fb \<le> b \<and> b \<noteq> fb" by (auto simp: word_le_nat_alt u)
  show "fb < 1000" using assms by (simp add: word_less_nat_alt)
qed

lemma blocks_ok_step:
  assumes "blocks_ok s" "unat (freeblock s) < 1000" "x < freeblock s" "length d = 512"
  shows "blocks_ok (s\<lparr>freeblock := freeblock s + 1\<rparr>)" "blocks_ok (s\<lparr>img := (img s)(x := d), freeblock := freeblock s + 1\<rparr>)"
proof -
  note F = fb_step [OF assms(2)]
  have "freeblock s + 1 \<le> 1000" "59 \<le> freeblock s + 1" using assms(1,2) by (simp_all add: word_le_nat_alt F(1) blocks_ok_def)
  moreover have "\<not> freeblock s + 1 \<le> x" using assms(3) F(3) [of x] by auto
  ultimately show "blocks_ok (s\<lparr>freeblock := freeblock s + 1\<rparr>)" "blocks_ok (s\<lparr>img := (img s)(x := d), freeblock := freeblock s + 1\<rparr>)"
    using assms F(3) by (auto simp: blocks_ok_def)
qed

lemma get32_zero: "e + 4 \<le> n \<Longrightarrow> get32 (replicate n 0) e = 0"
  by (simp add: get32_def)

text \<open>A new block for place \<open>k\<close>: one of the addresses in the inode.\<close>

lemma grow_addr:
  assumes s: "blocks_ok s" "slots_ok own (img s) (freeblock s) i di" "unat (freeblock s) < 1000"
    and k: "k < 12 \<and> a = k \<or> k = 140 \<and> a = 12" "d_addrs di ! a = 0"
  shows "grew i own s di {k} (own(freeblock s := (i, k))) (s\<lparr>freeblock := freeblock s + 1\<rparr>) (di\<lparr>d_addrs := (d_addrs di)[a := freeblock s]\<rparr>)"
    (is "grew i own s di {k} ?own ?s ?di")
proof -
  let ?fb = "freeblock s"
  note F = fb_step [OF s(3)]
  have l: "length (d_addrs di) = 13" using s(2) by (simp add: slots_ok_def)
  have fb0: "?fb \<noteq> 0" using s(1) by (auto simp: blocks_ok_def)
  have new: "dblk (img s) ?di k = ?fb" using k l by (auto simp: dblk_def)
  have old: "dblk (img s) ?di j = dblk (img s) di j" if "j \<le> 140" "j \<noteq> k" for j
  proof -
    have z: "get32 (img s ?fb) (4 * (j - 12)) = 0" if "j < 140"
      using s(1) F(4) that by (auto simp: blocks_ok_def intro!: get32_zero)
    show ?thesis using k l that z fb0 by (auto simp: dblk_def)
  qed
  have kn: "k \<notin> places (img s) di" "k \<le> 140" using k by (auto simp: places_def dblk_def)
  have pl: "places (img s) ?di = insert k (places (img s) di)"
    using new fb0 old kn by (auto simp: places_def) metis+
  have "slots_ok ?own (img s) (?fb + 1) i ?di"
    unfolding slots_ok_def pl
  proof (intro conjI ballI)
    fix j assume j: "j \<in> insert k (places (img s) di)"
    show "59 \<le> dblk (img s) ?di j" "dblk (img s) ?di j < ?fb + 1" "?own (dblk (img s) ?di j) = (i, j)"
    proof (atomize (full), cases "j = k")
      case True
      then show "59 \<le> dblk (img s) ?di j \<and> dblk (img s) ?di j < ?fb + 1 \<and> ?own (dblk (img s) ?di j) = (i, j)"
        using new s(1) by (simp add: F(2) blocks_ok_def)
    next
      case False
      then have "j \<in> places (img s) di" using j by simp
      then show "59 \<le> dblk (img s) ?di j \<and> dblk (img s) ?di j < ?fb + 1 \<and> ?own (dblk (img s) ?di j) = (i, j)"
        using old [of j] False s(2) by (auto simp: F(2) slots_ok_def places_def)
    qed
  qed (use l in simp)
  moreover have "blocks_ok ?s" using blocks_ok_step(1) [OF s(1,3), of 0 "replicate 512 0"] fb0 by (simp add: word_gt_0)
  moreover have "img s ?fb = replicate 512 0" using s(1) F(4) by (simp add: blocks_ok_def)
  ultimately show ?thesis
    using F(1) pl old kn new unfolding grew_def by (auto simp: changes_def extends_def places_def)
qed

text \<open>A new block for place \<open>k\<close> in the block of addresses.\<close>

lemma grow_entry:
  assumes s: "blocks_ok s" "slots_ok own (img s) (freeblock s) i di" "unat (freeblock s) < 1000"
    and k: "12 \<le> k" "k < 140" "ib = d_addrs di ! 12" "ib \<noteq> 0" "e = 4 * (k - 12)" "get32 (img s ib) e = 0"
  shows "grew i own s di {k} (own(freeblock s := (i, k)))
    (s\<lparr>img := (img s)(ib := put32 (img s ib) e (freeblock s)), freeblock := freeblock s + 1\<rparr>) di" (is "grew i own s di {k} ?own ?s di")
proof -
  let ?fb = "freeblock s" and ?g = "(img s)(ib := put32 (img s ib) e (freeblock s))"
  note F = fb_step [OF s(3)]
  have fb0: "?fb \<noteq> 0" using s(1) by (auto simp: blocks_ok_def)
  have "140 \<in> places (img s) di" using k by (simp add: places_def dblk_def)
  then have ib: "59 \<le> ib" "ib < ?fb" "own ib = (i, 140)" using s(2) k(3) by (auto simp: slots_ok_def dblk_def)
  have len: "length (img s ib) = 512" using s(1) ib(2) F(4) by (simp add: blocks_ok_def)
  have new: "dblk ?g di k = ?fb" using k len by (simp add: dblk_def f32.get_put)
  have old: "dblk ?g di j = dblk (img s) di j" if "j \<noteq> k" for j
  proof -
    have "get32 (put32 (img s ib) e ?fb) (4 * (j - 12)) = get32 (img s ib) (4 * (j - 12))" if "12 \<le> j"
      using that \<open>j \<noteq> k\<close> k by (intro f32.get_put_other) auto
    then show ?thesis using k(3,4) by (auto simp: dblk_def)
  qed
  have kn: "k \<notin> places (img s) di" "k \<le> 140" using k by (auto simp: places_def dblk_def)
  have pl: "places ?g di = insert k (places (img s) di)" using new fb0 old kn by (auto simp: places_def) metis+
  have data: "dblk (img s) di j \<noteq> ib" if "j \<in> places (img s) di" "j < 140" for j
    using s(2) that ib(3) by (auto simp: slots_ok_def)
  have "slots_ok ?own ?g (?fb + 1) i di"
    unfolding slots_ok_def pl
  proof (intro conjI ballI)
    fix j assume j: "j \<in> insert k (places (img s) di)"
    show "59 \<le> dblk ?g di j" "dblk ?g di j < ?fb + 1" "?own (dblk ?g di j) = (i, j)"
    proof (atomize (full), cases "j = k")
      case True
      then show "59 \<le> dblk ?g di j \<and> dblk ?g di j < ?fb + 1 \<and> ?own (dblk ?g di j) = (i, j)"
        using new s(1) by (simp add: F(2) blocks_ok_def)
    next
      case False
      then have "j \<in> places (img s) di" using j by simp
      then show "59 \<le> dblk ?g di j \<and> dblk ?g di j < ?fb + 1 \<and> ?own (dblk ?g di j) = (i, j)"
        using old [of j] False s(2) by (auto simp: F(2) slots_ok_def)
    qed
  qed (use s(2) in \<open>simp add: slots_ok_def\<close>)
  moreover have "blocks_ok ?s" using blocks_ok_step(2) [OF s(1,3) ib(2), of "put32 (img s ib) e ?fb"] len by simp
  moreover have "ib < 1000" using ib(2) F(4) by (rule less_trans)
  moreover have "dblk ?g di j = dblk (img s) di j" if "j \<in> places (img s) di" for j using old [of j] kn(1) that by metis
  moreover have "?g ?fb = replicate 512 0" using s(1) F(4) ib(2) by (auto simp: blocks_ok_def)
  ultimately show ?thesis
    using F(1) pl ib data new unfolding grew_def by (auto simp: changes_def extends_def)
qed

text \<open>A write to a block of the file.\<close>

lemma write_block:
  assumes s: "blocks_ok s" "slots_ok own (img s) (freeblock s) i di" and k: "k \<in> places (img s) di" "k < 140" "length d = 512"
  defines "g \<equiv> (img s)(dblk (img s) di k := d)"
  shows "blocks_ok (s\<lparr>img := g\<rparr>)" "slots_ok own g (freeblock s) i di" "places g di = places (img s) di" "changes own (freeblock s) i (img s) g"
    "\<And>j. dblk g di j = dblk (img s) di j" "\<And>j. j \<in> places (img s) di \<Longrightarrow> j \<noteq> k \<Longrightarrow> g (dblk (img s) di j) = img s (dblk (img s) di j)"
proof -
  let ?x = "dblk (img s) di k"
  have x: "59 \<le> ?x" "?x < freeblock s" "own ?x = (i, k)" using s(2) k(1) by (auto simp: slots_ok_def)
  have ib: "d_addrs di ! 12 \<noteq> ?x" if "d_addrs di ! 12 \<noteq> 0"
  proof -
    have "140 \<in> places (img s) di" using that by (simp add: places_def dblk_def)
    then have "own (d_addrs di ! 12) = (i, 140)" using s(2) by (auto simp: slots_ok_def dblk_def)
    then show ?thesis using x(3) k(2) by auto
  qed
  then show d: "dblk g di j = dblk (img s) di j" for j by (simp add: g_def dblk_def)
  then show pl: "places g di = places (img s) di" by (simp add: places_def)
  have x1: "?x < 1000" using x(2) s(1) by (auto simp: blocks_ok_def intro: less_le_trans)
  show "blocks_ok (s\<lparr>img := g\<rparr>)" using s(1) x(2) k(3) by (auto simp: blocks_ok_def g_def)
  show "slots_ok own g (freeblock s) i di" using s(2) by (simp add: slots_ok_def pl d)
  show "changes own (freeblock s) i (img s) g" using x x1 by (auto simp: changes_def g_def)
  show "g (dblk (img s) di j) = img s (dblk (img s) di j)" if "j \<in> places (img s) di" "j \<noteq> k" for j
  proof -
    have "own (dblk (img s) di j) = (i, j)" using s(2) that by (simp add: slots_ok_def)
    then show ?thesis using x(3) that by (auto simp: g_def)
  qed
qed

lemma mk_apply:
  "rsect x s = (if x < 1000 then Ret (img s x) s else Panic ''read'')" "wsect x b s = Ret () (s\<lparr>img := (img s)(x := b)\<rparr>)"
  "take_block s = Ret (freeblock s) (s\<lparr>freeblock := freeblock s + 1\<rparr>)"
  by (simp_all add: rsect_def wsect_def take_block_def FSSIZE_def kops)

lemma ensure_addr_apply:
  "ensure_addr k di s = (if d_addrs di ! k = 0 then Ret (di\<lparr>d_addrs := (d_addrs di)[k := freeblock s]\<rparr>) (s\<lparr>freeblock := freeblock s + 1\<rparr>) else Ret di s)"
  by (simp add: ensure_addr_def mk_apply kops)

text \<open>The second half of \<open>iappend_block\<close> for a block behind the address block \<open>ib\<close>.\<close>

lemma iappend_indirect:
  assumes s: "blocks_ok s" "slots_ok own (img s) (freeblock s) i di" and k: "12 \<le> k" "k < 140" "140 \<in> places (img s) di"
    and f: "k \<notin> places (img s) di \<Longrightarrow> unat (freeblock s) < 1000"
  shows "\<exists>own' t. (let ib = xint (d_addrs di ! NDIRECT); e = 4 * (k - NDIRECT) in
        bnd (rsect ib) (\<lambda>ind.
        bnd (if get32 ind e = 0 then
               bnd take_block (\<lambda>b. bnd (wsect ib (put32 ind e (xint b))) (\<lambda>_. ret (put32 ind e (xint b))))
             else ret ind) (\<lambda>ind.
        ret (di, xint (get32 ind e))))) s = Ret (di, dblk (img t) di k) t \<and>
     grew i own s di (if k \<in> places (img s) di then {} else {k}) own' t di"
proof -
  let ?ib = "d_addrs di ! 12" and ?e = "4 * (k - 12)"
  have "140 \<in> places (img s) di" "dblk (img s) di 140 = ?ib" using k(3) by (simp_all add: dblk_def)
  then have ib: "?ib \<noteq> 0" "?ib < freeblock s" "59 \<le> ?ib" using s(2) by (auto simp: slots_ok_def places_def)
  have b: "?ib < 1000" using ib(2) s(1) by (auto simp: blocks_ok_def intro: less_le_trans)
  have d: "dblk (img s) di k = get32 (img s ?ib) ?e" using k(1,2) ib(1) by (simp add: dblk_def)
  show ?thesis
  proof (cases "k \<in> places (img s) di")
    case True
    then have "get32 (img s ?ib) ?e \<noteq> 0" using d by (simp add: places_def)
    then show ?thesis using True b d grew_refl [OF s] by (intro exI [of _ own] exI [of _ s]) (simp add: kops mk_apply Let_def)
  next
    case False
    then have z: "get32 (img s ?ib) ?e = 0" using d k(2) by (simp add: places_def)
    note G = grow_entry [OF s f [OF False] k(1,2) refl ib(1) refl z]
    have len: "length (img s ?ib) = 512" using s(1) b by (simp add: blocks_ok_def)
    show ?thesis
      by (rule exI, rule exI, rule conjI [rotated]) (use False G b z k len ib(1) in \<open>auto simp: kops mk_apply Let_def dblk_def f32.get_put\<close>)
  qed
qed

lemma iappend_block_ok:
  assumes s: "blocks_ok s" "slots_ok own (img s) (freeblock s) i di" and pl: "places (img s) di = places_for off"
    and k: "k = off div 512" "k < 140" and room: "unat (freeblock s) + card (places_for (Suc off) - places_for off) \<le> 1000"
  shows "\<exists>own' di' t. iappend_block k di s = Ret (di', dblk (img t) di' k) t \<and> grew i own s di (places_for (Suc off) - places_for off) own' t di'"
proof -
  have l: "length (d_addrs di) = 13" using s(2) by (simp add: slots_ok_def)
  define r where "r = off mod 512"
  have e: "off = k * 512 + r" unfolding r_def k(1) by simp
  have r: "r < 512" by (simp add: r_def)
  have kp: "k \<in> places_for off \<longleftrightarrow> r \<noteq> 0" using e k(2) by (auto simp: places_for_def)
  have ip: "140 \<in> places_for off \<longleftrightarrow> 12 < k \<or> k = 12 \<and> r \<noteq> 0" using e r by (auto simp: places_for_def)
  have K: "places_for (Suc off) - places_for off = (if r \<noteq> 0 then {} else if k = 12 then {12, 140} else {k})"
  proof -
    have "off = 12 * 512 \<longleftrightarrow> k = 12" if "r = 0" using e that by auto
    then show ?thesis using places_for_step [of off] k kp ip unfolding r_def [symmetric] by auto
  qed
  show ?thesis
  proof (cases "k < 12")
    case True
    have "k \<in> places (img s) di \<longleftrightarrow> r \<noteq> 0" using kp by (simp only: pl)
    then have a: "d_addrs di ! k = 0 \<longleftrightarrow> r = 0" using True by (auto simp: places_def dblk_def)
    show ?thesis
    proof (cases "r = 0")
      case r0: True
      have f: "unat (freeblock s) < 1000" using room True by (simp add: K r0)
      have z: "d_addrs di ! k = 0" using a r0 by simp
      have "iappend_block k di s = Ret (di\<lparr>d_addrs := (d_addrs di)[k := freeblock s]\<rparr>, freeblock s) (s\<lparr>freeblock := freeblock s + 1\<rparr>)"
        using True z l by (simp add: iappend_block_def ensure_addr_apply kops)
      then show ?thesis using grow_addr [OF s f _ z, of k] True r0 l by (intro exI [of _ "own(freeblock s := (i, k))"] exI) (auto simp: K dblk_def)
    next
      case False
      then have "iappend_block k di s = Ret (di, d_addrs di ! k) s" using True a by (simp add: iappend_block_def ensure_addr_apply kops)
      then show ?thesis using grew_refl [OF s] True False by (intro exI [of _ own] exI [of _ di] exI [of _ s]) (simp add: K dblk_def)
    qed
  next
    case False
    show ?thesis
    proof (cases "k = 12 \<and> r = 0")
      case True
      then have "140 \<notin> places (img s) di" using ip pl by simp
      then have z: "d_addrs di ! 12 = 0" by (simp add: places_def dblk_def)
      have f: "unat (freeblock s) < 1000" "unat (freeblock s) + 2 \<le> 1000" using room True by (simp_all add: K)
      let ?s = "s\<lparr>freeblock := freeblock s + 1\<rparr>" and ?di = "di\<lparr>d_addrs := (d_addrs di)[12 := freeblock s]\<rparr>" and ?own = "own(freeblock s := (i, 140))"
      have G: "grew i own s di {140} ?own ?s ?di" by (rule grow_addr [OF s f(1) _ z]) simp
      then have s': "blocks_ok ?s" "slots_ok ?own (img ?s) (freeblock ?s) i ?di" "places (img ?s) ?di = places_for off \<union> {140}"
        by (simp_all add: grew_def pl)
      have "k \<notin> places (img ?s) ?di" using s'(3) kp True by simp
      with iappend_indirect [OF s'(1,2), of k] obtain own' t where t: "iappend_block k di s = Ret (?di, dblk (img t) ?di k) t"
        "grew i ?own ?s ?di {k} own' t ?di"
        using False k(2) s'(3) f(2) fb_step(1) [OF f(1)] z by (auto simp: iappend_block_def ensure_addr_apply bnd_apply)
      have "grew i own s di ({140} \<union> {k}) own' t ?di" by (rule grew_trans [OF G t(2)]) (use k(2) in auto)
      then show ?thesis using t(1) True by (intro exI [of _ own'] exI [of _ ?di] exI [of _ t]) (simp add: K insert_commute)
    next
      case n: False
      then have i140: "140 \<in> places (img s) di" unfolding pl using ip False by (cases "k = 12") auto
      then have nz: "d_addrs di ! 12 \<noteq> 0" by (simp add: places_def dblk_def)
      have f: "k \<notin> places (img s) di \<Longrightarrow> unat (freeblock s) < 1000" unfolding pl using room [unfolded K] kp n by (simp split: if_splits)
      from iappend_indirect [OF s _ k(2) i140 f] False obtain own' t where
        t: "iappend_block k di s = Ret (di, dblk (img t) di k) t" "grew i own s di (if k \<in> places (img s) di then {} else {k}) own' t di"
        using nz by (auto simp: iappend_block_def ensure_addr_apply bnd_apply)
      moreover have "places_for (Suc off) - places_for off = (if k \<in> places (img s) di then {} else {k})" unfolding K pl using kp n by simp
      ultimately show ?thesis by auto
    qed
  qed
qed

subsection \<open>Appending bytes\<close>

text \<open>A byte of a file; the kernel reads a block that is not there as zeros.\<close>

definition byte_at :: "(uint \<Rightarrow> bytes) \<Rightarrow> dinode \<Rightarrow> nat \<Rightarrow> uchar" where
  "byte_at g di q = (if dblk g di (q div 512) = 0 then 0 else g (dblk g di (q div 512)) ! (q mod 512))"

definition appended :: "uint \<Rightarrow> (uint \<Rightarrow> uint \<times> nat) \<Rightarrow> mk \<Rightarrow> dinode \<Rightarrow> nat \<Rightarrow> bytes \<Rightarrow> (uint \<Rightarrow> uint \<times> nat) \<Rightarrow> mk \<Rightarrow> dinode \<Rightarrow> bool" where
  "appended i own s di off p own' t di' \<longleftrightarrow>
     blocks_ok t \<and> slots_ok own' (img t) (freeblock t) i di' \<and> places (img t) di' = places_for (off + length p) \<and>
     unat (freeblock t) = unat (freeblock s) + card (places_for (off + length p) - places_for off) \<and> freeinode t = freeinode s \<and>
     changes own (freeblock s) i (img s) (img t) \<and> extends (freeblock s) own own' \<and>
     di'\<lparr>d_addrs := d_addrs di\<rparr> = di \<and>
     (\<forall>q. q div 512 < 140 \<longrightarrow> byte_at (img t) di' q = (if off \<le> q \<and> q < off + length p then p ! (q - off) else byte_at (img s) di q))"

lemma appended_trans:
  assumes 1: "appended i own s di off p own' t di'" and 2: "appended i own' t di' (off + length p) p' own'' u di''"
  shows "appended i own s di off (p @ p') own'' u di''"
proof -
  have fb: "freeblock s \<le> freeblock t" using 1 by (simp add: appended_def word_le_nat_alt)
  have "changes own (freeblock s) i (img s) (img u)" "extends (freeblock s) own own''" "di''\<lparr>d_addrs := d_addrs di\<rparr> = di"
    using 1 2 fb by (auto simp: appended_def intro: changes_trans extends_trans addrs_trans)
  moreover have "unat (freeblock u) = unat (freeblock s) + card (places_for (off + length (p @ p')) - places_for off)"
    using 1 2 card_places_for [of off "length p" "length p'"] by (simp add: appended_def add.assoc)
  moreover have "byte_at (img u) di'' q = (if off \<le> q \<and> q < off + length (p @ p') then (p @ p') ! (q - off) else byte_at (img s) di q)"
    if "q div 512 < 140" for q
  proof -
    have "byte_at (img u) di'' q = (if off + length p \<le> q \<and> q < off + length p + length p' then p' ! (q - (off + length p)) else byte_at (img t) di' q)"
      "byte_at (img t) di' q = (if off \<le> q \<and> q < off + length p then p ! (q - off) else byte_at (img s) di q)"
      using 1 2 that unfolding appended_def by blast+
    then show ?thesis by (auto simp: nth_append)
  qed
  ultimately show ?thesis using 1 2 by (simp add: appended_def add.assoc)
qed

lemma bcopy_nth:
  assumes "k + length bs \<le> length b"
  shows "length (bcopy b k bs) = length b" "q < k \<or> k + length bs \<le> q \<Longrightarrow> bcopy b k bs ! q = b ! q" "q < length bs \<Longrightarrow> bcopy b k bs ! (k + q) = bs ! q"
  using assms by (auto simp: bcopy_def nth_append)

lemma grew_bytes:
  assumes g: "grew i own s di K own' t di'" and q: "q div 512 < 140"
  shows "byte_at (img t) di' q = byte_at (img s) di q"
proof -
  define j where "j = q div 512"
  have j: "j < 140" using q by (simp add: j_def)
  consider (old) "j \<in> places (img s) di" | (new) "j \<in> K" "j \<notin> places (img s) di" | (none) "j \<notin> places (img t) di'" "j \<notin> places (img s) di"
    using g by (auto simp: grew_def)
  then show ?thesis
  proof cases
    case old
    then show ?thesis using g j unfolding byte_at_def j_def [symmetric] grew_def by simp
  next
    case new
    then have "img t (dblk (img t) di' j) = replicate 512 0" using g j by (simp add: grew_def)
    moreover have "dblk (img s) di j = 0" using new(2) j by (simp add: places_def)
    ultimately show ?thesis by (simp add: byte_at_def j_def [symmetric])
  next
    case none
    then show ?thesis using j by (simp add: byte_at_def j_def [symmetric] places_def)
  qed
qed

text \<open>The bytes that go into one block.\<close>

lemma write_bytes:
  assumes s: "blocks_ok s" "slots_ok own (img s) (freeblock s) i di" and k: "k \<in> places (img s) di" "k < 140"
    and r: "r + length p \<le> 512" "off = k * 512 + r" "r < 512" and q: "q div 512 < 140"
  defines "x \<equiv> dblk (img s) di k"
  shows "byte_at ((img s)(x := bcopy (img s x) r p)) di q = (if off \<le> q \<and> q < off + length p then p ! (q - off) else byte_at (img s) di q)"
proof -
  define j m where "j = q div 512" and "m = q mod 512"
  have qe: "q = j * 512 + m" and m: "m < 512" by (simp_all add: j_def m_def)
  have x: "x < 1000" using s k(1) unfolding x_def slots_ok_def blocks_ok_def by (auto intro: less_le_trans)
  have len: "length (img s x) = 512" using s(1) x by (simp add: blocks_ok_def)
  have rp: "r + length p \<le> length (img s x)" using len r(1) by simp
  note S = bcopy_nth [OF rp]
  note W = write_block [OF s k, of "bcopy (img s x) r p", folded x_def, unfolded S(1), OF len]
  have x0: "x \<noteq> 0" using k(1) by (simp add: x_def places_def)
  show ?thesis
  proof (cases "j = k")
    case True
    have "bcopy (img s x) r p ! m = (if off \<le> q \<and> q < off + length p then p ! (q - off) else img s x ! m)"
      using S(2) [of m] S(3) [of "m - r"] qe r(2) True by auto
    then show ?thesis using True x0 unfolding byte_at_def j_def [symmetric] m_def [symmetric] W(5) by (simp add: x_def [symmetric])
  next
    case False
    then have out: "\<not> (off \<le> q \<and> q < off + length p)" using qe m r by auto
    have "((img s)(x := bcopy (img s x) r p)) (dblk (img s) di j) = img s (dblk (img s) di j)" if "dblk (img s) di j \<noteq> 0"
      using W(6) [of j] False that q by (simp add: places_def j_def)
    then show ?thesis unfolding byte_at_def j_def [symmetric] W(5) using out by auto
  qed
qed

lemma appended_block:
  assumes g: "grew i own s di (places_for (Suc off) - places_for off) own' t di'" and pl: "places (img s) di = places_for off"
    and k: "k = off div 512" "k < 140" and p: "p \<noteq> []" "off mod 512 + length p \<le> 512"
  defines "x \<equiv> dblk (img t) di' k"
  shows "x < 1000" "appended i own s di off p own' (t\<lparr>img := (img t)(x := bcopy (img t x) (off - k * 512) p)\<rparr>) di'"
proof -
  define r where "r = off mod 512"
  have e: "off = k * 512 + r" and r: "r < 512" unfolding r_def k(1) by simp_all
  have t: "blocks_ok t" "slots_ok own' (img t) (freeblock t) i di'" using g by (simp_all add: grew_def)
  have n: "places_for (off + length p) = places_for (Suc off)"
    using p e r unfolding r_def [symmetric] by (intro places_for_same) (auto simp: k(1) [symmetric])
  have pt: "places (img t) di' = places_for (Suc off)" using g pl places_for_mono [of off "Suc off"] by (auto simp: grew_def)
  have kp: "k \<in> places (img t) di'" unfolding pt using e k(2) by (simp add: places_for_def)
  have x: "x < freeblock t" using t(2) kp by (simp add: slots_ok_def x_def)
  show x1: "x < 1000" using x t(1) by (auto simp: blocks_ok_def intro: less_le_trans)
  have len: "length (img t x) = 512" using t(1) x1 by (simp add: blocks_ok_def)
  have rp: "r + length p \<le> 512" using p(2) r_def by simp
  have d: "off - k * 512 = r" using e by simp
  have "length (bcopy (img t x) r p) = 512" using bcopy_nth(1) [of r p "img t x"] len rp by simp
  note W = write_block [OF t kp k(2) this, folded x_def]
  let ?g = "(img t)(x := bcopy (img t x) r p)"
  have "byte_at ?g di' q = (if off \<le> q \<and> q < off + length p then p ! (q - off) else byte_at (img s) di q)" if q: "q div 512 < 140" for q
    using write_bytes [OF t kp k(2) rp e r q] grew_bytes [OF g q] by (simp add: x_def)
  moreover have "changes own (freeblock s) i (img s) ?g"
    using g W(4) by (auto simp: grew_def word_le_nat_alt intro: changes_trans)
  ultimately show "appended i own s di off p own' (t\<lparr>img := (img t)(x := bcopy (img t x) (off - k * 512) p)\<rparr>) di'"
    unfolding d using g W(1-3) pt by (simp add: appended_def grew_def n)
qed

lemma appended_nil:
  "blocks_ok s \<Longrightarrow> slots_ok own (img s) (freeblock s) i di \<Longrightarrow> places (img s) di = places_for off \<Longrightarrow> appended i own s di off [] own s di"
  by (auto simp: appended_def changes_def extends_def)

lemma iappend_loop_ok:
  assumes "blocks_ok s" "slots_ok own (img s) (freeblock s) i di" "places (img s) di = places_for off"
    and "off + length p \<le> 71680" "unat (freeblock s) + card (places_for (off + length p) - places_for off) \<le> 1000"
  shows "\<exists>own' di' t. iappend_loop off p di s = Ret (off + length p, di') t \<and> appended i own s di off p own' t di'"
  using assms
proof (induction "length p" arbitrary: off p di s own rule: less_induct)
  case less
  show ?case
  proof (cases "p = []")
    case True
    then show ?thesis using appended_nil [OF less.prems(1-3)] by (subst iappend_loop.simps) (auto simp: kops)
  next
    case False
    define k where "k = off div 512"
    define n where "n = min (length p) ((k + 1) * 512 - off)"
    define r where "r = off mod 512"
    have e: "off = k * 512 + r" and r: "r < 512" by (simp_all add: k_def r_def)
    have k: "k < 140" using less.prems(4) False e by (cases p) auto
    have nn: "min (length p) (512 + k * 512 - off) = n" by (simp add: n_def)
    have n: "0 < n" "n \<le> length p" "r + n \<le> 512" using False e r by (auto simp: n_def)
    let ?p = "take n p" and ?P = places_for
    have sub: "?P off \<subseteq> ?P (Suc off)" "?P (Suc off) \<subseteq> ?P (off + length p)" "?P (Suc off) \<subseteq> ?P (off + n)"
      using n by (auto intro!: places_for_mono)
    have "card (?P (Suc off) - ?P off) \<le> card (?P (off + length p) - ?P off)" using sub by (intro card_mono) auto
    then have room: "unat (freeblock s) + card (?P (Suc off) - ?P off) \<le> 1000" using less.prems(5) by simp
    obtain own' di' t where t: "iappend_block k di s = Ret (di', dblk (img t) di' k) t" "grew i own s di (?P (Suc off) - ?P off) own' t di'"
      using iappend_block_ok [OF less.prems(1-3) k_def k room] by blast
    let ?x = "dblk (img t) di' k"
    define v where "v = t\<lparr>img := (img t)(?x := bcopy (img t ?x) (off - k * 512) ?p)\<rparr>"
    have A: "?x < 1000" "appended i own s di off ?p own' v di'"
      using appended_block [OF t(2) less.prems(3) k_def k, of ?p] False n r_def by (auto simp: v_def)
    have lp: "length ?p = n" "off + length p = off + n + length (drop n p)" using n by simp_all
    have v: "blocks_ok v" "slots_ok own' (img v) (freeblock v) i di'" "places (img v) di' = ?P (off + n)"
      "unat (freeblock v) = unat (freeblock s) + card (?P (off + n) - ?P off)"
      using A(2) unfolding appended_def lp(1) by blast+
    have room': "unat (freeblock v) + card (?P (off + n + length (drop n p)) - ?P (off + n)) \<le> 1000"
      using v(4) less.prems(5) card_places_for [of off n "length (drop n p)"] unfolding lp(2) by linarith
    have "length (drop n p) < length p" "off + n + length (drop n p) \<le> 71680" using n less.prems(4) by simp_all
    then obtain own'' di'' u where u: "iappend_loop (off + n) (drop n p) di' v = Ret (off + n + length (drop n p), di'') u"
      "appended i own' v di' (off + n) (drop n p) own'' u di''"
      using less.hyps [OF _ v(1-3) _ room'] by blast
    have "iappend_loop off p di s = Ret (off + length p, di'') u"
      using t(1) u(1) [unfolded v_def] A(1) False k unfolding lp(2)
      by (subst iappend_loop.simps) (simp add: kops mk_apply Let_def BSIZE_def k_def [symmetric] nn)
    moreover have "appended i own s di off (?p @ drop n p) own'' u di''" using appended_trans [OF A(2)] u(2) unfolding lp(1) by blast
    ultimately show ?thesis by auto
  qed
qed

end
