(* ===== verification/Mkfs_Files.thy ===== *)
theory Mkfs_Files
  imports Mkfs_Image Free_Map
begin

unbundle bit_operations_syntax

text \<open>
  The files of the image that mkfs makes: what each of its steps does to the contents
  of the inodes, and the image at the end of the program.
\<close>

subsection \<open>Files\<close>

definition file_bytes :: "(uint \<Rightarrow> bytes) \<Rightarrow> dinode \<Rightarrow> bytes" where
  "file_bytes g di = map (byte_at g di) [0..<unat (d_size di)]"

text \<open>What follows a file in its last block is zero.\<close>

definition zero_tail :: "(uint \<Rightarrow> bytes) \<Rightarrow> dinode \<Rightarrow> nat \<Rightarrow> bool" where
  "zero_tail g di n \<longleftrightarrow> (\<forall>q. n \<le> q \<longrightarrow> q div 512 < 140 \<longrightarrow> byte_at g di q = 0)"

definition file_ok :: "(uint \<Rightarrow> uint \<times> nat) \<Rightarrow> (uint \<Rightarrow> bytes) \<Rightarrow> uint \<Rightarrow> uint \<Rightarrow> dinode \<Rightarrow> bool" where
  "file_ok own g fb i di \<longleftrightarrow> slots_ok own g fb i di \<and> places g di = places_for (unat (d_size di)) \<and> unat (d_size di) \<le> 71680 \<and>
     zero_tail g di (unat (d_size di))"

text \<open>The inodes 0 to 207 are those in the inode blocks of the image.\<close>

definition image_ok :: "(uint \<Rightarrow> uint \<times> nat) \<Rightarrow> mk \<Rightarrow> bool" where
  "image_ok own s \<longleftrightarrow> blocks_ok s \<and> (\<forall>i < 208. file_ok own (img s) (freeblock s) i (inode_of (img s) i))"

lemma dblk_agree:
  assumes "\<And>k. k \<in> places g di \<Longrightarrow> g' (dblk g di k) = g (dblk g di k)"
  shows "dblk g' di k = dblk g di k"
proof (cases "d_addrs di ! 12 = 0")
  case False
  then have "140 \<in> places g di" by (simp add: places_def dblk_def)
  from assms [OF this] show ?thesis by (simp add: dblk_def)
qed (simp add: dblk_def)

lemma dblk_size [simp]: "dblk g (di\<lparr>d_size := n\<rparr>) k = dblk g di k" "places g (di\<lparr>d_size := n\<rparr>) = places g di"
  "slots_ok own g fb i (di\<lparr>d_size := n\<rparr>) = slots_ok own g fb i di" "byte_at g (di\<lparr>d_size := n\<rparr>) q = byte_at g di q"
  by (simp_all add: dblk_def places_def slots_ok_def byte_at_def)

lemma byte_lt: "q < n \<Longrightarrow> n \<le> 71680 \<Longrightarrow> q div 512 < (140 :: nat)"
  by (simp add: less_mult_imp_div_less)

lemma byte_agree:
  assumes "\<And>k. k \<in> places g di \<Longrightarrow> g' (dblk g di k) = g (dblk g di k)" "q div 512 < 140"
  shows "byte_at g' di q = byte_at g di q"
  using assms dblk_agree [of g di g'] by (simp add: byte_at_def places_def)

text \<open>A file whose blocks are left alone.\<close>

lemma file_agree:
  assumes f: "file_ok own g fb i di" and eq: "\<And>k. k \<in> places g di \<Longrightarrow> g' (dblk g di k) = g (dblk g di k)"
    and own: "extends fb own own'" "fb \<le> fb'"
  shows "file_ok own' g' fb' i di" "file_bytes g' di = file_bytes g di"
proof -
  have d: "dblk g' di k = dblk g di k" for k using eq by (rule dblk_agree)
  then have "places g' di = places g di" by (simp add: places_def)
  moreover have "dblk g di k < fb'" "own' (dblk g di k) = own (dblk g di k)" if "k \<in> places g di" for k
    using f own that by (auto simp: file_ok_def slots_ok_def extends_def intro: less_le_trans)
  moreover have bytes: "byte_at g' di q = byte_at g di q" if "q div 512 < 140" for q using eq that by (rule byte_agree)
  ultimately show "file_ok own' g' fb' i di" using f by (simp add: file_ok_def slots_ok_def zero_tail_def d)
  show "file_bytes g' di = file_bytes g di" using f bytes byte_lt by (simp add: file_bytes_def file_ok_def)
qed

lemma file_ok_ge: "file_ok own g fb i di \<Longrightarrow> k \<in> places g di \<Longrightarrow> 59 \<le> dblk g di k"
  by (simp add: file_ok_def slots_ok_def)

lemma file_other:
  assumes "file_ok own g fb j di" "changes own fb i g g'" "j \<noteq> i" "k \<in> places g di"
  shows "g' (dblk g di k) = g (dblk g di k)"
proof (rule ccontr)
  assume n: "g' (dblk g di k) \<noteq> g (dblk g di k)"
  have "dblk g di k < fb" "own (dblk g di k) = (j, k)" using assms(1,4) by (simp_all add: file_ok_def slots_ok_def)
  then show False using assms(2,3) n by (auto simp: changes_def)
qed

subsection \<open>Inodes\<close>

lemma inode_block:
  assumes "i < (208 :: uint)"
  shows "32 \<le> i div 8 + 32" "i div 8 + 32 < 58" "i div 8 + 32 < 1000" "\<not> 59 \<le> i div 8 + 32"
proof -
  have "unat (i div 8) < 26" using assms by (simp add: word_less_nat_alt unat_div less_mult_imp_div_less)
  then have "unat (i div 8 + 32) = unat (i div 8) + 32" by (subst unat_add_lem [THEN iffD1]) simp_all
  then show "32 \<le> i div 8 + 32" "i div 8 + 32 < 58" "i div 8 + 32 < 1000" "\<not> 59 \<le> i div 8 + 32"
    using \<open>unat (i div 8) < 26\<close> by (simp_all add: word_less_nat_alt word_le_nat_alt)
qed

text \<open>A write of an inode.\<close>

lemma winode_ok:
  assumes "blocks_ok s" "i < 208" "length (d_addrs di) = 13"
  shows "\<exists>g. winode i di s = Ret () (s\<lparr>img := g\<rparr>) \<and> blocks_ok (s\<lparr>img := g\<rparr>) \<and> (\<forall>b. b < 32 \<or> 58 \<le> b \<longrightarrow> g b = img s b) \<and>
     (\<forall>j. inode_of g j = (if j = i then di else inode_of (img s) j))"
proof -
  let ?b = "i div 8 + 32"
  let ?g = "(img s)(?b := encode_dinode di (img s ?b) (dslot i))"
  note b = inode_block [OF assms(2)]
  have len: "length (img s ?b) = 512" using assms(1) b(3) by (simp add: blocks_ok_def)
  have "winode i di s = Ret () (s\<lparr>img := ?g\<rparr>)" using b(3) by (simp add: winode_def mk_apply kops Let_def)
  moreover have "blocks_ok (s\<lparr>img := ?g\<rparr>)" using assms(1) b by (auto simp: blocks_ok_def)
  moreover have "?g c = img s c" if "c < 32 \<or> 58 \<le> c" for c using that b by auto
  moreover have "inode_of ?g j = (if j = i then di else inode_of (img s) j)" for j
  proof (cases "j div 8 = i div 8")
    case True
    then have "i mod 8 = j mod 8 \<longleftrightarrow> j = i" by (metis word_mod_div_equality)
    then show ?thesis using True dinode_slots [of di "img s ?b" i j] assms(3) len by (simp add: inode_of_def NDIRECT_def BSIZE_def IPB_def)
  next
    case False
    then show ?thesis by (auto simp: inode_of_def)
  qed
  ultimately show ?thesis by blast
qed

lemma rinode_apply: "i < 208 \<Longrightarrow> rinode i s = Ret (inode_of (img s) i) s"
  using inode_block(3) [of i] by (simp add: rinode_def mk_apply kops Let_def inode_of_def)

text \<open>The kind of an inode: what is neither its size nor its blocks.\<close>

definition kind_of :: "mk \<Rightarrow> uint \<Rightarrow> dinode" where
  "kind_of s i = (inode_of (img s) i)\<lparr>d_size := 0, d_addrs := []\<rparr>"

definition file_of :: "mk \<Rightarrow> uint \<Rightarrow> bytes" where
  "file_of s i = file_bytes (img s) (inode_of (img s) i)"

text \<open>The number of blocks of a file of \<open>n\<close> bytes, its block of addresses included.\<close>

definition blocks_for :: "nat \<Rightarrow> nat" where
  "blocks_for n = (n + 511) div 512 + (if 6144 < n then 1 else 0)"

lemma card_places:
  assumes "n \<le> 71680"
  shows "card (places_for n) = blocks_for n"
proof -
  have "{k. k < 140 \<and> k * 512 < n} = {..<(n + 511) div 512}"
  proof -
    have e: "k < (n + 511) div 512 \<longleftrightarrow> k * 512 < n" for k :: nat
      using less_eq_div_iff_mult_less_eq [of 512 "Suc k" "n + 511"] by auto
    have "k < 140" if "k * 512 < n" for k :: nat using that assms by simp
    then show ?thesis unfolding lessThan_def e by blast
  qed
  moreover have "{k. k = (140 :: nat) \<and> 12 * 512 < n} = (if 6144 < n then {140} else {})" by auto
  moreover have "(n + 511) div 512 \<le> 140" using assms by simp
  ultimately show ?thesis by (simp add: places_for_def blocks_for_def)
qed

lemma card_places_diff:
  assumes "m + n \<le> 71680"
  shows "card (places_for (m + n) - places_for m) = blocks_for (m + n) - blocks_for m" "blocks_for m \<le> blocks_for (m + n)"
  using assms card_mono [OF _ places_for_mono [of m "m + n"]] by (simp_all add: card_Diff_subset places_for_mono card_places)

definition sound :: "mk \<Rightarrow> bool" where
  "sound s \<longleftrightarrow> (\<exists>own. image_ok own s)"

text \<open>Steps on inode \<open>i\<close>: those that set its contents, and those that append to it.\<close>

definition sets_file :: "mk \<Rightarrow> uint \<Rightarrow> bytes \<Rightarrow> mk \<Rightarrow> bool" where
  "sets_file s i d t \<longleftrightarrow> sound t \<and> img t 1 = img s 1 \<and>
     (\<forall>j < 208. file_of t j = (if j = i then d else file_of s j) \<and> (j \<noteq> i \<longrightarrow> kind_of t j = kind_of s j))"

definition grows_file :: "mk \<Rightarrow> uint \<Rightarrow> bytes \<Rightarrow> mk \<Rightarrow> bool" where
  "grows_file s i p t \<longleftrightarrow> sets_file s i (file_of s i @ p) t \<and> kind_of t i = kind_of s i \<and> freeinode t = freeinode s \<and>
     unat (freeblock t) + blocks_for (length (file_of s i)) = unat (freeblock s) + blocks_for (length (file_of s i) + length p)"

lemma grows_file_trans:
  assumes "grows_file s i p t" "grows_file t i p' u" "i < 208"
  shows "grows_file s i (p @ p') u"
proof -
  have "file_of t i = file_of s i @ p" using assms(1,3) by (simp add: grows_file_def sets_file_def)
  then show ?thesis using assms unfolding grows_file_def sets_file_def by (auto simp: add.assoc)
qed

lemma size_file_of: "length (file_of s i) = unat (d_size (inode_of (img s) i))"
  by (simp add: file_of_def file_bytes_def)

lemma winode_image:
  assumes t: "blocks_ok t" "\<And>j. j < 208 \<Longrightarrow> j \<noteq> i \<Longrightarrow> file_ok own (img t) (freeblock t) j (inode_of (img t) j)"
    and di: "file_ok own (img t) (freeblock t) i di" and i: "i < 208"
  shows "\<exists>u. winode i di t = Ret () u \<and> image_ok own u \<and> img u 1 = img t 1 \<and> freeinode u = freeinode t \<and> freeblock u = freeblock t \<and>
     (\<forall>j < 208. inode_of (img u) j = (if j = i then di else inode_of (img t) j) \<and> file_of u j = (if j = i then file_bytes (img t) di else file_of t j))"
proof -
  have "length (d_addrs di) = 13" using di by (simp add: file_ok_def slots_ok_def)
  from winode_ok [OF t(1) i this] obtain g where g: "winode i di t = Ret () (t\<lparr>img := g\<rparr>)" "blocks_ok (t\<lparr>img := g\<rparr>)"
    "\<And>b. b < 32 \<or> 58 \<le> b \<Longrightarrow> g b = img t b" "\<And>j. inode_of g j = (if j = i then di else inode_of (img t) j)" by metis
  have w: "file_ok own g (freeblock t) j d" "file_bytes g d = file_bytes (img t) d" if f: "file_ok own (img t) (freeblock t) j d" for j d
  proof -
    have "g (dblk (img t) d k) = img t (dblk (img t) d k)" if "k \<in> places (img t) d" for k
    proof -
      have "58 \<le> dblk (img t) d k" using file_ok_ge [OF f that] by (simp add: word_le_nat_alt)
      then show ?thesis by (simp add: g(3))
    qed
    from file_agree [OF f this, of own "freeblock t"] show "file_ok own g (freeblock t) j d" "file_bytes g d = file_bytes (img t) d"
      by (simp_all add: extends_def)
  qed
  have "image_ok own (t\<lparr>img := g\<rparr>)" using g(2,4) w(1) t(2) di by (auto simp: image_ok_def)
  moreover have "file_of (t\<lparr>img := g\<rparr>) j = (if j = i then file_bytes (img t) di else file_of t j)" if "j < 208" for j
    using w(2) [OF di] w(2) [OF t(2) [OF that]] by (simp add: file_of_def g(4))
  ultimately show ?thesis using g by (intro exI [of _ "t\<lparr>img := g\<rparr>"]) simp
qed

lemma appended_contents:
  assumes "appended i own s di (unat (d_size di)) p own' t di'" "unat (d_size di) + length p \<le> 71680" "zero_tail (img s) di (unat (d_size di))"
  defines "di2 \<equiv> di'\<lparr>d_size := of_nat (unat (d_size di) + length p)\<rparr>"
  shows "file_bytes (img t) di2 = file_bytes (img s) di @ p" "file_ok own' (img t) (freeblock t) i di2"
    "di2\<lparr>d_size := 0, d_addrs := []\<rparr> = di\<lparr>d_size := 0, d_addrs := []\<rparr>"
proof -
  have n: "unat (d_size di2) = unat (d_size di) + length p"
    using assms(2) unfolding di2_def by (simp add: unat_of_nat del: of_nat_add)
  have d: "byte_at (img t) di2 q = byte_at (img t) di' q" "places (img t) di2 = places (img t) di'"
    "slots_ok own' (img t) (freeblock t) i di2 = slots_ok own' (img t) (freeblock t) i di'" for q
    by (simp_all add: di2_def)
  show "file_bytes (img t) di2 = file_bytes (img s) di @ p"
  proof (rule nth_equalityI)
    fix q assume "q < length (file_bytes (img t) di2)"
    then have q: "q < unat (d_size di) + length p" by (simp add: file_bytes_def n)
    then have "q div 512 < 140" using assms(2) byte_lt by blast
    then show "file_bytes (img t) di2 ! q = (file_bytes (img s) di @ p) ! q"
      using assms(1) q by (auto simp: file_bytes_def n d nth_append appended_def)
  qed (simp add: file_bytes_def n)
  show "file_ok own' (img t) (freeblock t) i di2" using assms(1-3) by (simp add: file_ok_def zero_tail_def n d appended_def)
  have "di'\<lparr>d_addrs := d_addrs di\<rparr> = di" using assms(1) by (simp add: appended_def)
  then show "di2\<lparr>d_size := 0, d_addrs := []\<rparr> = di\<lparr>d_size := 0, d_addrs := []\<rparr>" unfolding di2_def by (cases di', cases di) auto
qed

lemma iappend_ok:
  assumes "sound s" and i: "i < 208" and len: "length (file_of s i) + length p \<le> 71680"
    and room: "unat (freeblock s) + blocks_for (length (file_of s i) + length p) \<le> 1000 + blocks_for (length (file_of s i))"
  shows "\<exists>t. iappend i p s = Ret () t \<and> grows_file s i p t"
proof -
  obtain own where s: "image_ok own s" using assms(1) by (auto simp: sound_def)
  define di where "di = inode_of (img s) i"
  define off where "off = unat (d_size di)"
  have off: "length (file_of s i) = off" by (simp add: size_file_of off_def di_def)
  have f: "file_ok own (img s) (freeblock s) i di" "blocks_ok s" using s i by (simp_all add: image_ok_def di_def)
  then have fo: "slots_ok own (img s) (freeblock s) i di" "places (img s) di = places_for off" by (simp_all add: file_ok_def off_def)
  note C = card_places_diff [OF len [unfolded off]]
  have room': "unat (freeblock s) + card (places_for (off + length p) - places_for off) \<le> 1000"
    unfolding C(1) using room C(2) by (simp add: off)
  obtain own' di' t where t: "iappend_loop off p di s = Ret (off + length p, di') t" "appended i own s di off p own' t di'"
    using iappend_loop_ok [OF f(2) fo len [unfolded off] room'] by blast
  let ?di = "di'\<lparr>d_size := of_nat (off + length p)\<rparr>"
  have "zero_tail (img s) di (unat (d_size di))" using f(1) by (simp add: file_ok_def)
  note A = appended_contents [OF t(2) [unfolded off_def] len [unfolded off, unfolded off_def] this, folded off_def]
  have ch: "changes own (freeblock s) i (img s) (img t)" "extends (freeblock s) own own'" "freeblock s \<le> freeblock t"
    "unat (freeblock t) = unat (freeblock s) + card (places_for (off + length p) - places_for off)" "freeinode t = freeinode s" "blocks_ok t"
    using t(2) by (auto simp: appended_def word_le_nat_alt)
  have low: "img t b = img s b" if "b < 59" for b using ch(1) that by (auto simp: changes_def)
  have in_of: "inode_of (img t) j = inode_of (img s) j" if "j < 208" for j
    using inode_block(4) [OF that] by (simp add: inode_of_def low not_le)
  have others: "file_ok own' (img t) (freeblock t) j (inode_of (img t) j)" "file_of t j = file_of s j" if j: "j < 208" "j \<noteq> i" for j
  proof -
    have fj: "file_ok own (img s) (freeblock s) j (inode_of (img s) j)" using s j(1) by (simp add: image_ok_def)
    from file_agree [OF fj file_other [OF fj ch(1) j(2)] ch(2,3)]
    show "file_ok own' (img t) (freeblock t) j (inode_of (img t) j)" "file_of t j = file_of s j" by (simp_all add: in_of [OF j(1)] file_of_def)
  qed
  from winode_image [OF ch(6) others(1) A(2) i] obtain u where u: "winode i ?di t = Ret () u" "image_ok own' u" "img u 1 = img t 1"
    "freeinode u = freeinode t" "freeblock u = freeblock t"
    "\<And>j. j < 208 \<Longrightarrow> inode_of (img u) j = (if j = i then ?di else inode_of (img t) j)"
    "\<And>j. j < 208 \<Longrightarrow> file_of u j = (if j = i then file_bytes (img t) ?di else file_of t j)" by metis
  have "iappend i p s = Ret () u" using t(1) u(1) by (simp add: iappend_def rinode_apply [OF i] kops di_def [symmetric] off_def [symmetric])
  moreover have "sets_file s i (file_of s i @ p) u"
    using u(2,3,7) low [of 1] others(2) A(1) u(6) in_of unfolding sets_file_def sound_def by (auto simp: file_of_def di_def kind_of_def)
  moreover have "kind_of u i = kind_of s i" using A(3) u(6) [OF i] by (simp add: kind_of_def di_def)
  moreover have "unat (freeblock u) + blocks_for off = unat (freeblock s) + blocks_for (off + length p)"
    using u(5) ch(4) C by simp
  ultimately show ?thesis using u(4) ch(5) off by (auto simp: grows_file_def)
qed

lemma add_pieces_ok:
  assumes "sound s" "i < 208" "length (file_of s i) + length d \<le> 71680"
    "unat (freeblock s) + blocks_for (length (file_of s i) + length d) \<le> 1000 + blocks_for (length (file_of s i))"
  shows "\<exists>t. add_pieces i d s = Ret () t \<and> grows_file s i d t"
  using assms
proof (induction "length d" arbitrary: d s rule: less_induct)
  case less
  show ?case
  proof (cases "d = []")
    case True
    then show ?thesis using less.prems(1) by (subst add_pieces.simps) (auto simp: kops grows_file_def sets_file_def)
  next
    case False
    let ?p = "take 512 d" and ?q = "drop 512 d" and ?l = "length (file_of s i)"
    have l: "length d = length ?p + length ?q" by simp
    have le: "?l + length ?p + length ?q \<le> 71680" using less.prems(3) by simp
    note B = card_places_diff(2) [OF le]
    have "unat (freeblock s) + blocks_for (?l + length ?p) \<le> 1000 + blocks_for ?l"
      using less.prems(4) B unfolding l add.assoc by linarith
    then obtain t where t: "iappend i ?p s = Ret () t" "grows_file s i ?p t"
      using iappend_ok [OF less.prems(1,2), of ?p] le by auto
    then have f: "file_of t i = file_of s i @ ?p" "sound t"
      "unat (freeblock t) + blocks_for ?l = unat (freeblock s) + blocks_for (?l + length ?p)"
      using less.prems(2) by (simp_all add: grows_file_def sets_file_def)
    have "unat (freeblock t) + blocks_for (?l + length ?p + length ?q) \<le> 1000 + blocks_for (?l + length ?p)"
      using less.prems(4) f(3) unfolding l add.assoc by linarith
    then obtain u where "add_pieces i ?q t = Ret () u" "grows_file t i ?q u"
      using less.hyps [of ?q t] f(1,2) less.prems(2) le False by (auto simp: add.assoc)
    then show ?thesis using False t grows_file_trans [OF t(2) _ less.prems(2), of ?q u]
      by (subst add_pieces.simps) (auto simp: kops BSIZE_def)
  qed
qed

lemma mk_ialloc_ok:
  assumes "sound s" "freeinode s < 208"
  shows "\<exists>t. mk_ialloc ty s = Ret (freeinode s) t \<and> sets_file s (freeinode s) [] t \<and> freeinode t = freeinode s + 1 \<and> freeblock t = freeblock s \<and>
     kind_of t (freeinode s) = \<lparr>d_type = ty, d_major = 0, d_minor = 0, d_nlink = 1, d_size = 0, d_addrs = []\<rparr>"
proof -
  obtain own where own: "image_ok own s" using assms(1) by (auto simp: sound_def)
  let ?i = "freeinode s" and ?s = "s\<lparr>freeinode := freeinode s + 1\<rparr>"
  let ?di = "\<lparr>d_type = ty, d_major = 0, d_minor = 0, d_nlink = 1, d_size = 0, d_addrs = replicate 13 0\<rparr>"
  have z: "dblk (img s) ?di k = 0" for k by (simp add: dblk_def nth_replicate)
  have "file_ok own (img ?s) (freeblock ?s) ?i ?di"
    by (simp add: file_ok_def slots_ok_def places_def zero_tail_def byte_at_def z places_for_def)
  moreover have "blocks_ok ?s" "\<And>j. j < 208 \<Longrightarrow> file_ok own (img ?s) (freeblock ?s) j (inode_of (img ?s) j)"
    using own by (auto simp: image_ok_def blocks_ok_def)
  ultimately obtain u where u: "winode ?i ?di ?s = Ret () u" "image_ok own u" "img u 1 = img ?s 1" "freeinode u = freeinode ?s" "freeblock u = freeblock ?s"
    "\<And>j. j < 208 \<Longrightarrow> inode_of (img u) j = (if j = ?i then ?di else inode_of (img ?s) j)"
    "\<And>j. j < 208 \<Longrightarrow> file_of u j = (if j = ?i then file_bytes (img ?s) ?di else file_of ?s j)"
    using winode_image [of ?s ?i own ?di] assms(2) by metis
  have "mk_ialloc ty s = Ret ?i u" using u(1) by (simp add: mk_ialloc_def kops NDIRECT_def numeral_eq_Suc)
  moreover have "file_bytes (img s) ?di = []" by (simp add: file_bytes_def)
  moreover have "file_of ?s j = file_of s j" for j by (simp add: file_of_def)
  ultimately show ?thesis using u(2-7) assms(2) by (auto simp: sets_file_def sound_def kind_of_def)
qed

end
