(* ===== verification/Mkfs_Program.thy ===== *)
theory Mkfs_Program
  imports Mkfs_Files
begin

unbundle bit_operations_syntax

text \<open>
  The image at the end of mkfs: every file with its contents, the root directory with
  an entry for each file, the super block, and a free map that marks exactly the blocks
  in use, each of which belongs to one place of one file.
\<close>

subsection \<open>One file\<close>

lemma length_mk_dirent: "length nm = 14 \<Longrightarrow> length (mk_dirent i nm) = 16"
  by (simp add: mk_dirent_def DIRSIZ_def DESZ_def)

definition stored_name :: "bytes \<Rightarrow> bytes" where
  "stored_name name = (if name \<noteq> [] \<and> hd name = of_char CHR ''_'' then tl name else name)"

definition new_inode :: "ushort \<Rightarrow> dinode" where
  "new_inode ty = \<lparr>d_type = ty, d_major = 0, d_minor = 0, d_nlink = 1, d_size = 0, d_addrs = []\<rparr>"

lemma blocks_for_0 [simp]: "blocks_for 0 = 0"
  by (simp add: blocks_for_def)

lemma add_file_ok:
  assumes s: "sound s" "freeinode s = i" "i < 208" "i \<noteq> 1" and name: "of_char CHR ''/'' \<notin> set name" and d: "length d \<le> 71680"
    and dir: "length (file_of s 1) + 16 \<le> 71680"
    and room: "unat (freeblock s) + blocks_for (length (file_of s 1) + 16) + blocks_for (length d) \<le> 1000 + blocks_for (length (file_of s 1))"
  shows "\<exists>t. add_file 1 (name, d) s = Ret () t \<and> sound t \<and> img t 1 = img s 1 \<and> freeinode t = i + 1 \<and>
     file_of t 1 = file_of s 1 @ mk_dirent i (strncpy_b DIRSIZ (stored_name name)) \<and> kind_of t 1 = kind_of s 1 \<and>
     file_of t i = d \<and> kind_of t i = new_inode T_FILE \<and> (\<forall>j < 208. j \<noteq> 1 \<longrightarrow> j \<noteq> i \<longrightarrow> file_of t j = file_of s j \<and> kind_of t j = kind_of s j) \<and>
     unat (freeblock t) + blocks_for (length (file_of s 1)) = unat (freeblock s) + blocks_for (length (file_of s 1) + 16) + blocks_for (length d)"
proof -
  let ?e = "mk_dirent i (strncpy_b DIRSIZ (stored_name name))"
  have e: "length ?e = 16" by (simp add: length_mk_dirent DIRSIZ_def)
  obtain a where a: "mk_ialloc T_FILE s = Ret i a" "sets_file s i [] a" "freeinode a = i + 1" "freeblock a = freeblock s" "kind_of a i = new_inode T_FILE"
    using mk_ialloc_ok [OF s(1)] s(2,3) by (auto simp: new_inode_def)
  then have a': "sound a" "file_of a 1 = file_of s 1" "file_of a i = []" using s by (simp_all add: sets_file_def)
  obtain b where b: "iappend 1 ?e a = Ret () b" "grows_file a 1 ?e b"
    using iappend_ok [OF a'(1), of 1 ?e] a'(2) a(4) e dir room by auto
  then have b': "sound b" "file_of b i = []"
    "unat (freeblock b) + blocks_for (length (file_of s 1)) = unat (freeblock s) + blocks_for (length (file_of s 1) + 16)"
    using a'(2,3) a(4) e s(3,4) by (simp_all add: grows_file_def sets_file_def)
  obtain c where c: "add_pieces i d b = Ret () c" "grows_file b i d c"
    using add_pieces_ok [OF b'(1) s(3), of d] b'(2,3) d room by auto
  have "add_file 1 (name, d) s = Ret () c"
    using a(1) b(1) c(1) name by (simp add: add_file_def kops stored_name_def Let_def)
  then show ?thesis
    using a a'(2) b(2) b'(2,3) c(2) s(3,4) unfolding grows_file_def sets_file_def by (intro exI [of _ c]) auto
qed

subsection \<open>All files\<close>

text \<open>The entries of the root directory.\<close>

definition root_entries :: "(bytes \<times> bytes) list \<Rightarrow> dirent list" where
  "root_entries files =
     \<lparr>de_inum = 1, de_name = strncpy_b DIRSIZ [of_char CHR ''.'']\<rparr> # \<lparr>de_inum = 1, de_name = strncpy_b DIRSIZ [of_char CHR ''.'', of_char CHR ''.'']\<rparr> #
     map (\<lambda>(n, f). \<lparr>de_inum = of_nat n, de_name = strncpy_b DIRSIZ (stored_name (fst f))\<rparr>) (enumerate 2 files)"

definition root_bytes :: "(bytes \<times> bytes) list \<Rightarrow> bytes" where
  "root_bytes files = concat (map encode_dirent (root_entries files))"

text \<open>The blocks that an image with these files takes.\<close>

definition blocks_of :: "(bytes \<times> bytes) list \<Rightarrow> nat" where
  "blocks_of files = 59 + blocks_for (16 * (2 + length files)) + (\<Sum>f\<leftarrow>files. blocks_for (length (snd f)))"

definition image_fits :: "(bytes \<times> bytes) list \<Rightarrow> bool" where
  "image_fits files \<longleftrightarrow> length files \<le> 198 \<and> (\<forall>f \<in> set files. of_char CHR ''/'' \<notin> set (fst f) \<and> length (snd f) \<le> 71680) \<and> blocks_of files \<le> 1000"

definition holds :: "bytes \<Rightarrow> (bytes \<times> bytes) list \<Rightarrow> mk \<Rightarrow> bool" where
  "holds b files s \<longleftrightarrow> sound s \<and> img s 1 = b \<and> freeinode s = of_nat (2 + length files) \<and> unat (freeblock s) = blocks_of files \<and>
     file_of s 1 = root_bytes files \<and> kind_of s 1 = new_inode T_DIR \<and>
     (\<forall>n < length files. file_of s (of_nat (n + 2)) = snd (files ! n) \<and> kind_of s (of_nat (n + 2)) = new_inode T_FILE)"

lemma root_bytes_snoc:
  "root_bytes (files @ [f]) = root_bytes files @ encode_dirent \<lparr>de_inum = of_nat (2 + length files), de_name = strncpy_b DIRSIZ (stored_name (fst f))\<rparr>"
  by (simp add: root_bytes_def root_entries_def enumerate_append_eq)

lemma length_root_bytes: "length (root_bytes files) = 16 * (2 + length files)"
proof (induction files rule: rev_induct)
  case Nil
  show ?case by (simp add: root_bytes_def root_entries_def DIRSIZ_def DESZ_def)
next
  case (snoc f files)
  then show ?case by (simp add: root_bytes_snoc DIRSIZ_def DESZ_def)
qed

lemma blocks_for_mono: "m \<le> n \<Longrightarrow> blocks_for m \<le> blocks_for n"
  by (simp add: blocks_for_def div_le_mono add_mono)

lemma of_nat_less_208:
  assumes "n < 208"
  shows "(of_nat n :: uint) < 208" "(ucast (of_nat n :: uint) :: ushort) = of_nat n" "unat (of_nat n :: uint) = n"
proof -
  show u: "unat (of_nat n :: uint) = n" using assms by (simp add: unat_of_nat)
  show "(of_nat n :: uint) < 208" using assms by (simp add: word_less_nat_alt u)
  show "(ucast (of_nat n :: uint) :: ushort) = of_nat n" using assms by (simp add: word_unat_eq_iff unsigned_ucast_eq u unat_of_nat take_bit_nat_eq_self_iff)
qed

lemma of_nat_inj_208: "m < 208 \<Longrightarrow> n < 208 \<Longrightarrow> (of_nat m :: uint) = of_nat n \<longleftrightarrow> m = n"
  by (metis of_nat_less_208(3))

lemma holds_snoc:
  assumes h: "holds b files s" and f: "image_fits (files @ [f])"
  shows "\<exists>t. add_file 1 f s = Ret () t \<and> holds b (files @ [f]) t"
proof -
  obtain name d where nd: "f = (name, d)" by (cases f)
  let ?i = "of_nat (2 + length files) :: uint"
  have n: "2 + length files < 208" using f by (simp add: image_fits_def)
  have l: "length (file_of s 1) = 16 * (2 + length files)" using h by (simp add: holds_def length_root_bytes)
  have "unat (freeblock s) + blocks_for (length (file_of s 1) + 16) + blocks_for (length d) \<le> 1000 + blocks_for (length (file_of s 1))"
    using h f unfolding holds_def l image_fits_def blocks_of_def nd by (simp add: algebra_simps)
  moreover have "length (file_of s 1) + 16 \<le> 71680" using n l by simp
  moreover have "?i \<noteq> 1" using of_nat_inj_208 [OF n, of 1] by simp
  moreover have "sound s" "freeinode s = ?i" using h by (simp_all add: holds_def)
  ultimately obtain t where t: "add_file 1 (name, d) s = Ret () t" "sound t" "img t 1 = img s 1" "freeinode t = ?i + 1"
    "file_of t 1 = file_of s 1 @ mk_dirent ?i (strncpy_b DIRSIZ (stored_name name))" "kind_of t 1 = kind_of s 1"
    "file_of t ?i = d" "kind_of t ?i = new_inode T_FILE" "\<And>j. j < 208 \<Longrightarrow> j \<noteq> 1 \<Longrightarrow> j \<noteq> ?i \<Longrightarrow> file_of t j = file_of s j \<and> kind_of t j = kind_of s j"
    "unat (freeblock t) + blocks_for (length (file_of s 1)) = unat (freeblock s) + blocks_for (length (file_of s 1) + 16) + blocks_for (length d)"
    using add_file_ok [of s ?i name d] of_nat_less_208(1) [OF n] f unfolding image_fits_def nd by auto
  have "file_of t 1 = root_bytes (files @ [f])"
    using h t(5) of_nat_less_208(2) [OF n] by (simp add: holds_def root_bytes_snoc mk_dirent_def nd)
  moreover have "unat (freeblock t) = blocks_of (files @ [f])" using h t(10) unfolding holds_def l blocks_of_def nd by (simp add: algebra_simps)
  moreover have "file_of t (of_nat (k + 2)) = snd ((files @ [f]) ! k) \<and> kind_of t (of_nat (k + 2)) = new_inode T_FILE" if k: "k < length (files @ [f])" for k
  proof (cases "k = length files")
    case True
    then show ?thesis using t(7,8) by (simp add: nd add.commute)
  next
    case False
    then have k': "k < length files" "k + 2 < 208" using k n by simp_all
    have "(of_nat (k + 2) :: uint) \<noteq> ?i" "(of_nat (k + 2) :: uint) \<noteq> 1"
      using of_nat_inj_208 [OF k'(2) n] of_nat_inj_208 [OF k'(2), of 1] k' by simp_all
    then show ?thesis using t(9) [OF of_nat_less_208(1) [OF k'(2)]] h k'(1) by (simp add: holds_def nth_append)
  qed
  ultimately have "holds b (files @ [f]) t" using h t(2-4,6) by (simp add: holds_def)
  then show ?thesis using t(1) nd by blast
qed

lemma image_fits_prefix: "image_fits (xs @ ys) \<Longrightarrow> image_fits xs"
  using blocks_for_mono [of "16 * (2 + length xs)" "16 * (2 + length (xs @ ys))"] by (auto simp: image_fits_def blocks_of_def)

lemma add_files_ok: "holds b xs s \<Longrightarrow> image_fits (xs @ ys) \<Longrightarrow> \<exists>t. for_each ys (add_file 1) s = Ret () t \<and> holds b (xs @ ys) t"
proof (induction ys arbitrary: xs s)
  case (Cons f ys)
  obtain t where t: "add_file 1 f s = Ret () t" "holds b (xs @ [f]) t" using holds_snoc [OF Cons.prems(1), of f] image_fits_prefix [of "xs @ [f]" ys] Cons.prems(2) by auto
  then show ?case using Cons.IH [OF t(2)] Cons.prems(2) by (auto simp: kops)
qed (simp add: kops)

subsection \<open>Begin and finish\<close>

lemma zero_sectors:
  "n \<le> 1000 \<Longrightarrow> for_each [0..<n] (\<lambda>i. wsect (of_nat i) z) s = Ret () (s\<lparr>img := (\<lambda>b. if unat b < n then z else img s b)\<rparr>)"
proof (induction n)
  case (Suc n)
  have "unat (of_nat n :: uint) = n" using Suc.prems by (simp add: unat_of_nat)
  then have "(\<lambda>b. if unat b < n then z else img s b)(of_nat n := z) = (\<lambda>b. if unat b < Suc n then z else img s b)"
    by (auto simp: fun_eq_iff less_Suc_eq)
  then show ?case using Suc by (simp add: for_each_append kops mk_apply)
qed (simp add: kops)

lemma zero_inode: "k + 64 \<le> 512 \<Longrightarrow>
  decode_dinode (replicate 512 0) k = \<lparr>d_type = 0, d_major = 0, d_minor = 0, d_nlink = 0, d_size = 0, d_addrs = replicate 13 0\<rparr>"
  by (simp add: decode_dinode_def get16_def get32_zero list_eq_iff_nth_eq)

lemma empty_image:
  assumes g: "\<And>b. b < 1000 \<Longrightarrow> b \<noteq> 1 \<Longrightarrow> img s b = replicate 512 0" "length (img s 1) = 512" and f: "freeblock s = 59"
  shows "sound s" "j < 208 \<Longrightarrow> file_of s j = []"
proof -
  let ?z = "\<lparr>d_type = 0, d_major = 0, d_minor = 0, d_nlink = 0, d_size = 0, d_addrs = replicate 13 0\<rparr> :: dinode"
  have i: "inode_of (img s) j = ?z" if "j < 208" for j
  proof -
    have "j div 8 + 32 \<noteq> 1"
    proof
      assume e: "j div 8 + 32 = 1"
      show False using inode_block(1) [OF that] unfolding e by (simp add: word_le_nat_alt)
    qed
    then have "img s (j div 8 + 32) = replicate 512 0" by (rule g(1) [OF inode_block(3) [OF that]])
    moreover have "dslot j + 64 \<le> 512" using word_mod_less_divisor [of "8 :: uint" j] by (simp add: dslot_def IPB_def word_less_nat_alt)
    ultimately show ?thesis by (simp add: inode_of_def zero_inode)
  qed
  then show "j < 208 \<Longrightarrow> file_of s j = []" by (simp add: file_of_def file_bytes_def)
  have z: "dblk (img s) ?z k = 0" for k by (simp add: dblk_def nth_replicate)
  have "file_ok own (img s) 59 j ?z" for own j by (simp add: file_ok_def slots_ok_def places_def zero_tail_def byte_at_def z places_for_def)
  moreover have "length (img s b) = 512" if "b < 1000" for b using g that by (cases "b = 1") auto
  moreover have "img s b = replicate 512 0" if "59 \<le> b" "b < 1000" for b
    using g(1) [OF that(2)] that(1) by (cases "b = 1") (simp_all add: word_le_nat_alt)
  ultimately show "sound s" using i f by (auto simp: sound_def image_ok_def blocks_ok_def)
qed

lemma strncpy_dots:
  assumes "c \<noteq> 0"
  shows "strncpy_b 14 [c] = c # replicate 13 0" "strncpy_b 14 [c, c] = c # c # replicate 12 0"
  using assms by (simp_all add: hd0_def numeral_eq_Suc)

lemma dots:
  "mk_dirent 1 (of_char CHR ''.'' # replicate (DIRSIZ - 1) 0) @ mk_dirent 1 (of_char CHR ''.'' # of_char CHR ''.'' # replicate (DIRSIZ - 2) 0) = root_bytes []"
  by (simp add: mk_dirent_def root_bytes_def root_entries_def DIRSIZ_def strncpy_dots)

lemma mk_root_ok:
  assumes s: "sound s" "file_of s 1 = []" "freeblock s = 59" "freeinode s = 1"
  shows "\<exists>t. mk_root s = Ret 1 t \<and> holds (img s 1) [] t"
proof -
  let ?d = "mk_dirent 1 (of_char CHR ''.'' # replicate (DIRSIZ - 1) 0)" and ?dd = "mk_dirent 1 (of_char CHR ''.'' # of_char CHR ''.'' # replicate (DIRSIZ - 2) 0)"
  have len: "length ?d = 16" "length ?dd = 16" by (simp_all add: length_mk_dirent DIRSIZ_def)
  obtain a where a: "mk_ialloc T_DIR s = Ret 1 a" "sets_file s 1 [] a" "freeinode a = 2" "freeblock a = 59" "kind_of a 1 = new_inode T_DIR"
    using mk_ialloc_ok [OF s(1)] s(3,4) by (auto simp: new_inode_def)
  then have a': "sound a" "file_of a 1 = []" "img a 1 = img s 1" by (simp_all add: sets_file_def)
  obtain b where b: "iappend 1 ?d a = Ret () b" "grows_file a 1 ?d b"
    using iappend_ok [OF a'(1), of 1 ?d] a'(2) a(4) len by (auto simp: blocks_for_def)
  then have b': "sound b" "file_of b 1 = ?d" "unat (freeblock b) = 60" "img b 1 = img s 1" "freeinode b = 2" "kind_of b 1 = new_inode T_DIR"
    using a a' len by (simp_all add: grows_file_def sets_file_def blocks_for_def)
  obtain c where c: "iappend 1 ?dd b = Ret () c" "grows_file b 1 ?dd c"
    using iappend_ok [OF b'(1), of 1 ?dd] b'(2,3) len by (auto simp: blocks_for_def)
  have "holds (img s 1) [] c" using b' c(2) len dots by (simp add: holds_def grows_file_def sets_file_def blocks_for_def blocks_of_def)
  moreover have "mk_root s = Ret 1 c" using a(1) b(1) c(1) by (simp add: mk_root_def kops ROOTINO_def)
  ultimately show ?thesis by blast
qed

lemma bit_used_upto:
  assumes "bi < 4096"
  shows "n \<le> 4096 \<Longrightarrow> length (foldl (\<lambda>b i. mark_used i b) (replicate 512 0) [0..<n]) = 512 \<and>
    (bit_used (foldl (\<lambda>b i. mark_used i b) (replicate 512 0) [0..<n]) bi \<longleftrightarrow> bi < n)"
proof (induction n)
  case 0
  have "bi div 8 < 512" using assms by (simp add: less_mult_imp_div_less)
  then show ?case by (simp add: bit_used_iff)
next
  case (Suc n)
  have "n div 8 < 512" using Suc.prems by (simp add: less_mult_imp_div_less)
  then show ?case using Suc by (auto simp: bit_used_mark_used less_Suc_eq)
qed

lemma mk_balloc_ok:
  assumes "n < 4096"
  shows "\<exists>d. mk_balloc n s = Ret () (s\<lparr>img := (img s)(58 := d)\<rparr>) \<and> (\<forall>b < 4096. bit_used d b \<longleftrightarrow> b < n)"
  using assms bit_used_upto [of _ n] by (auto simp: mk_balloc_def BSIZE_def mk_apply mark_used_def)

text \<open>The block at place \<open>k\<close> of inode \<open>i\<close>, 0 when there is none.\<close>

definition block_at :: "mk \<Rightarrow> uint \<Rightarrow> nat \<Rightarrow> uint" where
  "block_at s i k = dblk (img s) (inode_of (img s) i) k"

definition disjoint_blocks :: "mk \<Rightarrow> bool" where
  "disjoint_blocks s \<longleftrightarrow> (\<forall>i < 208. \<forall>k \<le> 140. block_at s i k \<noteq> 0 \<longrightarrow> 59 \<le> block_at s i k \<and> block_at s i k < freeblock s \<and>
     (\<forall>j < 208. \<forall>l \<le> 140. block_at s j l = block_at s i k \<longrightarrow> j = i \<and> l = k))"

lemma sound_disjoint: "sound s \<Longrightarrow> disjoint_blocks s"
proof -
  assume "sound s"
  then obtain own where own: "image_ok own s" by (auto simp: sound_def)
  have own: "59 \<le> block_at s i k \<and> block_at s i k < freeblock s \<and> own (block_at s i k) = (i, k)" if "i < 208" "k \<le> 140" "block_at s i k \<noteq> 0" for i k
    using own that by (simp add: image_ok_def file_ok_def slots_ok_def places_def block_at_def)
  show "disjoint_blocks s" unfolding disjoint_blocks_def using own by (metis prod.inject)
qed

text \<open>Writes outside of the data blocks.\<close>

lemma meta_writes:
  assumes s: "sound s" and g: "\<And>b. 59 \<le> b \<Longrightarrow> img t b = img s b" and fb: "freeblock t = freeblock s"
    and i: "\<And>j. j < 208 \<Longrightarrow> j \<noteq> 1 \<Longrightarrow> inode_of (img t) j = inode_of (img s) j" "inode_of (img t) 1 = (inode_of (img s) 1)\<lparr>d_size := n\<rparr>"
  shows "disjoint_blocks t" "\<And>j. j < 208 \<Longrightarrow> j \<noteq> 1 \<Longrightarrow> file_of t j = file_of s j \<and> kind_of t j = kind_of s j" "kind_of t 1 = kind_of s 1"
    "length (file_of s 1) \<le> unat n \<Longrightarrow> unat n \<le> 71680 \<Longrightarrow> file_of t 1 = file_of s 1 @ replicate (unat n - length (file_of s 1)) 0"
proof -
  obtain own where own: "image_ok own s" using s by (auto simp: sound_def)
  have f: "file_ok own (img s) (freeblock s) j (inode_of (img s) j)" if "j < 208" for j using own that by (simp add: image_ok_def)
  have eq: "img t (dblk (img s) (inode_of (img s) j) k) = img s (dblk (img s) (inode_of (img s) j) k)" if "j < 208" "k \<in> places (img s) (inode_of (img s) j)" for j k
    using g file_ok_ge [OF f [OF that(1)] that(2)] by simp
  have d: "block_at t j k = block_at s j k" if "j < 208" for j k
  proof -
    have "dblk (img t) (inode_of (img s) j) k = dblk (img s) (inode_of (img s) j) k" using eq [OF that] by (rule dblk_agree)
    then show ?thesis using i that by (cases "j = 1") (simp_all add: block_at_def)
  qed
  show "disjoint_blocks t" unfolding disjoint_blocks_def
  proof (intro allI impI)
    fix i k assume ik: "i < 208" "k \<le> 140" "block_at t i k \<noteq> 0"
    have "block_at s i k \<noteq> 0" using ik(3) unfolding d [OF ik(1)] .
    then have "59 \<le> block_at s i k \<and> block_at s i k < freeblock s \<and> (\<forall>j < 208. \<forall>l \<le> 140. block_at s j l = block_at s i k \<longrightarrow> j = i \<and> l = k)"
      using sound_disjoint [OF s] ik(1,2) unfolding disjoint_blocks_def by blast
    then show "59 \<le> block_at t i k \<and> block_at t i k < freeblock t \<and> (\<forall>j < 208. \<forall>l \<le> 140. block_at t j l = block_at t i k \<longrightarrow> j = i \<and> l = k)"
      unfolding d [OF ik(1)] fb using d by metis
  qed
  show "kind_of t 1 = kind_of s 1" using i(2) by (simp add: kind_of_def)
  show "file_of t j = file_of s j \<and> kind_of t j = kind_of s j" if "j < 208" "j \<noteq> 1" for j
    using file_agree(2) [OF f [OF that(1)] eq [OF that(1)], of own "freeblock s"] i(1) [OF that] by (simp add: file_of_def kind_of_def extends_def)
  assume n: "length (file_of s 1) \<le> unat n" "unat n \<le> 71680"
  let ?di = "inode_of (img s) 1"
  have bytes: "byte_at (img t) ?di q = byte_at (img s) ?di q" if "q div 512 < 140" for q
    using byte_agree [of "img s" ?di "img t"] eq [of 1] that by simp
  have z: "zero_tail (img s) ?di (unat (d_size ?di))" using f [of 1] by (simp add: file_ok_def)
  show "file_of t 1 = file_of s 1 @ replicate (unat n - length (file_of s 1)) 0"
  proof (rule nth_equalityI)
    fix q assume "q < length (file_of t 1)"
    then have q: "q < unat n" by (simp add: size_file_of i(2))
    then have "q div 512 < 140" using n(2) byte_lt by blast
    then show "file_of t 1 ! q = (file_of s 1 @ replicate (unat n - length (file_of s 1)) 0) ! q"
      using q n z bytes [of q] by (auto simp: file_of_def file_bytes_def i(2) nth_append zero_tail_def)
  qed (use n in \<open>simp add: size_file_of i(2)\<close>)
qed

lemma mk_finish_ok:
  assumes h: "holds b files s" and f: "image_fits files"
  shows "\<exists>t. mk_finish 1 s = Ret () t \<and> img t 1 = b \<and> disjoint_blocks t \<and> unat (freeblock t) = blocks_of files \<and>
     (\<forall>n < 1000. bit_used (img t 58) n \<longleftrightarrow> n < blocks_of files) \<and>
     file_of t 1 = root_bytes files @ replicate (512 - length (root_bytes files) mod 512) 0 \<and> kind_of t 1 = new_inode T_DIR \<and>
     (\<forall>n < length files. file_of t (of_nat (n + 2)) = snd (files ! n) \<and> kind_of t (of_nat (n + 2)) = new_inode T_FILE)"
proof -
  let ?di = "inode_of (img s) 1" and ?l = "length (root_bytes files)"
  define n where "n = (?l div 512 + 1) * 512"
  have l: "length (file_of s 1) = ?l" "?l \<le> 3200" using h f by (simp_all add: holds_def length_root_bytes image_fits_def)
  have n: "n \<le> 71680" "?l \<le> n" "n - ?l = 512 - ?l mod 512"
  proof -
    have e: "m \<le> (a + 1) * 512 \<and> (a + 1) * 512 - m = 512 - r" if "m = a * 512 + r" "r < 512" for m a r :: nat using that by auto
    have "?l = ?l div 512 * 512 + ?l mod 512" "?l mod 512 < 512" by simp_all
    from e [OF this] show "?l \<le> n" "n - ?l = 512 - ?l mod 512" unfolding n_def by simp_all
    have "?l div 512 \<le> 3200 div 512" using l(2) by (rule div_le_mono)
    then show "n \<le> 71680" unfolding n_def by simp
  qed
  have u: "unat (of_nat n :: uint) = n" using n(1) by (simp add: unat_of_nat)
  have s: "sound s" "blocks_ok s" using h by (auto simp: holds_def sound_def image_ok_def)
  have w: "length (d_addrs (?di\<lparr>d_size := of_nat n\<rparr>)) = 13" "(1 :: uint) < 208" by (simp_all add: inode_of_def NDIRECT_def)
  obtain g where g: "winode 1 (?di\<lparr>d_size := of_nat n\<rparr>) s = Ret () (s\<lparr>img := g\<rparr>)" "\<And>c. c < 32 \<or> 58 \<le> c \<Longrightarrow> g c = img s c"
    "\<And>j. inode_of g j = (if j = 1 then ?di\<lparr>d_size := of_nat n\<rparr> else inode_of (img s) j)"
    using winode_ok [OF s(2) w(2,1)] by blast
  have fb: "unat (freeblock s) = blocks_of files" "blocks_of files < 4096" using h f by (simp_all add: holds_def image_fits_def)
  obtain d where d: "mk_balloc (blocks_of files) (s\<lparr>img := g\<rparr>) = Ret () (s\<lparr>img := g(58 := d)\<rparr>)" "\<And>c. c < 4096 \<Longrightarrow> bit_used d c \<longleftrightarrow> c < blocks_of files"
    using mk_balloc_ok [OF fb(2), of "s\<lparr>img := g\<rparr>"] by auto
  let ?t = "s\<lparr>img := g(58 := d)\<rparr>"
  have run: "mk_finish 1 s = Ret () ?t"
    using g(1) d(1) fb(1) l(1) by (simp add: mk_finish_def rinode_apply kops Let_def size_file_of BSIZE_def n_def)
  have hi: "img ?t c = img s c" if "59 \<le> c" for c
  proof -
    have "c \<noteq> 58" "58 \<le> c" using that by (auto simp: word_le_nat_alt)
    then show ?thesis by (simp add: g(2))
  qed
  have ino: "inode_of (img ?t) j = inode_of g j" if "j < 208" for j using inode_block(2) [OF that] by (auto simp: inode_of_def)
  have "inode_of (img ?t) j = inode_of (img s) j" if "j < 208" "j \<noteq> 1" for j using ino [OF that(1)] g(3) that(2) by simp
  moreover have "inode_of (img ?t) 1 = ?di\<lparr>d_size := of_nat n\<rparr>" using ino [OF w(2)] g(3) by simp
  ultimately have M: "disjoint_blocks ?t" "\<And>j. j < 208 \<Longrightarrow> j \<noteq> 1 \<Longrightarrow> file_of ?t j = file_of s j \<and> kind_of ?t j = kind_of s j" "kind_of ?t 1 = kind_of s 1"
    "file_of ?t 1 = file_of s 1 @ replicate (n - ?l) 0"
    using meta_writes [OF s(1) hi, of "of_nat n"] n(1,2) unfolding u l(1) by simp_all
  have "file_of ?t (of_nat (k + 2)) = snd (files ! k) \<and> kind_of ?t (of_nat (k + 2)) = new_inode T_FILE" if k: "k < length files" for k
  proof -
    have k': "k + 2 < 208" using k f by (simp add: image_fits_def)
    have "(of_nat (k + 2) :: uint) \<noteq> 1" using of_nat_inj_208 [OF k', of 1] by simp
    then show ?thesis using M(2) [OF of_nat_less_208(1) [OF k']] h k by (simp add: holds_def)
  qed
  moreover have "img ?t 1 = b" using h g(2) [of 1] by (simp add: holds_def)
  ultimately show ?thesis using run M(1,3,4) fb d(2) h n(3) by (intro exI [of _ ?t]) (simp add: holds_def)
qed

subsection \<open>The image\<close>

text \<open>
  C31. mkfs builds the file system it is asked for. With at most 198 files, none with a slash in its name or larger than
  a file can be, that together fit on the disk, the program ends without a failed assertion.
  The super block on the image is the layout it computed; inode \<open>n + 2\<close> is a regular file with the contents of file
  \<open>n\<close>; inode 1 is the root directory with the entries \<open>.\<close>, \<open>..\<close> and one for each file, without
  a leading underscore and cut to 14 bytes, followed by free entries up to the end of the block; every block of
  a file lies in the data area, is marked in use and belongs to one place of one file only;
  and the free map marks exactly the blocks below \<open>freeblock\<close>, of which there are as many as
  the files need.\<close>

theorem mkfs_builds_image:
  assumes "image_fits files" "freeinode s = 1"
  shows "\<exists>t. mk_main files s = Ret () t \<and> decode_sb (img t 1) = mk_sb \<and>
     (\<forall>n < length files. file_of t (of_nat (n + 2)) = snd (files ! n) \<and> kind_of t (of_nat (n + 2)) = new_inode T_FILE) \<and>
     file_of t ROOTINO = root_bytes files @ replicate (512 - length (root_bytes files) mod 512) 0 \<and> kind_of t ROOTINO = new_inode T_DIR \<and>
     disjoint_blocks t \<and> unat (freeblock t) = blocks_of files \<and>
     (\<forall>n < FSSIZE. bit_used (img t (sb_bmapstart mk_sb)) n \<longleftrightarrow> n < blocks_of files)"
proof -
  let ?b = "encode_sb mk_sb (replicate 512 0)"
  let ?s = "s\<lparr>freeblock := 59, img := (\<lambda>b. if unat b < 1000 then replicate 512 0 else img s b)(1 := ?b)\<rparr>"
  have z: "for_each [0..<1000] (\<lambda>i. wsect (of_nat i) (replicate 512 0)) (s\<lparr>freeblock := 59\<rparr>) =
    Ret () (s\<lparr>freeblock := 59, img := (\<lambda>b. if unat b < 1000 then replicate 512 0 else img s b)\<rparr>)"
    by (simp only: zero_sectors) (simp cong: if_cong)
  have "length ?b = 512" by (simp add: encode_sb_def)
  then have e: "sound ?s" "file_of ?s 1 = []" by (auto intro!: empty_image simp: word_less_nat_alt)
  from mk_root_ok [OF e] obtain t where t: "mk_root ?s = Ret 1 t" "holds ?b [] t" using assms(2) by auto
  from add_files_ok [OF t(2), of files] obtain u where u: "for_each files (add_file 1) t = Ret () u" "holds ?b files u" using assms(1) by auto
  from mk_finish_ok [OF u(2) assms(1)] obtain v where v: "mk_finish 1 u = Ret () v" "img v 1 = ?b" "disjoint_blocks v" "unat (freeblock v) = blocks_of files"
    "\<forall>n < 1000. bit_used (img v 58) n \<longleftrightarrow> n < blocks_of files"
    "file_of v 1 = root_bytes files @ replicate (512 - length (root_bytes files) mod 512) 0" "kind_of v 1 = new_inode T_DIR"
    "\<forall>n < length files. file_of v (of_nat (n + 2)) = snd (files ! n) \<and> kind_of v (of_nat (n + 2)) = new_inode T_FILE" by blast
  have "mk_main files s = Ret () v"
    using z t(1) u(1) v(1) by (simp add: mk_main_def kops mk_apply FSSIZE_def BSIZE_def)
  moreover have "decode_sb (img v 1) = mk_sb" using v(2) by (simp add: decode_encode_sb)
  ultimately show ?thesis using v(3-8) by (intro exI [of _ v]) (simp add: ROOTINO_def FSSIZE_def)
qed

theorem mkfs_builds_image_witness:
  "\<exists>t. mk_main [([95, 108, 115], [1, 2, 3]), ([82], [])] \<lparr>img = (\<lambda>_. []), freeinode = 1, freeblock = 0\<rparr> = Ret () t \<and>
     file_of t 2 = [1, 2, 3] \<and> kind_of t 2 = new_inode T_FILE \<and> file_of t 3 = [] \<and>
     (\<forall>n < 1000. bit_used (img t 58) n \<longleftrightarrow> n < 61)"
proof -
  let ?f = "[([95, 108, 115], [1, 2, 3]), ([82], [])] :: (bytes \<times> bytes) list"
  have b: "blocks_of ?f = 61" by (simp add: blocks_of_def blocks_for_def)
  then have "image_fits ?f" by (simp add: image_fits_def)
  from mkfs_builds_image [OF this, of "\<lparr>img = (\<lambda>_. []), freeinode = 1, freeblock = 0\<rparr>"] obtain t where
    t: "mk_main ?f \<lparr>img = (\<lambda>_. []), freeinode = 1, freeblock = 0\<rparr> = Ret () t"
    "\<forall>n < length ?f. file_of t (of_nat (n + 2)) = snd (?f ! n) \<and> kind_of t (of_nat (n + 2)) = new_inode T_FILE"
    "\<forall>n < FSSIZE. bit_used (img t (sb_bmapstart mk_sb)) n \<longleftrightarrow> n < blocks_of ?f" by auto
  have "file_of t 2 = [1, 2, 3]" "kind_of t 2 = new_inode T_FILE" "file_of t 3 = []"
    using t(2) [rule_format, of 0] t(2) [rule_format, of 1] by simp_all
  then show ?thesis using t(1,3) b by (auto simp: FSSIZE_def)
qed

end
