(* ===== verification/Spec2Isabelle.thy ===== *)
theory Spec2Isabelle
  imports Block_Array Console_Input Scheduling Free_Map Text_Programs Ide Pipe_Queue Process_Life Log_Capacity Shell_Roundtrip Umalloc Mkfs_Program
begin

text \<open>
  \<^bold>\<open>A verification of the xv6 kernel with FRR and FCFS scheduling.\<close>

  The program is the teaching kernel xv6 for the x86, with two scheduling policies
  and accounting of execution times added to it, and its user programs. File names
  below are relative to \<open>src/\<close>.

  \<^bold>\<open>How the program is modelled.\<close> An operation of the kernel is a function from the
  machine's state to an outcome (\<open>Prelude\<close>): \<open>Ret x s\<close> when the C function returns,
  \<open>Panic\<close> when it calls \<open>panic\<close>, \<open>Switch s\<close> when the process gives up the CPU in the
  middle (\<open>sched\<close>), and \<open>Wild\<close> for what C leaves undefined, such as an index out
  of bounds or a null pointer. The rest of a function after a switch is a definition of
  its own with the suffix \<open>_resume\<close>. The state is a chain of records, one extension
  per component, so that a component's functions apply to every larger state:
  \<open>kcore\<close> (locks, processes), \<open>kmem\<close>, \<open>cons\<close>, \<open>vm\<close>, \<open>bcache\<close>, \<open>log\<close>, \<open>fs\<close>, \<open>files\<close>,
  \<open>kern\<close>, \<open>machine\<close>. Integers that can wrap are 32-bit words, pids and other counters
  that C declares as \<open>int\<close> are integers. \<open>ok m s Q\<close> says that \<open>m\<close> returns from \<open>s\<close> with
  \<open>Q\<close>; \<open>upon m s Q\<close> that \<open>Q\<close> holds if it returns.

  \<^bold>\<open>Theories and sources.\<close>
  \<^item> \<open>Params\<close>, \<open>Layout\<close>, \<open>Memory\<close>: param.h, mmu.h, memlayout.h, fs.h, stat.h; byte
    memory with little-endian words, string.c and the string routines of ulib.c.
  \<^item> \<open>Spinlock\<close>: spinlock.c on several CPUs, each with its own program counter; the
    interleavings are the paths of a step relation. \<open>Kcore\<close>: what the rest uses of it (a list of held
    locks, justified by \<open>lock_simulation\<close>), sleeplock.c, and sched, sleep, wakeup of proc.c.
  \<^item> \<open>Kalloc\<close>: kalloc.c. \<open>Vm\<close>, \<open>Address_Space\<close>: vm.c. \<open>Ring\<close>: the ring buffers of
    console and pipes. \<open>Console\<close>, \<open>Console_Input\<close>, \<open>Kbd\<close>: console.c, kbd.c, uart.c.
  \<^item> \<open>Bio\<close>, \<open>Block_Ops\<close>: bio.c over the memory disk of memide.c. \<open>Ide\<close>: ide.c over a
    controller that is a parameter.
  \<^item> \<open>Log\<close>, \<open>Recovery\<close>, \<open>Crash_Safety\<close>, \<open>Transaction\<close>, \<open>Block_Array\<close>, \<open>Log_Capacity\<close>: log.c.
  \<^item> \<open>Fs\<close>, \<open>Fs_Format\<close>, \<open>Free_Map\<close>: fs.c and the formats of fs.h. \<open>File\<close>,
    \<open>Pipe_Queue\<close>: file.c, pipe.c. \<open>Proc\<close>, \<open>Process_Life\<close>: proc.c. \<open>Exec\<close>: exec.c. \<open>Sysfile\<close>:
    sysfile.c. \<open>Syscall\<close>: syscall.c, sysproc.c. \<open>Trap\<close>: trap.c.
  \<^item> \<open>Discipline\<close>, \<open>Lower_Discipline\<close>, \<open>Fs_Discipline\<close>, \<open>Kernel_Discipline\<close>: the lock and
    process-table invariants of every function above. \<open>Scheduling\<close>: the scheduler
    and the policies.
  \<^item> \<open>User\<close>, \<open>Programs\<close>, \<open>Text_Programs\<close>: printf.c, ulib.c and the user programs; a program is
    a function of the kernel's replies to its system calls.
  \<^item> \<open>Shell\<close>, \<open>Shell_Parser\<close>, \<open>Shell_Roundtrip\<close>: sh.c. \<open>Umalloc\<close>: umalloc.c.
  \<^item> \<open>Mkfs\<close>, \<open>Mkfs_Image\<close>, \<open>Mkfs_Files\<close>, \<open>Mkfs_Program\<close>: mkfs.c, the program that makes the
    disk image; its helper lemmas go from one block of a file to one file and to the program.

  \<^bold>\<open>What is shown.\<close>
  \<^item> Locks: mutual exclusion in every interleaving, and that the list of held
    locks is a faithful view of spinlock.c. Every trap, and every continuation of a
    function that waited, ends with no lock held and the process table consistent, or
    with exactly the table's lock when it switches.
  \<^item> Storage: the cache never shows anything but the disk with its own changes;
    a transaction is atomic across a crash after any of its disk writes, recovery included,
    and is on the disk once \<open>end_op\<close> returns; how many blocks the
    admitted operations can log; the IDE driver serves its queue in order, with the
    effect of the memory disk. The block allocator, the formats of inodes and
    directory entries and the walk along a path are related to their abstract views.
  \<^item> Memory: pages are conserved, neither lost nor handed out twice; memmove,
    safestrcpy and gets stay in their buffers.
  \<^item> Input and output: console input refines an editable line, pipes are bounded queues, and
    printed numbers read back.
  \<^item> Processes: what fork copies, wait reaps and kill marks; where the
    bookkeeping of execution times is in bounds; no starvation under each policy, the
    length of a quantum under FRR, and that FCFS takes no account of creation times.
  \<^item> Programs: grep prints the matching lines of the language of its pattern, wc counts;
    the shell's parser ends on every line and reads back every command it can represent;
    malloc and free keep a sorted list of disjoint blocks and conserve the heap;
    mkfs builds the file system it is asked for, with the layout that \<open>Fs\<close> reads.

  \<^bold>\<open>Interfaces.\<close> Locales state what one component relies on from another, and each
  is interpreted on the model's own definitions: the ring buffers of console
  and pipes share \<open>ring\<close>, and the disk, the cache and the log are three levels of an
  array of blocks in \<open>Block_Array\<close>.

  \<^bold>\<open>Bounds and fuel.\<close> Loops over tables recurse over the table. Loops over
  addresses have fuel for the whole address space, \<open>2 ^ 20\<close> pages or \<open>2 ^ 32\<close> bytes,
  and give \<open>Wild\<close> when it is used up. The scheduler's idle loop is cut off after a
  number of entries that the liveness theorems give. User programs recurse on the
  replies that are left, each of which a system call consumes. The shell's parser has
  fuel for the length of the line plus three, which \<open>parser_total\<close> shows to be enough. The loops
  over the free list of \<open>Umalloc\<close> are partial functions, shown to end on a heap in order.

  \<^bold>\<open>Not modelled.\<close> Assembly (bootasm.S, entry.S, entryother.S, initcode.S, swtch.S,
  trapasm.S, usys.S) and the generated vectors.S: registers and the switch of stacks are
  represented by \<open>Switch\<close> and the continuations. The set-up of the interrupt controllers
  and of further processors (lapic.c, ioapic.c, picirq.c, mp.c, main.c, bootmain.c)
  is input and output to devices. The test program usertests.c is a script of
  system calls whose outcome the kernel decides. Above the spin locks the kernel is modelled
  on one CPU, with interrupts only where a process gives up the CPU.
\<close>

end
